(* ===== verification/Js_Values.thy ===== *)
theory Js_Values
  imports Duck_Prelude Complex_Main
begin

text \<open>
  JSON values as the sources handle them: numbers are the finite rationals plus the special
  values of a JavaScript \<^verbatim>\<open>number\<close>, objects keep insertion order and an absent property is
  absent from the list.  \<open>json_compact\<close> and \<open>json_pretty\<close> model \<^verbatim>\<open>JSON.stringify\<close> with
  and without an indent, \<open>js_string\<close> models \<^verbatim>\<open>String(x)\<close>.  The digits of a non-integral
  number are the argument \<open>fmt\<close>.
\<close>

section \<open>Values\<close>

datatype jsnum = Fin rat | Neg_Zero | Pos_Inf | Neg_Inf | Not_A_Number

datatype json =
    JNull
  | JBool bool
  | JNum jsnum
  | JStr string
  | JArr "json list"
  | JObj "(string \<times> json) list"

fun is_finite :: "jsnum \<Rightarrow> bool" where
  "is_finite (Fin q) = True"
| "is_finite Neg_Zero = True"
| "is_finite _ = False"

fun is_integer :: "jsnum \<Rightarrow> bool" where
  "is_integer (Fin q) = (of_int \<lfloor>q\<rfloor> = q)"
| "is_integer Neg_Zero = True"
| "is_integer _ = False"

definition js_max_safe :: int where
  "js_max_safe = 9007199254740991"

fun is_safe_integer :: "jsnum \<Rightarrow> bool" where
  "is_safe_integer (Fin q) = (of_int \<lfloor>q\<rfloor> = q \<and> \<bar>\<lfloor>q\<rfloor>\<bar> \<le> js_max_safe)"
| "is_safe_integer Neg_Zero = True"
| "is_safe_integer _ = False"

fun jnum_text :: "(rat \<Rightarrow> string) \<Rightarrow> jsnum \<Rightarrow> string" where
  "jnum_text fmt (Fin q) = (if of_int \<lfloor>q\<rfloor> = q \<and> \<bar>\<lfloor>q\<rfloor>\<bar> < 10 ^ 21 then show_int \<lfloor>q\<rfloor> else fmt q)"
| "jnum_text fmt Neg_Zero = ''0''"
| "jnum_text fmt Pos_Inf = ''Infinity''"
| "jnum_text fmt Neg_Inf = ''-Infinity''"
| "jnum_text fmt Not_A_Number = ''NaN''"

section \<open>JSON text\<close>

definition hex_char :: "nat \<Rightarrow> char" where
  "hex_char d = (if d < 10 then digit_char d else char_of (87 + d))"

definition escape_char :: "char \<Rightarrow> string" where
  "escape_char c =
     (let n = (of_char c :: nat) in
      if n = 34 then [CHR 0x5C, CHR 0x22]
      else if n = 92 then [CHR 0x5C, CHR 0x5C]
      else if n = 8 then [CHR 0x5C, CHR ''b'']
      else if n = 9 then [CHR 0x5C, CHR ''t'']
      else if n = 10 then [CHR 0x5C, CHR ''n'']
      else if n = 12 then [CHR 0x5C, CHR ''f'']
      else if n = 13 then [CHR 0x5C, CHR ''r'']
      else if n < 32 then [CHR 0x5C, CHR ''u'', CHR ''0'', CHR ''0'', hex_char (n div 16), hex_char (n mod 16)]
      else [c])"

definition json_quote :: "string \<Rightarrow> string" where
  "json_quote s = [CHR 0x22] @ concat (map escape_char s) @ [CHR 0x22]"

definition jnum_json :: "(rat \<Rightarrow> string) \<Rightarrow> jsnum \<Rightarrow> string" where
  "jnum_json fmt x = (if is_finite x then jnum_text fmt x else ''null'')"

fun json_compact :: "(rat \<Rightarrow> string) \<Rightarrow> json \<Rightarrow> string" where
  "json_compact fmt JNull = ''null''"
| "json_compact fmt (JBool b) = (if b then ''true'' else ''false'')"
| "json_compact fmt (JNum x) = jnum_json fmt x"
| "json_compact fmt (JStr s) = json_quote s"
| "json_compact fmt (JArr xs) = ''['' @ join_with '','' (map (json_compact fmt) xs) @ '']''"
| "json_compact fmt (JObj ps) =
     ''{'' @ join_with '','' (map (\<lambda>p. json_quote (fst p) @ '':'' @ json_compact fmt (snd p)) ps) @ ''}''"

definition indent_line :: "nat \<Rightarrow> string" where
  "indent_line level = newline # replicate (2 * level) (CHR '' '')"

fun json_pretty :: "(rat \<Rightarrow> string) \<Rightarrow> nat \<Rightarrow> json \<Rightarrow> string" where
  "json_pretty fmt l JNull = ''null''"
| "json_pretty fmt l (JBool b) = (if b then ''true'' else ''false'')"
| "json_pretty fmt l (JNum x) = jnum_json fmt x"
| "json_pretty fmt l (JStr s) = json_quote s"
| "json_pretty fmt l (JArr xs) =
     (if xs = [] then ''[]''
      else ''['' @ join_with '','' (map (\<lambda>x. indent_line (Suc l) @ json_pretty fmt (Suc l) x) xs)
           @ indent_line l @ '']'')"
| "json_pretty fmt l (JObj ps) =
     (if ps = [] then ''{}''
      else ''{'' @ join_with '','' (map (\<lambda>p. indent_line (Suc l) @ json_quote (fst p) @ '': '' @
             json_pretty fmt (Suc l) (snd p)) ps) @ indent_line l @ ''}'')"

text \<open>\<^verbatim>\<open>String(x)\<close>: array elements join with commas, \<^verbatim>\<open>null\<close> elements print empty.\<close>

fun js_string :: "(rat \<Rightarrow> string) \<Rightarrow> json \<Rightarrow> string" where
  "js_string fmt JNull = ''null''"
| "js_string fmt (JBool b) = (if b then ''true'' else ''false'')"
| "js_string fmt (JNum x) = jnum_text fmt x"
| "js_string fmt (JStr s) = s"
| "js_string fmt (JArr xs) =
     join_with '','' (map (\<lambda>x. if x = JNull then [] else js_string fmt x) xs)"
| "js_string fmt (JObj ps) = ''[object Object]''"

text \<open>Structural equality of JSON values, key order ignored, as \<^verbatim>\<open>deepEqualJson\<close> of the replay.\<close>

definition jnum_eq :: "jsnum \<Rightarrow> jsnum \<Rightarrow> bool" where
  "jnum_eq x y \<longleftrightarrow>
     (x \<noteq> Not_A_Number \<and> y \<noteq> Not_A_Number \<and>
      (if x = Neg_Zero then Fin 0 else x) = (if y = Neg_Zero then Fin 0 else y))"

lemma jnum_eq_refl: "x \<noteq> Not_A_Number \<Longrightarrow> jnum_eq x x"
  by (simp add: jnum_eq_def)

lemma escape_no_newline: "newline \<notin> set (escape_char c)"
proof -
  have "hex_char d \<noteq> newline" if "d < 16" for d
  proof -
    have "of_char (hex_char d) \<noteq> (10 :: nat)" using that by (auto simp: hex_char_def digit_char_def)
    moreover have "of_char newline = (10 :: nat)" by (simp add: newline_def)
    ultimately show ?thesis by metis
  qed
  note h = this
  have "(of_char c :: nat) div 16 < 16"
    using nat_of_char_less_256 [of c] by (simp add: less_mult_imp_div_less)
  then have "newline \<noteq> hex_char ((of_char c :: nat) div 16)" "newline \<noteq> hex_char ((of_char c :: nat) mod 16)"
    using h by (metis mod_less_divisor zero_less_numeral)+
  then show ?thesis
    by (auto simp: escape_char_def Let_def newline_def)
qed

lemma json_quote_no_newline: "newline \<notin> set (json_quote s)"
  using escape_no_newline by (auto simp: json_quote_def newline_def)

section \<open>JSON text of a string\<close>

definition plain_char :: "char \<Rightarrow> bool" where
  "plain_char c \<longleftrightarrow> (of_char c :: nat) \<ge> 32 \<and> (of_char c :: nat) \<noteq> 34 \<and> (of_char c :: nat) \<noteq> 92"

lemma escape_plain: "plain_char c \<Longrightarrow> escape_char c = [c]"
  by (simp add: plain_char_def escape_char_def)

lemma hex_char_inj: "a < 16 \<Longrightarrow> b < 16 \<Longrightarrow> hex_char a = hex_char b \<Longrightarrow> a = b"
proof -
  assume ab: "a < 16" "b < 16" "hex_char a = hex_char b"
  have "(of_char (hex_char x) :: nat) = (if x < 10 then 48 + x else 87 + x)" if "x < 16" for x
    using that by (auto simp: hex_char_def digit_char_def)
  then have "(if a < 10 then 48 + a else 87 + a) = (if b < 10 then 48 + b else 87 + b)"
    using ab by metis
  then show "a = b" using ab by (auto split: if_splits)
qed

definition escape_code :: "char \<Rightarrow> string" where
  "escape_code c = tl (escape_char c)"

lemma escape_special: "\<not> plain_char c \<Longrightarrow> escape_char c = CHR 0x5C # escape_code c"
  by (auto simp: plain_char_def escape_char_def escape_code_def Let_def)

definition short_escape :: "char \<Rightarrow> bool" where
  "short_escape c \<longleftrightarrow> (of_char c :: nat) \<in> {34, 92, 8, 9, 10, 12, 13}"

fun short_code :: "nat \<Rightarrow> char" where
  "short_code n = (if n = 34 then CHR 0x22 else if n = 92 then CHR 0x5C else if n = 8 then CHR ''b''
     else if n = 9 then CHR ''t'' else if n = 10 then CHR ''n'' else if n = 12 then CHR ''f'' else CHR ''r'')"

lemma escape_code_short: "short_escape c \<Longrightarrow> escape_code c = [short_code (of_char c)]"
  by (auto simp: short_escape_def escape_code_def escape_char_def Let_def)

lemma escape_code_long:
  "\<not> plain_char c \<Longrightarrow> \<not> short_escape c \<Longrightarrow>
    escape_code c = CHR ''u'' # CHR ''0'' # CHR ''0'' # [hex_char (of_char c div 16), hex_char (of_char c mod 16)]"
  by (auto simp: short_escape_def escape_code_def escape_char_def plain_char_def Let_def)

lemma short_code_not_u: "short_code n \<noteq> CHR ''u''"
  by simp

lemma short_code_inj: "m \<in> {34, 92, 8, 9, 10, 12, 13} \<Longrightarrow> n \<in> {34, 92, 8, 9, 10, 12, 13} \<Longrightarrow>
  short_code m = short_code n \<Longrightarrow> m = n"
  by (elim insertE emptyE) simp_all

lemma escape_code_prefix:
  assumes "\<not> plain_char c" and "\<not> plain_char d" and "escape_code c @ s = escape_code d @ t"
  shows "c = d \<and> s = t"
proof -
  have eq: "(of_char c :: nat) = of_char d \<Longrightarrow> c = d" by (metis of_char_eq_iff)
  have m: "(of_char c :: nat) div 16 < 16" "(of_char d :: nat) div 16 < 16"
    using nat_of_char_less_256 by (simp_all add: less_mult_imp_div_less)
  consider "short_escape c" "short_escape d" | "short_escape c" "\<not> short_escape d"
    | "\<not> short_escape c" "short_escape d" | "\<not> short_escape c" "\<not> short_escape d" by blast
  then show ?thesis
  proof cases
    case 1
    then have "short_code (of_char c) = short_code (of_char d)" "s = t"
      using assms(3) by (simp_all only: escape_code_short append.simps list.inject)
    then show ?thesis using short_code_inj [of "of_char c" "of_char d"] eq 1 by (simp only: short_escape_def)
  next
    case 2
    then have "short_code (of_char c) # s = CHR ''u'' # tl (escape_code d) @ t"
      using assms(3) escape_code_long [OF assms(2)] by (simp only: escape_code_short append.simps list.sel not_False_eq_True)
    then show ?thesis by (simp only: list.inject short_code_not_u simp_thms)
  next
    case 3
    then have "CHR ''u'' # tl (escape_code c) @ s = short_code (of_char d) # t"
      using assms(3) escape_code_long [OF assms(1)] by (simp only: escape_code_short append.simps list.sel not_False_eq_True)
    then show ?thesis by (simp only: list.inject short_code_not_u [symmetric] not_sym [OF short_code_not_u] simp_thms)
  next
    case 4
    then have "hex_char (of_char c div 16) = hex_char (of_char d div 16)"
        "hex_char (of_char c mod 16) = hex_char (of_char d mod 16)" "s = t"
      using assms(3) escape_code_long [OF assms(1) 4(1)] escape_code_long [OF assms(2) 4(2)]
      by (simp_all only: append.simps list.inject)
    then have "(of_char c :: nat) div 16 = of_char d div 16" "(of_char c :: nat) mod 16 = of_char d mod 16" "s = t"
      using m hex_char_inj by auto
    then show ?thesis using eq by (metis div_mult_mod_eq)
  qed
qed

lemma escape_prefix: "escape_char c @ s = escape_char d @ t \<Longrightarrow> c = d \<and> s = t"
proof -
  have p: "plain_char x \<Longrightarrow> x \<noteq> CHR 0x5C" for x by (auto simp: plain_char_def)
  show "escape_char c @ s = escape_char d @ t \<Longrightarrow> c = d \<and> s = t"
    using p escape_code_prefix [of c d s t]
    by (cases "plain_char c"; cases "plain_char d") (auto simp: escape_plain escape_special)
qed

lemma escape_head: "hd (escape_char c) \<noteq> CHR 0x22"
  by (cases "plain_char c") (auto simp: escape_plain escape_special, auto simp: plain_char_def)

lemma escapes_inj: "concat (map escape_char s) @ CHR 0x22 # r = concat (map escape_char t) @ CHR 0x22 # r' \<Longrightarrow>
  s = t \<and> r = r'"
proof (induction s arbitrary: t)
  case Nil
  then show ?case
    using escape_head [of "hd t"] by (cases t; cases "escape_char (hd t)") (auto simp: escape_char_def Let_def split: if_splits)
next
  case (Cons c s)
  show ?case
  proof (cases t)
    case Nil
    then show ?thesis using Cons.prems escape_head [of c]
      by (cases "escape_char c") (auto simp: escape_char_def Let_def split: if_splits)
  next
    case (Cons d t')
    with Cons.prems escape_prefix [of c _ d] have "c = d" "concat (map escape_char s) @ CHR 0x22 # r =
        concat (map escape_char t') @ CHR 0x22 # r'" by fastforce+
    then show ?thesis using Cons.IH Cons by simp
  qed
qed

lemma json_quote_inj: "json_quote s = json_quote t \<longleftrightarrow> s = t"
  using escapes_inj [of s "[]" t "[]"] by (auto simp: json_quote_def)

section \<open>JSON texts are record lines\<close>

lemma show_nat_no_newline: "newline \<notin> set (show_nat n)"
  using show_nat_digits [of n] by (auto simp: is_digit_def newline_def)

lemma join_no_char: "x \<notin> set sep \<Longrightarrow> \<forall>p \<in> set ps. x \<notin> set p \<Longrightarrow> x \<notin> set (join_with sep ps)"
  by (induction sep ps rule: join_with.induct) auto

lemma jnum_no_newline: "\<forall>q. newline \<notin> set (fmt q) \<Longrightarrow> newline \<notin> set (jnum_json fmt x)"
  using show_nat_no_newline by (cases x) (auto simp: jnum_json_def show_int_def newline_def)

lemma json_compact_no_newline:
  "\<forall>q. newline \<notin> set (fmt q) \<Longrightarrow> newline \<notin> set (json_compact fmt v)"
proof (induction fmt v rule: json_compact.induct)
  case (5 fmt xs)
  then have "newline \<notin> set (join_with '','' (map (json_compact fmt) xs))"
    by (intro join_no_char) (auto simp: newline_def)
  then show ?case by (simp add: newline_def)
next
  case (6 fmt ps)
  have "newline \<notin> set (join_with '','' (map (\<lambda>p. json_quote (fst p) @ '':'' @ json_compact fmt (snd p)) ps))"
    using 6 json_quote_no_newline by (intro join_no_char) (auto simp: newline_def)
  then show ?case by (simp add: newline_def)
qed (use jnum_no_newline json_quote_no_newline in \<open>auto simp: newline_def\<close>)

text \<open>The digits of a non-integral number: one line, not blank.\<close>

definition digits_ok :: "(rat \<Rightarrow> string) \<Rightarrow> bool" where
  "digits_ok fmt \<longleftrightarrow> (\<forall>q. record_line (fmt q))"

lemma show_nat_not_blank: "\<not> blank (show_nat n)"
proof -
  have "hd (show_nat n) \<in> set (show_nat n)" by simp
  moreover have "\<not> is_space c" if "is_digit c" for c
    using that by (auto simp: is_digit_def is_space_def Let_def)
  ultimately show ?thesis using show_nat_digits [of n] unfolding blank_iff by blast
qed

lemma json_record_line: "digits_ok fmt \<Longrightarrow> record_line (json_compact fmt v)"
proof -
  assume fmt: "digits_ok fmt"
  have "\<not> is_space (CHR 0x22)" "\<not> is_space (CHR ''['')" "\<not> is_space (CHR ''{'')" "\<not> is_space (CHR ''t'')"
    "\<not> is_space (CHR ''f'')" "\<not> is_space (CHR ''n'')" "\<not> is_space (CHR ''-'')" "\<not> is_space (CHR ''0'')"
    by (simp_all add: is_space_def)
  note visible = this
  have "\<not> blank (jnum_json fmt x)" for x
    using fmt visible show_nat_not_blank
    by (cases x) (auto simp: jnum_json_def show_int_def digits_ok_def record_line_def blank_iff)
  then have "\<not> blank (json_compact fmt v)"
    using visible by (cases v) (auto simp: blank_iff json_quote_def)
  moreover have "\<forall>q. newline \<notin> set (fmt q)" using fmt by (simp add: digits_ok_def record_line_def)
  ultimately show ?thesis using json_compact_no_newline by (simp add: record_line_def)
qed

end
