(* ===== verification/Roles.thy ===== *)
theory Roles
  imports Duck_Prelude
begin

text \<open>
  The grant model of \<^verbatim>\<open>src/auth/roles.ts\<close>: roles and the actions they carry, the
  namespace scope of a token, per-table grants, the raw-SQL policy with its defaults, the
  streaming row cap and the memory-cap statement.  A decision is a value: allowed, or denied
  with the reason token and the message the code builds.
\<close>

section \<open>Roles, actions and principals\<close>

datatype role = Admin | Writer | Analyst | Uploader

datatype table_grant = Grant_Read | Grant_Write | Grant_Rw

datatype direction = Read | Write

datatype resource_action =
  Tables_Read | Tables_Write | Files_Read | Files_Upload | Sql_Read | Sql_Write

datatype denial_reason =
  Role_Denied | Table_Grant | Namespace_Scope | Expired | Sql_Flag | Sql_Cap | Row_Policy

datatype grant_decision = Allowed | Denied denial_reason string

record sql_policy =
  sql_read :: "bool option"
  sql_write :: "bool option"
  sql_maxRows :: "int option"
  sql_maxMemoryBytes :: "int option"
  sql_timeoutMs :: "int option"

record principal =
  pr_name :: string
  pr_authenticated :: bool
  pr_namespaces :: "string list option"
  pr_roles :: "role list option"
  pr_tableGrants :: "(string \<times> table_grant) list option"
  pr_sql :: "sql_policy option"

record resolved_sql_policy =
  rs_read :: bool
  rs_write :: bool
  rs_timeoutMs :: int
  rs_maxRows :: int
  rs_maxMemoryBytes :: int

datatype raw_sql_authorization = Sql_Allowed resolved_sql_policy | Sql_Denied denial_reason string

fun role_grants :: "role \<Rightarrow> resource_action list" where
  "role_grants Admin = [Tables_Read, Tables_Write, Files_Read, Files_Upload, Sql_Read, Sql_Write]"
| "role_grants Writer = [Tables_Read, Tables_Write, Sql_Read, Sql_Write]"
| "role_grants Analyst = [Tables_Read, Files_Read, Sql_Read, Sql_Write]"
| "role_grants Uploader = [Tables_Read, Files_Read, Files_Upload]"

definition sql_default_timeoutMs :: int where "sql_default_timeoutMs = 10000"
definition sql_default_maxRows :: int where "sql_default_maxRows = 10000"
definition sql_default_maxMemoryBytes :: int where
  "sql_default_maxMemoryBytes = 256 * 1024 * 1024"

text \<open>The two template literals \<^verbatim>\<open>`tables.${operation}`\<close> and \<^verbatim>\<open>`sql.${direction}`\<close>.\<close>

fun tables_action :: "direction \<Rightarrow> resource_action" where
  "tables_action Read = Tables_Read"
| "tables_action Write = Tables_Write"

fun sql_action :: "direction \<Rightarrow> resource_action" where
  "sql_action Read = Sql_Read"
| "sql_action Write = Sql_Write"

fun action_name :: "resource_action \<Rightarrow> string" where
  "action_name Tables_Read = ''tables.read''"
| "action_name Tables_Write = ''tables.write''"
| "action_name Files_Read = ''files.read''"
| "action_name Files_Upload = ''files.upload''"
| "action_name Sql_Read = ''sql.read''"
| "action_name Sql_Write = ''sql.write''"

fun direction_name :: "direction \<Rightarrow> string" where
  "direction_name Read = ''read''"
| "direction_name Write = ''write''"

section \<open>Decisions\<close>

definition quoted :: "string \<Rightarrow> string" where
  "quoted s = CHR 0x27 # s @ [CHR 0x27]"

definition effective_roles :: "principal \<Rightarrow> role list" where
  "effective_roles p = (case pr_roles p of None \<Rightarrow> [Admin] | Some rs \<Rightarrow> rs)"

definition namespace_decision :: "principal option \<Rightarrow> string \<Rightarrow> grant_decision option" where
  "namespace_decision po ns =
     (case po of
        None \<Rightarrow> None
      | Some p \<Rightarrow>
          (case pr_namespaces p of
             None \<Rightarrow> None
           | Some nss \<Rightarrow>
               if ns \<in> set nss then None
               else Some (Denied Namespace_Scope
                 (''Forbidden: principal '' @ quoted (pr_name p) @
                  '' has no grant for namespace '' @ quoted ns))))"

definition role_has :: "principal \<Rightarrow> resource_action \<Rightarrow> bool" where
  "role_has p a \<longleftrightarrow> list_ex (\<lambda>r. List.member (role_grants r) a) (effective_roles p)"

definition namespace_scope_denial :: "principal option \<Rightarrow> string \<Rightarrow> (denial_reason \<times> string) option" where
  "namespace_scope_denial po ns =
     (case namespace_decision po ns of
        None \<Rightarrow> None
      | Some Allowed \<Rightarrow> None
      | Some (Denied r m) \<Rightarrow> Some (Namespace_Scope, m))"

definition has_any_role :: "principal \<Rightarrow> role list \<Rightarrow> bool" where
  "has_any_role p rs \<longleftrightarrow> list_ex (\<lambda>r. List.member (effective_roles p) r) rs"

definition lacks_grant :: "principal \<Rightarrow> resource_action \<Rightarrow> string" where
  "lacks_grant p a =
     ''Forbidden: principal '' @ quoted (pr_name p) @ '' lacks grant '' @ quoted (action_name a)"

definition authorize_resource :: "principal option \<Rightarrow> string \<Rightarrow> resource_action \<Rightarrow> grant_decision" where
  "authorize_resource po ns a =
     (case po of
        None \<Rightarrow> Allowed
      | Some p \<Rightarrow>
          (case namespace_decision po ns of
             Some (Denied r m) \<Rightarrow> Denied r m
           | _ \<Rightarrow> if role_has p a then Allowed else Denied Role_Denied (lacks_grant p a)))"

definition grant_permits :: "table_grant option \<Rightarrow> direction \<Rightarrow> bool" where
  "grant_permits g d \<longleftrightarrow>
     g = Some Grant_Rw \<or> g = Some (case d of Read \<Rightarrow> Grant_Read | Write \<Rightarrow> Grant_Write)"

definition authorize_table_access ::
  "principal option \<Rightarrow> string \<Rightarrow> string \<Rightarrow> direction \<Rightarrow> grant_decision" where
  "authorize_table_access po ns table d =
     (case po of
        None \<Rightarrow> Allowed
      | Some p \<Rightarrow>
          (case namespace_decision po ns of
             Some (Denied r m) \<Rightarrow> Denied r m
           | _ \<Rightarrow>
             if List.member (effective_roles p) Admin then Allowed
             else if \<not> role_has p (tables_action d)
               then Denied Role_Denied (lacks_grant p (tables_action d))
             else (case pr_tableGrants p of
                     None \<Rightarrow> Allowed
                   | Some gs \<Rightarrow>
                       if grant_permits (map_of gs table) d then Allowed
                       else Denied Table_Grant
                         (''Forbidden: principal '' @ quoted (pr_name p) @ '' has no '' @
                          direction_name d @ '' grant for table '' @ quoted table))))"

section \<open>Raw SQL\<close>

definition or_else :: "'a option \<Rightarrow> 'a \<Rightarrow> 'a" where
  "or_else x d = (case x of None \<Rightarrow> d | Some v \<Rightarrow> v)"

definition resolve_sql_policy :: "principal \<Rightarrow> resolved_sql_policy" where
  "resolve_sql_policy p =
     (let default_read = list_ex (\<lambda>r. r = Admin \<or> r = Analyst) (effective_roles p);
          sql = pr_sql p
      in \<lparr>rs_read = or_else (Option.bind sql sql_read) default_read,
          rs_write = or_else (Option.bind sql sql_write) False,
          rs_timeoutMs = or_else (Option.bind sql sql_timeoutMs) sql_default_timeoutMs,
          rs_maxRows = or_else (Option.bind sql sql_maxRows) sql_default_maxRows,
          rs_maxMemoryBytes = or_else (Option.bind sql sql_maxMemoryBytes) sql_default_maxMemoryBytes\<rparr>)"

fun policy_flag :: "resolved_sql_policy \<Rightarrow> direction \<Rightarrow> bool" where
  "policy_flag rp Read = rs_read rp"
| "policy_flag rp Write = rs_write rp"

definition authorize_raw_sql :: "principal option \<Rightarrow> string \<Rightarrow> direction \<Rightarrow> raw_sql_authorization" where
  "authorize_raw_sql po ns d =
     (case po of
        None \<Rightarrow> Sql_Allowed
          \<lparr>rs_read = True, rs_write = True, rs_timeoutMs = sql_default_timeoutMs,
           rs_maxRows = sql_default_maxRows, rs_maxMemoryBytes = sql_default_maxMemoryBytes\<rparr>
      | Some p \<Rightarrow>
          (case namespace_decision po ns of
             Some (Denied r m) \<Rightarrow> Sql_Denied r m
           | _ \<Rightarrow>
             if \<not> role_has p (sql_action d)
               then Sql_Denied Role_Denied (lacks_grant p (sql_action d))
             else let rp = resolve_sql_policy p
               in if \<not> policy_flag rp d
                    then Sql_Denied Sql_Flag
                      (''Forbidden: principal '' @ quoted (pr_name p) @ '' has not enabled '' @
                       quoted (action_name (sql_action d)))
                  else Sql_Allowed rp))"

datatype sql_cap_code = Sql_Row_Cap | Sql_Timeout | Sql_Memory_Cap

text \<open>
  The generator \<^verbatim>\<open>streamWithSqlRowCap\<close> as the rows it yields, the error it ends with,
  and the cap notifications it sends; \<open>count\<close> is the generator's local counter.
\<close>

fun stream_from :: "int \<Rightarrow> int \<Rightarrow> 'a list \<Rightarrow> 'a list \<times> sql_cap_code option \<times> sql_cap_code list" where
  "stream_from count maxRows [] = ([], None, [])"
| "stream_from count maxRows (row # rows) =
     (if count \<ge> maxRows then ([], Some Sql_Row_Cap, [Sql_Row_Cap])
      else (case stream_from (count + 1) maxRows rows of
              (ys, err, audits) \<Rightarrow> (row # ys, err, audits)))"

definition stream_with_sql_row_cap ::
  "'a list \<Rightarrow> int \<Rightarrow> 'a list \<times> sql_cap_code option \<times> sql_cap_code list" where
  "stream_with_sql_row_cap rows maxRows = stream_from 0 maxRows rows"

definition max_safe_integer :: int where
  "max_safe_integer = 2 ^ 53 - 1"

definition sql_memory_limit_statement :: "int \<Rightarrow> sql_cap_code + string" where
  "sql_memory_limit_statement n =
     (if \<bar>n\<bar> > max_safe_integer \<or> n \<le> 0 then Inl Sql_Memory_Cap
      else Inr (''SET memory_limit='' @ quoted (show_int n @ ''B'')))"

section \<open>Lemmas\<close>

definition in_scope :: "principal \<Rightarrow> string \<Rightarrow> bool" where
  "in_scope p ns \<longleftrightarrow> (case pr_namespaces p of None \<Rightarrow> True | Some nss \<Rightarrow> ns \<in> set nss)"

lemma namespace_decision_Some [simp]:
  "namespace_decision (Some p) ns =
     (if in_scope p ns then None
      else Some (Denied Namespace_Scope
        (''Forbidden: principal '' @ quoted (pr_name p) @
         '' has no grant for namespace '' @ quoted ns)))"
  by (simp add: namespace_decision_def in_scope_def split: option.split)

lemma namespace_decision_None [simp]: "namespace_decision None ns = None"
  by (simp add: namespace_decision_def)

lemma role_has_iff: "role_has p a \<longleftrightarrow> (\<exists>r \<in> set (effective_roles p). a \<in> set (role_grants r))"
  by (simp add: role_has_def list_ex_iff List.member_iff)

lemma admin_has_all: "a \<in> set (role_grants Admin)"
  by (cases a) auto

lemma authorize_resource_allowed:
  "authorize_resource (Some p) ns a = Allowed \<longleftrightarrow> in_scope p ns \<and> role_has p a"
  by (simp add: authorize_resource_def)

lemma authorize_table_allowed:
  "authorize_table_access (Some p) ns t d = Allowed \<longleftrightarrow>
     in_scope p ns \<and>
     (Admin \<in> set (effective_roles p) \<or>
      role_has p (tables_action d) \<and>
      (case pr_tableGrants p of None \<Rightarrow> True | Some gs \<Rightarrow> grant_permits (map_of gs t) d))"
  by (simp add: authorize_table_access_def List.member_iff split: option.split)

lemma stream_from_spec:
  "stream_from count maxRows rows =
     (take (nat (maxRows - count)) rows,
      if nat (maxRows - count) < length rows then Some Sql_Row_Cap else None,
      if nat (maxRows - count) < length rows then [Sql_Row_Cap] else [])"
proof (induction rows arbitrary: count)
  case (Cons row rows)
  show ?case
  proof (cases "count \<ge> maxRows")
    case False
    then have "nat (maxRows - count) = Suc (nat (maxRows - (count + 1)))" by linarith
    with False Cons show ?thesis by simp
  qed simp
qed simp

section \<open>The read gate of a change feed\<close>

text \<open>
  What the realtime hub asks of authorization: a decision per principal, namespace and table
  that is open without a principal, closed outside the token's namespaces, and stable under
  adding roles.
\<close>

locale read_gate =
  fixes decide :: "'p option \<Rightarrow> string \<Rightarrow> string \<Rightarrow> grant_decision"
    and scoped :: "'p \<Rightarrow> string \<Rightarrow> bool"
  assumes anonymous_open: "decide None ns t = Allowed"
    and out_of_scope: "\<not> scoped p ns \<Longrightarrow> decide (Some p) ns t \<noteq> Allowed"
begin

definition visible :: "'p option \<Rightarrow> string \<Rightarrow> (string \<times> 'c) list \<Rightarrow> (string \<times> 'c) list" where
  "visible po ns cs = filter (\<lambda>(t, _). decide po ns t = Allowed) cs"

lemma visible_anonymous: "visible None ns cs = cs"
  by (induction cs) (auto simp: visible_def anonymous_open)

lemma visible_out_of_scope: "\<not> scoped p ns \<Longrightarrow> visible (Some p) ns cs = []"
  by (auto simp: visible_def filter_empty_conv out_of_scope)

end

interpretation table_read_gate:
  read_gate "\<lambda>po ns t. authorize_table_access po ns t Read" in_scope
  by unfold_locales (simp_all add: authorize_table_allowed authorize_table_access_def)

section \<open>Properties\<close>


text \<open>Raw SQL writes are opt-in.  For a named principal they are allowed exactly when the
  token is in scope, one of its roles carries the SQL write action, and its own policy sets the
  write flag to true; no role turns the flag on by default.\<close>

theorem raw_sql_write_opt_in:
  "(\<exists>rp. authorize_raw_sql (Some p) ns Write = Sql_Allowed rp) \<longleftrightarrow>
     in_scope p ns \<and> (\<exists>r \<in> set (effective_roles p). Sql_Write \<in> set (role_grants r)) \<and>
     (\<exists>s. pr_sql p = Some s \<and> sql_write s = Some True)"
proof -
  have flag: "rs_write (resolve_sql_policy p) \<longleftrightarrow> (\<exists>s. pr_sql p = Some s \<and> sql_write s = Some True)"
    by (cases "pr_sql p") (auto simp: resolve_sql_policy_def or_else_def Let_def split: option.splits)
  show ?thesis
    by (auto simp: authorize_raw_sql_def Let_def flag role_has_iff)
qed

text \<open>Granting more roles never takes table access away: appending roles to an explicit
  role list keeps every table access the token had.\<close>

theorem more_roles_keep_table_access:
  assumes "pr_roles p = Some rs"
    and "authorize_table_access (Some p) ns t d = Allowed"
  shows "authorize_table_access (Some (p\<lparr>pr_roles := Some (rs @ extra)\<rparr>)) ns t d = Allowed"
proof -
  let ?q = "p\<lparr>pr_roles := Some (rs @ extra)\<rparr>"
  have "set (effective_roles p) \<subseteq> set (effective_roles ?q)"
    using assms(1) by (simp add: effective_roles_def)
  moreover have "in_scope ?q ns = in_scope p ns" by (simp add: in_scope_def)
  ultimately show ?thesis
    using assms(2) by (auto simp: authorize_table_allowed role_has_iff)
qed

definition sample_uploader :: principal where
  "sample_uploader = \<lparr>pr_name = ''ci'', pr_authenticated = True, pr_namespaces = Some [''app''],
     pr_roles = Some [Uploader], pr_tableGrants = None, pr_sql = None\<rparr>"

theorem more_roles_keep_table_access_witness:
  "authorize_table_access
     (Some (sample_uploader\<lparr>pr_roles := Some ([Uploader] @ [Analyst])\<rparr>)) ''app'' ''orders'' Read = Allowed"
  by (rule more_roles_keep_table_access)
     (simp_all add: sample_uploader_def authorize_table_allowed in_scope_def role_has_iff effective_roles_def)

text \<open>The row cap of a streamed SQL result.  The consumer receives exactly the first
  \<open>maxRows\<close> rows, and the stream ends with the row-cap error, announced once to the audit
  callback, exactly when the result holds more rows than the cap.\<close>

theorem row_cap_exact:
  "stream_with_sql_row_cap rows maxRows =
     (take (nat maxRows) rows,
      if nat maxRows < length rows then Some Sql_Row_Cap else None,
      if nat maxRows < length rows then [Sql_Row_Cap] else [])"
  by (simp add: stream_with_sql_row_cap_def stream_from_spec)

end
