(* ===== verification/Rate_Limit.thy ===== *)
theory Rate_Limit
  imports Duck_Prelude Complex_Main "HOL-Library.Multiset"
begin

text \<open>
  The token-bucket limiter of \<^verbatim>\<open>src/auth/ratelimit.ts\<close>.  The process-wide store is an
  object keyed by bucket name, kept in insertion order; time is the millisecond clock the code
  reads.  Token counts are rationals, the exact values the double arithmetic of the code
  approximates.  The hash of a credential is a parameter.
\<close>

section \<open>State and configuration\<close>

record bucket =
  bk_tokens :: rat
  bk_lastRefill :: int

record limiter =
  lim_store :: "(string \<times> bucket) list"
  lim_lastCleanup :: int

record rl_config =
  rl_requestsPerMinute :: rat
  rl_burstSize :: "rat option"
  rl_maxBuckets :: "nat option"

datatype key_result = Key string | Resolver_Throws

record rl_input =
  in_now :: int
  in_reqIp :: string
  in_remoteAddress :: string
  in_resolved :: key_result

datatype rl_response =
    Passed rat int
  | Refused rat "int option"

definition ip_bucket_key :: "string \<Rightarrow> string" where
  "ip_bucket_key ip = ''ip:'' @ ip"

definition principal_bucket_key :: "(string \<Rightarrow> string) \<Rightarrow> string \<Rightarrow> string" where
  "principal_bucket_key sha256_hex credential = ''principal:'' @ take 32 (sha256_hex credential)"

definition cleanup_interval_ms :: int where "cleanup_interval_ms = 5 * 60 * 1000"
definition entry_max_age_ms :: int where "entry_max_age_ms = 10 * 60 * 1000"
definition default_max_buckets :: nat where "default_max_buckets = 20000"

definition max_tokens :: "rl_config \<Rightarrow> rat" where
  "max_tokens cfg = (case rl_burstSize cfg of None \<Rightarrow> rl_requestsPerMinute cfg | Some b \<Rightarrow> b)"

definition refill_rate :: "rl_config \<Rightarrow> rat" where
  "refill_rate cfg = rl_requestsPerMinute cfg / 60000"

definition max_buckets :: "rl_config \<Rightarrow> nat" where
  "max_buckets cfg = (case rl_maxBuckets cfg of None \<Rightarrow> default_max_buckets | Some n \<Rightarrow> n)"

section \<open>Operations\<close>

definition fresh_entry :: "int \<Rightarrow> string \<times> bucket \<Rightarrow> bool" where
  "fresh_entry now e \<longleftrightarrow> \<not> now - bk_lastRefill (snd e) > entry_max_age_ms"

definition cleanup_store :: "int \<Rightarrow> limiter \<Rightarrow> limiter" where
  "cleanup_store now st =
     (if now - lim_lastCleanup st < cleanup_interval_ms then st
      else st\<lparr>lim_lastCleanup := now, lim_store := filter (fresh_entry now) (lim_store st)\<rparr>)"

definition make_room :: "int \<Rightarrow> nat \<Rightarrow> (string \<times> bucket) list \<Rightarrow> (string \<times> bucket) list" where
  "make_room now maxB s =
     (if length s < maxB then s
      else let s1 = filter (fresh_entry now) s
        in if length s1 < maxB then s1
           else let remaining = sort_key (\<lambda>e. bk_lastRefill (snd e)) s1;
                    n = length s1 - maxB + 1
                in filter (\<lambda>e. fst e \<notin> set (map fst (take n remaining))) s1)"

definition request_ip :: "rl_input \<Rightarrow> string" where
  "request_ip r = (if in_reqIp r \<noteq> [] then in_reqIp r
     else if in_remoteAddress r \<noteq> [] then in_remoteAddress r else ''unknown'')"

definition bucket_of :: "rl_input \<Rightarrow> string" where
  "bucket_of r = (case in_resolved r of
     Key k \<Rightarrow> if k \<noteq> [] then k else ip_bucket_key (request_ip r)
   | Resolver_Throws \<Rightarrow> ip_bucket_key (request_ip r))"

text \<open>The store as the handler sees it after cleaning, and after making room for a new bucket.\<close>

definition prepared_store :: "rl_config \<Rightarrow> limiter \<Rightarrow> rl_input \<Rightarrow> (string \<times> bucket) list" where
  "prepared_store cfg st r =
     (let s = lim_store (cleanup_store (in_now r) st)
      in if map_of s (bucket_of r) = None then make_room (in_now r) (max_buckets cfg) s else s)"

definition refill :: "rl_config \<Rightarrow> int \<Rightarrow> bucket \<Rightarrow> bucket" where
  "refill cfg now b =
     \<lparr>bk_tokens = min (max_tokens cfg) (bk_tokens b + of_int (now - bk_lastRefill b) * refill_rate cfg),
      bk_lastRefill = now\<rparr>"

definition entry_for :: "rl_config \<Rightarrow> limiter \<Rightarrow> rl_input \<Rightarrow> bucket" where
  "entry_for cfg st r =
     (case map_of (prepared_store cfg st r) (bucket_of r) of
        None \<Rightarrow> \<lparr>bk_tokens = max_tokens cfg, bk_lastRefill = in_now r\<rparr>
      | Some b \<Rightarrow> b)"

definition retry_after :: "rl_config \<Rightarrow> rat \<Rightarrow> int option" where
  "retry_after cfg t =
     (if refill_rate cfg = 0 then None else Some \<lceil>(1 - t) / refill_rate cfg / 1000\<rceil>)"

definition rl_request :: "rl_config \<Rightarrow> limiter \<Rightarrow> rl_input \<Rightarrow> limiter \<times> rl_response" where
  "rl_request cfg st r =
     (let now = in_now r;
          st1 = cleanup_store now st;
          s = prepared_store cfg st r;
          b = refill cfg now (entry_for cfg st r);
          remaining = max 0 (\<lfloor>bk_tokens b\<rfloor> - 1)
      in if bk_tokens b \<ge> 1
         then (st1\<lparr>lim_store := obj_set (bucket_of r) (b\<lparr>bk_tokens := bk_tokens b - 1\<rparr>) s\<rparr>,
               Passed (rl_requestsPerMinute cfg) remaining)
         else (st1\<lparr>lim_store := obj_set (bucket_of r) b s\<rparr>,
               Refused (rl_requestsPerMinute cfg) (retry_after cfg (bk_tokens b))))"

fun rl_run :: "rl_config \<Rightarrow> limiter \<Rightarrow> rl_input list \<Rightarrow> limiter \<times> rl_response list" where
  "rl_run cfg st [] = (st, [])"
| "rl_run cfg st (r # rs) =
     (case rl_request cfg st r of (st1, a) \<Rightarrow>
       (case rl_run cfg st1 rs of (st2, as) \<Rightarrow> (st2, a # as)))"

section \<open>Invariant\<close>

definition config_ok :: "rl_config \<Rightarrow> bool" where
  "config_ok cfg \<longleftrightarrow> 0 \<le> rl_requestsPerMinute cfg \<and> 0 \<le> max_tokens cfg"

definition bucket_ok :: "rl_config \<Rightarrow> int \<Rightarrow> bucket \<Rightarrow> bool" where
  "bucket_ok cfg now b \<longleftrightarrow> 0 \<le> bk_tokens b \<and> bk_tokens b \<le> max_tokens cfg \<and> bk_lastRefill b \<le> now"

definition limiter_ok :: "rl_config \<Rightarrow> int \<Rightarrow> limiter \<Rightarrow> bool" where
  "limiter_ok cfg now st \<longleftrightarrow>
     distinct (map fst (lim_store st)) \<and> (\<forall>e \<in> set (lim_store st). bucket_ok cfg now (snd e)) \<and>
     length (lim_store st) \<le> max 1 (max_buckets cfg)"

fun clock_ok :: "int \<Rightarrow> rl_input list \<Rightarrow> bool" where
  "clock_ok now [] = True"
| "clock_ok now (r # rs) = (now \<le> in_now r \<and> clock_ok (in_now r) rs)"

definition empty_limiter :: "int \<Rightarrow> limiter" where
  "empty_limiter t = \<lparr>lim_store = [], lim_lastCleanup = t\<rparr>"

lemma limiter_ok_empty: "limiter_ok cfg now (empty_limiter t)"
  by (simp add: limiter_ok_def empty_limiter_def)

lemma refill_rate_nonneg: "config_ok cfg \<Longrightarrow> 0 \<le> refill_rate cfg"
  by (simp add: config_ok_def refill_rate_def)

lemma refill_ok: "config_ok cfg \<Longrightarrow> bucket_ok cfg t b \<Longrightarrow> t \<le> now \<Longrightarrow> bucket_ok cfg now (refill cfg now b)"
  by (auto simp: bucket_ok_def refill_def config_ok_def refill_rate_def)

lemma filter_key_drop_length:
  assumes "distinct (map fst s)" and "mset xs = mset s"
  shows "length (filter (\<lambda>e. fst e \<notin> set (map fst (take n xs))) s) = length s - n"
proof -
  have dx: "distinct (map fst xs)"
    using assms by (metis distinct_map mset_eq_imp_distinct_iff mset_eq_setD)
  have len: "length xs = length s" using assms(2) by (metis size_mset)
  have "mset (filter (\<lambda>e. fst e \<notin> set (map fst (take n xs))) s)
      = mset (filter (\<lambda>e. fst e \<notin> set (map fst (take n xs))) xs)"
    using assms(2) by simp
  then have "length (filter (\<lambda>e. fst e \<notin> set (map fst (take n xs))) s)
      = length (filter (\<lambda>e. fst e \<notin> set (map fst (take n xs))) xs)"
    by (metis size_mset)
  also have "filter (\<lambda>e. fst e \<notin> set (map fst (take n xs))) xs
      = filter (\<lambda>e. fst e \<notin> set (map fst (take n xs))) (take n xs)
        @ filter (\<lambda>e. fst e \<notin> set (map fst (take n xs))) (drop n xs)"
    by (metis append_take_drop_id filter_append)
  also have "filter (\<lambda>e. fst e \<notin> set (map fst (take n xs))) (take n xs) = []"
    by (auto simp: filter_empty_conv)
  also have "filter (\<lambda>e. fst e \<notin> set (map fst (take n xs))) (drop n xs) = drop n xs"
  proof (rule filter_True, rule ballI)
    fix e assume "e \<in> set (drop n xs)"
    moreover have "distinct (map fst (take n xs) @ map fst (drop n xs))"
      using dx by (metis append_take_drop_id map_append)
    ultimately show "fst e \<notin> set (map fst (take n xs))" by auto
  qed
  finally show ?thesis using len by simp
qed

lemma make_room_subset: "set (make_room now maxB s) \<subseteq> set s"
  by (auto simp: make_room_def Let_def)

lemma make_room_distinct: "distinct (map fst s) \<Longrightarrow> distinct (map fst (make_room now maxB s))"
  by (auto simp: make_room_def Let_def distinct_map inj_on_def)

lemma make_room_length:
  assumes "distinct (map fst s)"
  shows "length (make_room now maxB s) \<le> maxB - 1"
proof (cases "length s < maxB \<or> length (filter (fresh_entry now) s) < maxB")
  case True
  then show ?thesis by (auto simp: make_room_def Let_def)
next
  case False
  let ?s1 = "filter (fresh_entry now) s"
  have d: "distinct (map fst ?s1)" using assms by (auto simp: distinct_map inj_on_def)
  have "length (filter (\<lambda>e. fst e \<notin> set (map fst (take (length ?s1 - maxB + 1)
      (sort_key (\<lambda>e. bk_lastRefill (snd e)) ?s1)))) ?s1) = length ?s1 - (length ?s1 - maxB + 1)"
    by (rule filter_key_drop_length [OF d]) simp
  with False show ?thesis by (simp add: make_room_def Let_def)
qed

lemma cleanup_ok:
  "limiter_ok cfg t st \<Longrightarrow> limiter_ok cfg t (cleanup_store now st)"
  by (auto simp: limiter_ok_def cleanup_store_def distinct_map inj_on_def
      intro: order_trans [OF length_filter_le])

lemma bucket_ok_later: "bucket_ok cfg t b \<Longrightarrow> t \<le> now \<Longrightarrow> bucket_ok cfg now b"
  by (auto simp: bucket_ok_def)

lemma prepared_facts:
  assumes "limiter_ok cfg t st"
  shows "distinct (map fst (prepared_store cfg st r))"
    and "\<And>e. e \<in> set (prepared_store cfg st r) \<Longrightarrow> bucket_ok cfg t (snd e)"
    and "map_of (prepared_store cfg st r) (bucket_of r) = None \<Longrightarrow>
      length (prepared_store cfg st r) \<le> max_buckets cfg - 1"
    and "length (prepared_store cfg st r) \<le> max 1 (max_buckets cfg)"
proof -
  let ?s = "lim_store (cleanup_store (in_now r) st)"
  have ok: "limiter_ok cfg t (cleanup_store (in_now r) st)" using assms by (rule cleanup_ok)
  then have d: "distinct (map fst ?s)" by (simp add: limiter_ok_def)
  note mr = make_room_subset [of "in_now r" "max_buckets cfg" ?s]
    make_room_distinct [OF d, of "in_now r" "max_buckets cfg"]
    make_room_length [OF d, of "in_now r" "max_buckets cfg"]
  show "distinct (map fst (prepared_store cfg st r))"
    using d mr(2) by (simp add: prepared_store_def Let_def)
  show "bucket_ok cfg t (snd e)" if "e \<in> set (prepared_store cfg st r)" for e
    using that ok mr(1) by (auto simp: prepared_store_def Let_def limiter_ok_def split: if_splits)
  show "length (prepared_store cfg st r) \<le> max_buckets cfg - 1"
    if "map_of (prepared_store cfg st r) (bucket_of r) = None"
    using that mr(3) by (auto simp: prepared_store_def Let_def split: if_splits)
  show "length (prepared_store cfg st r) \<le> max 1 (max_buckets cfg)"
    using ok mr(3) by (auto simp: prepared_store_def Let_def limiter_ok_def)
qed

lemma entry_for_ok:
  assumes "config_ok cfg" and "limiter_ok cfg t st" and "t \<le> in_now r"
  shows "bucket_ok cfg (in_now r) (entry_for cfg st r)"
  using assms prepared_facts(2) [OF assms(2), of "(bucket_of r, b)" r for b]
  by (auto simp: entry_for_def bucket_ok_def config_ok_def split: option.split dest!: map_of_SomeD)
     (meson order_trans snd_conv bucket_ok_def)+

lemma obj_set_entries: "set (obj_set k v ps) \<subseteq> insert (k, v) (set ps)"
  by (induction ps) (auto split: if_splits)

lemma store_after_request:
  "lim_store (fst (rl_request cfg st r)) =
     obj_set (bucket_of r)
       (let b = refill cfg (in_now r) (entry_for cfg st r)
        in if bk_tokens b \<ge> 1 then b\<lparr>bk_tokens := bk_tokens b - 1\<rparr> else b)
       (prepared_store cfg st r)"
  by (simp add: rl_request_def Let_def)

lemma rl_request_ok:
  assumes "config_ok cfg" and "limiter_ok cfg t st" and "t \<le> in_now r"
  shows "limiter_ok cfg (in_now r) (fst (rl_request cfg st r))"
proof -
  let ?b = "refill cfg (in_now r) (entry_for cfg st r)"
  let ?b' = "if bk_tokens ?b \<ge> 1 then ?b\<lparr>bk_tokens := bk_tokens ?b - 1\<rparr> else ?b"
  note pf = prepared_facts [OF assms(2), where r = r]
  have "bucket_ok cfg (in_now r) ?b"
    using refill_ok [OF assms(1) entry_for_ok [OF assms]] by simp
  then have b': "bucket_ok cfg (in_now r) ?b'" by (auto simp: bucket_ok_def)
  have "\<forall>e \<in> set (obj_set (bucket_of r) ?b' (prepared_store cfg st r)). bucket_ok cfg (in_now r) (snd e)"
    using obj_set_entries [of "bucket_of r" ?b' "prepared_store cfg st r"] b'
      bucket_ok_later [OF pf(2) assms(3)] by fastforce
  moreover have "length (obj_set (bucket_of r) ?b' (prepared_store cfg st r)) \<le> max 1 (max_buckets cfg)"
    using pf(3,4) by (auto simp: length_obj_set map_of_eq_None_iff)
  ultimately show ?thesis
    using distinct_obj_set [OF pf(1)] by (simp add: limiter_ok_def store_after_request Let_def)
qed

lemma rl_run_ok:
  "config_ok cfg \<Longrightarrow> limiter_ok cfg t st \<Longrightarrow> clock_ok t rs \<Longrightarrow>
     limiter_ok cfg (last (t # map in_now rs)) (fst (rl_run cfg st rs))"
proof (induction rs arbitrary: t st)
  case (Cons r rs)
  obtain st1 a where step: "rl_request cfg st r = (st1, a)" by fastforce
  have "limiter_ok cfg (in_now r) st1"
    using rl_request_ok [OF Cons.prems(1,2)] Cons.prems(3) step by (metis clock_ok.simps(2) fst_conv)
  from Cons.IH [OF Cons.prems(1) this] Cons.prems(3) step show ?case
    by (auto split: prod.split)
qed simp

section \<open>Throughput of one bucket\<close>

text \<open>Requests that spend from bucket \<open>k\<close> and are passed.\<close>

fun passed_on :: "string \<Rightarrow> rl_input list \<Rightarrow> rl_response list \<Rightarrow> nat" where
  "passed_on k (r # rs) (Passed l n # as) = (if bucket_of r = k then 1 else 0) + passed_on k rs as"
| "passed_on k (r # rs) (a # as) = passed_on k rs as"
| "passed_on k _ _ = 0"

text \<open>Bucket \<open>k\<close> survives every cleanup and eviction of the run.\<close>

fun kept :: "rl_config \<Rightarrow> string \<Rightarrow> limiter \<Rightarrow> rl_input list \<Rightarrow> bool" where
  "kept cfg k st [] = True"
| "kept cfg k st (r # rs) =
     (map_of (prepared_store cfg st r) k \<noteq> None \<and> kept cfg k (fst (rl_request cfg st r)) rs)"

lemma map_of_filter_sub:
  "distinct (map fst s) \<Longrightarrow> map_of (filter P s) k = Some b \<Longrightarrow> map_of s k = Some b"
proof (induction s)
  case (Cons p s)
  have "k \<in> fst ` set (filter P s)" if "map_of (filter P s) k = Some b"
    using that by (metis map_of_SomeD fst_conv image_eqI)
  with Cons show ?case by (cases p) (auto split: if_splits)
qed simp

lemma make_room_sub:
  assumes "distinct (map fst s)" and "map_of (make_room now m s) k = Some b"
  shows "map_of s k = Some b"
  using make_room_subset [of now m s] make_room_distinct [OF assms(1), of now m] assms
  by (metis map_of_eq_Some_iff subsetD)

lemma prepared_sub:
  assumes "limiter_ok cfg t st" and "map_of (prepared_store cfg st r) k = Some b"
  shows "map_of (lim_store st) k = Some b"
proof -
  let ?s = "lim_store (cleanup_store (in_now r) st)"
  have d: "distinct (map fst ?s)" "distinct (map fst (lim_store st))"
    using cleanup_ok [OF assms(1)] assms(1) by (auto simp: limiter_ok_def)
  have "map_of ?s k = Some b"
    using assms(2) make_room_sub [OF d(1)] by (auto simp: prepared_store_def Let_def split: if_splits)
  then show ?thesis
    using map_of_filter_sub [OF d(2)] by (auto simp: cleanup_store_def split: if_splits)
qed

text \<open>The credit of a bucket: its tokens and what it will have earned by a later instant.\<close>

definition credit :: "rl_config \<Rightarrow> int \<Rightarrow> bucket \<Rightarrow> rat" where
  "credit cfg t b = bk_tokens b + of_int (t - bk_lastRefill b) * refill_rate cfg"

lemma credit_refill: "credit cfg T (refill cfg now b) \<le> credit cfg T b"
  by (simp add: credit_def refill_def algebra_simps min_def)

lemma credit_step:
  assumes "config_ok cfg" and "limiter_ok cfg t st" and "map_of (prepared_store cfg st r) k = Some b"
    and "rl_request cfg st r = (st1, a)"
  shows "\<exists>b1. map_of (lim_store st1) k = Some b1 \<and>
     of_nat (passed_on k [r] [a]) + credit cfg T b1 \<le> credit cfg T b"
proof (cases "bucket_of r = k")
  case False
  then have "map_of (lim_store st1) k = Some b"
    using assms(3,4) store_after_request [of cfg st r] by simp
  with False show ?thesis by (cases a) auto
next
  case True
  let ?r = "refill cfg (in_now r) b"
  have "entry_for cfg st r = b" using assms(3) True by (simp add: entry_for_def)
  then have "(lim_store st1, a) = (if bk_tokens ?r \<ge> 1
      then (obj_set k (?r\<lparr>bk_tokens := bk_tokens ?r - 1\<rparr>) (prepared_store cfg st r),
            Passed (rl_requestsPerMinute cfg) (max 0 (\<lfloor>bk_tokens ?r\<rfloor> - 1)))
      else (obj_set k ?r (prepared_store cfg st r),
            Refused (rl_requestsPerMinute cfg) (retry_after cfg (bk_tokens ?r))))"
    using assms(4) True by (auto simp: rl_request_def Let_def split: if_splits)
  with credit_refill [of cfg T "in_now r" b] show ?thesis
    by (cases "bk_tokens ?r \<ge> 1") (auto simp: True credit_def)
qed

lemma passed_on_Cons:
  "passed_on k (r # rs) (a # as) = passed_on k [r] [a] + passed_on k rs as"
  by (cases a) auto

lemma credit_run:
  "config_ok cfg \<Longrightarrow> limiter_ok cfg t st \<Longrightarrow> clock_ok t rs \<Longrightarrow> kept cfg k st rs \<Longrightarrow>
   map_of (lim_store st) k = Some b \<Longrightarrow> rl_run cfg st rs = (st', as) \<Longrightarrow>
   \<exists>b'. map_of (lim_store st') k = Some b' \<and>
     of_nat (passed_on k rs as) + credit cfg T b' \<le> credit cfg T b"
proof (induction rs arbitrary: t st b as)
  case (Cons r rs)
  obtain st1 a where step: "rl_request cfg st r = (st1, a)" by fastforce
  obtain as' where rest: "rl_run cfg st1 rs = (st', as')" and as: "as = a # as'"
    using Cons.prems(6) step by (auto split: prod.splits)
  obtain b0 where "map_of (prepared_store cfg st r) k = Some b0" using Cons.prems(4) by auto
  moreover from prepared_sub [OF Cons.prems(2) this] Cons.prems(5) have "b0 = b" by simp
  ultimately have b: "map_of (prepared_store cfg st r) k = Some b" by simp
  from credit_step [OF Cons.prems(1,2) b step] obtain b1
    where b1: "map_of (lim_store st1) k = Some b1"
      and c1: "of_nat (passed_on k [r] [a]) + credit cfg T b1 \<le> credit cfg T b" by blast
  have "limiter_ok cfg (in_now r) st1"
    using rl_request_ok [OF Cons.prems(1,2)] Cons.prems(3) step by (metis clock_ok.simps(2) fst_conv)
  from Cons.IH [OF Cons.prems(1) this _ _ b1 rest] Cons.prems(3,4) step obtain b'
    where "map_of (lim_store st') k = Some b'"
      and "of_nat (passed_on k rs as') + credit cfg T b' \<le> credit cfg T b1" by auto
  moreover from this(2) c1 have "of_nat (passed_on k (r # rs) (a # as')) + credit cfg T b' \<le> credit cfg T b"
    unfolding passed_on_Cons [of k r rs a as'] by simp
  ultimately show ?case using as by blast
qed simp

section \<open>Properties\<close>

text \<open>The limiter's store invariant.  From the empty store, whatever requests arrive on a
  clock that does not run backwards, every bucket holds between zero and the burst size, bucket
  names are distinct, and the store never holds more than the configured number of buckets
  (one, when that number is zero).\<close>

theorem limiter_invariant:
  assumes "config_ok cfg" and "clock_ok t rs"
  shows "limiter_ok cfg (last (t # map in_now rs)) (fst (rl_run cfg (empty_limiter t) rs))"
  by (rule rl_run_ok [OF assms(1) limiter_ok_empty assms(2)])

definition sample_config :: rl_config where
  "sample_config = \<lparr>rl_requestsPerMinute = 60, rl_burstSize = Some 2, rl_maxBuckets = Some 3\<rparr>"

definition sample_request :: "int \<Rightarrow> rl_input" where
  "sample_request t = \<lparr>in_now = t, in_reqIp = ''10.0.0.1'', in_remoteAddress = [], in_resolved = Key ''p''\<rparr>"

theorem limiter_invariant_witness:
  "limiter_ok sample_config 2000
     (fst (rl_run sample_config (empty_limiter 0) [sample_request 0, sample_request 2000]))"
proof -
  have "config_ok sample_config" by (simp add: config_ok_def sample_config_def max_tokens_def)
  moreover have "clock_ok 0 [sample_request 0, sample_request 2000]" by (simp add: sample_request_def)
  ultimately show ?thesis using limiter_invariant [of sample_config 0 "[sample_request 0, sample_request 2000]"]
    by (simp add: sample_request_def)
qed

text \<open>C39: the throughput bound of one bucket.  In any run in which the bucket is not evicted,
  however many other callers interleave, the requests passed on it are at most its tokens at the
  start plus the refill rate times the time elapsed since its last refill.\<close>

theorem bucket_throughput:
  assumes "config_ok cfg" and "limiter_ok cfg t st" and "clock_ok t rs" and "rs \<noteq> []"
    and "kept cfg k st rs" and "map_of (lim_store st) k = Some b" and "rl_run cfg st rs = (st', as)"
  shows "of_nat (passed_on k rs as) \<le>
     bk_tokens b + of_int (in_now (last rs) - bk_lastRefill b) * refill_rate cfg"
proof -
  let ?T = "in_now (last rs)"
  from credit_run [OF assms(1-3,5-7), of ?T] obtain b'
    where b': "map_of (lim_store st') k = Some b'"
      and le: "of_nat (passed_on k rs as) + credit cfg ?T b' \<le> credit cfg ?T b" by blast
  have "limiter_ok cfg ?T st'"
    using rl_run_ok [OF assms(1-3)] assms(4,7) by (simp add: last_map)
  then have "bucket_ok cfg ?T b'" using b' by (fastforce simp: limiter_ok_def dest: map_of_SomeD)
  then have "0 \<le> credit cfg ?T b'"
    using refill_rate_nonneg [OF assms(1)] by (simp add: credit_def bucket_ok_def)
  with le show ?thesis by (simp add: credit_def)
qed

definition sample_limiter :: limiter where
  "sample_limiter = \<lparr>lim_store = [(''p'', \<lparr>bk_tokens = 1, bk_lastRefill = 0\<rparr>)], lim_lastCleanup = 0\<rparr>"

theorem bucket_throughput_witness:
  "of_nat (passed_on ''p'' [sample_request 1] (snd (rl_run sample_config sample_limiter [sample_request 1])))
     \<le> (1::rat) + of_int (1 - 0) * refill_rate sample_config"
proof -
  let ?rs = "[sample_request 1]"
  have c: "config_ok sample_config" by (simp add: config_ok_def sample_config_def max_tokens_def)
  have l: "limiter_ok sample_config 0 sample_limiter"
    by (simp add: limiter_ok_def bucket_ok_def sample_limiter_def sample_config_def max_tokens_def max_buckets_def)
  have t: "clock_ok 0 ?rs" by (simp add: sample_request_def)
  have k: "kept sample_config ''p'' sample_limiter ?rs"
    by (simp add: prepared_store_def cleanup_store_def cleanup_interval_ms_def sample_limiter_def
        sample_request_def bucket_of_def Let_def)
  have m: "map_of (lim_store sample_limiter) ''p'' = Some \<lparr>bk_tokens = 1, bk_lastRefill = 0\<rparr>"
    by (simp add: sample_limiter_def)
  show ?thesis
    using bucket_throughput [OF c l t _ k m, of "fst (rl_run sample_config sample_limiter ?rs)"
        "snd (rl_run sample_config sample_limiter ?rs)"]
    by (simp add: sample_request_def)
qed

text \<open>Forgetting a stale bucket costs no accuracy when the burst refills within ten minutes:
  a request that finds its bucket older than the eviction age is answered exactly as the request
  of a caller with no bucket at all.\<close>

theorem stale_eviction_exact:
  assumes "config_ok cfg" and "bucket_ok cfg now b" and "\<not> fresh_entry now (k, b)"
    and "max_tokens cfg \<le> 10 * rl_requestsPerMinute cfg"
  shows "refill cfg now b = refill cfg now \<lparr>bk_tokens = max_tokens cfg, bk_lastRefill = now\<rparr>"
proof -
  have "600000 * refill_rate cfg \<le> of_int (now - bk_lastRefill b) * refill_rate cfg"
    using assms(3) refill_rate_nonneg [OF assms(1)]
    by (intro mult_right_mono) (auto simp: fresh_entry_def entry_max_age_ms_def)
  then have "max_tokens cfg \<le> bk_tokens b + of_int (now - bk_lastRefill b) * refill_rate cfg"
    using assms(2,4) by (simp add: bucket_ok_def refill_rate_def)
  then show ?thesis by (simp add: refill_def min_def)
qed

theorem stale_eviction_exact_witness:
  "refill sample_config 700000 \<lparr>bk_tokens = 0, bk_lastRefill = 0\<rparr> =
     refill sample_config 700000 \<lparr>bk_tokens = max_tokens sample_config, bk_lastRefill = 700000\<rparr>"
  by (rule stale_eviction_exact [where k = "''p''"])
     (simp_all add: config_ok_def bucket_ok_def sample_config_def max_tokens_def fresh_entry_def
       entry_max_age_ms_def)

end
