(* ===== verification/Row_Policy.thy ===== *)
theory Row_Policy
  imports Js_Values Roles
begin

text \<open>
  Row-level policies, \<^verbatim>\<open>src/tables/policy.ts\<close>: validation of a policy declaration, the
  resolution of a rule for one principal, and the decision on one row.
\<close>

section \<open>Declarations\<close>

record row_policy_rule =
  rule_column :: string
  rule_equals :: string

record table_policy =
  tp_read :: "row_policy_rule option"
  tp_write :: "row_policy_rule option"

datatype policy_error =
    Rule_Not_Object string
  | Rule_Unknown_Field string string
  | Rule_Column_Empty string
  | Rule_Column_Undeclared string string
  | Rule_Equals_Empty string
  | Rule_Unknown_Principal_Field string string
  | Policy_Not_Object string
  | Policy_Unknown_Field string string
  | Policy_Empty string

definition policy_principal_fields :: "string list" where
  "policy_principal_fields = [''id'', ''name'']"

fun as_plain_object :: "json \<Rightarrow> (string \<times> json) list option" where
  "as_plain_object (JObj ps) = Some ps"
| "as_plain_object _ = None"

text \<open>The string value of a property, when it is a non-empty string.\<close>

definition nonempty_string :: "json option \<Rightarrow> string option" where
  "nonempty_string v = (case v of Some (JStr s) \<Rightarrow> (if s = [] then None else Some s) | _ \<Rightarrow> None)"

definition parse_rule :: "json \<Rightarrow> string \<Rightarrow> string list \<Rightarrow> policy_error + row_policy_rule" where
  "parse_rule raw w columns =
     (case as_plain_object raw of
        None \<Rightarrow> Inl (Rule_Not_Object w)
      | Some ps \<Rightarrow>
        (case List.find (\<lambda>k. k \<noteq> ''column'' \<and> k \<noteq> ''equals'') (map fst ps) of
           Some k \<Rightarrow> Inl (Rule_Unknown_Field w k)
         | None \<Rightarrow>
           (case nonempty_string (map_of ps ''column'') of
              None \<Rightarrow> Inl (Rule_Column_Empty w)
            | Some column \<Rightarrow>
              if column \<notin> set columns then Inl (Rule_Column_Undeclared w column)
              else (case nonempty_string (map_of ps ''equals'') of
                 None \<Rightarrow> Inl (Rule_Equals_Empty w)
               | Some eq \<Rightarrow>
                 if hd eq = CHR ''.'' \<and> tl eq \<notin> set policy_principal_fields
                 then Inl (Rule_Unknown_Principal_Field w eq)
                 else Inr \<lparr>rule_column = column, rule_equals = eq\<rparr>))))"

definition parse_optional_rule ::
  "json option \<Rightarrow> string \<Rightarrow> string list \<Rightarrow> policy_error + row_policy_rule option" where
  "parse_optional_rule raw w columns =
     (case raw of None \<Rightarrow> Inr None
      | Some v \<Rightarrow> res_bind (parse_rule v w columns) (\<lambda>r. Inr (Some r)))"

definition parse_table_policy ::
  "json option \<Rightarrow> string \<Rightarrow> string list \<Rightarrow> policy_error + table_policy option" where
  "parse_table_policy raw table columns =
     (case raw of
        None \<Rightarrow> Inr None
      | Some v \<Rightarrow>
        (case as_plain_object v of
           None \<Rightarrow> Inl (Policy_Not_Object table)
         | Some ps \<Rightarrow>
           (case List.find (\<lambda>k. k \<noteq> ''read'' \<and> k \<noteq> ''write'') (map fst ps) of
              Some k \<Rightarrow> Inl (Policy_Unknown_Field table k)
            | None \<Rightarrow>
              res_bind (parse_optional_rule (map_of ps ''read'') ''policy.read'' columns) (\<lambda>rd.
              res_bind (parse_optional_rule (map_of ps ''write'') ''policy.write'' columns) (\<lambda>wr.
                if rd = None \<and> wr = None then Inl (Policy_Empty table)
                else Inr (Some \<lparr>tp_read = rd, tp_write = wr\<rparr>))))))"

section \<open>Resolution and decision\<close>

datatype resolved_policy = Open | Filter string string | Deny string

definition principal_policy_value :: "row_policy_rule \<Rightarrow> principal option \<Rightarrow> string option" where
  "principal_policy_value rule po =
     (if \<not> starts_with ''.'' (rule_equals rule) then Some (rule_equals rule)
      else (case po of
        None \<Rightarrow> None
      | Some p \<Rightarrow>
        let field = drop 1 (rule_equals rule)
        in if field = ''id'' \<or> field = ''name''
           then (if trim (pr_name p) = [] then None else Some (trim (pr_name p)))
           else None))"

definition policy_rule :: "table_policy option \<Rightarrow> direction \<Rightarrow> row_policy_rule option" where
  "policy_rule pol d =
     (case pol of None \<Rightarrow> None | Some tp \<Rightarrow> (case d of Read \<Rightarrow> tp_read tp | Write \<Rightarrow> tp_write tp))"

definition resolve_row_policy ::
  "table_policy option \<Rightarrow> direction \<Rightarrow> principal option \<Rightarrow> resolved_policy" where
  "resolve_row_policy pol d po =
     (case policy_rule pol d of
        None \<Rightarrow> Open
      | Some rule \<Rightarrow>
        (case po of
           None \<Rightarrow> Open
         | Some p \<Rightarrow>
           (case principal_policy_value rule po of
              None \<Rightarrow> Deny (''Forbidden: row policy on '' @ quoted (rule_column rule) @
                '' cannot be resolved for principal '' @ quoted (pr_name p))
            | Some v \<Rightarrow> Filter (rule_column rule) v)))"

definition row_cell :: "(rat \<Rightarrow> string) \<Rightarrow> json \<Rightarrow> string \<Rightarrow> bool \<times> string" where
  "row_cell fmt row column =
     (case as_plain_object row of
        None \<Rightarrow> (False, [])
      | Some ps \<Rightarrow>
        (case map_of ps column of
           None \<Rightarrow> (False, [])
         | Some JNull \<Rightarrow> (False, [])
         | Some v \<Rightarrow> (js_string fmt v \<noteq> [], js_string fmt v)))"

definition row_policy_decision ::
  "(rat \<Rightarrow> string) \<Rightarrow> table_policy option \<Rightarrow> direction \<Rightarrow> json \<Rightarrow> principal option \<Rightarrow> grant_decision" where
  "row_policy_decision fmt pol d row po =
     (case resolve_row_policy pol d po of
        Open \<Rightarrow> Allowed
      | Deny m \<Rightarrow> Denied Row_Policy m
      | Filter column v \<Rightarrow>
        (case row_cell fmt row column of (present, cell) \<Rightarrow>
          if \<not> present
          then Denied Row_Policy (''Forbidden: row has no '' @ quoted column @
                 '' value, so the row policy cannot admit it'')
          else if cell \<noteq> v
          then Denied Row_Policy (''Forbidden: row '' @ quoted column @ '' value '' @ quoted cell @
                 '' is outside principal '' @
                 quoted (case po of None \<Rightarrow> ''anonymous'' | Some p \<Rightarrow> pr_name p) @
                 '' row policy '' @ quoted v)
          else Allowed))"

section \<open>Lemmas\<close>

lemma trim_Nil [simp]: "trim [] = []"
  by (simp add: trim_def)

lemma decision_filter:
  "resolve_row_policy pol d po = Filter column v \<Longrightarrow> v \<noteq> [] \<Longrightarrow>
   row_policy_decision fmt pol d row po = Allowed \<longleftrightarrow>
     (\<exists>ps w. row = JObj ps \<and> map_of ps column = Some w \<and> w \<noteq> JNull \<and> js_string fmt w = v)"
proof -
  assume f: "resolve_row_policy pol d po = Filter column v" and v: "v \<noteq> []"
  obtain present cell where c: "row_cell fmt row column = (present, cell)" by fastforce
  have "row_policy_decision fmt pol d row po = Allowed \<longleftrightarrow> present \<and> cell = v"
    by (cases present; cases "cell = v") (simp_all add: row_policy_decision_def f c)
  also have "\<dots> \<longleftrightarrow> (\<exists>ps w. row = JObj ps \<and> map_of ps column = Some w \<and> w \<noteq> JNull \<and> js_string fmt w = v)"
    using c v by (cases row) (auto simp: row_cell_def split: option.splits json.splits)
  finally show ?thesis .
qed

lemma parse_rule_ok:
  "parse_rule raw w columns = Inr r \<Longrightarrow>
   rule_column r \<in> set columns \<and> rule_equals r \<noteq> [] \<and>
   (starts_with ''.'' (rule_equals r) \<longrightarrow> drop 1 (rule_equals r) \<in> set policy_principal_fields)"
  by (auto simp: parse_rule_def nonempty_string_def starts_with_def drop_Suc take_Suc
      split: option.splits if_splits json.splits)

lemma policy_value_nonempty:
  "rule_equals rule \<noteq> [] \<Longrightarrow> principal_policy_value rule po = Some v \<Longrightarrow> v \<noteq> []"
  by (auto simp: principal_policy_value_def Let_def split: option.splits if_splits)

lemma parsed_rule_of_policy:
  assumes "parse_table_policy raw table columns = Inr pol" and "policy_rule pol d = Some rule"
  shows "\<exists>v w. parse_rule v w columns = Inr rule"
  using assms
  by (cases d) (auto simp: parse_table_policy_def policy_rule_def parse_optional_rule_def
      split: option.splits if_splits intro!: exI)

section \<open>Properties\<close>

text \<open>C35: a row policy fails closed.  For a named principal and a policy the validator accepted,
  a row is admitted for an operation that has a rule exactly when the principal resolves the rule
  to a value and the row is an object whose policy column is present, not null, and prints as
  that very value.\<close>

theorem row_policy_fail_closed:
  assumes "parse_table_policy raw table columns = Inr pol" and "policy_rule pol d = Some rule"
  shows "row_policy_decision fmt pol d row (Some p) = Allowed \<longleftrightarrow>
    (\<exists>v ps w. principal_policy_value rule (Some p) = Some v \<and> row = JObj ps \<and>
       map_of ps (rule_column rule) = Some w \<and> w \<noteq> JNull \<and> js_string fmt w = v)"
proof (cases "principal_policy_value rule (Some p)")
  case None
  then show ?thesis
    using assms(2) by (simp add: row_policy_decision_def resolve_row_policy_def)
next
  case (Some v)
  have "rule_equals rule \<noteq> []"
    using parsed_rule_of_policy [OF assms] parse_rule_ok by blast
  then have "v \<noteq> []" using policy_value_nonempty Some by blast
  moreover have "resolve_row_policy pol d (Some p) = Filter (rule_column rule) v"
    using assms(2) Some by (simp add: resolve_row_policy_def)
  ultimately show ?thesis using decision_filter Some by simp
qed

definition sample_policy_json :: json where
  "sample_policy_json = JObj [(''read'', JObj [(''column'', JStr ''owner''), (''equals'', JStr ''.id'')])]"

definition sample_policy :: "table_policy option" where
  "sample_policy = Some \<lparr>tp_read = Some \<lparr>rule_column = ''owner'', rule_equals = ''.id''\<rparr>, tp_write = None\<rparr>"

lemma sample_policy_parses:
  "parse_table_policy (Some sample_policy_json) ''t'' [''owner''] = Inr sample_policy"
  by (simp add: sample_policy_json_def sample_policy_def parse_table_policy_def parse_rule_def
      parse_optional_rule_def nonempty_string_def policy_principal_fields_def)

theorem row_policy_fail_closed_witness:
  "row_policy_decision (\<lambda>_. []) sample_policy Read (JObj [(''owner'', JStr ''ci'')]) (Some sample_uploader) = Allowed"
proof -
  have "policy_rule sample_policy Read = Some \<lparr>rule_column = ''owner'', rule_equals = ''.id''\<rparr>"
    by (simp add: policy_rule_def sample_policy_def)
  from row_policy_fail_closed [OF sample_policy_parses this] show ?thesis
    by (simp add: principal_policy_value_def sample_uploader_def starts_with_def trim_def is_space_def Let_def)
qed

text \<open>A stored rule never meets a principal field the evaluator does not know.  For a policy the
  validator accepted, resolution for a named principal denies outright only when the principal's
  own name is blank.\<close>

theorem accepted_policy_resolves:
  assumes "parse_table_policy raw table columns = Inr pol"
    and "resolve_row_policy pol d (Some p) = Deny m"
  shows "trim (pr_name p) = []"
proof -
  from assms(2) obtain rule where r: "policy_rule pol d = Some rule"
    and n: "principal_policy_value rule (Some p) = None"
    by (auto simp: resolve_row_policy_def split: option.splits)
  from parsed_rule_of_policy [OF assms(1) r] obtain v w where "parse_rule v w columns = Inr rule" by blast
  from parse_rule_ok [OF this] n show ?thesis
    by (auto simp: principal_policy_value_def policy_principal_fields_def Let_def split: if_splits)
qed

theorem accepted_policy_resolves_witness:
  "trim (pr_name (sample_uploader\<lparr>pr_name := '' ''\<rparr>)) = []"
proof -
  have "\<exists>m. resolve_row_policy sample_policy Read (Some (sample_uploader\<lparr>pr_name := '' ''\<rparr>)) = Deny m"
    by (simp add: resolve_row_policy_def policy_rule_def sample_policy_def principal_policy_value_def
        starts_with_def trim_def is_space_def Let_def)
  then show ?thesis using accepted_policy_resolves [OF sample_policy_parses] by blast
qed

end
