(* ===== verification/Audit_Ledger.thy ===== *)
theory Audit_Ledger
  imports Js_Values "HOL-Library.Multiset"
begin

text \<open>
  The segmented audit ledger of \<^verbatim>\<open>src/serialization/auditLedger.ts\<close>: segment names, their
  canonical order, the check that a child's segments continue its parent's, and the appender
  that seals and rotates segments at the line and byte bounds.  A ledger directory is the list
  of its files, name and content, in the order \<^verbatim>\<open>readdirSync\<close> returns them; the namespace
  lock held by the caller makes one append atomic.
\<close>

section \<open>Segment names\<close>

datatype ledger_error =
    Unrecognized_Segment string
  | Not_Consecutive nat string
  | Lost_Segment "string list" "string list"
  | Order_Changed nat string string
  | Reopened_Current
  | Not_Monotonic nat string

definition audit_current_segment :: string where
  "audit_current_segment = ''current.jsonl''"

definition js_max_safe_nat :: nat where
  "js_max_safe_nat = 9007199254740991"

definition jsonl_ext :: string where
  "jsonl_ext = ''.jsonl''"

definition format_audit_segment_name :: "nat \<Rightarrow> string" where
  "format_audit_segment_name v = pad_zero 4 (show_nat v) @ jsonl_ext"

definition audit_segment_number :: "string \<Rightarrow> nat option" where
  "audit_segment_number name =
     (if ends_with jsonl_ext name
      then let ds = take (length name - 6) name; v = parse_nat ds
        in if ds \<noteq> [] \<and> list_all is_digit ds \<and> v \<le> js_max_safe_nat \<and> 0 < v \<and>
              ds = pad_zero 4 (show_nat v)
           then Some v else None
      else None)"

definition is_audit_segment_file :: "string \<Rightarrow> bool" where
  "is_audit_segment_file name \<longleftrightarrow>
     ends_with jsonl_ext name \<and>
     (let stem = take (length name - 6) name
      in stem \<noteq> [] \<and> list_all (\<lambda>c. c \<noteq> CHR ''/'' \<and> c \<noteq> CHR 0x5C) stem)"

section \<open>Canonical order\<close>

text \<open>The name scan, the numbering check over the sorted numeric segments, and the order.\<close>

fun scan_segments :: "string list \<Rightarrow> ledger_error + string list \<times> (string \<times> nat) list" where
  "scan_segments [] = Inr ([], [])"
| "scan_segments (n # ns) =
     (if n = audit_current_segment
      then res_bind (scan_segments ns) (\<lambda>(cur, num). Inr (n # cur, num))
      else case audit_segment_number n of
          None \<Rightarrow> Inl (Unrecognized_Segment n)
        | Some v \<Rightarrow> res_bind (scan_segments ns) (\<lambda>(cur, num). Inr (cur, (n, v) # num)))"

fun consecutive_from :: "nat \<Rightarrow> (string \<times> nat) list \<Rightarrow> ledger_error + unit" where
  "consecutive_from i [] = Inr ()"
| "consecutive_from i ((n, v) # es) =
     (if v \<noteq> i + 1 then Inl (Not_Consecutive (i + 1) n) else consecutive_from (i + 1) es)"

definition canonical_audit_segment_order :: "string list \<Rightarrow> ledger_error + string list" where
  "canonical_audit_segment_order names =
     res_bind (scan_segments names) (\<lambda>(cur, num).
       let sorted_num = sort_key snd num
       in res_bind (consecutive_from 0 sorted_num) (\<lambda>_. Inr (cur @ map fst sorted_num)))"

fun same_prefix :: "nat \<Rightarrow> string list \<Rightarrow> string list \<Rightarrow> ledger_error + unit" where
  "same_prefix i [] cs = Inr ()"
| "same_prefix i (p # ps) [] = Inl (Order_Changed i p [])"
| "same_prefix i (p # ps) (c # cs) =
     (if p \<noteq> c then Inl (Order_Changed i p c) else same_prefix (i + 1) ps cs)"

fun continue_numbering :: "bool \<Rightarrow> nat \<Rightarrow> string list \<Rightarrow> ledger_error + unit" where
  "continue_numbering fresh nxt [] = Inr ()"
| "continue_numbering fresh nxt (n # ns) =
     (if n = audit_current_segment
      then (if fresh then continue_numbering fresh nxt ns else Inl Reopened_Current)
      else if audit_segment_number n = Some nxt then continue_numbering fresh (nxt + 1) ns
      else Inl (Not_Monotonic nxt n))"

definition max_segment_number :: "string list \<Rightarrow> nat" where
  "max_segment_number names = foldl max 0 (List.map_filter audit_segment_number names)"

definition assert_canonical_segment_advance ::
  "string list \<Rightarrow> string list \<Rightarrow> ledger_error + string list" where
  "assert_canonical_segment_advance parent child =
     (if length child < length parent then Inl (Lost_Segment parent child)
      else res_bind (same_prefix 0 parent child) (\<lambda>_.
        let added = drop (length parent) child
        in if added = [] then Inr []
           else res_bind (continue_numbering (parent = []) (max_segment_number parent + 1) added)
             (\<lambda>_. Inr added)))"

section \<open>The appender\<close>

type_synonym ledger_dir = "(string \<times> string) list"

record ledger_limits =
  maxLines :: nat
  maxBytes :: nat

record appender =
  as_dir :: ledger_dir
  as_active :: string
  as_lines :: nat
  as_bytes :: nat
  as_highest :: nat

text \<open>\<^verbatim>\<open>Buffer.byteLength(s, "utf-8")\<close> of a string of 8-bit code units.\<close>

definition utf8_length :: "string \<Rightarrow> nat" where
  "utf8_length s = sum_list (map (\<lambda>c. if (of_char c :: nat) < 128 then 1 else 2) s)"

definition content_of :: "ledger_dir \<Rightarrow> string \<Rightarrow> string" where
  "content_of d n = (case map_of d n of None \<Rightarrow> [] | Some t \<Rightarrow> t)"

definition count_non_blank :: "string \<Rightarrow> nat" where
  "count_non_blank t = length (file_lines t)"

definition segment_files :: "ledger_dir \<Rightarrow> string list" where
  "segment_files d = filter is_audit_segment_file (map fst d)"

definition rotate_segment :: "appender \<Rightarrow> appender" where
  "rotate_segment st =
     st\<lparr>as_highest := as_highest st + 1,
        as_active := format_audit_segment_name (as_highest st + 1),
        as_lines := 0, as_bytes := 0\<rparr>"

definition must_rotate :: "ledger_limits \<Rightarrow> appender \<Rightarrow> string \<Rightarrow> bool" where
  "must_rotate lm st line \<longleftrightarrow>
     maxLines lm \<le> as_lines st \<or>
     (0 < as_bytes st \<and> maxBytes lm < as_bytes st + utf8_length (line @ [newline]))"

definition write_line :: "appender \<Rightarrow> string \<Rightarrow> appender" where
  "write_line st line =
     st\<lparr>as_dir := obj_set (as_active st)
          (content_of (as_dir st) (as_active st) @ line @ [newline]) (as_dir st),
        as_lines := as_lines st + 1,
        as_bytes := as_bytes st + utf8_length (line @ [newline])\<rparr>"

definition append_line :: "ledger_limits \<Rightarrow> appender \<Rightarrow> string \<Rightarrow> appender" where
  "append_line lm st line =
     write_line (if must_rotate lm st line then rotate_segment st else st) line"

definition open_appender :: "ledger_dir \<Rightarrow> string list \<Rightarrow> appender" where
  "open_appender d ordered =
     (let active = (if ordered \<noteq> [] then last ordered else audit_current_segment)
      in \<lparr>as_dir = d, as_active = active,
          as_lines = (if map_of d active = None then 0 else count_non_blank (content_of d active)),
          as_bytes = (if map_of d active = None then 0 else utf8_length (content_of d active)),
          as_highest = max_segment_number ordered\<rparr>)"

definition append_audit_ledger ::
  "ledger_limits \<Rightarrow> ledger_dir \<Rightarrow> string list \<Rightarrow> ledger_error + ledger_dir" where
  "append_audit_ledger lm d lines =
     (if lines = [] then Inr d
      else res_bind (canonical_audit_segment_order (segment_files d)) (\<lambda>ordered.
        Inr (as_dir (foldl (append_line lm) (open_appender d ordered) lines))))"

definition audit_segment_order_on_disk :: "ledger_dir option \<Rightarrow> ledger_error + string list" where
  "audit_segment_order_on_disk d =
     (case d of None \<Rightarrow> Inr [] | Some files \<Rightarrow> canonical_audit_segment_order (segment_files files))"

section \<open>Names\<close>

lemma segment_number_format [simp]:
  "0 < v \<Longrightarrow> v \<le> js_max_safe_nat \<Longrightarrow> audit_segment_number (format_audit_segment_name v) = Some v"
  using pad_zero_digits [OF show_nat_digits, of 4 v]
  by (auto simp: audit_segment_number_def format_audit_segment_name_def ends_with_iff jsonl_ext_def
      list_all_iff Let_def)

lemma segment_number_Some:
  assumes "audit_segment_number n = Some v"
  shows "n = format_audit_segment_name v \<and> 0 < v \<and> v \<le> js_max_safe_nat"
proof -
  have e: "ends_with jsonl_ext n"
    and v: "0 < v" "v \<le> js_max_safe_nat" "take (length n - 6) n = pad_zero 4 (show_nat v)"
    using assms by (auto simp: audit_segment_number_def Let_def split: if_splits)
  from e obtain r where "n = r @ jsonl_ext" by (auto simp: ends_with_iff)
  with v show ?thesis by (simp add: format_audit_segment_name_def jsonl_ext_def)
qed

lemma segment_number_current [simp]: "audit_segment_number audit_current_segment = None"
  by (simp add: audit_segment_number_def audit_current_segment_def jsonl_ext_def is_digit_def)

lemma format_segment_inj [simp]:
  "format_audit_segment_name a = format_audit_segment_name b \<longleftrightarrow> a = b"
  by (simp add: format_audit_segment_name_def)

lemma format_not_current [simp]: "format_audit_segment_name v \<noteq> audit_current_segment"
proof
  assume "format_audit_segment_name v = audit_current_segment"
  then have "pad_zero 4 (show_nat v) = ''current''"
    by (simp add: format_audit_segment_name_def audit_current_segment_def jsonl_ext_def)
  with pad_zero_digits [OF show_nat_digits, of 4 v] show False by (simp add: is_digit_def)
qed

lemmas current_not_format [simp] = format_not_current [symmetric]

lemma format_is_segment_file [simp]: "is_audit_segment_file (format_audit_segment_name v)"
proof -
  have "\<forall>c \<in> set (pad_zero 4 (show_nat v)). is_digit c"
    by (rule pad_zero_digits [OF show_nat_digits])
  moreover have "c \<noteq> CHR ''/'' \<and> c \<noteq> CHR 0x5C" if "is_digit c" for c
    using that by (auto simp: is_digit_def)
  ultimately have "\<forall>c \<in> set (pad_zero 4 (show_nat v)). c \<noteq> CHR ''/'' \<and> c \<noteq> CHR 0x5C"
    by blast
  then show ?thesis
    by (auto simp: is_audit_segment_file_def format_audit_segment_name_def ends_with_iff
        jsonl_ext_def list_all_iff Let_def)
qed

lemma current_is_segment_file [simp]: "is_audit_segment_file audit_current_segment"
  by (simp add: is_audit_segment_file_def audit_current_segment_def jsonl_ext_def ends_with_def)

section \<open>The shape of a canonical order\<close>

definition seg_list :: "bool \<Rightarrow> nat \<Rightarrow> string list" where
  "seg_list cur k =
     (if cur then [audit_current_segment] else []) @ map format_audit_segment_name [1..<Suc k]"

lemma set_seg_list:
  "set (seg_list cur k) =
     (if cur then {audit_current_segment} else {}) \<union> format_audit_segment_name ` {1..k}"
  by (auto simp: seg_list_def)

lemma distinct_seg_list [simp]: "distinct (seg_list cur k)"
  by (auto simp: seg_list_def distinct_map inj_on_def)

lemma seg_list_Suc: "seg_list cur (Suc k) = seg_list cur k @ [format_audit_segment_name (Suc k)]"
  by (simp add: seg_list_def)

lemma scan_segments_Inr:
  "scan_segments ns = Inr (cur, num) \<longleftrightarrow>
     (\<forall>n \<in> set ns. n = audit_current_segment \<or> audit_segment_number n \<noteq> None) \<and>
     cur = filter (\<lambda>n. n = audit_current_segment) ns \<and>
     num = map (\<lambda>n. (n, the (audit_segment_number n))) (filter (\<lambda>n. n \<noteq> audit_current_segment) ns)"
  by (induction ns arbitrary: cur num) (auto split: option.splits)

lemma consecutive_from_Inr:
  "consecutive_from i es = Inr u \<longleftrightarrow> map snd es = [Suc i..<Suc (i + length es)]"
proof (induction es arbitrary: i)
  case (Cons e es)
  then show ?case by (cases e) (auto simp: upt_conv_Cons)
qed simp

lemma filter_eq_distinct:
  "distinct ns \<Longrightarrow> filter (\<lambda>n. n = c) ns = (if c \<in> set ns then [c] else [])"
  by (induction ns) auto

lemma canonical_order_Inr:
  assumes "distinct ns"
  shows "canonical_audit_segment_order ns = Inr ord \<longleftrightarrow>
    (\<exists>cur k. ord = seg_list cur k \<and> set ns = set (seg_list cur k) \<and> k \<le> js_max_safe_nat)"
    (is "?L \<longleftrightarrow> ?R")
proof
  let ?num = "map (\<lambda>n. (n, the (audit_segment_number n))) (filter (\<lambda>n. n \<noteq> audit_current_segment) ns)"
  assume ?L
  then have all: "\<forall>n \<in> set ns. n = audit_current_segment \<or> audit_segment_number n \<noteq> None"
    and cons: "map snd (sort_key snd ?num) = [Suc 0..<Suc (length ?num)]"
    and ord: "ord = filter (\<lambda>n. n = audit_current_segment) ns @ map fst (sort_key snd ?num)"
    by (auto simp: canonical_audit_segment_order_def Let_def scan_segments_Inr consecutive_from_Inr
        simp del: upt_Suc)
  let ?k = "length ?num" and ?cur = "audit_current_segment \<in> set ns"
  have fmt: "\<forall>e \<in> set ?num. fst e = format_audit_segment_name (snd e) \<and> snd e \<le> js_max_safe_nat"
    using all by (fastforce dest: segment_number_Some)
  then have "map fst (sort_key snd ?num) = map format_audit_segment_name (map snd (sort_key snd ?num))"
    by simp
  then have o: "ord = seg_list ?cur ?k"
    using ord cons filter_eq_distinct [OF assms] by (simp add: seg_list_def)
  have "set ord = set ns" using ord all by (auto simp: image_iff)
  moreover have "?k \<le> js_max_safe_nat"
  proof (cases "?k = 0")
    case False
    then have "?k \<in> set [Suc 0..<Suc ?k]" by (simp only: set_upt atLeastLessThan_iff) linarith
    then have "?k \<in> snd ` set ?num" unfolding cons [symmetric] by simp
    with fmt show ?thesis by (metis (no_types, lifting) imageE)
  qed simp
  ultimately show ?R using o by blast
next
  assume ?R
  then obtain cur k where o: "ord = seg_list cur k" and s: "set ns = set (seg_list cur k)"
    and k: "k \<le> js_max_safe_nat" by blast
  let ?num = "map (\<lambda>n. (n, the (audit_segment_number n))) (filter (\<lambda>n. n \<noteq> audit_current_segment) ns)"
  have "scan_segments ns = Inr (filter (\<lambda>n. n = audit_current_segment) ns, ?num)"
    using s k by (auto simp: scan_segments_Inr set_seg_list split: if_splits)
  moreover have snds: "map snd (sort_key snd ?num) = [Suc 0..<Suc k]"
  proof (rule sorted_distinct_set_unique)
    have "distinct (map snd ?num)"
      using assms s k by (auto simp: distinct_map inj_on_def set_seg_list split: if_splits)
    moreover have "mset (map snd (sort_key snd ?num)) = mset (map snd ?num)"
      by (simp only: mset_map mset_sort)
    ultimately show "distinct (map snd (sort_key snd ?num))"
      using mset_eq_imp_distinct_iff by blast
    have "{n \<in> set ns. n \<noteq> audit_current_segment} = format_audit_segment_name ` {1..k}"
      unfolding s set_seg_list by auto
    then have "set (map snd ?num) = (\<lambda>v. the (audit_segment_number (format_audit_segment_name v))) ` {1..k}"
      by (simp add: image_image)
    also have "\<dots> = (\<lambda>v. v) ` {1..k}"
      using k by (intro image_cong) auto
    finally show "set (map snd (sort_key snd ?num)) = set [Suc 0..<Suc k]"
      by (simp add: atLeastLessThanSuc_atLeastAtMost image_image del: upt_Suc)
  qed (simp_all del: upt_Suc)
  moreover have "length (sort_key snd ?num) = k"
    using arg_cong [OF snds, of length] by simp
  moreover have "map fst (sort_key snd ?num) = map format_audit_segment_name (map snd (sort_key snd ?num))"
    using s k by (auto simp: set_seg_list split: if_splits)
  moreover have "filter (\<lambda>n. n = audit_current_segment) ns = (if cur then [audit_current_segment] else [])"
    using s by (simp add: filter_eq_distinct [OF assms] set_seg_list image_iff)
  ultimately show ?L
    by (simp add: canonical_audit_segment_order_def Let_def consecutive_from_Inr o seg_list_def
        del: upt_Suc)
qed

lemma map_filter_seg_list [simp]:
  "k \<le> js_max_safe_nat \<Longrightarrow> List.map_filter audit_segment_number (seg_list cur k) = [1..<Suc k]"
proof (induction k)
  case 0
  then show ?case by (simp add: seg_list_def List.map_filter_def)
next
  case (Suc k)
  then show ?case by (simp add: seg_list_Suc List.map_filter_def)
qed

lemma foldl_max_upt: "foldl max 0 [1..<Suc k] = k"
  by (induction k) auto

lemma max_segment_seg_list [simp]:
  "k \<le> js_max_safe_nat \<Longrightarrow> max_segment_number (seg_list cur k) = k"
  unfolding max_segment_number_def by (simp only: map_filter_seg_list foldl_max_upt)

section \<open>The loop of the appender\<close>

definition seg_active :: "nat \<Rightarrow> string" where
  "seg_active k = (if k = 0 then audit_current_segment else format_audit_segment_name k)"

definition ledger_order :: "ledger_dir \<Rightarrow> bool \<Rightarrow> nat \<Rightarrow> bool" where
  "ledger_order d cur k \<longleftrightarrow>
     distinct (map fst d) \<and> set (segment_files d) = set (seg_list cur k) \<and> k \<le> js_max_safe_nat"

definition loop_ok :: "bool \<Rightarrow> nat \<Rightarrow> appender \<Rightarrow> bool" where
  "loop_ok cur k st \<longleftrightarrow>
     ledger_order (as_dir st) cur k \<and> as_highest st = k \<and> as_active st = seg_active k \<and>
     as_lines st = length (file_lines (content_of (as_dir st) (seg_active k))) \<and>
     as_bytes st = utf8_length (content_of (as_dir st) (seg_active k))"

lemma content_of_set [simp]:
  "content_of (obj_set n t d) m = (if m = n then t else content_of d m)"
  by (simp add: content_of_def)

lemma utf8_length_append [simp]: "utf8_length (a @ b) = utf8_length a + utf8_length b"
  by (simp add: utf8_length_def)

lemma utf8_length_Nil [simp]: "utf8_length [] = 0"
  by (simp add: utf8_length_def)

lemma segment_files_set:
  "set (segment_files (obj_set n t d)) =
     set (segment_files d) \<union> (if is_audit_segment_file n then {n} else {})"
  by (auto simp: segment_files_def keys_obj_set image_iff split: if_splits)

lemma distinct_segment_files: "distinct (map fst d) \<Longrightarrow> distinct (segment_files d)"
  by (simp add: segment_files_def)

lemma canonical_of_order:
  "ledger_order d cur k \<Longrightarrow> canonical_audit_segment_order (segment_files d) = Inr (seg_list cur k)"
  using canonical_order_Inr [OF distinct_segment_files] by (auto simp: ledger_order_def)

lemma order_of_canonical:
  assumes "distinct (map fst d)" and "canonical_audit_segment_order (segment_files d) = Inr ord"
  obtains cur k where "ord = seg_list cur k" and "ledger_order d cur k"
  using assms canonical_order_Inr [OF distinct_segment_files] by (auto simp: ledger_order_def)

lemma seg_active_is_file [simp]: "is_audit_segment_file (seg_active k)"
  by (simp add: seg_active_def)

lemma absent_content: "ledger_order d cur k \<Longrightarrow> is_audit_segment_file n \<Longrightarrow>
  n \<notin> set (seg_list cur k) \<Longrightarrow> content_of d n = []"
  unfolding ledger_order_def segment_files_def content_of_def
  by (force dest: map_of_SomeD split: option.splits)

definition line_closed :: "string \<Rightarrow> bool" where
  "line_closed t \<longleftrightarrow> t = [] \<or> last t = newline"

lemma line_closed_append [simp]: "line_closed (t @ line @ [newline])"
  by (simp add: line_closed_def)

lemma line_closed_text [simp]: "line_closed (lines_text ls)"
  by (induction ls rule: rev_induct) (auto simp: line_closed_def)

lemma file_lines_closed_append:
  assumes "line_closed t"
  shows "file_lines (t @ u) = file_lines t @ file_lines u"
proof (cases t rule: rev_cases)
  case (snoc r c)
  with assms have "t = r @ newline # []" by (simp add: line_closed_def)
  then show ?thesis using file_lines_append_nl [of r u] file_lines_append_nl [of r "[]"] by simp
qed simp

lemma file_lines_snoc:
  "line_closed t \<Longrightarrow> record_line l \<Longrightarrow> file_lines (t @ l @ [newline]) = file_lines t @ [l]"
  using file_lines_text [of "[l]"] by (simp add: file_lines_closed_append)

lemma file_lines_one: "record_line l \<Longrightarrow> file_lines (l @ [newline]) = [l]"
  using file_lines_snoc [of "[]" l] by (simp add: line_closed_def)

definition closed_ledger :: "ledger_dir \<Rightarrow> bool" where
  "closed_ledger d \<longleftrightarrow> (\<forall>n. is_audit_segment_file n \<longrightarrow> line_closed (content_of d n))"

text \<open>
  Appending: \<open>d\<close> holds the segments of \<open>p\<close>, continued by new ones; each segment's content is
  the old content followed by its share \<open>g\<close> of the lines \<open>ls\<close>, in canonical order, and the
  segments before the parent's last one have no share.
\<close>

definition ledger_extends :: "ledger_dir \<Rightarrow> ledger_dir \<Rightarrow> string list \<Rightarrow> bool" where
  "ledger_extends p d ls \<longleftrightarrow>
     (\<exists>cur0 k0 cur k os g.
        ledger_order p cur0 k0 \<and> ledger_order d cur k \<and>
        seg_list cur k = seg_list cur0 k0 @ os \<and> k \<le> k0 + length ls \<and>
        (\<forall>n. is_audit_segment_file n \<longrightarrow> content_of d n = content_of p n @ lines_text (g n)) \<and>
        concat (map g (seg_list cur k)) = ls \<and>
        (\<forall>n \<in> set (butlast (seg_list cur0 k0)). g n = []))"

lemma extends_refl: "ledger_order p cur k \<Longrightarrow> ledger_extends p p []"
  unfolding ledger_extends_def
  by (intro exI [of _ cur] exI [of _ k] exI [of _ "[]"] exI [of _ "\<lambda>_. []"]) auto

lemma sealed_concat:
  assumes "\<forall>n \<in> set (butlast os0). h n = []" and "\<forall>n \<in> set os1. f n = []"
  shows "concat (map (\<lambda>n. f n @ h n) (os0 @ os1)) = concat (map f os0) @ concat (map h (os0 @ os1))"
proof -
  have tail: "concat (map (\<lambda>n. f n @ h n) os1) = concat (map h os1)"
    using assms(2) by (induction os1) auto
  show ?thesis
  proof (cases os0 rule: rev_cases)
    case (snoc xs x)
    have "concat (map (\<lambda>n. f n @ h n) xs) = concat (map f xs)" "concat (map h xs) = []"
      using assms(1) by (simp_all add: snoc) (induction xs; auto)
    with tail snoc show ?thesis by simp
  qed (use tail in simp)
qed

lemma seg_list_files: "n \<in> set (seg_list cur k) \<Longrightarrow> is_audit_segment_file n"
  by (auto simp: set_seg_list split: if_splits)

lemma seg_list_unique:
  assumes "ledger_order d cur k" and "ledger_order d cur' k'"
  shows "seg_list cur k = seg_list cur' k'"
  using canonical_of_order [OF assms(1)] canonical_of_order [OF assms(2)] by simp

lemma extends_trans:
  assumes "ledger_extends p q xs" and "ledger_extends q d ys"
  shows "ledger_extends p d (xs @ ys)"
proof -
  from assms(1) obtain cur0 k0 cur1 k1 os1 f where p: "ledger_order p cur0 k0"
    and q: "ledger_order q cur1 k1" and o1: "seg_list cur1 k1 = seg_list cur0 k0 @ os1"
    and le1: "k1 \<le> k0 + length xs"
    and f: "\<forall>n. is_audit_segment_file n \<longrightarrow> content_of q n = content_of p n @ lines_text (f n)"
    and xs: "concat (map f (seg_list cur1 k1)) = xs"
    and sf: "\<forall>n \<in> set (butlast (seg_list cur0 k0)). f n = []"
    unfolding ledger_extends_def by blast
  from assms(2) obtain cur0' k0' cur2 k2 os2 h where q': "ledger_order q cur0' k0'"
    and d: "ledger_order d cur2 k2" and o2': "seg_list cur2 k2 = seg_list cur0' k0' @ os2"
    and le2': "k2 \<le> k0' + length ys"
    and h: "\<forall>n. is_audit_segment_file n \<longrightarrow> content_of d n = content_of q n @ lines_text (h n)"
    and ys: "concat (map h (seg_list cur2 k2)) = ys"
    and sh': "\<forall>n \<in> set (butlast (seg_list cur0' k0')). h n = []"
    unfolding ledger_extends_def by blast
  note same = seg_list_unique [OF q' q]
  have k: "k0' = k1"
    using arg_cong [OF same, of max_segment_number] q q' by (simp add: ledger_order_def)
  have o2: "seg_list cur2 k2 = seg_list cur1 k1 @ os2" and sh: "\<forall>n \<in> set (butlast (seg_list cur1 k1)). h n = []"
    using o2' sh' same by simp_all
  have "distinct (seg_list cur2 k2)" by simp
  then have new: "n \<notin> set (seg_list cur1 k1)" if "n \<in> set os2" for n
    using that o2 by auto
  have fnew: "\<forall>n \<in> set os2. f n = []"
  proof
    fix n assume n: "n \<in> set os2"
    then have fl: "is_audit_segment_file n" using o2 seg_list_files [of n cur2 k2] by simp
    from absent_content [OF q fl new [OF n]] f fl have "lines_text (f n) = []" by auto
    then show "f n = []" by (cases "f n") auto
  qed
  have "concat (map (\<lambda>n. f n @ h n) (seg_list cur2 k2)) = xs @ ys"
    unfolding o2 sealed_concat [OF sh fnew] using xs ys o2 by simp
  moreover have "\<forall>n. is_audit_segment_file n \<longrightarrow>
      content_of d n = content_of p n @ lines_text (f n @ h n)"
    using f h by simp
  moreover have "\<forall>n \<in> set (butlast (seg_list cur0 k0)). f n @ h n = []"
    using sf sh o1 by (auto simp: butlast_append split: if_splits dest: in_set_butlastD)
  ultimately show ?thesis
    unfolding ledger_extends_def using p d o1 o2 le1 le2' k
    by (intro exI [of _ cur0] exI [of _ k0] exI [of _ cur2] exI [of _ k2] exI [of _ "os1 @ os2"]
        exI [of _ "\<lambda>n. f n @ h n"]) auto
qed

text \<open>One line.\<close>

lemma next_order:
  assumes "ledger_order d cur k" and "k' = k \<or> k' = Suc k" and "k' \<le> js_max_safe_nat"
  shows "ledger_order (obj_set (seg_active k') t d) (cur \<or> k' = 0) k'"
  using assms
  by (auto simp: ledger_order_def segment_files_set distinct_obj_set set_seg_list seg_active_def
      split: if_splits)

definition line_target :: "ledger_limits \<Rightarrow> appender \<Rightarrow> string \<Rightarrow> nat \<Rightarrow> nat" where
  "line_target lm st line k = (if must_rotate lm st line then Suc k else k)"

lemma append_line_dir:
  assumes "loop_ok cur k st"
  shows "as_dir (append_line lm st line) =
    obj_set (seg_active (line_target lm st line k))
      (content_of (as_dir st) (seg_active (line_target lm st line k)) @ line @ [newline]) (as_dir st)"
  using assms
  by (simp add: append_line_def write_line_def rotate_segment_def line_target_def loop_ok_def seg_active_def)

lemma seg_list_next:
  assumes "k' = k \<or> k' = Suc k"
  shows "\<exists>os. seg_list (cur \<or> k' = 0) k' = seg_list cur k @ os"
    and "\<exists>ns. seg_list (cur \<or> k' = 0) k' = ns @ [seg_active k'] \<and>
           set (butlast (seg_list cur k)) \<subseteq> set ns"
proof -
  have act: "seg_list (cur \<or> j = 0) j =
      (if j = 0 then [] else seg_list cur (j - 1)) @ [seg_active j]" for j
    by (cases j) (auto simp: seg_list_def seg_active_def)
  have "seg_list cur 0 = [] \<or> seg_list cur 0 = [audit_current_segment]" by (simp add: seg_list_def)
  then show "\<exists>os. seg_list (cur \<or> k' = 0) k' = seg_list cur k @ os"
    using assms act [of k'] by (cases "k' = 0") (auto simp: seg_list_def seg_active_def)
  show "\<exists>ns. seg_list (cur \<or> k' = 0) k' = ns @ [seg_active k'] \<and>
      set (butlast (seg_list cur k)) \<subseteq> set ns"
    using assms act [of k] act [of k'] by (cases "k = 0")
      (auto simp: seg_list_def butlast_append dest: in_set_butlastD)
qed

lemma append_line_extends:
  assumes "loop_ok cur k st" and "Suc k \<le> js_max_safe_nat"
  shows "ledger_extends (as_dir st) (as_dir (append_line lm st line)) [line]"
proof -
  let ?k = "line_target lm st line k" and ?d = "as_dir st"
  let ?g = "\<lambda>n. if n = seg_active ?k then [line] else []"
  have kk: "?k = k \<or> ?k = Suc k" by (simp add: line_target_def)
  have o: "ledger_order ?d cur k" using assms(1) by (simp add: loop_ok_def)
  have o': "ledger_order (as_dir (append_line lm st line)) (cur \<or> ?k = 0) ?k"
    unfolding append_line_dir [OF assms(1)] using next_order [OF o kk] kk assms(2) by auto
  from seg_list_next(2) [OF kk] obtain ns
    where ns: "seg_list (cur \<or> ?k = 0) ?k = ns @ [seg_active ?k]"
      and sub: "set (butlast (seg_list cur k)) \<subseteq> set ns" by blast
  have notin: "seg_active ?k \<notin> set ns"
    using ns distinct_seg_list [of "cur \<or> ?k = 0" ?k] by simp
  then have "concat (map ?g ns) = []" by (induction ns) auto
  with ns have g: "concat (map ?g (seg_list (cur \<or> ?k = 0) ?k)) = [line]" by simp
  have sealed: "\<forall>n \<in> set (butlast (seg_list cur k)). ?g n = []" using sub notin by auto
  from seg_list_next(1) [OF kk] obtain os where "seg_list (cur \<or> ?k = 0) ?k = seg_list cur k @ os" by blast
  then show ?thesis
    unfolding ledger_extends_def using o o' g sealed kk
    by (intro exI [of _ cur] exI [of _ k] exI [of _ "cur \<or> ?k = 0"] exI [of _ ?k] exI [of _ os]
        exI [of _ ?g]) (auto simp: append_line_dir [OF assms(1)])
qed

lemma append_line_closed:
  assumes "loop_ok cur k st" and "closed_ledger (as_dir st)"
  shows "closed_ledger (as_dir (append_line lm st line))"
  using assms(2) by (auto simp: closed_ledger_def append_line_dir [OF assms(1)] line_closed_def)

lemma append_line_loop:
  assumes "loop_ok cur k st" and "Suc k \<le> js_max_safe_nat" and "record_line line"
    and "closed_ledger (as_dir st)"
  shows "loop_ok (cur \<or> line_target lm st line k = 0) (line_target lm st line k) (append_line lm st line)"
proof -
  let ?k = "line_target lm st line k"
  have kk: "?k = k \<or> ?k = Suc k" by (simp add: line_target_def)
  have o: "ledger_order (as_dir st) cur k" using assms(1) by (simp add: loop_ok_def)
  have "ledger_order (as_dir (append_line lm st line)) (cur \<or> ?k = 0) ?k"
    unfolding append_line_dir [OF assms(1)] using next_order [OF o kk] kk assms(2) by auto
  moreover have "seg_active (Suc k) \<notin> set (seg_list cur k)"
    by (auto simp: seg_active_def set_seg_list)
  then have "content_of (as_dir st) (seg_active (Suc k)) = []"
    by (intro absent_content [OF o]) simp_all
  moreover have "line_closed (content_of (as_dir st) (seg_active j))" for j
    using assms(4) by (simp add: closed_ledger_def)
  ultimately show ?thesis
    using assms(1) file_lines_snoc [OF _ assms(3)]
    by (auto simp: loop_ok_def append_line_dir append_line_def write_line_def rotate_segment_def
        line_target_def seg_active_def file_lines_one [OF assms(3)])
qed

text \<open>A batch.\<close>

lemma fold_append_extends:
  assumes "loop_ok cur k st" and "k + length lines \<le> js_max_safe_nat"
    and "\<forall>l \<in> set lines. record_line l" and "closed_ledger (as_dir st)"
  shows "ledger_extends (as_dir st) (as_dir (foldl (append_line lm) st lines)) lines \<and>
    closed_ledger (as_dir (foldl (append_line lm) st lines))"
  using assms
proof (induction lines arbitrary: cur k st)
  case Nil
  then show ?case using extends_refl by (auto simp: loop_ok_def)
next
  case (Cons line lines)
  let ?st = "append_line lm st line" and ?k = "line_target lm st line k"
  have k: "Suc k \<le> js_max_safe_nat" using Cons.prems by simp
  have rl: "record_line line" using Cons.prems by simp
  have 1: "ledger_extends (as_dir st) (as_dir ?st) [line]"
    by (rule append_line_extends [OF Cons.prems(1) k])
  have "?k + length lines \<le> js_max_safe_nat" using Cons.prems(2) by (simp add: line_target_def)
  from Cons.IH [OF append_line_loop [OF Cons.prems(1) k rl Cons.prems(4)] this _
      append_line_closed [OF Cons.prems(1,4)]] Cons.prems(3)
  have 2: "ledger_extends (as_dir ?st) (as_dir (foldl (append_line lm) ?st lines)) lines"
    and c: "closed_ledger (as_dir (foldl (append_line lm) ?st lines))" by simp_all
  from extends_trans [OF 1 2] c show ?case by simp
qed

lemma open_appender_loop:
  assumes "ledger_order d cur k"
  shows "loop_ok cur k (open_appender d (seg_list cur k))"
proof -
  have "(if seg_list cur k \<noteq> [] then last (seg_list cur k) else audit_current_segment) = seg_active k"
    by (cases k) (auto simp: seg_list_def seg_active_def)
  with assms show ?thesis
    by (auto simp: loop_ok_def open_appender_def Let_def count_non_blank_def ledger_order_def content_of_def)
qed

definition ledger_valid :: "ledger_dir \<Rightarrow> bool" where
  "ledger_valid d \<longleftrightarrow> distinct (map fst d) \<and> closed_ledger d \<and>
     (\<exists>ord. canonical_audit_segment_order (segment_files d) = Inr ord)"

definition ledger_view :: "ledger_dir \<Rightarrow> string list" where
  "ledger_view d =
     (case canonical_audit_segment_order (segment_files d) of
        Inl _ \<Rightarrow> []
      | Inr ord \<Rightarrow> concat (map (\<lambda>n. file_lines (content_of d n)) ord))"

definition ledger_room :: "ledger_dir \<Rightarrow> nat" where
  "ledger_room d = js_max_safe_nat - max_segment_number (segment_files d)"

lemma max_segment_set:
  assumes "ledger_order d cur k"
  shows "max_segment_number (segment_files d) = k"
proof -
  let ?vs = "List.map_filter audit_segment_number (segment_files d)"
  have foldmax: "foldl max a vs = Max (insert a (set vs))" for a :: nat and vs
  proof (induction vs arbitrary: a)
    case (Cons b vs)
    then show ?case by (cases "set vs = {}") (simp_all add: max.assoc)
  qed simp
  have "set ?vs = set (List.map_filter audit_segment_number (seg_list cur k))"
    using assms by (auto simp: ledger_order_def List.map_filter_def)
  then have "set ?vs = {1..k}"
    using assms by (simp add: ledger_order_def atLeastLessThanSuc_atLeastAtMost del: upt_Suc)
  then have "max_segment_number (segment_files d) = Max (insert 0 {1..k})"
    by (simp only: max_segment_number_def foldmax)
  then show ?thesis by (cases k) (auto intro: Max_eqI)
qed

lemma append_ledger_extends:
  assumes "ledger_valid d" and "\<forall>l \<in> set lines. record_line l" and "length lines \<le> ledger_room d"
  obtains d' where "append_audit_ledger lm d lines = Inr d'" and "ledger_extends d d' lines"
    and "closed_ledger d'"
proof -
  from assms(1) obtain ord where "distinct (map fst d)" and c: "closed_ledger d"
    and ord: "canonical_audit_segment_order (segment_files d) = Inr ord"
    by (auto simp: ledger_valid_def)
  then obtain cur k where o: "ord = seg_list cur k" "ledger_order d cur k"
    using order_of_canonical by blast
  have "k \<le> js_max_safe_nat" using o(2) by (simp add: ledger_order_def)
  then have k: "k + length lines \<le> js_max_safe_nat"
    using assms(3) unfolding ledger_room_def max_segment_set [OF o(2)] by arith
  have d: "as_dir (open_appender d ord) = d" by (simp add: open_appender_def Let_def)
  show thesis
  proof (cases "lines = []")
    case True
    then show ?thesis using that extends_refl [OF o(2)] c by (simp add: append_audit_ledger_def)
  next
    case False
    then show ?thesis
      using that ord fold_append_extends [OF open_appender_loop [OF o(2)] k assms(2)] c d o(1)
      by (simp add: append_audit_ledger_def)
  qed
qed

lemma extends_view:
  assumes "ledger_extends p d ls" and "closed_ledger p" and "\<forall>l \<in> set ls. record_line l"
  shows "ledger_view d = ledger_view p @ ls"
proof -
  from assms(1) obtain cur0 k0 cur k os g where p: "ledger_order p cur0 k0"
    and d: "ledger_order d cur k" and o: "seg_list cur k = seg_list cur0 k0 @ os"
    and g: "\<forall>n. is_audit_segment_file n \<longrightarrow> content_of d n = content_of p n @ lines_text (g n)"
    and ls: "concat (map g (seg_list cur k)) = ls"
    and sg: "\<forall>n \<in> set (butlast (seg_list cur0 k0)). g n = []"
    unfolding ledger_extends_def by blast
  have new: "\<forall>n \<in> set os. file_lines (content_of p n) = []"
  proof
    fix n assume n: "n \<in> set os"
    have "distinct (seg_list cur k)" by simp
    with n o have "n \<notin> set (seg_list cur0 k0)" by auto
    then have "content_of p n = []" using absent_content [OF p] n o seg_list_files [of n cur k] by simp
    then show "file_lines (content_of p n) = []" by simp
  qed
  have part: "file_lines (content_of d n) = file_lines (content_of p n) @ g n"
    if "n \<in> set (seg_list cur k)" for n
  proof -
    have "\<forall>l \<in> set (g n). record_line l" using that ls assms(3) by auto
    then have "file_lines (lines_text (g n)) = g n" by (rule file_lines_text)
    then show ?thesis using g assms(2) seg_list_files [OF that]
      by (simp add: closed_ledger_def file_lines_closed_append)
  qed
  have "ledger_view d = concat (map (\<lambda>n. file_lines (content_of p n) @ g n) (seg_list cur k))"
    using part by (simp add: ledger_view_def canonical_of_order [OF d] cong: map_cong)
  also have "\<dots> = ledger_view p @ ls"
    unfolding o sealed_concat [OF sg new] using ls o by (simp add: ledger_view_def canonical_of_order [OF p])
  finally show ?thesis .
qed

lemma extends_valid: "ledger_extends p d ls \<Longrightarrow> closed_ledger d \<Longrightarrow> ledger_valid d"
  unfolding ledger_extends_def ledger_valid_def using canonical_of_order
  by (auto simp: ledger_order_def)

lemma extends_room:
  assumes "ledger_extends p d ls"
  shows "ledger_room p \<le> ledger_room d + length ls"
proof -
  from assms obtain cur0 k0 cur k where "ledger_order p cur0 k0" "ledger_order d cur k" "k \<le> k0 + length ls"
    unfolding ledger_extends_def by blast
  then show ?thesis using max_segment_set by (auto simp: ledger_room_def)
qed

section \<open>The ledger as an append-only log\<close>

text \<open>
  What the serializer relies on when it flushes and the change feed when it replays: appending
  succeeds while there is room, keeps the log well formed and adds exactly the given lines at
  the end of the view.
\<close>

locale append_only_log =
  fixes valid :: "'d \<Rightarrow> bool"
    and view :: "'d \<Rightarrow> 'l list"
    and room :: "'d \<Rightarrow> nat"
    and good :: "'l \<Rightarrow> bool"
    and append_log :: "'d \<Rightarrow> 'l list \<Rightarrow> 'e + 'd"
  assumes append_ok:
    "valid d \<Longrightarrow> \<forall>l \<in> set ls. good l \<Longrightarrow> length ls \<le> room d \<Longrightarrow>
     \<exists>d'. append_log d ls = Inr d' \<and> valid d' \<and> view d' = view d @ ls \<and> room d \<le> room d' + length ls"
begin

fun append_batches :: "'d \<Rightarrow> 'l list list \<Rightarrow> 'e + 'd" where
  "append_batches d [] = Inr d"
| "append_batches d (b # bs) = res_bind (append_log d b) (\<lambda>d'. append_batches d' bs)"

lemma batches_view:
  assumes "valid d" and "\<forall>b \<in> set bs. \<forall>l \<in> set b. good l" and "length (concat bs) \<le> room d"
  shows "\<exists>d'. append_batches d bs = Inr d' \<and> valid d' \<and> view d' = view d @ concat bs"
  using assms
proof (induction bs arbitrary: d)
  case (Cons b bs)
  from Cons.prems append_ok [of d b] obtain d1 where d1: "append_log d b = Inr d1" "valid d1"
    "view d1 = view d @ b" "room d \<le> room d1 + length b" by auto
  with Cons.IH [of d1] Cons.prems show ?case by auto
qed simp

end

interpretation audit_log:
  append_only_log ledger_valid ledger_view ledger_room record_line "append_audit_ledger lm"
  for lm :: ledger_limits
proof
  fix d :: ledger_dir and ls :: "string list"
  assume v: "ledger_valid d" and r: "\<forall>l \<in> set ls. record_line l" and n: "length ls \<le> ledger_room d"
  from append_ledger_extends [OF v r n] obtain d' where d': "append_audit_ledger lm d ls = Inr d'"
    "ledger_extends d d' ls" "closed_ledger d'" by blast
  have "closed_ledger d" using v by (simp add: ledger_valid_def)
  with d' r extends_view extends_valid extends_room
  show "\<exists>d'. append_audit_ledger lm d ls = Inr d' \<and> ledger_valid d' \<and>
      ledger_view d' = ledger_view d @ ls \<and> ledger_room d \<le> ledger_room d' + length ls" by metis
qed

section \<open>Segment bounds\<close>

definition segment_bounded :: "ledger_limits \<Rightarrow> string \<Rightarrow> bool" where
  "segment_bounded lm t \<longleftrightarrow>
     length (file_lines t) \<le> maxLines lm \<and>
     (utf8_length t \<le> maxBytes lm \<or> length (file_lines t) \<le> 1)"

definition ledger_bounded :: "ledger_limits \<Rightarrow> ledger_dir \<Rightarrow> bool" where
  "ledger_bounded lm d \<longleftrightarrow> (\<forall>n. is_audit_segment_file n \<longrightarrow> segment_bounded lm (content_of d n))"

lemma utf8_pos: "t \<noteq> [] \<Longrightarrow> 0 < utf8_length t"
  by (cases t) (auto simp: utf8_length_def)

lemma append_line_bounded:
  assumes "loop_ok cur k st" and "closed_ledger (as_dir st)" and "record_line line"
    and "ledger_bounded lm (as_dir st)" and "1 \<le> maxLines lm"
  shows "ledger_bounded lm (as_dir (append_line lm st line))"
proof -
  let ?k = "line_target lm st line k" and ?t = "content_of (as_dir st) (seg_active k)"
  have o: "ledger_order (as_dir st) cur k" using assms(1) by (simp add: loop_ok_def)
  have "seg_active (Suc k) \<notin> set (seg_list cur k)" by (auto simp: seg_active_def set_seg_list)
  then have new: "content_of (as_dir st) (seg_active (Suc k)) = []"
    by (intro absent_content [OF o]) simp_all
  have cl: "line_closed ?t" using assms(2) by (simp add: closed_ledger_def)
  have one: "length (file_lines (line @ [newline])) = 1"
    by (simp add: file_lines_one [OF assms(3)])
  have "segment_bounded lm (content_of (as_dir st) (seg_active ?k) @ line @ [newline])"
  proof (cases "must_rotate lm st line")
    case True
    then show ?thesis using one new assms(5) by (simp add: line_target_def segment_bounded_def)
  next
    case False
    have "as_bytes st = utf8_length ?t" "as_lines st = length (file_lines ?t)"
      using assms(1) by (simp_all add: loop_ok_def)
    with False show ?thesis using file_lines_snoc [OF cl assms(3)] utf8_pos [of ?t]
      by (cases "?t = []") (auto simp: line_target_def segment_bounded_def must_rotate_def)
  qed
  with assms(4) show ?thesis by (auto simp: ledger_bounded_def append_line_dir [OF assms(1)])
qed

lemma fold_append_bounded:
  assumes "loop_ok cur k st" and "k + length lines \<le> js_max_safe_nat"
    and "\<forall>l \<in> set lines. record_line l" and "closed_ledger (as_dir st)"
    and "ledger_bounded lm (as_dir st)" and "1 \<le> maxLines lm"
  shows "ledger_bounded lm (as_dir (foldl (append_line lm) st lines))"
  using assms
proof (induction lines arbitrary: cur k st)
  case (Cons line lines)
  have k: "Suc k \<le> js_max_safe_nat" and rl: "record_line line" using Cons.prems by simp_all
  have "line_target lm st line k + length lines \<le> js_max_safe_nat"
    using Cons.prems(2) by (simp add: line_target_def)
  from Cons.IH [OF append_line_loop [OF Cons.prems(1) k rl Cons.prems(4)] this _
      append_line_closed [OF Cons.prems(1,4)]
      append_line_bounded [OF Cons.prems(1,4) rl Cons.prems(5,6)] Cons.prems(6)] Cons.prems(3)
  show ?case by simp
qed simp

section \<open>Properties\<close>

text \<open>C13: the appender implements an append-only log.  On a well-formed ledger with room for
  new segment numbers, any sequence of flushes succeeds whatever the rotation bounds, leaves the
  ledger well formed, and the lines read back in canonical segment and line order are the old
  ones followed by exactly the appended ones, in order.\<close>

theorem ledger_append_refines:
  assumes "ledger_valid d" and "\<forall>b \<in> set flushes. \<forall>l \<in> set b. record_line l"
    and "length (concat flushes) \<le> ledger_room d"
  shows "\<exists>d'. audit_log.append_batches lm d flushes = Inr d' \<and> ledger_valid d' \<and>
    ledger_view d' = ledger_view d @ concat flushes"
  by (rule audit_log.batches_view [OF assms])

definition sample_ledger :: ledger_dir where
  "sample_ledger = [(''README.md'', ''x''), (''current.jsonl'', ''a'' @ [newline])]"

lemma sample_ledger_order: "ledger_order sample_ledger True 0"
  by (simp add: ledger_order_def sample_ledger_def segment_files_def is_audit_segment_file_def
      ends_with_def jsonl_ext_def seg_list_def audit_current_segment_def js_max_safe_nat_def)

lemma sample_ledger_valid: "ledger_valid sample_ledger"
  using canonical_of_order [OF sample_ledger_order]
  by (auto simp: ledger_valid_def closed_ledger_def sample_ledger_def content_of_def line_closed_def
      is_audit_segment_file_def ends_with_def jsonl_ext_def split: if_splits)

lemma sample_ledger_room: "n \<le> 9007199254740991 \<Longrightarrow> n \<le> ledger_room sample_ledger"
  by (simp add: ledger_room_def max_segment_set [OF sample_ledger_order] js_max_safe_nat_def)

theorem ledger_append_refines_witness:
  "\<exists>d'. audit_log.append_batches \<lparr>maxLines = 1, maxBytes = 100\<rparr> sample_ledger [[''b'', ''c''], [''d'']] = Inr d' \<and>
     ledger_valid d' \<and> ledger_view d' = ledger_view sample_ledger @ [''b'', ''c'', ''d'']"
  using ledger_append_refines [OF sample_ledger_valid, of "[[''b'', ''c''], [''d'']]"
      "\<lparr>maxLines = 1, maxBytes = 100\<rparr>"] sample_ledger_room [of 3]
  by (simp add: record_line_def blank_iff is_space_def newline_def)

text \<open>A sealed segment is never touched again.  An append keeps every segment of the old
  ledger in place and in order; all but the last keep their exact bytes, the last one is only
  extended, and new segments come after it.\<close>

theorem ledger_sealed_segments:
  assumes "ledger_valid d" and "\<forall>l \<in> set lines. record_line l" and "length lines \<le> ledger_room d"
    and "append_audit_ledger lm d lines = Inr d'"
    and "canonical_audit_segment_order (segment_files d) = Inr ord"
  shows "\<exists>os. canonical_audit_segment_order (segment_files d') = Inr (ord @ os) \<and>
    (\<forall>n \<in> set (butlast ord). content_of d' n = content_of d n) \<and>
    (\<forall>n \<in> set ord. \<exists>added. content_of d' n = content_of d n @ added)"
proof -
  from append_ledger_extends [OF assms(1-3), of lm] assms(4) have "ledger_extends d d' lines"
    by auto
  then obtain cur0 k0 cur k os g where p: "ledger_order d cur0 k0" and d: "ledger_order d' cur k"
    and o: "seg_list cur k = seg_list cur0 k0 @ os"
    and g: "\<forall>n. is_audit_segment_file n \<longrightarrow> content_of d' n = content_of d n @ lines_text (g n)"
    and sg: "\<forall>n \<in> set (butlast (seg_list cur0 k0)). g n = []"
    unfolding ledger_extends_def by blast
  have ord: "ord = seg_list cur0 k0" using assms(5) canonical_of_order [OF p] by simp
  have fl: "is_audit_segment_file n" if "n \<in> set ord" for n
    using that seg_list_files ord by blast
  have "content_of d' n = content_of d n" if n: "n \<in> set (butlast ord)" for n
    using g sg fl [OF in_set_butlastD [OF n]] n ord by simp
  moreover have "\<exists>added. content_of d' n = content_of d n @ added" if "n \<in> set ord" for n
    using g fl [OF that] by blast
  ultimately show ?thesis using canonical_of_order [OF d] o ord by auto
qed

theorem ledger_sealed_segments_witness:
  "\<exists>d' os. append_audit_ledger \<lparr>maxLines = 1, maxBytes = 100\<rparr> sample_ledger [''b''] = Inr d' \<and>
     canonical_audit_segment_order (segment_files d') = Inr ([audit_current_segment] @ os)"
proof -
  have r: "\<forall>l \<in> set [''b'']. record_line l" by (simp add: record_line_def blank_iff is_space_def newline_def)
  have n: "length [''b''] \<le> ledger_room sample_ledger" using sample_ledger_room [of 1] by simp
  obtain d' where d': "append_audit_ledger \<lparr>maxLines = 1, maxBytes = 100\<rparr> sample_ledger [''b''] = Inr d'"
    using append_ledger_extends [OF sample_ledger_valid r n] by blast
  have "canonical_audit_segment_order (segment_files sample_ledger) = Inr [audit_current_segment]"
    using canonical_of_order [OF sample_ledger_order] by (simp add: seg_list_def)
  from ledger_sealed_segments [OF sample_ledger_valid r n d' this] d' show ?thesis by blast
qed

text \<open>Segments respect the configured bounds.  If every segment holds at most the configured
  number of lines, and at most the configured bytes unless it holds a single line, the same is
  true after any flush.\<close>

theorem ledger_segment_bounds:
  assumes "ledger_valid d" and "\<forall>l \<in> set lines. record_line l" and "length lines \<le> ledger_room d"
    and "ledger_bounded lm d" and "1 \<le> maxLines lm" and "append_audit_ledger lm d lines = Inr d'"
  shows "ledger_bounded lm d'"
proof (cases "lines = []")
  case True
  with assms show ?thesis by (simp add: append_audit_ledger_def)
next
  case False
  from assms(1) obtain ord where v: "distinct (map fst d)" "closed_ledger d"
    "canonical_audit_segment_order (segment_files d) = Inr ord" by (auto simp: ledger_valid_def)
  then obtain cur k where o: "ord = seg_list cur k" "ledger_order d cur k"
    using order_of_canonical by blast
  have "k \<le> js_max_safe_nat" using o(2) by (simp add: ledger_order_def)
  then have k: "k + length lines \<le> js_max_safe_nat"
    using assms(3) unfolding ledger_room_def max_segment_set [OF o(2)] by arith
  have d: "as_dir (open_appender d ord) = d" by (simp add: open_appender_def Let_def)
  from fold_append_bounded [OF open_appender_loop [OF o(2)] k assms(2)] assms(4,5) v(2) d o(1)
  have "ledger_bounded lm (as_dir (foldl (append_line lm) (open_appender d ord) lines))" by simp
  with assms(6) False v(3) show ?thesis by (simp add: append_audit_ledger_def)
qed

theorem ledger_segment_bounds_witness:
  "\<exists>d'. append_audit_ledger \<lparr>maxLines = 1, maxBytes = 100\<rparr> sample_ledger [''b'', ''c''] = Inr d' \<and>
     ledger_bounded \<lparr>maxLines = 1, maxBytes = 100\<rparr> d'"
proof -
  have r: "\<forall>l \<in> set [''b'', ''c'']. record_line l"
    by (simp add: record_line_def blank_iff is_space_def newline_def)
  have n: "length [''b'', ''c''] \<le> ledger_room sample_ledger" using sample_ledger_room [of 2] by simp
  obtain d' where d': "append_audit_ledger \<lparr>maxLines = 1, maxBytes = 100\<rparr> sample_ledger [''b'', ''c''] = Inr d'"
    using append_ledger_extends [OF sample_ledger_valid r n] by blast
  have "ledger_bounded \<lparr>maxLines = 1, maxBytes = 100\<rparr> sample_ledger"
    by (auto simp: ledger_bounded_def segment_bounded_def sample_ledger_def content_of_def file_lines_def
        newline_def utf8_length_def is_audit_segment_file_def ends_with_def jsonl_ext_def
        split: if_splits)
  from ledger_segment_bounds [OF sample_ledger_valid r n this _ d'] d' show ?thesis by auto
qed

text \<open>Segment numbers and segment names are in bijection.  A file name is read as segment
  \<open>v\<close> exactly when it is the padded name the appender gives to segment \<open>v\<close> and \<open>v\<close> is a
  positive safe integer; unpadded names and the reserved current segment are not numbers.\<close>

theorem segment_name_roundtrip:
  "audit_segment_number name = Some v \<longleftrightarrow>
     name = format_audit_segment_name v \<and> 0 < v \<and> v \<le> 9007199254740991"
  using segment_number_Some [of name v] segment_number_format [of v]
  by (auto simp: js_max_safe_nat_def)

end
