(* ===== verification/Change_Record.thy ===== *)
theory Change_Record
  imports Js_Values "HOL-Library.Char_ord" "HOL-Library.List_Lexorder"
begin

text \<open>
  Accepted change records, \<^verbatim>\<open>src/serialization/changeRecord.ts\<close>: which audit lines claim to
  be change records and which validate, the table declarations a namespace holds on disk, and
  the key material of a row.  The files of a namespace directory are a partial function from
  relative paths to contents; \<^verbatim>\<open>JSON.parse\<close> is the argument \<open>parse\<close> (\<open>None\<close> when it throws).
  Property names are ordinary strings, distinct from those of \<^verbatim>\<open>Object.prototype\<close>.
\<close>

section \<open>Records\<close>

datatype change_operation = Op_Insert | Op_Update | Op_Delete

record change_record =
  cr_ts :: string
  cr_ns :: string
  cr_table :: string
  cr_op :: change_operation
  cr_principal :: "string option"
  cr_seq :: "int option"
  cr_targetPath :: string
  cr_contentHash :: string
  cr_key :: "(string \<times> json) list"
  cr_tombstone :: bool
  cr_schemaVersion :: int

definition memories_table :: string where
  "memories_table = ''memories''"

definition change_record_markers :: "string list" where
  "change_record_markers = [''row'', ''key'', ''targetPath'', ''tombstone'', ''schemaVersion'']"

definition is_change_record_candidate :: "(string \<times> json) list \<Rightarrow> bool" where
  "is_change_record_candidate entry \<longleftrightarrow>
     map_of entry ''outcome'' = Some (JStr ''accepted'') \<and>
     ((case map_of entry ''contentHash'' of Some (JStr _) \<Rightarrow> True | _ \<Rightarrow> False) \<or>
      list_ex (\<lambda>f. map_of entry f \<noteq> None) change_record_markers)"

text \<open>The field readers of the schema; \<open>None\<close> is a validation issue.\<close>

fun string_min1 :: "json option \<Rightarrow> string option" where
  "string_min1 (Some (JStr s)) = (if s = [] then None else Some s)"
| "string_min1 _ = None"

fun operation_field :: "json option \<Rightarrow> change_operation option" where
  "operation_field (Some (JStr s)) =
     (if s = ''insert'' then Some Op_Insert else if s = ''update'' then Some Op_Update
      else if s = ''delete'' then Some Op_Delete else None)"
| "operation_field _ = None"

fun principal_field :: "json option \<Rightarrow> string option option" where
  "principal_field None = Some None"
| "principal_field (Some JNull) = Some None"
| "principal_field (Some (JStr s)) = Some (Some s)"
| "principal_field _ = None"

fun positive_int :: "json \<Rightarrow> int option" where
  "positive_int (JNum (Fin q)) =
     (if is_safe_integer (Fin q) \<and> 0 < \<lfloor>q\<rfloor> then Some \<lfloor>q\<rfloor> else None)"
| "positive_int _ = None"

fun seq_field :: "json option \<Rightarrow> int option option" where
  "seq_field None = Some None"
| "seq_field (Some v) = (case positive_int v of None \<Rightarrow> None | Some n \<Rightarrow> Some (Some n))"

definition is_hex_lower :: "char \<Rightarrow> bool" where
  "is_hex_lower c \<longleftrightarrow> is_digit c \<or> 97 \<le> (of_char c :: nat) \<and> (of_char c :: nat) \<le> 102"

fun hash_field :: "json option \<Rightarrow> string option" where
  "hash_field (Some (JStr s)) = (if length s = 64 \<and> list_all is_hex_lower s then Some s else None)"
| "hash_field _ = None"

fun object_field :: "json option \<Rightarrow> (string \<times> json) list option" where
  "object_field (Some (JObj ps)) = Some ps"
| "object_field _ = None"

fun bool_field :: "json option \<Rightarrow> bool option" where
  "bool_field (Some (JBool b)) = Some b"
| "bool_field _ = None"

definition validate_change_record :: "(string \<times> json) list \<Rightarrow> change_record option" where
  "validate_change_record e =
     Option.bind (string_min1 (map_of e ''ts'')) (\<lambda>ts.
     Option.bind (string_min1 (map_of e ''ns'')) (\<lambda>ns.
     Option.bind (string_min1 (map_of e ''table'')) (\<lambda>table.
     Option.bind (operation_field (map_of e ''op'')) (\<lambda>op.
     Option.bind (principal_field (map_of e ''principal'')) (\<lambda>principal.
     if map_of e ''outcome'' \<noteq> Some (JStr ''accepted'') then None else
     Option.bind (seq_field (map_of e ''seq'')) (\<lambda>seq.
     Option.bind (string_min1 (map_of e ''targetPath'')) (\<lambda>target.
     Option.bind (hash_field (map_of e ''contentHash'')) (\<lambda>hash.
     Option.bind (object_field (map_of e ''key'')) (\<lambda>key.
     Option.bind (bool_field (map_of e ''tombstone'')) (\<lambda>tomb.
     Option.bind (Option.bind (map_of e ''schemaVersion'') positive_int) (\<lambda>version.
       Some \<lparr>cr_ts = ts, cr_ns = ns, cr_table = table, cr_op = op, cr_principal = principal,
             cr_seq = seq, cr_targetPath = target, cr_contentHash = hash, cr_key = key,
             cr_tombstone = tomb, cr_schemaVersion = version\<rparr>)))))))))))"

section \<open>Table declarations on disk\<close>

type_synonym json_parser = "string \<Rightarrow> json option"
type_synonym namespace_files = "string \<Rightarrow> string option"

record declared_table_view =
  dt_primary :: "string option"
  dt_columns :: "string list"
  dt_schemaVersion :: int
  dt_keyColumns :: "string list option"

text \<open>The named properties of a value that is an object or an array (an array has none).\<close>

fun as_record :: "json \<Rightarrow> (string \<times> json) list option" where
  "as_record (JObj ps) = Some ps"
| "as_record (JArr _) = Some []"
| "as_record _ = None"

fun string_of :: "json \<Rightarrow> string option" where
  "string_of (JStr s) = Some s"
| "string_of _ = None"

definition column_name :: "json \<Rightarrow> string option" where
  "column_name c = Option.bind (as_record c) (\<lambda>ps. Option.bind (map_of ps ''name'') string_of)"

fun array_items :: "json option \<Rightarrow> json list" where
  "array_items (Some (JArr vs)) = vs"
| "array_items _ = []"

definition declared_version :: "json option \<Rightarrow> int" where
  "declared_version v =
     (case v of Some (JNum (Fin q)) \<Rightarrow> (if is_integer (Fin q) \<and> 0 < \<lfloor>q\<rfloor> then \<lfloor>q\<rfloor> else 1) | _ \<Rightarrow> 1)"

definition read_schema_json_table_view ::
  "json_parser \<Rightarrow> namespace_files \<Rightarrow> string \<Rightarrow> declared_table_view option" where
  "read_schema_json_table_view parse files table =
     (case Option.bind (files ''schema.json'') parse of
        Some (JObj doc) \<Rightarrow>
          (case map_of doc ''tables'' of
             Some (JObj tables) \<Rightarrow>
               (case Option.bind (map_of tables table) as_record of
                  None \<Rightarrow> None
                | Some t \<Rightarrow>
                    let keys = List.map_filter string_of (array_items (map_of t ''keyColumns''))
                    in Some \<lparr>dt_primary = (if length keys = 1 then Some (hd keys) else None),
                             dt_columns = List.map_filter column_name (array_items (map_of t ''columns'')),
                             dt_schemaVersion = declared_version (map_of t ''schemaVersion''),
                             dt_keyColumns = Some keys\<rparr>)
           | _ \<Rightarrow> None)
      | _ \<Rightarrow> None)"

definition read_declared_table_view ::
  "json_parser \<Rightarrow> namespace_files \<Rightarrow> string \<Rightarrow> declared_table_view option" where
  "read_declared_table_view parse files table =
     (case Option.bind (Option.bind (files (''tables/'' @ table @ ''.table.json'')) parse) as_record of
        None \<Rightarrow> read_schema_json_table_view parse files table
      | Some raw \<Rightarrow>
          Some \<lparr>dt_primary = Option.bind (map_of raw ''primary'') string_of,
                dt_columns = List.map_filter column_name (array_items (map_of raw ''columns'')),
                dt_schemaVersion = declared_version (map_of raw ''schemaVersion''),
                dt_keyColumns = None\<rparr>)"

definition declared_key_columns ::
  "json_parser \<Rightarrow> namespace_files \<Rightarrow> string \<Rightarrow> string list" where
  "declared_key_columns parse files table =
     (if table = memories_table then [''id'']
      else case read_declared_table_view parse files table of
          None \<Rightarrow> []
        | Some d \<Rightarrow>
            (case dt_keyColumns d of
               Some (k # ks) \<Rightarrow> k # ks
             | _ \<Rightarrow> (case dt_primary d of None \<Rightarrow> [] | Some [] \<Rightarrow> [] | Some p \<Rightarrow> [p])))"

definition declared_schema_version ::
  "json_parser \<Rightarrow> namespace_files \<Rightarrow> string \<Rightarrow> int" where
  "declared_schema_version parse files table =
     (if table = memories_table then 1
      else case read_declared_table_view parse files table of None \<Rightarrow> 1 | Some d \<Rightarrow> dt_schemaVersion d)"

definition column_order :: "json_parser \<Rightarrow> namespace_files \<Rightarrow> string \<Rightarrow> string list" where
  "column_order parse files table =
     (case read_declared_table_view parse files table of None \<Rightarrow> [] | Some d \<Rightarrow> dt_columns d)"

section \<open>Key material\<close>

fun index_of :: "'a \<Rightarrow> 'a list \<Rightarrow> nat option" where
  "index_of x [] = None"
| "index_of x (y # ys) = (if x = y then Some 0 else map_option Suc (index_of x ys))"

text \<open>The value a row carries for a column: by position for arrays, by name for objects.\<close>

definition row_column :: "string list \<Rightarrow> json \<Rightarrow> string \<Rightarrow> json option" where
  "row_column order row column =
     (case row of
        JArr vs \<Rightarrow>
          (case index_of column order of
             None \<Rightarrow> None
           | Some i \<Rightarrow> if i < length vs then Some (vs ! i) else None)
      | JObj ps \<Rightarrow> map_of ps column
      | _ \<Rightarrow> None)"

definition key_material_for ::
  "json_parser \<Rightarrow> namespace_files \<Rightarrow> string \<Rightarrow> json \<Rightarrow> (string \<times> json) list" where
  "key_material_for parse files table row =
     foldl (\<lambda>key column.
        case row_column (column_order parse files table) row column of
          None \<Rightarrow> key | Some v \<Rightarrow> obj_set column v key)
       [] (declared_key_columns parse files table)"

definition missing_key_columns ::
  "json_parser \<Rightarrow> namespace_files \<Rightarrow> string \<Rightarrow> json \<Rightarrow> string list" where
  "missing_key_columns parse files table row =
     filter (\<lambda>column. row_column (column_order parse files table) row column = None)
       (declared_key_columns parse files table)"

definition is_safe_repo_relative_path :: "string \<Rightarrow> bool" where
  "is_safe_repo_relative_path v \<longleftrightarrow>
     v \<noteq> [] \<and> \<not> starts_with ''/'' v \<and>
     ''..'' \<notin> set (split_on (CHR ''/'') (map (\<lambda>c. if c = CHR 0x5C then CHR ''/'' else c) v))"

definition content_hash_for :: "(string \<Rightarrow> string) \<Rightarrow> string \<Rightarrow> string" where
  "content_hash_for sha256_hex line = sha256_hex line"

section \<open>The record of a table mutation\<close>

text \<open>
  \<^verbatim>\<open>acceptedTableMutationRecord\<close> of \<^verbatim>\<open>src/serialization/audit.ts\<close>: the audit entry of an
  accepted insert, update or delete, or \<open>None\<close> when the audit schema refuses it.  The
  schema's ISO timestamp test is the argument \<open>isots\<close>.
\<close>

fun operation_name :: "change_operation \<Rightarrow> string" where
  "operation_name Op_Insert = ''insert''"
| "operation_name Op_Update = ''update''"
| "operation_name Op_Delete = ''delete''"

record mutation_input =
  mi_ns :: string
  mi_table :: string
  mi_op :: change_operation
  mi_principal :: "string option"
  mi_targetPath :: string
  mi_dataLine :: string
  mi_row :: json
  mi_ts :: string

fun optional_string :: "string option \<Rightarrow> json" where
  "optional_string None = JNull"
| "optional_string (Some s) = JStr s"

definition accepted_table_mutation_record ::
  "(string \<Rightarrow> bool) \<Rightarrow> json_parser \<Rightarrow> (string \<Rightarrow> string) \<Rightarrow> namespace_files \<Rightarrow> mutation_input
     \<Rightarrow> (string \<times> json) list option" where
  "accepted_table_mutation_record isots parse sha files m =
     (let hash = content_hash_for sha (mi_dataLine m);
          version = declared_schema_version parse files (mi_table m)
      in if isots (mi_ts m) \<and> mi_ns m \<noteq> [] \<and> mi_targetPath m \<noteq> [] \<and>
            length hash = 64 \<and> list_all is_hex_lower hash \<and> version \<le> js_max_safe
         then Some
           [(''ts'', JStr (mi_ts m)), (''ns'', JStr (mi_ns m)), (''table'', JStr (mi_table m)),
            (''op'', JStr (operation_name (mi_op m))),
            (''principal'', optional_string (mi_principal m)), (''outcome'', JStr ''accepted''),
            (''targetPath'', JStr (mi_targetPath m)), (''contentHash'', JStr hash),
            (''key'', JObj (key_material_for parse files (mi_table m) (mi_row m))),
            (''tombstone'', JBool (mi_op m = Op_Delete)),
            (''schemaVersion'', JNum (Fin (of_int version)))]
         else None)"

lemma declared_version_pos: "0 < declared_version v"
  by (auto simp: declared_version_def split: option.splits json.splits jsnum.splits)

lemma declared_schema_version_pos: "0 < declared_schema_version parse files table"
  by (auto simp: declared_schema_version_def read_declared_table_view_def
      read_schema_json_table_view_def declared_version_pos Let_def
      split: option.splits json.splits)

lemma positive_int_of_int: "0 < n \<Longrightarrow> n \<le> js_max_safe \<Longrightarrow> positive_int (JNum (Fin (of_int n))) = Some n"
  by simp

text \<open>The record the replay reads back from the entry.\<close>

definition mutation_change_record ::
  "json_parser \<Rightarrow> (string \<Rightarrow> string) \<Rightarrow> namespace_files \<Rightarrow> mutation_input \<Rightarrow> change_record" where
  "mutation_change_record parse sha files m =
     \<lparr>cr_ts = mi_ts m, cr_ns = mi_ns m, cr_table = mi_table m, cr_op = mi_op m,
      cr_principal = mi_principal m, cr_seq = None, cr_targetPath = mi_targetPath m,
      cr_contentHash = content_hash_for sha (mi_dataLine m),
      cr_key = key_material_for parse files (mi_table m) (mi_row m),
      cr_tombstone = (mi_op m = Op_Delete),
      cr_schemaVersion = declared_schema_version parse files (mi_table m)\<rparr>"

lemma operation_field_name [simp]: "operation_field (Some (JStr (operation_name op))) = Some op"
  by (cases op) auto

lemma principal_field_optional [simp]: "principal_field (Some (optional_string p)) = Some p"
  by (cases p) auto

lemma mutation_record_valid:
  assumes "accepted_table_mutation_record isots parse sha files m = Some e"
    and "mi_ts m \<noteq> []" and "mi_table m \<noteq> []"
  shows "is_change_record_candidate e"
    and "validate_change_record e = Some (mutation_change_record parse sha files m)"
proof -
  let ?v = "declared_schema_version parse files (mi_table m)"
  let ?h = "content_hash_for sha (mi_dataLine m)"
  have ok: "mi_ns m \<noteq> []" "mi_targetPath m \<noteq> []" "length ?h = 64" "list_all is_hex_lower ?h" "?v \<le> js_max_safe"
    using assms(1) by (auto simp: accepted_table_mutation_record_def Let_def split: if_splits)
  have e: "e = [(''ts'', JStr (mi_ts m)), (''ns'', JStr (mi_ns m)), (''table'', JStr (mi_table m)),
      (''op'', JStr (operation_name (mi_op m))),
      (''principal'', optional_string (mi_principal m)), (''outcome'', JStr ''accepted''),
      (''targetPath'', JStr (mi_targetPath m)), (''contentHash'', JStr ?h),
      (''key'', JObj (key_material_for parse files (mi_table m) (mi_row m))),
      (''tombstone'', JBool (mi_op m = Op_Delete)), (''schemaVersion'', JNum (Fin (of_int ?v)))]"
    using assms(1) by (simp add: accepted_table_mutation_record_def Let_def split: if_splits)
  show "is_change_record_candidate e" by (simp add: e is_change_record_candidate_def)
  show "validate_change_record e = Some (mutation_change_record parse sha files m)"
    using ok assms(2,3) positive_int_of_int [OF declared_schema_version_pos ok(5)]
    by (simp add: e validate_change_record_def mutation_change_record_def
        del: positive_int.simps operation_field.simps principal_field.simps)
qed

end
