(* ===== verification/Replay.thy ===== *)
theory Replay
  imports Change_Record Audit_Ledger
begin

text \<open>
  Replay of the committed changelog, \<^verbatim>\<open>src/http/realtime/replay.ts\<close>: the lines a commit
  added to the audit ledger relative to its first parent, the pairing of row images that were
  born and destroyed in one commit, the resolution of each record's row, and the numbered list
  of changes.  The git object store the code reads through \<^verbatim>\<open>src/git/ledger.ts\<close> is the
  record \<open>git_repo\<close>; the files of the namespace, the JSON parser, the hash and the text of
  non-integral numbers are arguments.
\<close>

section \<open>The repository\<close>

record git_repo =
  gr_tree :: "string \<Rightarrow> (string \<times> string) list"
  gr_blob :: "string \<Rightarrow> string"
  gr_path :: "string \<Rightarrow> string \<Rightarrow> string option"
  gr_parent :: "string \<Rightarrow> string option"
  gr_time :: "string \<Rightarrow> string"

datatype replay_error =
    Ledger ledger_error
  | Nested_Path string
  | Not_Append_Only string
  | Torn_Segment string
  | Bad_Json string nat
  | Not_An_Object string nat
  | Malformed_Record string nat
  | Wrong_Namespace string nat string
  | Tombstone_Mismatch string nat
  | Unsafe_Target string
  | Missing_Target string
  | No_Data_Row string nat
  | No_Row_Image string nat
  | Missing_Key string nat "string list"
  | Key_Mismatch string nat string

record segment_view =
  sv_order :: "string list"
  sv_shas :: "(string \<times> string) list"

definition audit_prefix_length :: nat where
  "audit_prefix_length = 7"

fun tree_segments ::
  "(string \<times> string) list \<Rightarrow> (string \<times> string) list \<Rightarrow> replay_error + (string \<times> string) list" where
  "tree_segments acc [] = Inr acc"
| "tree_segments acc ((path, sha) # es) =
     (let remainder = drop audit_prefix_length path
      in if CHR ''/'' \<in> set remainder then Inl (Nested_Path path)
         else if \<not> is_audit_segment_file remainder then tree_segments acc es
         else tree_segments (obj_set remainder sha acc) es)"

fun lift_ledger :: "ledger_error + 'a \<Rightarrow> replay_error + 'a" where
  "lift_ledger (Inl e) = Inl (Ledger e)"
| "lift_ledger (Inr a) = Inr a"

definition read_segment_view :: "git_repo \<Rightarrow> string \<Rightarrow> replay_error + segment_view" where
  "read_segment_view repo ref =
     res_bind (tree_segments [] (gr_tree repo ref)) (\<lambda>shas.
     res_bind (lift_ledger (canonical_audit_segment_order (map fst shas))) (\<lambda>ord.
       Inr \<lparr>sv_order = ord, sv_shas = shas\<rparr>))"

section \<open>Added lines\<close>

record added_line =
  al_segment :: string
  al_line :: nat
  al_text :: string

definition number_lines :: "string \<Rightarrow> nat \<Rightarrow> string list \<Rightarrow> added_line list" where
  "number_lines segment base ls =
     map (\<lambda>(i, l). \<lparr>al_segment = segment, al_line = base + i, al_text = l\<rparr>) (zip [1..<Suc (length ls)] ls)"

definition segment_added ::
  "git_repo \<Rightarrow> segment_view \<Rightarrow> segment_view option \<Rightarrow> string \<Rightarrow> replay_error + added_line list" where
  "segment_added repo child parent segment =
     (let childSha = the (map_of (sv_shas child) segment);
          parentSha = Option.bind parent (\<lambda>p. map_of (sv_shas p) segment)
      in if parentSha = Some childSha then Inr []
         else let childBytes = gr_blob repo childSha;
                  parentBytes = (case parentSha of None \<Rightarrow> [] | Some s \<Rightarrow> gr_blob repo s)
           in if \<not> starts_with parentBytes childBytes then Inl (Not_Append_Only segment)
              else if childBytes \<noteq> [] \<and> last childBytes \<noteq> newline then Inl (Torn_Segment segment)
              else Inr (number_lines segment (count_non_blank parentBytes)
                     (file_lines (drop (length parentBytes) childBytes))))"

definition added_audit_lines ::
  "git_repo \<Rightarrow> string \<Rightarrow> string option \<Rightarrow> replay_error + added_line list" where
  "added_audit_lines repo childRef parentRef =
     res_bind (read_segment_view repo childRef) (\<lambda>child.
     res_bind (case parentRef of None \<Rightarrow> Inr None
               | Some p \<Rightarrow> res_bind (read_segment_view repo p) (\<lambda>v. Inr (Some v))) (\<lambda>parent.
     res_bind (lift_ledger (assert_canonical_segment_advance
         (case parent of None \<Rightarrow> [] | Some v \<Rightarrow> sv_order v) (sv_order child))) (\<lambda>_.
     res_bind (res_map (segment_added repo child parent) (sv_order child)) (\<lambda>parts.
       Inr (concat parts)))))"

section \<open>Equality of JSON values\<close>

fun deep_equal_json :: "json \<Rightarrow> json \<Rightarrow> bool"
  and deep_equal_items :: "json list \<Rightarrow> json list \<Rightarrow> bool"
  and deep_equal_fields :: "(string \<times> json) list \<Rightarrow> (string \<times> json) list \<Rightarrow> bool" where
  "deep_equal_json JNull r = (r = JNull)"
| "deep_equal_json (JBool b) r = (r = JBool b)"
| "deep_equal_json (JNum x) r = (case r of JNum y \<Rightarrow> jnum_eq x y | _ \<Rightarrow> False)"
| "deep_equal_json (JStr s) r = (r = JStr s)"
| "deep_equal_json (JArr xs) r = (case r of JArr ys \<Rightarrow> deep_equal_items xs ys | _ \<Rightarrow> False)"
| "deep_equal_json (JObj ps) r =
     (case r of JObj qs \<Rightarrow> length ps = length qs \<and> deep_equal_fields ps qs | _ \<Rightarrow> False)"
| "deep_equal_items [] ys = (ys = [])"
| "deep_equal_items (x # xs) ys =
     (case ys of [] \<Rightarrow> False | y # ys' \<Rightarrow> deep_equal_json x y \<and> deep_equal_items xs ys')"
| "deep_equal_fields [] qs = True"
| "deep_equal_fields (p # ps) qs =
     ((case map_of qs (fst p) of None \<Rightarrow> False | Some w \<Rightarrow> deep_equal_json (snd p) w) \<and>
      deep_equal_fields ps qs)"

text \<open>The same on possibly absent properties (\<^verbatim>\<open>undefined === undefined\<close>).\<close>

fun deep_equal_opt :: "json option \<Rightarrow> json option \<Rightarrow> bool" where
  "deep_equal_opt None None = True"
| "deep_equal_opt (Some a) (Some b) = deep_equal_json a b"
| "deep_equal_opt _ _ = False"

section \<open>Row resolution\<close>

record replay_env =
  re_parse :: json_parser
  re_sha :: "string \<Rightarrow> string"
  re_fmt :: "rat \<Rightarrow> string"
  re_files :: namespace_files
  re_ns :: string

definition scan_hash :: "replay_env \<Rightarrow> string \<Rightarrow> string list \<Rightarrow> json option" where
  "scan_hash env hash ls =
     (case List.find (\<lambda>l. content_hash_for (re_sha env) l = hash \<and> re_parse env l \<noteq> None) ls of
        None \<Rightarrow> None | Some l \<Rightarrow> re_parse env l)"

definition resolve_data_row_by_hash ::
  "replay_env \<Rightarrow> git_repo \<Rightarrow> string \<Rightarrow> string \<Rightarrow> string \<Rightarrow> replay_error + json option" where
  "resolve_data_row_by_hash env repo commit targetPath hash =
     (if \<not> is_safe_repo_relative_path targetPath then Inl (Unsafe_Target targetPath)
      else case gr_path repo commit targetPath of
          None \<Rightarrow> Inl (Missing_Target targetPath)
        | Some bytes \<Rightarrow> Inr (scan_hash env hash (file_lines bytes)))"

definition same_key ::
  "replay_env \<Rightarrow> string \<Rightarrow> (string \<times> json) list \<Rightarrow> json \<Rightarrow> string \<Rightarrow> bool" where
  "same_key env table key row column =
     deep_equal_opt (map_of key column)
       (map_of (key_material_for (re_parse env) (re_files env) table row) column)"

definition resolve_data_row_by_key ::
  "replay_env \<Rightarrow> git_repo \<Rightarrow> string \<Rightarrow> string \<Rightarrow> string \<Rightarrow> (string \<times> json) list \<Rightarrow> json option" where
  "resolve_data_row_by_key env repo commit table targetPath key =
     (let columns = declared_key_columns (re_parse env) (re_files env) table
      in if columns = [] \<or> \<not> is_safe_repo_relative_path targetPath then None
         else case gr_path repo commit targetPath of
             None \<Rightarrow> None
           | Some bytes \<Rightarrow>
               List.find (\<lambda>row. list_all (same_key env table key row) columns)
                 (List.map_filter (re_parse env) (file_lines bytes)))"

section \<open>Row images born and destroyed in one commit\<close>

definition canonical_key_json :: "(rat \<Rightarrow> string) \<Rightarrow> (string \<times> json) list \<Rightarrow> string" where
  "canonical_key_json fmt key =
     json_compact fmt (JArr (map (\<lambda>(column, v). JArr [JStr column, v]) (sort_key fst key)))"

definition nul :: char where
  "nul = CHR 0x00"

definition row_image_signature ::
  "(rat \<Rightarrow> string) \<Rightarrow> string \<Rightarrow> (string \<times> json) list \<Rightarrow> string \<Rightarrow> string" where
  "row_image_signature fmt table key hash = table @ nul # canonical_key_json fmt key @ nul # hash"

datatype image_event = Birth string | Death string | No_Event

definition image_event_of :: "replay_env \<Rightarrow> string \<Rightarrow> image_event" where
  "image_event_of env text =
     (case re_parse env text of
        Some (JObj e) \<Rightarrow>
          (if map_of e ''outcome'' \<noteq> Some (JStr ''accepted'') then No_Event
           else (case (map_of e ''table'', map_of e ''contentHash'', map_of e ''key'') of
              (Some (JStr table), Some (JStr hash), Some (JObj key)) \<Rightarrow>
                (let signature = row_image_signature (re_fmt env) table key hash
                 in if map_of e ''op'' = Some (JStr ''delete'') \<and> map_of e ''tombstone'' = Some (JBool True)
                    then Death signature
                    else if map_of e ''op'' \<noteq> Some (JStr ''delete'') \<and>
                            map_of e ''tombstone'' = Some (JBool False)
                    then Birth signature else No_Event)
            | _ \<Rightarrow> No_Event))
      | _ \<Rightarrow> No_Event)"

definition same_window_birth_and_death :: "replay_env \<Rightarrow> string list \<Rightarrow> string list" where
  "same_window_birth_and_death env texts =
     (let events = map (image_event_of env) texts;
          deaths = nub (List.map_filter (\<lambda>e. case e of Death s \<Rightarrow> Some s | _ \<Rightarrow> None) events)
      in filter (\<lambda>s. Birth s \<in> set events) deaths)"

section \<open>Deriving the changes of a commit\<close>

record derived_change =
  dc_commit :: string
  dc_ordinal :: nat
  dc_record :: change_record
  dc_row :: json
  dc_committedAt :: string

text \<open>
  The row of a record and the failure the code would report when there is none: the row is
  looked up by hash at the child, then at the parent, then, unless the record is a tombstone, by
  declared key at the child; a failure is the one met at the child.
\<close>

fun found_row :: "replay_error + json option \<Rightarrow> json option" where
  "found_row (Inr x) = x"
| "found_row (Inl e) = None"

fun row_failure :: "replay_error + json option \<Rightarrow> replay_error option" where
  "row_failure (Inr x) = None"
| "row_failure (Inl e) = Some e"

definition row_at_parent ::
  "replay_env \<Rightarrow> git_repo \<Rightarrow> string option \<Rightarrow> change_record \<Rightarrow> json option" where
  "row_at_parent env repo parentRef r =
     Option.bind parentRef (\<lambda>p.
       found_row (resolve_data_row_by_hash env repo p (cr_targetPath r) (cr_contentHash r)))"

definition row_by_key :: "replay_env \<Rightarrow> git_repo \<Rightarrow> string \<Rightarrow> change_record \<Rightarrow> json option" where
  "row_by_key env repo childRef r =
     (if cr_tombstone r then None
      else resolve_data_row_by_key env repo childRef (cr_table r) (cr_targetPath r) (cr_key r))"

definition resolve_row ::
  "replay_env \<Rightarrow> git_repo \<Rightarrow> string \<Rightarrow> string option \<Rightarrow> change_record \<Rightarrow> json option \<times> replay_error option" where
  "resolve_row env repo childRef parentRef r =
     (let child = resolve_data_row_by_hash env repo childRef (cr_targetPath r) (cr_contentHash r)
      in case found_row child of
           Some row \<Rightarrow> (Some row, None)
         | None \<Rightarrow>
           (case row_at_parent env repo parentRef r of
              Some row \<Rightarrow> (Some row, None)
            | None \<Rightarrow>
              (case row_by_key env repo childRef r of
                 Some row \<Rightarrow> (Some row, None)
               | None \<Rightarrow> (None, row_failure child))))"

definition check_row ::
  "replay_env \<Rightarrow> added_line \<Rightarrow> change_record \<Rightarrow> json \<Rightarrow> replay_error + (change_record \<times> json) option" where
  "check_row env a r row =
     (if row = JNull then Inl (No_Row_Image (al_segment a) (al_line a))
      else if missing_key_columns (re_parse env) (re_files env) (cr_table r) row \<noteq> []
        then Inl (Missing_Key (al_segment a) (al_line a)
               (missing_key_columns (re_parse env) (re_files env) (cr_table r) row))
      else case List.find (\<lambda>c. \<not> same_key env (cr_table r) (cr_key r) row c)
                  (declared_key_columns (re_parse env) (re_files env) (cr_table r)) of
          Some c \<Rightarrow> Inl (Key_Mismatch (al_segment a) (al_line a) c)
        | None \<Rightarrow> Inr (Some (r, row)))"

definition derive_line ::
  "replay_env \<Rightarrow> git_repo \<Rightarrow> string \<Rightarrow> string option \<Rightarrow> string list \<Rightarrow> added_line
     \<Rightarrow> replay_error + (change_record \<times> json) option" where
  "derive_line env repo childRef parentRef bornAndDied a =
     (case re_parse env (al_text a) of
        None \<Rightarrow> Inl (Bad_Json (al_segment a) (al_line a))
      | Some (JObj entry) \<Rightarrow>
          (if \<not> is_change_record_candidate entry then Inr None
           else case validate_change_record entry of
               None \<Rightarrow> Inl (Malformed_Record (al_segment a) (al_line a))
             | Some r \<Rightarrow>
                 if cr_ns r \<noteq> re_ns env
                   then Inl (Wrong_Namespace (al_segment a) (al_line a) (cr_ns r))
                 else if cr_tombstone r \<noteq> (cr_op r = Op_Delete)
                   then Inl (Tombstone_Mismatch (al_segment a) (al_line a))
                 else case resolve_row env repo childRef parentRef r of
                     (None, failure) \<Rightarrow>
                       if row_image_signature (re_fmt env) (cr_table r) (cr_key r) (cr_contentHash r)
                            \<in> set bornAndDied
                       then Inr None
                       else Inl (case failure of Some e \<Rightarrow> e | None \<Rightarrow> No_Data_Row (al_segment a) (al_line a))
                   | (Some row, _) \<Rightarrow> check_row env a r row)
      | Some _ \<Rightarrow> Inl (Not_An_Object (al_segment a) (al_line a)))"

fun number_changes :: "string \<Rightarrow> string \<Rightarrow> nat \<Rightarrow> (change_record \<times> json) option list \<Rightarrow> derived_change list" where
  "number_changes commit time n [] = []"
| "number_changes commit time n (None # xs) = number_changes commit time n xs"
| "number_changes commit time n (Some (r, row) # xs) =
     \<lparr>dc_commit = commit, dc_ordinal = n + 1, dc_record = r, dc_row = row, dc_committedAt = time\<rparr>
       # number_changes commit time (n + 1) xs"

definition derive_commit_changes ::
  "replay_env \<Rightarrow> git_repo \<Rightarrow> string \<Rightarrow> string option option \<Rightarrow> replay_error + derived_change list" where
  "derive_commit_changes env repo childRef explicitParent =
     (let parentRef = (case explicitParent of None \<Rightarrow> gr_parent repo childRef | Some p \<Rightarrow> p)
      in res_bind (added_audit_lines repo childRef parentRef) (\<lambda>added.
         let pairs = same_window_birth_and_death env (map al_text added)
         in res_bind (res_map (derive_line env repo childRef parentRef pairs) added) (\<lambda>rs.
              Inr (number_changes childRef (gr_time repo childRef) 0 rs))))"

definition commit_ordinal_count ::
  "replay_env \<Rightarrow> git_repo \<Rightarrow> string \<Rightarrow> replay_error + nat" where
  "commit_ordinal_count env repo commit =
     res_bind (derive_commit_changes env repo commit None) (\<lambda>cs. Inr (length cs))"

section \<open>Replay recovers what the serializer appended\<close>

text \<open>A commit holds the ledger directory \<open>d\<close>: its tree lists exactly the files of \<open>d\<close>.\<close>

definition audit_path :: "string \<Rightarrow> string" where
  "audit_path n = ''_audit/'' @ n"

definition committed :: "git_repo \<Rightarrow> string \<Rightarrow> ledger_dir \<Rightarrow> bool" where
  "committed repo ref d \<longleftrightarrow>
     distinct (map fst (gr_tree repo ref)) \<and> distinct (map fst d) \<and>
     (\<forall>e \<in> set (gr_tree repo ref). \<exists>n. fst e = audit_path n \<and> CHR ''/'' \<notin> set n) \<and>
     (\<forall>n. map_option (gr_blob repo) (map_of (gr_tree repo ref) (audit_path n)) = map_of d n)"

lemma audit_path_inj [simp]: "audit_path a = audit_path b \<longleftrightarrow> a = b"
  by (simp add: audit_path_def)

lemma drop_audit_path [simp]: "drop audit_prefix_length (audit_path n) = n"
  by (simp add: audit_path_def audit_prefix_length_def)

lemma tree_segments_spec:
  assumes "distinct (map fst es)" and "\<forall>e \<in> set es. \<exists>n. fst e = audit_path n \<and> CHR ''/'' \<notin> set n"
    and "distinct (map fst acc)"
  shows "\<exists>shas. tree_segments acc es = Inr shas \<and> distinct (map fst shas) \<and>
    (\<forall>m. map_of shas m =
       (if is_audit_segment_file m \<and> map_of es (audit_path m) \<noteq> None
        then map_of es (audit_path m) else map_of acc m))"
  using assms
proof (induction es arbitrary: acc)
  case (Cons e es)
  obtain n s where e: "e = (audit_path n, s)" and flat: "CHR ''/'' \<notin> set n"
    using Cons.prems(2) by (cases e) auto
  let ?acc = "if is_audit_segment_file n then obj_set n s acc else acc"
  have "distinct (map fst ?acc)" using Cons.prems(3) by (simp add: distinct_obj_set)
  from Cons.IH [OF _ _ this] Cons.prems obtain shas
    where sh: "tree_segments ?acc es = Inr shas" "distinct (map fst shas)"
      and m: "\<forall>m. map_of shas m =
       (if is_audit_segment_file m \<and> map_of es (audit_path m) \<noteq> None
        then map_of es (audit_path m) else map_of ?acc m)" by auto
  have "tree_segments acc (e # es) = Inr shas"
    using sh(1) flat by (simp add: e Let_def split: if_splits)
  moreover have "map_of es (audit_path n) = None"
    using Cons.prems(1) by (auto simp: e map_of_eq_None_iff)
  then have "\<forall>m. map_of shas m =
       (if is_audit_segment_file m \<and> map_of (e # es) (audit_path m) \<noteq> None
        then map_of (e # es) (audit_path m) else map_of acc m)"
    using m by (auto simp: e)
  ultimately show ?case using sh(2) by blast
qed simp

lemma view_of_committed:
  assumes "committed repo ref d" and "ledger_order d cur k"
  obtains v where "read_segment_view repo ref = Inr v" and "sv_order v = seg_list cur k"
    and "\<And>n. n \<in> set (seg_list cur k) \<Longrightarrow>
           \<exists>s. map_of (sv_shas v) n = Some s \<and> gr_blob repo s = content_of d n"
    and "\<And>n. n \<notin> set (seg_list cur k) \<Longrightarrow> map_of (sv_shas v) n = None"
proof -
  let ?es = "gr_tree repo ref"
  from assms(1) have "distinct (map fst ?es)" "\<forall>e \<in> set ?es. \<exists>n. fst e = audit_path n \<and> CHR ''/'' \<notin> set n"
    and blob: "\<And>n. map_option (gr_blob repo) (map_of ?es (audit_path n)) = map_of d n"
    by (auto simp: committed_def)
  from tree_segments_spec [OF this(1,2), of "[]"] obtain shas
    where sh: "tree_segments [] ?es = Inr shas" "distinct (map fst shas)"
      and m': "\<forall>m. map_of shas m =
       (if is_audit_segment_file m \<and> map_of ?es (audit_path m) \<noteq> None
        then map_of ?es (audit_path m) else map_of [] m)" by auto
  have m: "map_of shas m = (if is_audit_segment_file m then map_of ?es (audit_path m) else None)" for m
    using m' by simp
  have dom: "map_of shas n \<noteq> None \<longleftrightarrow> n \<in> set (seg_list cur k)" for n
  proof -
    have "map_of shas n \<noteq> None \<longleftrightarrow> is_audit_segment_file n \<and> map_of d n \<noteq> None"
      using m [of n] by (simp add: blob [of n, symmetric])
    also have "\<dots> \<longleftrightarrow> n \<in> set (segment_files d)"
      by (auto simp: segment_files_def map_of_eq_None_iff)
    finally show ?thesis using assms(2) by (simp add: ledger_order_def)
  qed
  then have "set (map fst shas) = set (seg_list cur k)"
    by (auto simp: map_of_eq_None_iff)
  with assms(2) have "canonical_audit_segment_order (map fst shas) = Inr (seg_list cur k)"
    using canonical_order_Inr [OF sh(2)] by (auto simp: ledger_order_def)
  with sh(1) have r: "read_segment_view repo ref = Inr \<lparr>sv_order = seg_list cur k, sv_shas = shas\<rparr>"
    by (simp add: read_segment_view_def)
  show thesis
  proof (rule that [OF r])
    fix n assume n: "n \<in> set (seg_list cur k)"
    then obtain s where s: "map_of shas n = Some s" using dom by auto
    then have "map_of d n = Some (gr_blob repo s)" using m [of n] blob [of n] by (auto split: if_splits)
    with s show "\<exists>s. map_of (sv_shas \<lparr>sv_order = seg_list cur k, sv_shas = shas\<rparr>) n = Some s \<and>
        gr_blob repo s = content_of d n" by (simp add: content_of_def)
  next
    fix n assume "n \<notin> set (seg_list cur k)"
    then show "map_of (sv_shas \<lparr>sv_order = seg_list cur k, sv_shas = shas\<rparr>) n = None"
      using dom [of n] by simp
  qed simp
qed

lemma same_prefix_append [simp]: "same_prefix i ps (ps @ cs) = Inr ()"
  by (induction ps arbitrary: i) auto

lemma continue_formats:
  "0 < n \<Longrightarrow> m \<le> Suc js_max_safe_nat \<Longrightarrow>
   continue_numbering fresh n (map format_audit_segment_name [n..<m]) = Inr ()"
proof (induction "m - n" arbitrary: n)
  case (Suc x)
  then have "[n..<m] = n # [Suc n..<m]" by (simp add: upt_conv_Cons)
  with Suc show ?case by simp
qed simp

lemma advance_canonical:
  assumes "seg_list cur k = seg_list cur0 k0 @ os" and "k \<le> js_max_safe_nat"
  shows "assert_canonical_segment_advance (seg_list cur0 k0) (seg_list cur k) = Inr os"
proof (cases "seg_list cur0 k0 = []")
  case True
  have "continue_numbering True 1 (seg_list cur k) = Inr ()"
    using continue_formats [of 1 "Suc k" True] assms(2) by (simp add: seg_list_def del: upt_Suc)
  with True assms(1) show ?thesis
    by (auto simp: assert_canonical_segment_advance_def max_segment_number_def List.map_filter_def)
next
  case False
  have hd: "hd (seg_list b j) = (if b then audit_current_segment else format_audit_segment_name 1)"
    if "seg_list b j \<noteq> []" for b j
    using that by (cases j) (auto simp: seg_list_def upt_conv_Cons simp del: upt_Suc)
  have ne: "seg_list cur k \<noteq> []" using assms(1) False by simp
  have "hd (seg_list cur k) = hd (seg_list cur0 k0)" using assms(1) False by simp
  then have c: "cur = cur0" using hd [OF ne] hd [OF False] by (auto split: if_splits)
  have "k0 \<le> k" using arg_cong [OF assms(1), of length] c by (simp add: seg_list_def split: if_splits)
  have "os = drop (length (seg_list cur0 k0)) (seg_list cur k)" using assms(1) by simp
  also have "\<dots> = map format_audit_segment_name [Suc k0..<Suc k]"
    by (simp add: seg_list_def c drop_map drop_upt del: upt_Suc)
  finally have os: "os = map format_audit_segment_name [Suc k0..<Suc k]" .
  have "continue_numbering False (Suc k0) os = Inr ()"
    unfolding os by (rule continue_formats) (use assms(2) in simp_all)
  moreover have "max_segment_number (seg_list cur0 k0) = k0" using \<open>k0 \<le> k\<close> assms(2) by simp
  ultimately show ?thesis
    using False assms(1) by (auto simp: assert_canonical_segment_advance_def)
qed

lemma number_lines_text [simp]: "map al_text (number_lines seg base ls) = ls"
proof -
  have "map al_text (number_lines seg base ls) = map snd (zip [1..<Suc (length ls)] ls)"
    by (simp add: number_lines_def case_prod_beta comp_def del: upt_Suc)
  also have "\<dots> = ls" by (rule map_snd_zip) (simp del: upt_Suc)
  finally show ?thesis .
qed

lemma res_map_texts:
  assumes "\<And>n. n \<in> set ns \<Longrightarrow> \<exists>part. f n = Inr part \<and> map al_text part = g n"
  shows "\<exists>parts. res_map f ns = Inr parts \<and> map al_text (concat parts) = concat (map g ns)"
  using assms
proof (induction ns)
  case (Cons n ns)
  then obtain part parts where "f n = Inr part" "map al_text part = g n" "res_map f ns = Inr parts"
    "map al_text (concat parts) = concat (map g ns)" by (metis list.set_intros)
  then show ?case by simp
qed simp

lemma segment_added_extends:
  assumes child: "map_of (sv_shas cv) n = Some s" "gr_blob repo s = pc @ lines_text g"
    and parent: "Option.bind pv (\<lambda>p. map_of (sv_shas p) n) = None \<and> pc = [] \<or>
      (\<exists>s'. Option.bind pv (\<lambda>p. map_of (sv_shas p) n) = Some s' \<and> gr_blob repo s' = pc)"
    and closed: "line_closed (pc @ lines_text g)" and g: "\<forall>l \<in> set g. record_line l"
  shows "\<exists>part. segment_added repo cv pv n = Inr part \<and> map al_text part = g"
proof (cases "Option.bind pv (\<lambda>p. map_of (sv_shas p) n) = Some s")
  case True
  with parent child(2) have "lines_text g = []" by auto
  then have "g = []" by (cases g) auto
  with True child(1) show ?thesis by (simp add: segment_added_def)
next
  case False
  let ?ps = "Option.bind pv (\<lambda>p. map_of (sv_shas p) n)"
  have pb: "(case ?ps of None \<Rightarrow> [] | Some s \<Rightarrow> gr_blob repo s) = pc" using parent by auto
  have "pc @ lines_text g = [] \<or> last (pc @ lines_text g) = newline"
    using closed by (simp only: line_closed_def)
  then have "segment_added repo cv pv n =
      Inr (number_lines n (count_non_blank pc) (file_lines (lines_text g)))"
    using False pb child by (auto simp: segment_added_def Let_def starts_with_append)
  then show ?thesis using file_lines_text [OF g] by simp
qed

lemma replay_of_extension:
  assumes "ledger_extends p d ls" and "closed_ledger d" and "\<forall>l \<in> set ls. record_line l"
    and "committed repo pref p" and "committed repo cref d"
  shows "\<exists>added. added_audit_lines repo cref (Some pref) = Inr added \<and> map al_text added = ls"
proof -
  from assms(1) obtain cur0 k0 cur k os g where p: "ledger_order p cur0 k0"
    and d: "ledger_order d cur k" and o: "seg_list cur k = seg_list cur0 k0 @ os"
    and g: "\<forall>n. is_audit_segment_file n \<longrightarrow> content_of d n = content_of p n @ lines_text (g n)"
    and ls: "concat (map g (seg_list cur k)) = ls"
    unfolding ledger_extends_def by blast
  obtain pv where pv: "read_segment_view repo pref = Inr pv" "sv_order pv = seg_list cur0 k0"
    and pin: "\<And>n. n \<in> set (seg_list cur0 k0) \<Longrightarrow>
       \<exists>s. map_of (sv_shas pv) n = Some s \<and> gr_blob repo s = content_of p n"
    and pout: "\<And>n. n \<notin> set (seg_list cur0 k0) \<Longrightarrow> map_of (sv_shas pv) n = None"
    using view_of_committed [OF assms(4) p] by metis
  obtain cv where cv: "read_segment_view repo cref = Inr cv" "sv_order cv = seg_list cur k"
    and cin: "\<And>n. n \<in> set (seg_list cur k) \<Longrightarrow>
       \<exists>s. map_of (sv_shas cv) n = Some s \<and> gr_blob repo s = content_of d n"
    using view_of_committed [OF assms(5) d] by metis
  have part: "\<exists>part. segment_added repo cv (Some pv) n = Inr part \<and> map al_text part = g n"
    if n: "n \<in> set (seg_list cur k)" for n
  proof -
    have fl: "is_audit_segment_file n" by (rule seg_list_files [OF n])
    have dn: "content_of d n = content_of p n @ lines_text (g n)" using g fl by blast
    from cin [OF n] obtain s where s: "map_of (sv_shas cv) n = Some s"
      "gr_blob repo s = content_of p n @ lines_text (g n)" using dn by auto
    have "Option.bind (Some pv) (\<lambda>p. map_of (sv_shas p) n) = None \<and> content_of p n = [] \<or>
        (\<exists>s'. Option.bind (Some pv) (\<lambda>p. map_of (sv_shas p) n) = Some s' \<and> gr_blob repo s' = content_of p n)"
      using pin [of n] pout [of n] absent_content [OF p fl] by (cases "n \<in> set (seg_list cur0 k0)") auto
    moreover have "line_closed (content_of p n @ lines_text (g n))"
      using assms(2) fl dn by (auto simp: closed_ledger_def)
    moreover have "\<forall>l \<in> set (g n). record_line l" using n ls assms(3) by auto
    ultimately show ?thesis by (rule segment_added_extends [OF s])
  qed
  from res_map_texts [of "seg_list cur k" "segment_added repo cv (Some pv)" g, OF part] obtain parts
    where "res_map (segment_added repo cv (Some pv)) (seg_list cur k) = Inr parts"
      "map al_text (concat parts) = concat (map g (seg_list cur k))" by blast
  moreover have "assert_canonical_segment_advance (seg_list cur0 k0) (seg_list cur k) = Inr os"
    using advance_canonical [OF o] d by (simp add: ledger_order_def)
  ultimately show ?thesis using pv cv ls by (simp add: added_audit_lines_def)
qed

lemma batches_extend:
  assumes "ledger_valid p" and "\<forall>b \<in> set bs. \<forall>l \<in> set b. record_line l"
    and "length (concat bs) \<le> ledger_room p" and "audit_log.append_batches lm p bs = Inr d"
  shows "ledger_extends p d (concat bs) \<and> closed_ledger d"
  using assms
proof (induction bs arbitrary: p)
  case Nil
  from Nil.prems(1) obtain ord where v: "distinct (map fst p)" "closed_ledger p"
    "canonical_audit_segment_order (segment_files p) = Inr ord" by (auto simp: ledger_valid_def)
  from order_of_canonical [OF v(1,3)] obtain cur k where "ledger_order p cur k" by blast
  from extends_refl [OF this] v(2) Nil.prems(4) show ?case by simp
next
  case (Cons b bs)
  have b: "\<forall>l \<in> set b. record_line l" "length b \<le> ledger_room p" using Cons.prems by auto
  obtain q where q: "append_audit_ledger lm p b = Inr q" "ledger_extends p q b" "closed_ledger q"
    using append_ledger_extends [OF Cons.prems(1) b] by blast
  have "length (concat bs) \<le> ledger_room q"
    using extends_room [OF q(2)] Cons.prems(3) by simp
  with Cons.IH [OF extends_valid [OF q(2,3)]] Cons.prems q(1)
  have "ledger_extends q d (concat bs)" "closed_ledger d" by auto
  with extends_trans [OF q(2)] show ?case by simp
qed

section \<open>What a derived change guarantees\<close>

lemma scan_hash_Some:
  "scan_hash env hash ls = Some row \<Longrightarrow>
   \<exists>l \<in> set ls. re_sha env l = hash \<and> re_parse env l = Some row"
  by (auto simp: scan_hash_def content_hash_for_def split: option.splits dest!: find_Some_set)

lemma resolve_hash_Some:
  "resolve_data_row_by_hash env repo ref target hash = Inr (Some row) \<Longrightarrow>
   is_safe_repo_relative_path target \<and>
   (\<exists>bytes l. gr_path repo ref target = Some bytes \<and> l \<in> set (file_lines bytes) \<and>
      re_sha env l = hash \<and> re_parse env l = Some row)"
  by (auto simp: resolve_data_row_by_hash_def split: if_splits option.splits dest!: scan_hash_Some)

lemma map_filter_mem: "y \<in> set (List.map_filter f xs) \<Longrightarrow> \<exists>x \<in> set xs. f x = Some y"
  by (auto simp: List.map_filter_def)

lemma resolve_key_Some:
  assumes "resolve_data_row_by_key env repo ref table target key = Some row"
  shows "is_safe_repo_relative_path target \<and>
   (\<exists>bytes l. gr_path repo ref target = Some bytes \<and> l \<in> set (file_lines bytes) \<and>
      re_parse env l = Some row)"
proof -
  let ?cols = "declared_key_columns (re_parse env) (re_files env) table"
  have c: "?cols \<noteq> []" "is_safe_repo_relative_path target"
    using assms unfolding resolve_data_row_by_key_def Let_def by (metis option.distinct(1))+
  obtain bytes where path: "gr_path repo ref target = Some bytes"
    using assms c by (cases "gr_path repo ref target") (simp_all add: resolve_data_row_by_key_def Let_def)
  have f: "List.find (\<lambda>row. list_all (same_key env table key row) ?cols)
      (List.map_filter (re_parse env) (file_lines bytes)) = Some row"
    using assms c path by (simp add: resolve_data_row_by_key_def Let_def)
  from map_filter_mem [OF conjunct1 [OF find_Some_set [OF f]]] c path show ?thesis by auto
qed

text \<open>The row image is backed by a committed line: one whose hash is recorded, at the child or
  the parent, or (never for a tombstone) the child's row for the same key.\<close>

definition row_backed ::
  "replay_env \<Rightarrow> git_repo \<Rightarrow> string \<Rightarrow> string option \<Rightarrow> change_record \<Rightarrow> json \<Rightarrow> bool" where
  "row_backed env repo childRef parentRef r row \<longleftrightarrow>
     is_safe_repo_relative_path (cr_targetPath r) \<and>
     (\<exists>ref bytes l. (ref = childRef \<or> parentRef = Some ref) \<and>
        gr_path repo ref (cr_targetPath r) = Some bytes \<and> l \<in> set (file_lines bytes) \<and>
        re_parse env l = Some row \<and>
        (re_sha env l = cr_contentHash r \<or> \<not> cr_tombstone r \<and> ref = childRef))"

lemma found_row_Some: "found_row x = Some row \<longleftrightarrow> x = Inr (Some row)"
  by (cases x) auto

lemma resolve_row_backed:
  assumes "resolve_row env repo c par r = (Some row, e)"
  shows "row_backed env repo c par r row"
proof -
  consider (child) "found_row (resolve_data_row_by_hash env repo c (cr_targetPath r) (cr_contentHash r)) = Some row"
    | (parent) "row_at_parent env repo par r = Some row"
    | (key) "row_by_key env repo c r = Some row"
  proof (cases "found_row (resolve_data_row_by_hash env repo c (cr_targetPath r) (cr_contentHash r))")
    case (Some x)
    with assms child show ?thesis by (simp add: resolve_row_def)
  next
    case no_child: None
    show ?thesis
    proof (cases "row_at_parent env repo par r")
      case (Some x)
      with assms no_child parent show ?thesis by (simp add: resolve_row_def)
    next
      case None
      with assms no_child key show ?thesis
        by (cases "row_by_key env repo c r") (simp_all add: resolve_row_def)
    qed
  qed
  then show ?thesis
  proof cases
    case child
    from resolve_hash_Some [OF child [unfolded found_row_Some]]
    show ?thesis unfolding row_backed_def by auto
  next
    case parent
    then obtain p where "par = Some p"
      and h: "resolve_data_row_by_hash env repo p (cr_targetPath r) (cr_contentHash r) = Inr (Some row)"
      by (auto simp: row_at_parent_def bind_eq_Some_conv found_row_Some)
    with resolve_hash_Some [OF h] show ?thesis unfolding row_backed_def by auto
  next
    case key
    then have t: "\<not> cr_tombstone r"
      and k: "resolve_data_row_by_key env repo c (cr_table r) (cr_targetPath r) (cr_key r) = Some row"
      by (simp_all add: row_by_key_def split: if_splits)
    from resolve_key_Some [OF k] t show ?thesis unfolding row_backed_def by auto
  qed
qed

definition change_ok ::
  "replay_env \<Rightarrow> git_repo \<Rightarrow> string \<Rightarrow> string option \<Rightarrow> change_record \<Rightarrow> json \<Rightarrow> bool" where
  "change_ok env repo c par r row \<longleftrightarrow>
     cr_ns r = re_ns env \<and> cr_tombstone r = (cr_op r = Op_Delete) \<and> row \<noteq> JNull \<and>
     missing_key_columns (re_parse env) (re_files env) (cr_table r) row = [] \<and>
     list_all (same_key env (cr_table r) (cr_key r) row)
       (declared_key_columns (re_parse env) (re_files env) (cr_table r)) \<and>
     row_backed env repo c par r row"

text \<open>A line may be skipped only when it is no change record, or names a row image that no
  commit holds and that the same commit both creates and deletes.\<close>

definition skip_justified ::
  "replay_env \<Rightarrow> git_repo \<Rightarrow> string \<Rightarrow> string option \<Rightarrow> string list \<Rightarrow> string \<Rightarrow> bool" where
  "skip_justified env repo c par pairs text \<longleftrightarrow>
     (\<exists>entry. re_parse env text = Some (JObj entry) \<and>
        (\<not> is_change_record_candidate entry \<or>
         (\<exists>r. validate_change_record entry = Some r \<and> fst (resolve_row env repo c par r) = None \<and>
            row_image_signature (re_fmt env) (cr_table r) (cr_key r) (cr_contentHash r) \<in> set pairs)))"

lemma check_row_Inr:
  assumes "check_row env a r row = Inr x"
  shows "x = Some (r, row) \<and> row \<noteq> JNull \<and>
    missing_key_columns (re_parse env) (re_files env) (cr_table r) row = [] \<and>
    list_all (same_key env (cr_table r) (cr_key r) row)
      (declared_key_columns (re_parse env) (re_files env) (cr_table r))"
proof -
  let ?cols = "declared_key_columns (re_parse env) (re_files env) (cr_table r)"
  have "List.find (\<lambda>c. \<not> same_key env (cr_table r) (cr_key r) row c) ?cols = None"
    and "row \<noteq> JNull \<and> missing_key_columns (re_parse env) (re_files env) (cr_table r) row = [] \<and> x = Some (r, row)"
    using assms by (simp_all add: check_row_def split: if_splits option.splits)
  then show ?thesis by (simp add: find_None_all list_all_iff)
qed

lemma derive_line_cases:
  assumes "derive_line env repo c par pairs a = Inr x"
  obtains (skip) "x = None" and "skip_justified env repo c par pairs (al_text a)"
  | (change) entry r row where "x = Some (r, row)" and "re_parse env (al_text a) = Some (JObj entry)"
      and "is_change_record_candidate entry" and "validate_change_record entry = Some r"
      and "change_ok env repo c par r row"
proof -
  obtain entry where p: "re_parse env (al_text a) = Some (JObj entry)"
    using assms by (auto simp: derive_line_def split: option.splits json.splits)
  show thesis
  proof (cases "is_change_record_candidate entry")
    case False
    then have "x = None" using assms p by (simp add: derive_line_def)
    moreover have "skip_justified env repo c par pairs (al_text a)"
      using False p by (auto simp: skip_justified_def)
    ultimately show ?thesis by (rule skip)
  next
    case cand: True
    then obtain r where r: "validate_change_record entry = Some r"
      using assms p by (cases "validate_change_record entry") (simp_all add: derive_line_def)
    have ok: "cr_ns r = re_ns env" "cr_tombstone r = (cr_op r = Op_Delete)"
      using assms p cand r by (auto simp: derive_line_def split: if_splits)
    obtain rw e where rr: "resolve_row env repo c par r = (rw, e)" by fastforce
    show ?thesis
    proof (cases rw)
      case None
      then have "x = None" and "row_image_signature (re_fmt env) (cr_table r) (cr_key r) (cr_contentHash r) \<in> set pairs"
        using assms p cand r ok rr by (auto simp: derive_line_def split: if_splits)
      with p r rr None have "skip_justified env repo c par pairs (al_text a)"
        by (auto simp: skip_justified_def)
      with \<open>x = None\<close> show ?thesis by (rule skip)
    next
      case (Some row)
      then have "check_row env a r row = Inr x"
        using assms p cand r ok rr by (simp add: derive_line_def)
      from check_row_Inr [OF this] resolve_row_backed ok rr Some
      have "x = Some (r, row)" "change_ok env repo c par r row" by (auto simp: change_ok_def)
      with p cand r show ?thesis using change by blast
    qed
  qed
qed

lemma number_changes_ordinals:
  "map dc_ordinal (number_changes c t n xs) = [Suc n..<Suc (n + length (number_changes c t n xs))]"
proof (induction c t n xs rule: number_changes.induct)
  case (3 c t n r row xs)
  then show ?case by (simp add: upt_conv_Cons del: upt_Suc)
qed simp_all

lemma number_changes_records:
  "map (\<lambda>dc. (dc_record dc, dc_row dc)) (number_changes c t n xs) = List.map_filter id xs"
  by (induction c t n xs rule: number_changes.induct) (simp_all add: List.map_filter_def)

lemma derive_changes_Inr:
  assumes "derive_commit_changes env repo c (Some par) = Inr changes"
  obtains added rs where "added_audit_lines repo c par = Inr added"
    and "res_map (derive_line env repo c par (same_window_birth_and_death env (map al_text added))) added = Inr rs"
    and "changes = number_changes c (gr_time repo c) 0 rs"
  using assms by (auto simp: derive_commit_changes_def Let_def)

section \<open>Properties\<close>

text \<open>C1: the change feed replays exactly what was appended.  Whatever number of flushes the
  serializer makes between two commits, under any rotation bounds, the replay of the child
  commit accepts the ledger and reads back exactly the lines of those flushes, each once and in
  the order they were appended.\<close>

theorem replay_recovers_appends:
  assumes "ledger_valid p" and "\<forall>b \<in> set flushes. \<forall>l \<in> set b. record_line l"
    and "length (concat flushes) \<le> ledger_room p" and "audit_log.append_batches lm p flushes = Inr d"
    and "committed repo parentRef p" and "committed repo childRef d"
  shows "\<exists>added. added_audit_lines repo childRef (Some parentRef) = Inr added \<and>
    map al_text added = concat flushes"
proof -
  from batches_extend [OF assms(1-4)] have "ledger_extends p d (concat flushes)" "closed_ledger d" by auto
  moreover have "\<forall>l \<in> set (concat flushes). record_line l" using assms(2) by auto
  ultimately show ?thesis using replay_of_extension assms(5,6) by blast
qed

definition sample_ledger_next :: "string list \<Rightarrow> ledger_dir" where
  "sample_ledger_next ls = [(''README.md'', ''x''), (''current.jsonl'', lines_text (''a'' # ls))]"

definition sample_repo :: "string list \<Rightarrow> (string \<Rightarrow> string \<Rightarrow> string option) \<Rightarrow> git_repo" where
  "sample_repo ls paths =
     \<lparr>gr_tree = (\<lambda>ref. map (\<lambda>(n, t). (audit_path n, t))
        (if ref = ''child'' then sample_ledger_next ls else sample_ledger)),
      gr_blob = (\<lambda>oid. oid), gr_path = paths, gr_parent = (\<lambda>_. Some ''parent''), gr_time = (\<lambda>_. [])\<rparr>"

definition wide_limits :: ledger_limits where
  "wide_limits = \<lparr>maxLines = 10, maxBytes = 100\<rparr>"

lemma sample_append:
  assumes "ls = [''u'', ''v''] \<or> ls = [''i'', ''u'', ''v'']"
  shows "append_audit_ledger wide_limits sample_ledger ls = Inr (sample_ledger_next ls)"
proof -
  have "max_segment_number (seg_list True 0) = 0" by (simp add: js_max_safe_nat_def)
  then have "open_appender sample_ledger (seg_list True 0) =
      \<lparr>as_dir = sample_ledger, as_active = ''current.jsonl'', as_lines = 1, as_bytes = 2, as_highest = 0\<rparr>"
    by (simp add: open_appender_def seg_list_def audit_current_segment_def sample_ledger_def
        count_non_blank_def content_of_def file_lines_def newline_def utf8_length_def blank_iff is_space_def Let_def)
  then show ?thesis
    using canonical_of_order [OF sample_ledger_order] assms
    by (auto simp: append_audit_ledger_def append_line_def write_line_def must_rotate_def wide_limits_def
        sample_ledger_def sample_ledger_next_def content_of_def utf8_length_def newline_def)
qed

lemma sample_committed:
  "committed (sample_repo ls paths) ''parent'' sample_ledger"
  "committed (sample_repo ls paths) ''child'' (sample_ledger_next ls)"
  by (auto simp: committed_def sample_repo_def sample_ledger_def sample_ledger_next_def)

theorem replay_recovers_appends_witness:
  "\<exists>added. added_audit_lines (sample_repo [''u'', ''v''] (\<lambda>_ _. None)) ''child'' (Some ''parent'') = Inr added \<and>
     map al_text added = [''u'', ''v'']"
  using replay_recovers_appends [OF sample_ledger_valid _ _ _ sample_committed,
      of "[[''u'', ''v'']]" wide_limits "[''u'', ''v'']"] sample_append sample_ledger_room [of 2]
  by (simp add: record_line_def blank_iff is_space_def newline_def)

lemma sample_added:
  assumes "ls = [''u'', ''v''] \<or> ls = [''i'', ''u'', ''v'']"
  shows "\<exists>added. added_audit_lines (sample_repo ls paths) ''child'' (Some ''parent'') = Inr added \<and>
    map al_text added = ls"
proof -
  have rl: "\<forall>l \<in> set ls. record_line l"
    using assms by (auto simp: record_line_def blank_iff is_space_def newline_def)
  have n: "length ls \<le> ledger_room sample_ledger"
    using sample_ledger_room [of "length ls"] assms by auto
  obtain d' where "append_audit_ledger wide_limits sample_ledger ls = Inr d'"
    "ledger_extends sample_ledger d' ls" "closed_ledger d'"
    using append_ledger_extends [OF sample_ledger_valid rl n] by blast
  then have "ledger_extends sample_ledger (sample_ledger_next ls) ls" "closed_ledger (sample_ledger_next ls)"
    using sample_append [OF assms] by auto
  from replay_of_extension [OF this rl sample_committed] show ?thesis .
qed

text \<open>C2: every change the feed emits is sound.  The changes of a commit carry the ordinals one
  to their number; each belongs to this namespace, is a tombstone exactly when it is a delete,
  and carries a non-null row that holds every declared key column with the recorded key and that
  a committed line backs: a line of the target file, in this commit or its parent, with the
  recorded hash, or (not for a tombstone) this commit's line.\<close>

theorem replay_changes_sound:
  assumes "derive_commit_changes env repo c (Some par) = Inr changes"
  shows "map dc_ordinal changes = [1..<length changes + 1] \<and>
    list_all (\<lambda>dc. change_ok env repo c par (dc_record dc) (dc_row dc)) changes"
proof -
  from derive_changes_Inr [OF assms] obtain added rs pairs
    where rs: "res_map (derive_line env repo c par pairs) added = Inr rs"
      and ch: "changes = number_changes c (gr_time repo c) 0 rs" by metis
  have "change_ok env repo c par r row" if "Some (r, row) \<in> set rs" for r row
  proof -
    from that obtain i where i: "i < length rs" "rs ! i = Some (r, row)" by (auto simp: in_set_conv_nth)
    then have "derive_line env repo c par pairs (added ! i) = Inr (Some (r, row))"
      using res_map_nth [OF rs] res_map_length [OF rs] by auto
    then show ?thesis by (rule derive_line_cases) auto
  qed
  then have "\<forall>x \<in> set (map (\<lambda>dc. (dc_record dc, dc_row dc)) changes). change_ok env repo c par (fst x) (snd x)"
    unfolding ch number_changes_records by (auto simp: List.map_filter_def)
  moreover have "map dc_ordinal changes = [Suc 0..<Suc (0 + length changes)]"
    unfolding ch by (rule number_changes_ordinals)
  ultimately show ?thesis by (simp add: list_all_iff)
qed

text \<open>C18: the feed never skips a line silently.  When a commit replays at all, its added lines
  line up with outcomes: each either is emitted, as the validated record of that very line and
  in line order, or is a line that is no change record, or names a row image no commit holds and
  this commit both creates and deletes.\<close>

theorem replay_accounts_for_lines:
  assumes "derive_commit_changes env repo c (Some par) = Inr changes"
  shows "\<exists>added outcomes. added_audit_lines repo c par = Inr added \<and>
    map (\<lambda>dc. (dc_record dc, dc_row dc)) changes = List.map_filter id outcomes \<and>
    list_all2 (\<lambda>a x. case x of
        None \<Rightarrow> skip_justified env repo c par
          (same_window_birth_and_death env (map al_text added)) (al_text a)
      | Some (r, row) \<Rightarrow> (\<exists>entry. re_parse env (al_text a) = Some (JObj entry) \<and>
          validate_change_record entry = Some r)) added outcomes"
proof -
  from derive_changes_Inr [OF assms] obtain added rs
    where added: "added_audit_lines repo c par = Inr added"
      and rs: "res_map (derive_line env repo c par (same_window_birth_and_death env (map al_text added))) added = Inr rs"
      and ch: "changes = number_changes c (gr_time repo c) 0 rs" .
  let ?pairs = "same_window_birth_and_death env (map al_text added)"
  have "list_all2 (\<lambda>a x. derive_line env repo c par ?pairs a = Inr x) added rs"
    using res_map_nth [OF rs] res_map_length [OF rs] by (simp add: list_all2_conv_all_nth)
  then have "list_all2 (\<lambda>a x. case x of None \<Rightarrow> skip_justified env repo c par ?pairs (al_text a)
      | Some (r, row) \<Rightarrow> (\<exists>entry. re_parse env (al_text a) = Some (JObj entry) \<and>
          validate_change_record entry = Some r)) added rs"
    by (rule list_all2_mono) (erule derive_line_cases; auto)
  with added ch number_changes_records show ?thesis by blast
qed

section \<open>Mutations of one commit window\<close>

text \<open>
  The audit entries of table mutations as lines of the ledger: \<open>logged\<close> says that the text
  parses to the entry that \<^verbatim>\<open>acceptedTableMutationRecord\<close> builds.
\<close>

definition logged :: "(string \<Rightarrow> bool) \<Rightarrow> replay_env \<Rightarrow> mutation_input \<Rightarrow> string \<Rightarrow> bool" where
  "logged isots env m text \<longleftrightarrow>
     mi_ts m \<noteq> [] \<and> mi_table m \<noteq> [] \<and> mi_ns m = re_ns env \<and>
     (\<exists>e. accepted_table_mutation_record isots (re_parse env) (re_sha env) (re_files env) m = Some e \<and>
        re_parse env text = Some (JObj e))"

definition record_of :: "replay_env \<Rightarrow> mutation_input \<Rightarrow> change_record" where
  "record_of env m = mutation_change_record (re_parse env) (re_sha env) (re_files env) m"

definition image_of :: "replay_env \<Rightarrow> mutation_input \<Rightarrow> string" where
  "image_of env m = row_image_signature (re_fmt env) (mi_table m)
     (key_material_for (re_parse env) (re_files env) (mi_table m) (mi_row m))
     (content_hash_for (re_sha env) (mi_dataLine m))"

lemma logged_entry:
  assumes "logged isots env m text"
  obtains e where "re_parse env text = Some (JObj e)" and "is_change_record_candidate e"
    and "validate_change_record e = Some (record_of env m)"
    and "image_event_of env text = (if mi_op m = Op_Delete then Death else Birth) (image_of env m)"
proof -
  from assms obtain e where e: "accepted_table_mutation_record isots (re_parse env) (re_sha env) (re_files env) m = Some e"
    and t: "re_parse env text = Some (JObj e)" and ne: "mi_ts m \<noteq> []" "mi_table m \<noteq> []"
    by (auto simp: logged_def)
  have "map_of e ''outcome'' = Some (JStr ''accepted'') \<and> map_of e ''table'' = Some (JStr (mi_table m)) \<and>
      map_of e ''contentHash'' = Some (JStr (content_hash_for (re_sha env) (mi_dataLine m))) \<and>
      map_of e ''key'' = Some (JObj (key_material_for (re_parse env) (re_files env) (mi_table m) (mi_row m))) \<and>
      map_of e ''op'' = Some (JStr (operation_name (mi_op m))) \<and>
      map_of e ''tombstone'' = Some (JBool (mi_op m = Op_Delete))"
    using e by (auto simp: accepted_table_mutation_record_def Let_def split: if_splits)
  then have "image_event_of env text = (if mi_op m = Op_Delete then Death else Birth) (image_of env m)"
    using t by (cases "mi_op m") (simp_all add: image_event_of_def image_of_def)
  with that t mutation_record_valid [OF e ne] show thesis by (simp add: record_of_def)
qed

text \<open>No committed line has the recorded hash, and for the key the commit has no row.\<close>

definition image_gone :: "replay_env \<Rightarrow> git_repo \<Rightarrow> string \<Rightarrow> string \<Rightarrow> mutation_input \<Rightarrow> bool" where
  "image_gone env repo c p m \<longleftrightarrow> fst (resolve_row env repo c (Some p) (record_of env m)) = None"

lemma derive_line_gone:
  assumes "logged isots env m (al_text a)" and "image_gone env repo c p m"
  shows "derive_line env repo c (Some p) pairs a =
    (if image_of env m \<in> set pairs then Inr None
     else Inl (case snd (resolve_row env repo c (Some p) (record_of env m)) of
        Some e \<Rightarrow> e | None \<Rightarrow> No_Data_Row (al_segment a) (al_line a)))"
proof -
  from logged_entry [OF assms(1)] obtain e where e: "re_parse env (al_text a) = Some (JObj e)"
    "is_change_record_candidate e" "validate_change_record e = Some (record_of env m)" by metis
  have r: "cr_ns (record_of env m) = re_ns env" "cr_tombstone (record_of env m) = (cr_op (record_of env m) = Op_Delete)"
    "row_image_signature (re_fmt env) (cr_table (record_of env m)) (cr_key (record_of env m))
       (cr_contentHash (record_of env m)) = image_of env m"
    using assms(1) by (simp_all add: record_of_def mutation_change_record_def image_of_def logged_def)
  obtain x where "resolve_row env repo c (Some p) (record_of env m) = (None, x)"
    using assms(2) by (cases "resolve_row env repo c (Some p) (record_of env m)") (auto simp: image_gone_def)
  with e r show ?thesis by (simp add: derive_line_def)
qed

text \<open>JSON values as a parser produces them: no repeated keys, no \<^verbatim>\<open>NaN\<close>.\<close>

fun json_ok :: "json \<Rightarrow> bool" where
  "json_ok (JNum x) = (x \<noteq> Not_A_Number)"
| "json_ok (JArr xs) = list_all json_ok xs"
| "json_ok (JObj ps) = (distinct (map fst ps) \<and> list_all (\<lambda>p. json_ok (snd p)) ps)"
| "json_ok _ = True"

lemma deep_equal_items_refl: "(\<forall>x \<in> set xs. deep_equal_json x x) \<Longrightarrow> deep_equal_items xs xs"
  by (induction xs) auto

lemma deep_equal_fields_sub:
  "(\<forall>p \<in> set ps. map_of qs (fst p) = Some (snd p) \<and> deep_equal_json (snd p) (snd p)) \<Longrightarrow>
   deep_equal_fields ps qs"
  by (induction ps) auto

lemma deep_equal_refl: "json_ok v \<Longrightarrow> deep_equal_json v v"
proof (induction v)
  case (JNum x)
  then show ?case by (simp add: jnum_eq_refl)
next
  case (JArr xs)
  then show ?case by (auto simp: list_all_iff intro!: deep_equal_items_refl)
next
  case (JObj ps)
  have "map_of ps (fst p) = Some (snd p) \<and> deep_equal_json (snd p) (snd p)" if "p \<in> set ps" for p
    using JObj that by (cases p) (auto simp: list_all_iff intro!: map_of_is_SomeI snds.intros)
  then show ?case by (auto intro!: deep_equal_fields_sub)
qed simp_all

lemma key_material_values:
  "map_of (key_material_for parse files table row) c = Some v \<Longrightarrow>
   row_column (column_order parse files table) row c = Some v"
proof -
  let ?f = "\<lambda>key column. case row_column (column_order parse files table) row column of
      None \<Rightarrow> key | Some v \<Rightarrow> obj_set column v key"
  have "map_of (foldl ?f key cols) c = Some v \<Longrightarrow>
      (\<forall>w. map_of key c = Some w \<longrightarrow> row_column (column_order parse files table) row c = Some w) \<Longrightarrow>
      row_column (column_order parse files table) row c = Some v" for key cols
  proof (induction cols arbitrary: key)
    case (Cons a cols)
    show ?case
    proof (rule Cons.IH [of "?f key a"])
      show "map_of (foldl ?f (?f key a) cols) c = Some v" using Cons.prems(1) by simp
      show "\<forall>w. map_of (?f key a) c = Some w \<longrightarrow>
          row_column (column_order parse files table) row c = Some w"
        using Cons.prems(2) by (auto split: option.splits if_splits)
    qed
  qed simp
  from this [of "[]"] show "map_of (key_material_for parse files table row) c = Some v \<Longrightarrow>
      row_column (column_order parse files table) row c = Some v"
    by (simp add: key_material_for_def)
qed

lemma row_column_ok: "json_ok row \<Longrightarrow> row_column order row c = Some v \<Longrightarrow> json_ok v"
  by (auto simp: row_column_def list_all_iff split: json.splits option.splits if_splits dest: map_of_SomeD)

lemma same_key_own:
  assumes "json_ok row"
  shows "same_key env table (key_material_for (re_parse env) (re_files env) table row) row c"
proof (cases "map_of (key_material_for (re_parse env) (re_files env) table row) c")
  case (Some v)
  from deep_equal_refl [OF row_column_ok [OF assms key_material_values [OF Some]]] Some
  show ?thesis by (simp add: same_key_def)
qed (simp add: same_key_def)

lemma logged_mutation_replays:
  assumes "logged isots env m (al_text a)"
    and "is_safe_repo_relative_path (mi_targetPath m)" and "gr_path repo c (mi_targetPath m) = Some bytes"
    and "mi_dataLine m \<in> set (file_lines bytes)" and "re_parse env (mi_dataLine m) = Some (mi_row m)"
    and "\<forall>l \<in> set (file_lines bytes). re_sha env l = re_sha env (mi_dataLine m) \<longrightarrow> l = mi_dataLine m"
    and "mi_row m \<noteq> JNull" and "json_ok (mi_row m)"
    and "missing_key_columns (re_parse env) (re_files env) (mi_table m) (mi_row m) = []"
  shows "derive_line env repo c par pairs a = Inr (Some (record_of env m, mi_row m))"
proof -
  from logged_entry [OF assms(1)] obtain e where e: "re_parse env (al_text a) = Some (JObj e)"
    "is_change_record_candidate e" "validate_change_record e = Some (record_of env m)" by metis
  let ?r = "record_of env m"
  have r: "cr_ns ?r = re_ns env" "cr_tombstone ?r = (cr_op ?r = Op_Delete)"
    "cr_targetPath ?r = mi_targetPath m" "cr_contentHash ?r = re_sha env (mi_dataLine m)"
    "cr_table ?r = mi_table m"
    "cr_key ?r = key_material_for (re_parse env) (re_files env) (mi_table m) (mi_row m)"
    using assms(1) by (simp_all add: record_of_def mutation_change_record_def logged_def content_hash_for_def)
  let ?P = "\<lambda>l. content_hash_for (re_sha env) l = re_sha env (mi_dataLine m) \<and> re_parse env l \<noteq> None"
  have "List.find ?P (file_lines bytes) \<noteq> None"
    using assms(4,5) by (auto simp: find_None_all content_hash_for_def)
  then obtain l where l: "List.find ?P (file_lines bytes) = Some l" by blast
  from find_Some_set [OF this] have "l = mi_dataLine m"
    using assms(6) by (auto simp: content_hash_for_def)
  with l assms(5) have "scan_hash env (re_sha env (mi_dataLine m)) (file_lines bytes) = Some (mi_row m)"
    by (simp add: scan_hash_def)
  then have "resolve_row env repo c par ?r = (Some (mi_row m), None)"
    using assms(2,3) by (simp add: resolve_row_def r resolve_data_row_by_hash_def)
  moreover have "List.find (\<lambda>c. \<not> same_key env (mi_table m) (cr_key ?r) (mi_row m) c)
      (declared_key_columns (re_parse env) (re_files env) (mi_table m)) = None"
    unfolding r find_None_all using same_key_own [OF assms(8)] by simp
  then have "check_row env a ?r (mi_row m) = Inr (Some (?r, mi_row m))"
    using assms(7,9) by (simp add: check_row_def r(5))
  ultimately show ?thesis using e r by (simp add: derive_line_def)
qed

text \<open>C28: a committed row that is updated and then deleted within one commit window is deleted
  without a trace in the feed.  Both records carry the updated image, which no commit holds, so
  they are taken for a row born and destroyed in the window: the commit replays to no change at
  all, although its parent holds the row and subscribers have seen it.\<close>

theorem update_then_delete_vanishes:
  assumes "added_audit_lines repo c (Some p) = Inr [u, v]"
    and "logged isots env mu (al_text u)" and "mi_op mu = Op_Update"
    and "logged isots env mv (al_text v)" and "mi_op mv = Op_Delete"
    and "image_of env mu = image_of env mv"
    and "image_gone env repo c p mu" and "image_gone env repo c p mv"
  shows "derive_commit_changes env repo c (Some (Some p)) = Inr []"
proof -
  have "image_event_of env (al_text u) = Birth (image_of env mu)"
    "image_event_of env (al_text v) = Death (image_of env mv)"
    using logged_entry [OF assms(2)] logged_entry [OF assms(4)] assms(3,5) by auto
  then have "same_window_birth_and_death env (map al_text [u, v]) = [image_of env mv]"
    using assms(6) by (simp add: same_window_birth_and_death_def List.map_filter_def)
  then show ?thesis
    using assms(1,6) derive_line_gone [OF assms(2,7)] derive_line_gone [OF assms(4,8)]
    by (simp add: derive_commit_changes_def)
qed

definition feed_old_row :: json where
  "feed_old_row = JObj [(''id'', JStr ''7''), (''v'', JStr ''old'')]"

definition feed_new_row :: json where
  "feed_new_row = JObj [(''id'', JStr ''7''), (''v'', JStr ''new'')]"

definition feed_hash :: "string \<Rightarrow> string" where
  "feed_hash l = replicate 64 (if l = ''new'' then CHR ''a'' else if l = ''old'' then CHR ''b'' else CHR ''c'')"

definition feed_mutation :: "change_operation \<Rightarrow> string \<Rightarrow> json \<Rightarrow> mutation_input" where
  "feed_mutation op line row =
     \<lparr>mi_ns = ''app'', mi_table = ''memories'', mi_op = op, mi_principal = None,
      mi_targetPath = ''m.jsonl'', mi_dataLine = line, mi_row = row, mi_ts = ''t''\<rparr>"

definition feed_entry :: "change_operation \<Rightarrow> string \<Rightarrow> (string \<times> json) list" where
  "feed_entry op line =
     [(''ts'', JStr ''t''), (''ns'', JStr ''app''), (''table'', JStr ''memories''),
      (''op'', JStr (operation_name op)), (''principal'', JNull), (''outcome'', JStr ''accepted''),
      (''targetPath'', JStr ''m.jsonl''), (''contentHash'', JStr (feed_hash line)),
      (''key'', JObj [(''id'', JStr ''7'')]), (''tombstone'', JBool (op = Op_Delete)),
      (''schemaVersion'', JNum (Fin 1))]"

definition feed_env :: replay_env where
  "feed_env =
     \<lparr>re_parse = (\<lambda>l. if l = ''i'' then Some (JObj (feed_entry Op_Insert ''first''))
        else if l = ''u'' then Some (JObj (feed_entry Op_Update ''new''))
        else if l = ''v'' then Some (JObj (feed_entry Op_Delete ''new''))
        else if l = ''old'' then Some feed_old_row
        else if l = ''new'' then Some feed_new_row else None),
      re_sha = feed_hash, re_fmt = (\<lambda>_. []), re_files = (\<lambda>_. None), re_ns = ''app''\<rparr>"

definition feed_repo :: "string list \<Rightarrow> string \<Rightarrow> git_repo" where
  "feed_repo ls before = sample_repo ls (\<lambda>ref path. Some (if ref = ''child'' then [] else before))"

lemma feed_key:
  "key_material_for parse files ''memories'' (JObj ((''id'', JStr ''7'') # ps)) = [(''id'', JStr ''7'')]"
  by (simp add: key_material_for_def declared_key_columns_def memories_table_def row_column_def)

lemma feed_logged:
  assumes "re_parse feed_env text = Some (JObj (feed_entry op line))"
    and "row = JObj ((''id'', JStr ''7'') # ps)"
  shows "logged (\<lambda>_. True) feed_env (feed_mutation op line row) text"
proof -
  have "list_all is_hex_lower (feed_hash line)" "length (feed_hash line) = 64"
    by (auto simp: feed_hash_def list_all_iff is_hex_lower_def is_digit_def)
  moreover have "re_sha feed_env = feed_hash" "re_ns feed_env = ''app''" by (simp_all add: feed_env_def)
  ultimately show ?thesis using assms
    by (simp add: logged_def feed_mutation_def accepted_table_mutation_record_def Let_def feed_entry_def
        content_hash_for_def feed_key declared_schema_version_def memories_table_def js_max_safe_def)
qed

lemma feed_gone:
  assumes "row = JObj ((''id'', JStr ''7'') # ps)" and "line \<noteq> ''old''" and "before = [] \<or> before = lines_text [''old'']"
  shows "image_gone feed_env (feed_repo ls before) ''child'' ''parent'' (feed_mutation op line row)"
    and "snd (resolve_row feed_env (feed_repo ls before) ''child'' (Some ''parent'')
      (record_of feed_env (feed_mutation op line row))) = None"
proof -
  have sha: "re_sha feed_env = feed_hash" by (simp add: feed_env_def)
  have safe: "is_safe_repo_relative_path ''m.jsonl''"
    by (simp add: is_safe_repo_relative_path_def starts_with_def)
  have path: "gr_path (feed_repo ls before) ref path = Some (if ref = ''child'' then [] else before)" for ref path
    by (simp add: feed_repo_def sample_repo_def)
  have rec: "cr_targetPath (record_of feed_env (feed_mutation op line row)) = ''m.jsonl''"
    "cr_contentHash (record_of feed_env (feed_mutation op line row)) = feed_hash line"
    by (simp_all add: record_of_def mutation_change_record_def feed_mutation_def content_hash_for_def sha)
  have ls: "file_lines before \<noteq> [] \<Longrightarrow> file_lines before = [''old'']"
    using assms(3) file_lines_text [of "[''old'']"]
    by (auto simp: record_line_def blank_iff is_space_def newline_def)
  have "feed_hash ''old'' \<noteq> feed_hash line" using assms(2) by (simp add: feed_hash_def)
  then have "scan_hash feed_env (feed_hash line) (file_lines before) = None"
    using ls by (cases "file_lines before = []") (auto simp: scan_hash_def content_hash_for_def sha)
  then have h: "resolve_data_row_by_hash feed_env (feed_repo ls before) ref ''m.jsonl'' (feed_hash line) = Inr None"
    for ref using safe by (simp add: resolve_data_row_by_hash_def path scan_hash_def)
  have k: "resolve_data_row_by_key feed_env (feed_repo ls before) ''child'' table ''m.jsonl'' key = None" for table key
    by (simp add: resolve_data_row_by_key_def path Let_def List.map_filter_def)
  have "resolve_row feed_env (feed_repo ls before) ''child'' (Some ''parent'')
      (record_of feed_env (feed_mutation op line row)) = (None, None)"
    by (simp add: resolve_row_def rec h row_at_parent_def row_by_key_def k)
  then show "image_gone feed_env (feed_repo ls before) ''child'' ''parent'' (feed_mutation op line row)"
    "snd (resolve_row feed_env (feed_repo ls before) ''child'' (Some ''parent'')
      (record_of feed_env (feed_mutation op line row))) = None"
    by (simp_all add: image_gone_def)
qed

lemma feed_parses:
  "re_parse feed_env ''i'' = Some (JObj (feed_entry Op_Insert ''first''))"
  "re_parse feed_env ''u'' = Some (JObj (feed_entry Op_Update ''new''))"
  "re_parse feed_env ''v'' = Some (JObj (feed_entry Op_Delete ''new''))"
  by (simp_all add: feed_env_def)

theorem update_then_delete_vanishes_witness:
  "derive_commit_changes feed_env (feed_repo [''u'', ''v''] (lines_text [''old''])) ''child''
     (Some (Some ''parent'')) = Inr [] \<and>
   resolve_data_row_by_key feed_env (feed_repo [''u'', ''v''] (lines_text [''old''])) ''parent'' ''memories''
     ''m.jsonl'' [(''id'', JStr ''7'')] = Some feed_old_row"
proof
  let ?repo = "feed_repo [''u'', ''v''] (lines_text [''old''])"
  obtain u v where added: "added_audit_lines ?repo ''child'' (Some ''parent'') = Inr [u, v]"
    and t: "al_text u = ''u''" "al_text v = ''v''"
    using sample_added [of "[''u'', ''v'']"] unfolding feed_repo_def
    by (fastforce simp: map_eq_Cons_conv)
  have lu: "logged (\<lambda>_. True) feed_env (feed_mutation Op_Update ''new'' feed_new_row) (al_text u)"
    and lv: "logged (\<lambda>_. True) feed_env (feed_mutation Op_Delete ''new'' feed_new_row) (al_text v)"
    unfolding t feed_new_row_def by (rule feed_logged [OF feed_parses(1) refl] feed_logged [OF feed_parses(2) refl]
        feed_logged [OF feed_parses(3) refl])+
  have g: "image_gone feed_env ?repo ''child'' ''parent'' (feed_mutation op ''new'' feed_new_row)" for op
    unfolding feed_new_row_def by (rule feed_gone(1) [OF refl]) simp_all
  show "derive_commit_changes feed_env ?repo ''child'' (Some (Some ''parent'')) = Inr []"
    by (rule update_then_delete_vanishes [OF added lu _ lv _ _ g g])
      (simp_all add: feed_mutation_def image_of_def)
  show "resolve_data_row_by_key feed_env ?repo ''parent'' ''memories'' ''m.jsonl'' [(''id'', JStr ''7'')]
      = Some feed_old_row"
  proof -
    have "file_lines (lines_text [''old'']) = [''old'']"
      by (rule file_lines_text) (simp add: record_line_def blank_iff is_space_def newline_def)
    then show ?thesis
      by (simp add: resolve_data_row_by_key_def feed_repo_def sample_repo_def declared_key_columns_def
          memories_table_def is_safe_repo_relative_path_def starts_with_def List.map_filter_def
          feed_env_def feed_old_row_def same_key_def feed_key [unfolded memories_table_def])
  qed
qed

text \<open>A row that is inserted, updated and deleted within one commit window stops the feed of
  the namespace.  The inserted image differs from the deleted one, so its record is not
  recognised as part of a pair; no commit holds the image, and the commit, which every
  subscriber must pass, fails to replay as corrupt.\<close>

theorem insert_update_delete_corrupts:
  assumes "added_audit_lines repo c (Some p) = Inr [i, u, v]"
    and "logged isots env mi (al_text i)" and "mi_op mi = Op_Insert"
    and "logged isots env mu (al_text u)" and "mi_op mu = Op_Update"
    and "logged isots env mv (al_text v)" and "mi_op mv = Op_Delete"
    and "image_of env mu = image_of env mv" and "image_of env mi \<noteq> image_of env mv"
    and "image_gone env repo c p mi"
    and "snd (resolve_row env repo c (Some p) (record_of env mi)) = None"
  shows "derive_commit_changes env repo c (Some (Some p)) = Inl (No_Data_Row (al_segment i) (al_line i))"
proof -
  have "image_event_of env (al_text i) = Birth (image_of env mi)"
    "image_event_of env (al_text u) = Birth (image_of env mu)"
    "image_event_of env (al_text v) = Death (image_of env mv)"
    using logged_entry [OF assms(2)] logged_entry [OF assms(4)] logged_entry [OF assms(6)] assms(3,5,7)
    by auto
  then have "same_window_birth_and_death env (map al_text [i, u, v]) = [image_of env mv]"
    using assms(8) by (simp add: same_window_birth_and_death_def List.map_filter_def)
  then show ?thesis
    using assms(1,9,11) derive_line_gone [OF assms(2,10)]
    by (simp add: derive_commit_changes_def res_bind_Inl_iff)
qed

definition feed_first_row :: json where
  "feed_first_row = JObj [(''id'', JStr ''7''), (''v'', JStr ''first'')]"

theorem insert_update_delete_corrupts_witness:
  "\<exists>seg line. derive_commit_changes feed_env (feed_repo [''i'', ''u'', ''v''] []) ''child''
     (Some (Some ''parent'')) = Inl (No_Data_Row seg line)"
proof -
  let ?repo = "feed_repo [''i'', ''u'', ''v''] []"
  obtain i u v where added: "added_audit_lines ?repo ''child'' (Some ''parent'') = Inr [i, u, v]"
    and t: "al_text i = ''i''" "al_text u = ''u''" "al_text v = ''v''"
    using sample_added [of "[''i'', ''u'', ''v'']"] unfolding feed_repo_def
    by (fastforce simp: map_eq_Cons_conv)
  have li: "logged (\<lambda>_. True) feed_env (feed_mutation Op_Insert ''first'' feed_first_row) (al_text i)"
    and lu: "logged (\<lambda>_. True) feed_env (feed_mutation Op_Update ''new'' feed_new_row) (al_text u)"
    and lv: "logged (\<lambda>_. True) feed_env (feed_mutation Op_Delete ''new'' feed_new_row) (al_text v)"
    unfolding t feed_new_row_def feed_first_row_def by (rule feed_logged [OF feed_parses(1) refl] feed_logged [OF feed_parses(2) refl]
        feed_logged [OF feed_parses(3) refl])+
  have g: "image_gone feed_env ?repo ''child'' ''parent'' (feed_mutation Op_Insert ''first'' feed_first_row)"
    "snd (resolve_row feed_env ?repo ''child'' (Some ''parent'')
      (record_of feed_env (feed_mutation Op_Insert ''first'' feed_first_row))) = None"
    unfolding feed_first_row_def by (rule feed_gone [OF refl]; simp)+
  have "image_of feed_env (feed_mutation Op_Insert ''first'' feed_first_row) \<noteq>
      image_of feed_env (feed_mutation Op_Delete ''new'' feed_new_row)"
    by (simp add: image_of_def feed_mutation_def row_image_signature_def feed_first_row_def feed_new_row_def
        feed_key content_hash_for_def feed_env_def feed_hash_def)
  from insert_update_delete_corrupts [OF added li _ lu _ lv _ _ this g] show ?thesis
    by (auto simp: feed_mutation_def image_of_def)
qed

section \<open>A commit with two changes\<close>

definition live_repo :: git_repo where
  "live_repo = sample_repo [''u'', ''v''] (\<lambda>ref path. Some (lines_text [''new'']))"

lemma live_line:
  assumes "al_text a = text" and "re_parse feed_env text = Some (JObj (feed_entry op ''new''))"
  shows "derive_line feed_env live_repo ''child'' par pairs a =
    Inr (Some (record_of feed_env (feed_mutation op ''new'' feed_new_row), feed_new_row))"
proof -
  let ?m = "feed_mutation op ''new'' feed_new_row"
  have lg: "logged (\<lambda>_. True) feed_env ?m (al_text a)"
    unfolding assms(1) feed_new_row_def by (rule feed_logged [OF assms(2) refl])
  have ls: "file_lines (lines_text [''new'']) = [''new'']"
    by (rule file_lines_text) (simp add: record_line_def blank_iff is_space_def newline_def)
  have "derive_line feed_env live_repo ''child'' par pairs a = Inr (Some (record_of feed_env ?m, mi_row ?m))"
  proof (rule logged_mutation_replays [OF lg])
    show "is_safe_repo_relative_path (mi_targetPath ?m)"
      by (simp add: feed_mutation_def is_safe_repo_relative_path_def starts_with_def)
    show "gr_path live_repo ''child'' (mi_targetPath ?m) = Some (lines_text [''new''])"
      by (simp add: live_repo_def sample_repo_def)
    show "missing_key_columns (re_parse feed_env) (re_files feed_env) (mi_table ?m) (mi_row ?m) = []"
      by (simp add: missing_key_columns_def declared_key_columns_def feed_mutation_def memories_table_def
          row_column_def feed_new_row_def)
  qed (simp_all only: ls, simp_all add: feed_mutation_def feed_env_def feed_new_row_def)
  then show ?thesis by (simp add: feed_mutation_def)
qed

text \<open>C22: an accepted mutation is replayed as itself.  When the data line of a logged insert or
  update stands in the committed target file, is the only line there with its hash, and its row
  carries every declared key column, the replay of the audit line yields exactly the record the
  mutation wrote, with exactly that row.\<close>

theorem accepted_mutation_replays:
  assumes "logged isots env m (al_text a)"
    and "is_safe_repo_relative_path (mi_targetPath m)" and "gr_path repo c (mi_targetPath m) = Some bytes"
    and "mi_dataLine m \<in> set (file_lines bytes)" and "re_parse env (mi_dataLine m) = Some (mi_row m)"
    and "\<forall>l \<in> set (file_lines bytes). re_sha env l = re_sha env (mi_dataLine m) \<longrightarrow> l = mi_dataLine m"
    and "mi_row m \<noteq> JNull" and "json_ok (mi_row m)"
    and "missing_key_columns (re_parse env) (re_files env) (mi_table m) (mi_row m) = []"
  shows "derive_line env repo c par pairs a = Inr (Some (record_of env m, mi_row m))"
  by (rule logged_mutation_replays [OF assms])

theorem accepted_mutation_replays_witness:
  "derive_line feed_env live_repo ''child'' None []
     \<lparr>al_segment = ''current.jsonl'', al_line = 2, al_text = ''u''\<rparr> =
   Inr (Some (record_of feed_env (feed_mutation Op_Update ''new'' feed_new_row), feed_new_row))"
proof -
  let ?m = "feed_mutation Op_Update ''new'' feed_new_row"
  have lg: "logged (\<lambda>_. True) feed_env ?m ''u''"
    unfolding feed_new_row_def by (rule feed_logged [OF feed_parses(2) refl])
  have ls: "file_lines (lines_text [''new'']) = [''new'']"
    by (rule file_lines_text) (simp add: record_line_def blank_iff is_space_def newline_def)
  have "derive_line feed_env live_repo ''child'' None [] \<lparr>al_segment = ''current.jsonl'', al_line = 2, al_text = ''u''\<rparr> =
      Inr (Some (record_of feed_env ?m, mi_row ?m))"
  proof (rule accepted_mutation_replays)
    show "logged (\<lambda>_. True) feed_env ?m (al_text \<lparr>al_segment = ''current.jsonl'', al_line = 2, al_text = ''u''\<rparr>)"
      using lg by simp
    show "is_safe_repo_relative_path (mi_targetPath ?m)"
      by (simp add: feed_mutation_def is_safe_repo_relative_path_def starts_with_def)
    show "gr_path live_repo ''child'' (mi_targetPath ?m) = Some (lines_text [''new''])"
      by (simp add: live_repo_def sample_repo_def)
    show "missing_key_columns (re_parse feed_env) (re_files feed_env) (mi_table ?m) (mi_row ?m) = []"
      by (simp add: missing_key_columns_def declared_key_columns_def feed_mutation_def memories_table_def
          row_column_def feed_new_row_def)
  qed (simp_all only: ls, simp_all add: feed_mutation_def feed_env_def feed_new_row_def)
  then show ?thesis by (simp add: feed_mutation_def)
qed

lemma live_changes:
  "derive_commit_changes feed_env live_repo ''child'' (Some (Some ''parent'')) =
     Inr (number_changes ''child'' [] 0
       [Some (record_of feed_env (feed_mutation Op_Update ''new'' feed_new_row), feed_new_row),
        Some (record_of feed_env (feed_mutation Op_Delete ''new'' feed_new_row), feed_new_row)])"
proof -
  obtain u v where added: "added_audit_lines live_repo ''child'' (Some ''parent'') = Inr [u, v]"
    and t: "al_text u = ''u''" "al_text v = ''v''"
    using sample_added [of "[''u'', ''v'']"] unfolding live_repo_def
    by (fastforce simp: map_eq_Cons_conv)
  have "gr_time live_repo ''child'' = []" by (simp add: live_repo_def sample_repo_def)
  with added live_line [OF t(1) feed_parses(2)] live_line [OF t(2) feed_parses(3)]
  show ?thesis by (simp add: derive_commit_changes_def Let_def)
qed

theorem replay_changes_sound_witness:
  "change_ok feed_env live_repo ''child'' (Some ''parent'')
     (record_of feed_env (feed_mutation Op_Delete ''new'' feed_new_row)) feed_new_row"
  using replay_changes_sound [OF live_changes] by simp

theorem replay_accounts_for_lines_witness:
  "\<exists>outcomes. List.map_filter id outcomes =
     [(record_of feed_env (feed_mutation Op_Update ''new'' feed_new_row), feed_new_row),
      (record_of feed_env (feed_mutation Op_Delete ''new'' feed_new_row), feed_new_row)]"
  using replay_accounts_for_lines [OF live_changes] by fastforce

end
