(* ===== verification/Write_Lock.thy ===== *)
theory Write_Lock
  imports Duck_Prelude
begin

text \<open>
  The cross-process namespace lock of \<^verbatim>\<open>src/serialization/lock.ts\<close>: a lock file created with
  the exclusive flag, holding the owner's pid, time and nonce, broken when its owner is dead or
  stale, re-read to fence a preempted owner, and unlinked on release.  \<open>acquire_alone\<close> is the
  acquisition of one process that nothing interferes with; \<open>lock_step\<close> interleaves the file
  system calls of any number of processes.  A file node is identified by the nonce drawn by the
  attempt that created it, since a write goes to the opened node even after it was unlinked.
\<close>

section \<open>The lock file\<close>

datatype lock_content = Payload nat int string | Corrupt

record lock_node =
  ln_creator :: string
  ln_content :: lock_content
  ln_mtime :: int

definition lock_stale_ms :: int where
  "lock_stale_ms = 10 * 60 * 1000"

definition should_break :: "(nat \<Rightarrow> bool) \<Rightarrow> int \<Rightarrow> lock_node option \<Rightarrow> bool" where
  "should_break alive now file =
     (case file of
        None \<Rightarrow> True
      | Some f \<Rightarrow>
          (case ln_content f of
             Payload pid ts nonce \<Rightarrow> \<not> alive pid \<or> now - ts > lock_stale_ms
           | Corrupt \<Rightarrow> now - ln_mtime f > lock_stale_ms))"

definition token_still_current :: "lock_node option \<Rightarrow> string \<Rightarrow> bool" where
  "token_still_current file token =
     (case file of
        None \<Rightarrow> False
      | Some f \<Rightarrow> (case ln_content f of Payload pid ts nonce \<Rightarrow> nonce = token | Corrupt \<Rightarrow> False))"

definition lock_node_of :: "nat \<Rightarrow> int \<Rightarrow> string \<Rightarrow> lock_node" where
  "lock_node_of pid now token = \<lparr>ln_creator = token, ln_content = Payload pid now token, ln_mtime = now\<rparr>"

text \<open>
  One acquisition without interference.  The list holds the nonces the attempts draw; its length
  is the number of attempts left, four at the call.
\<close>

fun acquire_alone ::
  "(nat \<Rightarrow> bool) \<Rightarrow> int \<Rightarrow> nat \<Rightarrow> string list \<Rightarrow> lock_node option \<Rightarrow> string option \<times> lock_node option" where
  "acquire_alone alive now pid [] file = (None, file)"
| "acquire_alone alive now pid (token # tokens) file =
     (case file of
        None \<Rightarrow> (Some token, Some (lock_node_of pid now token))
      | Some f \<Rightarrow>
          if \<not> should_break alive now (Some f) then (None, file)
          else acquire_alone alive now pid tokens None)"

definition release_alone :: "string option \<Rightarrow> lock_node option \<Rightarrow> lock_node option" where
  "release_alone lock file =
     (case lock of
        None \<Rightarrow> file
      | Some token \<Rightarrow> if token_still_current file token then None else file)"

section \<open>Interleaved processes\<close>

datatype lock_pc =
    Idle
  | Trying nat
  | Opened string
  | Exists nat
  | Breaking nat
  | Holding string
  | Releasing string

record lock_world =
  lw_file :: "lock_node option"
  lw_now :: int
  lw_alive :: "nat \<Rightarrow> bool"
  lw_pc :: "nat \<Rightarrow> lock_pc"
  lw_used :: "string set"

definition max_attempts :: nat where
  "max_attempts = 4"

text \<open>
  \<open>Trying k\<close>: about to open for attempt \<open>k\<close>; \<open>Opened\<close>: created the file, not yet written;
  \<open>Exists k\<close>: the open failed with \<^verbatim>\<open>EEXIST\<close>; \<open>Breaking k\<close>: \<^verbatim>\<open>shouldBreak\<close> said yes, about to
  unlink; \<open>Releasing\<close>: the release has checked its token, about to unlink.
\<close>

inductive lock_step :: "lock_world \<Rightarrow> lock_world \<Rightarrow> bool" where
  Start: "lw_pc w p = Idle \<Longrightarrow> lw_alive w p \<Longrightarrow>
    lock_step w (w\<lparr>lw_pc := (lw_pc w)(p := Trying 0)\<rparr>)"
| Create: "lw_pc w p = Trying k \<Longrightarrow> k < max_attempts \<Longrightarrow> lw_file w = None \<Longrightarrow> token \<notin> lw_used w \<Longrightarrow>
    lock_step w (w\<lparr>lw_file := Some \<lparr>ln_creator = token, ln_content = Corrupt, ln_mtime = lw_now w\<rparr>,
                   lw_used := insert token (lw_used w), lw_pc := (lw_pc w)(p := Opened token)\<rparr>)"
| Write: "lw_pc w p = Opened token \<Longrightarrow>
    lock_step w (w\<lparr>lw_file := map_option (\<lambda>f. if ln_creator f = token
                     then lock_node_of p (lw_now w) token else f) (lw_file w),
                   lw_pc := (lw_pc w)(p := Holding token)\<rparr>)"
| Eexist: "lw_pc w p = Trying k \<Longrightarrow> k < max_attempts \<Longrightarrow> lw_file w = Some f \<Longrightarrow>
    lock_step w (w\<lparr>lw_pc := (lw_pc w)(p := Exists k)\<rparr>)"
| Exhausted: "lw_pc w p = Trying k \<Longrightarrow> max_attempts \<le> k \<Longrightarrow>
    lock_step w (w\<lparr>lw_pc := (lw_pc w)(p := Idle)\<rparr>)"
| Refuse: "lw_pc w p = Exists k \<Longrightarrow> \<not> should_break (lw_alive w) (lw_now w) (lw_file w) \<Longrightarrow>
    lock_step w (w\<lparr>lw_pc := (lw_pc w)(p := Idle)\<rparr>)"
| Decide: "lw_pc w p = Exists k \<Longrightarrow> should_break (lw_alive w) (lw_now w) (lw_file w) \<Longrightarrow>
    lock_step w (w\<lparr>lw_pc := (lw_pc w)(p := Breaking k)\<rparr>)"
| Unlink: "lw_pc w p = Breaking k \<Longrightarrow>
    lock_step w (w\<lparr>lw_file := None, lw_pc := (lw_pc w)(p := Trying (k + 1))\<rparr>)"
| Check: "lw_pc w p = Holding token \<Longrightarrow> token_still_current (lw_file w) token \<Longrightarrow>
    lock_step w (w\<lparr>lw_pc := (lw_pc w)(p := Releasing token)\<rparr>)"
| Lost: "lw_pc w p = Holding token \<Longrightarrow> \<not> token_still_current (lw_file w) token \<Longrightarrow>
    lock_step w (w\<lparr>lw_pc := (lw_pc w)(p := Idle)\<rparr>)"
| Release: "lw_pc w p = Releasing token \<Longrightarrow>
    lock_step w (w\<lparr>lw_file := None, lw_pc := (lw_pc w)(p := Idle)\<rparr>)"
| Tick: "0 \<le> d \<Longrightarrow> lock_step w (w\<lparr>lw_now := lw_now w + d\<rparr>)"
| Die: "lock_step w (w\<lparr>lw_alive := (lw_alive w)(p := False), lw_pc := (lw_pc w)(p := Idle)\<rparr>)"

inductive lock_reach :: "lock_world \<Rightarrow> lock_world \<Rightarrow> bool" for w0 where
  Here: "lock_reach w0 w0"
| Step: "lock_reach w0 w \<Longrightarrow> lock_step w w' \<Longrightarrow> lock_reach w0 w'"

definition lock_start :: lock_world where
  "lock_start = \<lparr>lw_file = None, lw_now = 0, lw_alive = (\<lambda>_. True), lw_pc = (\<lambda>_. Idle), lw_used = {}\<rparr>"

section \<open>Invariant\<close>

fun owns :: "lock_pc \<Rightarrow> string \<Rightarrow> bool" where
  "owns (Opened t) u = (t = u)"
| "owns (Holding t) u = (t = u)"
| "owns (Releasing t) u = (t = u)"
| "owns _ u = False"

definition lock_inv :: "lock_world \<Rightarrow> bool" where
  "lock_inv w \<longleftrightarrow>
     (\<forall>p t. owns (lw_pc w p) t \<longrightarrow> t \<in> lw_used w) \<and>
     (\<forall>p q t. owns (lw_pc w p) t \<longrightarrow> owns (lw_pc w q) t \<longrightarrow> p = q) \<and>
     (\<forall>f. lw_file w = Some f \<longrightarrow> ln_creator f \<in> lw_used w \<and>
        (case ln_content f of
           Payload pid ts nonce \<Rightarrow> nonce = ln_creator f \<and> (\<forall>p. owns (lw_pc w p) nonce \<longrightarrow> p = pid)
         | Corrupt \<Rightarrow> True))"

lemma lock_inv_start: "lock_inv lock_start"
  by (simp add: lock_inv_def lock_start_def)

text \<open>A step that gives no process a new token and keeps or removes the file.\<close>

definition no_gain :: "lock_world \<Rightarrow> lock_world \<Rightarrow> bool" where
  "no_gain w w' \<longleftrightarrow>
     (\<forall>q t. owns (lw_pc w' q) t \<longrightarrow> owns (lw_pc w q) t) \<and> lw_used w' = lw_used w \<and>
     (lw_file w' = lw_file w \<or> lw_file w' = None)"

lemma lock_inv_no_gain:
  assumes inv: "lock_inv w" and ng: "no_gain w w'"
  shows "lock_inv w'"
proof -
  from ng have sub: "\<And>q t. owns (lw_pc w' q) t \<Longrightarrow> owns (lw_pc w q) t" and u: "lw_used w' = lw_used w"
    by (auto simp: no_gain_def)
  have 1: "\<forall>p t. owns (lw_pc w' p) t \<longrightarrow> t \<in> lw_used w'"
    using inv sub u unfolding lock_inv_def by metis
  have 2: "\<forall>p q t. owns (lw_pc w' p) t \<longrightarrow> owns (lw_pc w' q) t \<longrightarrow> p = q"
    using inv sub unfolding lock_inv_def by metis
  have "ln_creator f \<in> lw_used w' \<and> (case ln_content f of
      Payload pid ts nonce \<Rightarrow> nonce = ln_creator f \<and> (\<forall>p. owns (lw_pc w' p) nonce \<longrightarrow> p = pid)
    | Corrupt \<Rightarrow> True)" if f: "lw_file w' = Some f" for f
  proof -
    from f ng have "lw_file w = Some f" by (auto simp: no_gain_def)
    with inv have "ln_creator f \<in> lw_used w" and "case ln_content f of
        Payload pid ts nonce \<Rightarrow> nonce = ln_creator f \<and> (\<forall>p. owns (lw_pc w p) nonce \<longrightarrow> p = pid)
      | Corrupt \<Rightarrow> True" by (simp_all add: lock_inv_def)
    with sub u show ?thesis by (cases "ln_content f") auto
  qed
  with 1 2 show ?thesis by (simp add: lock_inv_def)
qed

lemma lock_inv_create:
  assumes inv: "lock_inv w" and new: "token \<notin> lw_used w"
  shows "lock_inv (w\<lparr>lw_file := Some \<lparr>ln_creator = token, ln_content = Corrupt, ln_mtime = t\<rparr>,
           lw_used := insert token (lw_used w), lw_pc := (lw_pc w)(p := Opened token)\<rparr>)"
  using inv new unfolding lock_inv_def by (auto split: if_splits)

lemma lock_inv_write:
  assumes inv: "lock_inv w" and pc: "lw_pc w p = Opened token"
  shows "lock_inv (w\<lparr>lw_file := map_option (\<lambda>f. if ln_creator f = token
                     then lock_node_of p t token else f) (lw_file w),
                   lw_pc := (lw_pc w)(p := Holding token)\<rparr>)" (is "lock_inv ?w'")
proof -
  have own: "owns (lw_pc ?w' q) u \<longleftrightarrow> owns (lw_pc w q) u" for q u using pc by simp
  have uniq: "owns (lw_pc w q) token \<Longrightarrow> q = p" for q
  proof -
    assume "owns (lw_pc w q) token"
    moreover have "owns (lw_pc w p) token" using pc by simp
    ultimately show "q = p" using inv unfolding lock_inv_def by metis
  qed
  have 1: "\<forall>p t. owns (lw_pc ?w' p) t \<longrightarrow> t \<in> lw_used ?w'"
    unfolding own using inv by (simp add: lock_inv_def)
  have 2: "\<forall>p q t. owns (lw_pc ?w' p) t \<longrightarrow> owns (lw_pc ?w' q) t \<longrightarrow> p = q"
    unfolding own using inv by (simp add: lock_inv_def)
  have "ln_creator f \<in> lw_used ?w' \<and> (case ln_content f of
      Payload pid ts nonce \<Rightarrow> nonce = ln_creator f \<and> (\<forall>p. owns (lw_pc ?w' p) nonce \<longrightarrow> p = pid)
    | Corrupt \<Rightarrow> True)" if f: "lw_file ?w' = Some f" for f
  proof -
    from f obtain g where g: "lw_file w = Some g"
      and fg: "f = (if ln_creator g = token then lock_node_of p t token else g)" by auto
    show ?thesis unfolding own
    proof (cases "ln_creator g = token")
      case True
      with inv g uniq fg show "ln_creator f \<in> lw_used ?w' \<and> (case ln_content f of
          Payload pid ts nonce \<Rightarrow> nonce = ln_creator f \<and> (\<forall>p. owns (lw_pc w p) nonce \<longrightarrow> p = pid)
        | Corrupt \<Rightarrow> True)" by (auto simp: lock_inv_def lock_node_of_def)
    next
      case False
      with fg have "f = g" by simp
      with inv g show "ln_creator f \<in> lw_used ?w' \<and> (case ln_content f of
          Payload pid ts nonce \<Rightarrow> nonce = ln_creator f \<and> (\<forall>p. owns (lw_pc w p) nonce \<longrightarrow> p = pid)
        | Corrupt \<Rightarrow> True)" by (auto simp: lock_inv_def split: lock_content.splits)
    qed
  qed
  then have 3: "\<forall>f. lw_file ?w' = Some f \<longrightarrow> ln_creator f \<in> lw_used ?w' \<and> (case ln_content f of
      Payload pid ts nonce \<Rightarrow> nonce = ln_creator f \<and> (\<forall>p. owns (lw_pc ?w' p) nonce \<longrightarrow> p = pid)
    | Corrupt \<Rightarrow> True)" by (intro allI impI)
  show ?thesis unfolding lock_inv_def by (intro conjI 1 2 3)
qed

lemma lock_inv_step: "lock_step w w' \<Longrightarrow> lock_inv w \<Longrightarrow> lock_inv w'"
proof (induction rule: lock_step.induct)
  case (Create w p k token)
  show ?case by (rule lock_inv_create [OF Create(5,4)])
next
  case (Write w p token)
  show ?case by (rule lock_inv_write [OF Write(2,1)])
qed (erule lock_inv_no_gain, simp add: no_gain_def)+

lemma lock_inv_reach: "lock_reach lock_start w \<Longrightarrow> lock_inv w"
proof (induction rule: lock_reach.induct)
  case Here
  show ?case by (rule lock_inv_start)
next
  case (Step w w')
  show ?case by (rule lock_inv_step [OF Step(2,3)])
qed

section \<open>Runs\<close>

text \<open>Worlds in which every process is alive, and the moves the runs below use.\<close>

definition live_world :: "int \<Rightarrow> lock_node option \<Rightarrow> (nat \<Rightarrow> lock_pc) \<Rightarrow> string set \<Rightarrow> lock_world" where
  "live_world t f pcs u = \<lparr>lw_file = f, lw_now = t, lw_alive = (\<lambda>_. True), lw_pc = pcs, lw_used = u\<rparr>"

abbreviation reached :: "int \<Rightarrow> lock_node option \<Rightarrow> (nat \<Rightarrow> lock_pc) \<Rightarrow> string set \<Rightarrow> bool" where
  "reached t f pcs u \<equiv> lock_reach lock_start (live_world t f pcs u)"

lemma run_base: "reached 0 None (\<lambda>_. Idle) {}"
  using lock_reach.Here [of lock_start] by (simp add: live_world_def lock_start_def)

lemma run_start: "reached t f pcs u \<Longrightarrow> pcs p = Idle \<Longrightarrow> reached t f (pcs(p := Trying 0)) u"
  by (erule lock_reach.Step) (use lock_step.Start [of "live_world t f pcs u" p] in \<open>simp add: live_world_def\<close>)

lemma run_exists:
  "reached t (Some g) pcs u \<Longrightarrow> pcs p = Trying 0 \<Longrightarrow> reached t (Some g) (pcs(p := Exists 0)) u"
  by (erule lock_reach.Step)
    (use lock_step.Eexist [of "live_world t (Some g) pcs u" p 0 g] in \<open>simp add: live_world_def max_attempts_def\<close>)

lemma run_decide:
  "reached t f pcs u \<Longrightarrow> pcs p = Exists 0 \<Longrightarrow> should_break (\<lambda>_. True) t f \<Longrightarrow>
   reached t f (pcs(p := Breaking 0)) u"
  by (erule lock_reach.Step)
    (use lock_step.Decide [of "live_world t f pcs u" p 0] in \<open>simp add: live_world_def\<close>)

lemma run_unlink:
  "reached t f pcs u \<Longrightarrow> pcs p = Breaking 0 \<Longrightarrow> reached t None (pcs(p := Trying 1)) u"
  by (erule lock_reach.Step)
    (use lock_step.Unlink [of "live_world t f pcs u" p 0] in \<open>simp add: live_world_def\<close>)

lemma run_acquire:
  assumes "reached t None pcs u" and "pcs p = Trying k" and "k < 4" and "token \<notin> u"
  shows "reached t (Some (lock_node_of p t token)) (pcs(p := Holding token)) (insert token u)"
proof -
  have "reached t (Some \<lparr>ln_creator = token, ln_content = Corrupt, ln_mtime = t\<rparr>)
      (pcs(p := Opened token)) (insert token u)"
    using lock_reach.Step [OF assms(1) lock_step.Create [of _ p k token]] assms(2-)
    by (simp add: live_world_def max_attempts_def)
  from lock_reach.Step [OF this lock_step.Write [of _ p token]] show ?thesis
    by (simp add: live_world_def)
qed

lemma run_check:
  "reached t f pcs u \<Longrightarrow> pcs p = Holding token \<Longrightarrow> token_still_current f token \<Longrightarrow>
   reached t f (pcs(p := Releasing token)) u"
  by (erule lock_reach.Step)
    (use lock_step.Check [of "live_world t f pcs u" p token] in \<open>simp add: live_world_def\<close>)

lemma run_release:
  "reached t f pcs u \<Longrightarrow> pcs p = Releasing token \<Longrightarrow> reached t None (pcs(p := Idle)) u"
  by (erule lock_reach.Step)
    (use lock_step.Release [of "live_world t f pcs u" p token] in \<open>simp add: live_world_def\<close>)

lemma run_tick: "reached t f pcs u \<Longrightarrow> 0 \<le> d \<Longrightarrow> reached (t + d) f pcs u"
  by (erule lock_reach.Step)
    (use lock_step.Tick [of d "live_world t f pcs u"] in \<open>simp add: live_world_def\<close>)

lemma current_node [simp]: "token_still_current (Some (lock_node_of p t token)) token' \<longleftrightarrow> token' = token"
  by (auto simp: token_still_current_def lock_node_of_def)

lemma should_break_node [simp]:
  "should_break alive now (Some (lock_node_of p t token)) \<longleftrightarrow> \<not> alive p \<or> now - t > lock_stale_ms"
  by (simp add: should_break_def lock_node_of_def)

section \<open>Properties\<close>


text \<open>Acquisition without interference.  A process that no other disturbs gets the lock
  exactly when there is no lock file or the file may be broken, its owner dead or its age beyond
  ten minutes; it then owns the file with a nonce of its own, and otherwise leaves the file as it
  was.  Two of the four attempts are enough.\<close>

theorem acquire_alone_exact:
  "acquire_alone alive now pid (t1 # t2 # tokens) file =
     (case file of
        None \<Rightarrow> (Some t1, Some (lock_node_of pid now t1))
      | Some f \<Rightarrow>
          if should_break alive now file then (Some t2, Some (lock_node_of pid now t2))
          else (None, file))"
  by (simp split: option.splits)

text \<open>The lock does not exclude.  From the initial state a run exists, with every process
  alive and no time passing, after which two processes hold the lock: one whose open met an
  existing file that was released before its \<^verbatim>\<open>stat\<close> takes the missing file for a broken lock
  and unlinks the file a third process has created in the meantime.\<close>

theorem lock_two_holders:
  "\<exists>w. lock_reach lock_start w \<and> lw_now w = 0 \<and> (\<forall>p. lw_alive w p) \<and>
     lw_pc w 2 = Holding ''b'' \<and> lw_pc w 3 = Holding ''c'' \<and> token_still_current (lw_file w) ''b''"
proof -
  let ?pcs = "(\<lambda>_. Idle)(1 := Trying 0, 1 := Holding ''a'', 2 := Trying 0, 2 := Exists 0,
    1 := Releasing ''a'', 1 := Idle, 2 := Breaking 0, 3 := Trying 0, 3 := Holding ''c'',
    2 := Trying 1, 2 := Holding ''b'')"
  have "reached 0 (Some (lock_node_of 2 0 ''b'')) ?pcs {''b'', ''c'', ''a''}"
    by (rule run_acquire [of _ _ _ 2 1], rule run_unlink, rule run_acquire [of _ _ _ 3 0],
        rule run_start, rule run_decide, rule run_release [of _ _ _ _ 1 "''a''"], rule run_check,
        rule run_exists, rule run_start, rule run_acquire [of _ _ _ 1 0], rule run_start, rule run_base)
      (simp_all add: should_break_def)
  then show ?thesis by (intro exI [of _ "live_world 0 _ ?pcs _"]) (auto simp: live_world_def)
qed

text \<open>A release can unlink a successor's lock.  A run exists in which a process has checked
  its token, is preempted as stale before it unlinks, and then removes the file of the process
  that took over and still holds the lock.\<close>

theorem release_unlinks_successor:
  "\<exists>w w'. lock_reach lock_start w \<and> lw_pc w 1 = Releasing ''a'' \<and> lw_pc w 2 = Holding ''b'' \<and>
     token_still_current (lw_file w) ''b'' \<and> lock_step w w' \<and>
     lw_pc w' 2 = Holding ''b'' \<and> lw_file w' = None"
proof -
  let ?pcs = "(\<lambda>_. Idle)(1 := Trying 0, 1 := Holding ''a'', 1 := Releasing ''a'', 2 := Trying 0,
    2 := Exists 0, 2 := Breaking 0, 2 := Trying 1, 2 := Holding ''b'')"
  let ?w = "live_world (0 + 600001) (Some (lock_node_of 2 (0 + 600001) ''b'')) ?pcs {''b'', ''a''}"
  have "lock_reach lock_start ?w"
    by (rule run_acquire [of _ _ _ 2 1], rule run_unlink, rule run_decide, rule run_tick,
        rule run_exists, rule run_start, rule run_check, rule run_acquire [of _ _ _ 1 0], rule run_start, rule run_base)
      (simp_all add: lock_stale_ms_def)
  moreover have "lock_step ?w (?w\<lparr>lw_file := None, lw_pc := (lw_pc ?w)(1 := Idle)\<rparr>)"
    by (rule lock_step.Release [of _ _ "''a''"]) (simp add: live_world_def)
  ultimately show ?thesis
    by (intro exI [of _ ?w] exI [of _ "?w\<lparr>lw_file := None, lw_pc := (lw_pc ?w)(1 := Idle)\<rparr>"])
      (auto simp: live_world_def)
qed


end
