(* ===== verification/Ddl_Journal.thy ===== *)
theory Ddl_Journal
  imports Roles Change_Record
begin

text \<open>
  The DDL coordinator of \<^verbatim>\<open>src/serialization/ddl.ts\<close>: authorization, the operation journal,
  the durable steps of one operation with its single schema switch, recovery of an interrupted
  operation, and idempotent replay.  A namespace is the text of \<^verbatim>\<open>schema.json\<close>, its data files
  by relative path, and its journals by operation id.  \<open>operation_trace\<close> lists the namespace
  after every durable write, so a crash is any prefix of it; the fence lock is held throughout.
  What an operation computes, \<^verbatim>\<open>hooks.work\<close>, is an argument, as in the code; the hash and the
  JSON parser are arguments too.
\<close>

section \<open>Namespaces, journals and results\<close>

datatype journal_status =
  Started | Prepared | Generation_Written | Switched | Finalized | Abandoned | Failed | Fail_Closed

record generation_result =
  gn_path :: string
  gn_previousPath :: string
  gn_sha256 :: string
  gn_rows :: nat

record ddl_result =
  dr_operation :: string
  dr_table :: "string option"
  dr_view :: "string option"
  dr_schemaVersion :: int
  dr_documentHash :: string
  dr_replay :: bool
  dr_generation :: "generation_result option"

record ddl_journal =
  jn_operation :: string
  jn_table :: "string option"
  jn_key :: "string option"
  jn_requestHash :: string
  jn_status :: journal_status
  jn_result :: "ddl_result option"
  jn_old :: "string option"
  jn_new :: "string option"
  jn_newPath :: "string option"
  jn_newDigest :: "string option"

record ddl_store =
  ds_schema :: "string option"
  ds_files :: "(string \<times> string) list"
  ds_journals :: "(string \<times> ddl_journal) list"

datatype ddl_error =
    Forbidden string
  | Idempotency_Conflict
  | Idempotency_Replay_Incomplete
  | Recovery_Required
  | Invalid_Document "string list"
  | Work_Error string

text \<open>The admin gate of every DDL call.\<close>

definition authorize_ddl :: "principal option \<Rightarrow> string \<Rightarrow> ddl_error + unit" where
  "authorize_ddl po ns =
     (case po of
        None \<Rightarrow> Inr ()
      | Some p \<Rightarrow>
          (case authorize_resource po ns Tables_Write of
             Denied r m \<Rightarrow> Inl (Forbidden m)
           | Allowed \<Rightarrow>
               if has_any_role p [Admin] then Inr ()
               else Inl (Forbidden (''Forbidden: principal '' @ quoted (pr_name p) @ '' lacks the '' @
                 quoted ''admin'' @ '' role required for namespace DDL''))))"

section \<open>Journals on disk\<close>

text \<open>Journals are read in the order of their file names, \<^verbatim>\<open><operation-id>.json\<close>.\<close>

definition read_ddl_journals :: "ddl_store \<Rightarrow> (string \<times> ddl_journal) list" where
  "read_ddl_journals st = sort_key (\<lambda>e. fst e @ ''.json'') (ds_journals st)"

definition put_journal :: "string \<Rightarrow> ddl_journal \<Rightarrow> ddl_store \<Rightarrow> ddl_store" where
  "put_journal opid j st = st\<lparr>ds_journals := obj_set opid j (ds_journals st)\<rparr>"

definition journal_settled :: "ddl_journal \<Rightarrow> bool" where
  "journal_settled j \<longleftrightarrow>
     jn_status j = Finalized \<or> jn_status j = Abandoned \<or> jn_status j = Failed \<or> jn_status j = Fail_Closed"

definition namespace_ddl_fail_closed :: "ddl_store \<Rightarrow> bool" where
  "namespace_ddl_fail_closed st \<longleftrightarrow> list_ex (\<lambda>e. jn_status (snd e) = Fail_Closed) (read_ddl_journals st)"

definition assert_namespace_ddl_usable :: "ddl_store \<Rightarrow> ddl_error + unit" where
  "assert_namespace_ddl_usable st =
     (if namespace_ddl_fail_closed st then Inl Recovery_Required else Inr ())"

section \<open>Recovery\<close>

text \<open>\<^verbatim>\<open>Object.values(document.tables).map(t => t.storage.path)\<close> of a schema text.\<close>

definition live_paths :: "json_parser \<Rightarrow> string option \<Rightarrow> string list" where
  "live_paths parse schema =
     (case Option.bind schema parse of
        Some (JObj doc) \<Rightarrow>
          (case map_of doc ''tables'' of
             Some (JObj tables) \<Rightarrow>
               List.map_filter (\<lambda>t. Option.bind (object_field (Some (snd t))) (\<lambda>fs.
                 Option.bind (object_field (map_of fs ''storage'')) (\<lambda>s.
                 Option.bind (map_of s ''path'') string_of))) tables
           | _ \<Rightarrow> [])
      | _ \<Rightarrow> [])"

definition generations_prefix :: "string \<Rightarrow> string" where
  "generations_prefix table = ''tables/'' @ table @ ''/generations/''"

definition is_generation_of :: "string \<Rightarrow> string \<Rightarrow> bool" where
  "is_generation_of table path \<longleftrightarrow>
     starts_with (generations_prefix table) path \<and>
     (let entry = drop (length (generations_prefix table)) path
      in CHR ''/'' \<notin> set entry \<and> ends_with ''.jsonl'' entry)"

definition unreferenced_generations :: "ddl_store \<Rightarrow> string \<Rightarrow> string list \<Rightarrow> string list" where
  "unreferenced_generations st table live =
     filter (\<lambda>p. is_generation_of table p \<and> p \<notin> set live) (map fst (ds_files st))"

definition recovery_candidates :: "ddl_store \<Rightarrow> ddl_journal \<Rightarrow> string list \<Rightarrow> string list" where
  "recovery_candidates st j live =
     (case jn_newPath j of None \<Rightarrow> [] | Some p \<Rightarrow> [p]) @
     (case jn_table j of None \<Rightarrow> [] | Some t \<Rightarrow> unreferenced_generations st t live)"

definition remove_files :: "(string \<Rightarrow> bool) \<Rightarrow> ddl_store \<Rightarrow> ddl_store" where
  "remove_files P st = st\<lparr>ds_files := filter (\<lambda>f. \<not> P (fst f)) (ds_files st)\<rparr>"

definition generation_evidence ::
  "(string \<Rightarrow> string) \<Rightarrow> ddl_store \<Rightarrow> ddl_journal \<Rightarrow> bool" where
  "generation_evidence sha st j \<longleftrightarrow>
     (case jn_newPath j of
        None \<Rightarrow> jn_newDigest j = None
      | Some p \<Rightarrow>
          (case map_of (ds_files st) p of
             None \<Rightarrow> False
           | Some text \<Rightarrow> (case jn_newDigest j of None \<Rightarrow> True | Some d \<Rightarrow> d = [] \<or> sha text = d)))"

definition recover_one ::
  "(string \<Rightarrow> string) \<Rightarrow> json_parser \<Rightarrow> string option \<Rightarrow> ddl_store \<Rightarrow> string \<times> ddl_journal \<Rightarrow> ddl_store" where
  "recover_one sha parse liveHash st e =
     (let opid = fst e; j = snd e
      in if jn_new j \<noteq> None \<and> liveHash = jn_new j
         then put_journal opid (j\<lparr>jn_status := if generation_evidence sha st j then Finalized else Fail_Closed\<rparr>) st
         else if liveHash = jn_old j
         then let live = live_paths parse (ds_schema st)
              in put_journal opid (j\<lparr>jn_status := Abandoned\<rparr>)
                   (remove_files (\<lambda>p. p \<in> set (recovery_candidates st j live) \<and> p \<notin> set live) st)
         else put_journal opid (j\<lparr>jn_status := Fail_Closed\<rparr>) st)"

definition recover_locked ::
  "(string \<Rightarrow> string) \<Rightarrow> json_parser \<Rightarrow> ddl_store \<Rightarrow> ddl_store" where
  "recover_locked sha parse st =
     foldl (recover_one sha parse (map_option sha (ds_schema st))) st
       (filter (\<lambda>e. \<not> journal_settled (snd e)) (read_ddl_journals st))"

section \<open>One operation\<close>

record ddl_request =
  rq_operation :: string
  rq_table :: "string option"
  rq_view :: "string option"
  rq_key :: "string option"
  rq_hash :: string

record 'doc work_result =
  wr_document :: 'doc
  wr_schemaVersion :: int
  wr_replay :: bool
  wr_generation :: "(generation_result \<times> string) option"

text \<open>
  What \<^verbatim>\<open>hooks.work\<close> did: it produced a document, having written the generation file it
  names, or it threw, possibly leaving a generation file behind.
\<close>

datatype 'doc work_outcome =
    Work_Done "'doc work_result"
  | Work_Threw ddl_error "(string \<times> string) option"

definition put_file :: "(string \<times> string) option \<Rightarrow> ddl_store \<Rightarrow> ddl_store" where
  "put_file f st = (case f of None \<Rightarrow> st | Some (p, t) \<Rightarrow> st\<lparr>ds_files := obj_set p t (ds_files st)\<rparr>)"

text \<open>\<^verbatim>\<open>...(v ? { field: v } : {})\<close>: an empty string is left out.\<close>

fun present :: "string option \<Rightarrow> string option" where
  "present (Some (c # cs)) = Some (c # cs)"
| "present _ = None"

definition started_journal :: "(string \<Rightarrow> string) \<Rightarrow> ddl_store \<Rightarrow> ddl_request \<Rightarrow> ddl_journal" where
  "started_journal sha st rq =
     \<lparr>jn_operation = rq_operation rq, jn_table = present (rq_table rq), jn_key = present (rq_key rq),
      jn_requestHash = rq_hash rq, jn_status = Started, jn_result = None,
      jn_old = map_option sha (ds_schema st), jn_new = None, jn_newPath = None, jn_newDigest = None\<rparr>"

definition prepared_journal ::
  "(string \<Rightarrow> string) \<Rightarrow> ddl_journal \<Rightarrow> string \<Rightarrow> (generation_result \<times> string) option \<Rightarrow> ddl_journal" where
  "prepared_journal sha j text gen =
     j\<lparr>jn_new := Some (sha text),
       jn_newPath := map_option (\<lambda>g. gn_path (fst g)) gen,
       jn_newDigest := map_option (\<lambda>g. gn_sha256 (fst g)) gen,
       jn_status := (if gen = None then Prepared else Generation_Written)\<rparr>"

definition ddl_result_of ::
  "(string \<Rightarrow> string) \<Rightarrow> ddl_request \<Rightarrow> string \<Rightarrow> 'doc work_result \<Rightarrow> ddl_result" where
  "ddl_result_of sha rq text w =
     \<lparr>dr_operation = rq_operation rq, dr_table = present (rq_table rq), dr_view = present (rq_view rq),
      dr_schemaVersion = wr_schemaVersion w, dr_documentHash = sha text, dr_replay = wr_replay w,
      dr_generation = map_option fst (wr_generation w)\<rparr>"

text \<open>The durable states of one operation, in order, and what the call answers.\<close>

definition operation_trace ::
  "(string \<Rightarrow> string) \<Rightarrow> ('doc \<Rightarrow> string list) \<Rightarrow> ('doc \<Rightarrow> string) \<Rightarrow> ddl_store \<Rightarrow> ddl_request \<Rightarrow> string
     \<Rightarrow> 'doc work_outcome \<Rightarrow> ddl_store list \<times> (ddl_error + ddl_result)" where
  "operation_trace sha problems render st rq opid outcome =
     (let j0 = started_journal sha st rq; s1 = put_journal opid j0 st
      in case outcome of
          Work_Threw e left \<Rightarrow>
            (let s2 = put_file left s1
             in ([s1, s2, put_journal opid (j0\<lparr>jn_status := Failed\<rparr>) s2], Inl e))
        | Work_Done w \<Rightarrow>
            (let s2 = put_file (map_option (\<lambda>g. (gn_path (fst g), snd g)) (wr_generation w)) s1
             in if problems (wr_document w) \<noteq> []
                then ([s1, s2, put_journal opid (j0\<lparr>jn_status := Failed\<rparr>) s2],
                      Inl (Invalid_Document (problems (wr_document w))))
                else
                  (let text = render (wr_document w);
                       j1 = prepared_journal sha j0 text (wr_generation w);
                       s3 = put_journal opid j1 s2;
                       s4 = s3\<lparr>ds_schema := Some text\<rparr>;
                       s5 = put_journal opid (j1\<lparr>jn_status := Switched\<rparr>) s4;
                       result = ddl_result_of sha rq text w;
                       s6 = put_journal opid (j1\<lparr>jn_status := Finalized, jn_result := Some result\<rparr>) s5
                   in ([s1, s2, s3, s4, s5, s6], Inr result))))"

section \<open>Idempotent replay\<close>

datatype ddl_entry = Proceed | Answer "ddl_error + ddl_result"

definition idempotency_check :: "ddl_store \<Rightarrow> ddl_request \<Rightarrow> ddl_entry" where
  "idempotency_check st rq =
     (case rq_key rq of
        None \<Rightarrow> Proceed
      | Some [] \<Rightarrow> Proceed
      | Some key \<Rightarrow>
          (case List.find (\<lambda>e. jn_key (snd e) = Some key) (read_ddl_journals st) of
             None \<Rightarrow> Proceed
           | Some (opid, j) \<Rightarrow>
               if jn_requestHash j \<noteq> rq_hash rq then Answer (Inl Idempotency_Conflict)
               else if jn_status j = Finalized \<or> jn_status j = Switched
                 then (case jn_result j of
                         None \<Rightarrow> Answer (Inl Idempotency_Replay_Incomplete)
                       | Some r \<Rightarrow> Answer (Inr (r\<lparr>dr_replay := True\<rparr>)))
               else if jn_status j = Fail_Closed then Answer (Inl Recovery_Required)
               else Proceed))"

text \<open>
  The whole call: authorization, the refusals before the fence (\<open>guard\<close>, the outcome of
  \<^verbatim>\<open>hooks.preflight\<close> and \<^verbatim>\<open>assertNamespaceSchemaUsable\<close>), recovery, the idempotency check,
  then the durable steps of the work done on the recovered namespace.  The list holds the
  namespace after every durable change of the call, the recovered one first.
\<close>

definition run_operation ::
  "(string \<Rightarrow> string) \<Rightarrow> json_parser \<Rightarrow> ('doc \<Rightarrow> string list) \<Rightarrow> ('doc \<Rightarrow> string) \<Rightarrow> principal option \<Rightarrow> string
     \<Rightarrow> ddl_error + unit \<Rightarrow> ddl_store \<Rightarrow> ddl_request \<Rightarrow> string \<Rightarrow> (ddl_store \<Rightarrow> 'doc work_outcome)
     \<Rightarrow> ddl_store list \<times> (ddl_error + ddl_result)" where
  "run_operation sha parse problems render po ns guard st rq opid work =
     (case res_bind (authorize_ddl po ns) (\<lambda>_. guard) of
        Inl e \<Rightarrow> ([st], Inl e)
      | Inr _ \<Rightarrow>
          (let st1 = recover_locked sha parse st
           in case idempotency_check st1 rq of
               Answer a \<Rightarrow> ([st1], a)
             | Proceed \<Rightarrow>
                 (case operation_trace sha problems render st1 rq opid (work st1) of
                    (trace, a) \<Rightarrow> (st1 # trace, a))))"

lemma present_nonempty [simp]: "s \<noteq> [] \<Longrightarrow> present (Some s) = Some s"
  by (cases s) simp_all

section \<open>Recovering a settled namespace\<close>

definition store_settled :: "ddl_store \<Rightarrow> bool" where
  "store_settled st \<longleftrightarrow> (\<forall>e \<in> set (ds_journals st). journal_settled (snd e))"

definition others_settled :: "string \<Rightarrow> ddl_store \<Rightarrow> bool" where
  "others_settled opid st \<longleftrightarrow> (\<forall>e \<in> set (ds_journals st). fst e \<noteq> opid \<longrightarrow> journal_settled (snd e))"

lemma put_journal_simps [simp]:
  "ds_schema (put_journal opid j st) = ds_schema st"
  "ds_files (put_journal opid j st) = ds_files st"
  "ds_journals (put_journal opid j st) = obj_set opid j (ds_journals st)"
  by (simp_all add: put_journal_def)

lemma remove_files_simps [simp]:
  "ds_schema (remove_files P st) = ds_schema st"
  "ds_journals (remove_files P st) = ds_journals st"
  by (simp_all add: remove_files_def)

lemma put_file_simps [simp]:
  "ds_schema (put_file f st) = ds_schema st" "ds_journals (put_file f st) = ds_journals st"
  by (auto simp: put_file_def split: option.splits)

lemma map_of_filter_key: "map_of (filter (\<lambda>f. \<not> P (fst f)) fs) p = (if P p then None else map_of fs p)"
  by (induction fs) auto

lemma remove_files_lookup [simp]:
  "map_of (ds_files (remove_files P st)) p = (if P p then None else map_of (ds_files st) p)"
  by (simp add: remove_files_def map_of_filter_key)

lemma set_obj_set:
  "distinct (map fst ps) \<Longrightarrow> e \<in> set (obj_set k v ps) \<Longrightarrow> e = (k, v) \<or> e \<in> set ps \<and> fst e \<noteq> k"
proof (induction ps)
  case (Cons p ps)
  have "fst e \<noteq> fst p" if "e \<in> set ps"
    using Cons.prems(1) that by (metis distinct.simps(2) image_eqI list.set_map list.simps(9))
  with Cons show ?case by (cases p) (auto split: if_splits)
qed simp

lemma filter_pending:
  assumes "\<forall>e \<in> set js. fst e \<noteq> opid \<longrightarrow> journal_settled (snd e)" and "distinct (map fst js)"
  shows "filter (\<lambda>e. \<not> journal_settled (snd e)) (obj_set opid j js) =
    (if journal_settled j then [] else [(opid, j)])"
  using assms
proof (induction js)
  case (Cons e js)
  show ?case
  proof (cases "fst e = opid")
    case True
    have "fst e' \<noteq> opid" if "e' \<in> set js" for e'
      using Cons.prems(2) True that by (metis distinct.simps(2) image_eqI list.set_map list.simps(9))
    then have "\<forall>e \<in> set js. journal_settled (snd e)" using Cons.prems by simp
    then have "filter (\<lambda>e. \<not> journal_settled (snd e)) js = []" by (simp add: filter_empty_conv)
    with True show ?thesis by (cases e) simp
  next
    case False
    with Cons show ?thesis by (cases e) simp
  qed
qed simp

lemma pending_put:
  assumes "others_settled opid st" and "distinct (map fst (ds_journals st))"
  shows "filter (\<lambda>e. \<not> journal_settled (snd e)) (read_ddl_journals (put_journal opid j st)) =
    (if journal_settled j then [] else [(opid, j)])"
  using filter_pending [of "ds_journals st" opid j] assms
  by (simp add: read_ddl_journals_def filter_sort others_settled_def)

lemma recover_put:
  assumes "others_settled opid st" and "distinct (map fst (ds_journals st))"
  shows "recover_locked sha parse (put_journal opid j st) =
    (if journal_settled j then put_journal opid j st
     else recover_one sha parse (map_option sha (ds_schema st)) (put_journal opid j st) (opid, j))"
  by (simp add: recover_locked_def pending_put [OF assms])

lemma recover_settled: "store_settled st \<Longrightarrow> recover_locked sha parse st = st"
  by (simp add: recover_locked_def read_ddl_journals_def store_settled_def filter_sort
      filter_empty_conv [THEN iffD2])

text \<open>What recovery leaves behind for an operation that started on \<open>st\<close>.\<close>

definition recovered_ok ::
  "json_parser \<Rightarrow> ddl_store \<Rightarrow> string \<Rightarrow> string option \<Rightarrow> (generation_result \<times> string) option \<Rightarrow> ddl_store \<Rightarrow> bool" where
  "recovered_ok parse st opid new gen r \<longleftrightarrow>
     store_settled r \<and>
     (\<exists>j. map_of (ds_journals r) opid = Some j \<and>
        (jn_status j = Finalized \<and> new \<noteq> None \<and> ds_schema r = new \<and>
           (\<forall>g t. gen = Some (g, t) \<longrightarrow> map_of (ds_files r) (gn_path g) = Some t) \<or>
         (jn_status j = Abandoned \<or> jn_status j = Failed) \<and> ds_schema r = ds_schema st)) \<and>
     (\<forall>p \<in> set (live_paths parse (ds_schema st)). map_of (ds_files r) p = map_of (ds_files st) p)"

lemma settled_put:
  "others_settled opid st \<Longrightarrow> distinct (map fst (ds_journals st)) \<Longrightarrow> journal_settled j \<Longrightarrow>
   store_settled (put_journal opid j st)"
  unfolding store_settled_def others_settled_def put_journal_simps using set_obj_set by fastforce

lemma others_put: "others_settled opid st \<Longrightarrow> distinct (map fst (ds_journals st)) \<Longrightarrow>
   others_settled opid (put_journal opid j st)"
  unfolding others_settled_def put_journal_simps using set_obj_set by fastforce

lemma settled_status [simp]:
  "journal_settled (j\<lparr>jn_status := s\<rparr>) \<longleftrightarrow> s = Finalized \<or> s = Abandoned \<or> s = Failed \<or> s = Fail_Closed"
  "journal_settled (j\<lparr>jn_status := s, jn_result := r\<rparr>) \<longleftrightarrow> s = Finalized \<or> s = Abandoned \<or> s = Failed \<or> s = Fail_Closed"
  by (simp_all add: journal_settled_def)

lemma put_put [simp]: "put_journal opid a (put_journal opid b st) = put_journal opid a st"
  by (simp add: put_journal_def)

lemma put_remove: "put_journal opid j (remove_files P st) = remove_files P (put_journal opid j st)"
  by (simp add: put_journal_def remove_files_def)

text \<open>A namespace during one operation: its own files are untouched where they are live, and only
  its own journal may be unsettled.\<close>

definition mid_operation :: "json_parser \<Rightarrow> ddl_store \<Rightarrow> string \<Rightarrow> ddl_store \<Rightarrow> bool" where
  "mid_operation parse st opid m \<longleftrightarrow>
     others_settled opid m \<and> distinct (map fst (ds_journals m)) \<and>
     (\<forall>p \<in> set (live_paths parse (ds_schema st)). map_of (ds_files m) p = map_of (ds_files st) p)"

lemma recover_abandons:
  assumes "mid_operation parse st opid m" and "ds_schema m = ds_schema st"
    and "\<not> journal_settled j" and "jn_old j = map_option sha (ds_schema st)"
    and "jn_new j = None \<or> map_option sha (ds_schema st) \<noteq> jn_new j"
  shows "recovered_ok parse st opid new gen (recover_locked sha parse (put_journal opid j m))"
proof -
  let ?live = "live_paths parse (ds_schema st)"
  let ?P = "\<lambda>p. p \<in> set (recovery_candidates (put_journal opid j m) j ?live) \<and> p \<notin> set ?live"
  have m: "others_settled opid m" "distinct (map fst (ds_journals m))" using assms(1) by (simp_all add: mid_operation_def)
  have "recover_locked sha parse (put_journal opid j m) =
      remove_files ?P (put_journal opid (j\<lparr>jn_status := Abandoned\<rparr>) m)"
    using assms(2-5) by (auto simp: recover_put [OF m] recover_one_def Let_def put_remove)
  then show ?thesis
    using assms(1,2) settled_put [OF m, of "j\<lparr>jn_status := Abandoned\<rparr>"]
    by (auto simp: recovered_ok_def mid_operation_def store_settled_def)
qed

lemma recover_finalizes:
  assumes "mid_operation parse st opid m" and "ds_schema m = Some text"
    and "\<not> journal_settled j" and "jn_new j = Some (sha text)"
    and "jn_newPath j = map_option (\<lambda>g. gn_path (fst g)) gen"
    and "jn_newDigest j = map_option (\<lambda>g. gn_sha256 (fst g)) gen"
    and "\<forall>g t. gen = Some (g, t) \<longrightarrow> gn_sha256 g = sha t \<and> map_of (ds_files m) (gn_path g) = Some t"
  shows "recovered_ok parse st opid (Some text) gen (recover_locked sha parse (put_journal opid j m))"
proof -
  have m: "others_settled opid m" "distinct (map fst (ds_journals m))" using assms(1) by (simp_all add: mid_operation_def)
  have "generation_evidence sha (put_journal opid j m) j"
    using assms(5-7) by (cases gen) (auto simp: generation_evidence_def)
  then have "recover_locked sha parse (put_journal opid j m) = put_journal opid (j\<lparr>jn_status := Finalized\<rparr>) m"
    using assms(2-4) by (simp add: recover_put [OF m] recover_one_def Let_def)
  then show ?thesis
    using assms(1,2,7) settled_put [OF m, of "j\<lparr>jn_status := Finalized\<rparr>"]
    by (auto simp: recovered_ok_def mid_operation_def)
qed

lemma recover_keeps:
  assumes "mid_operation parse st opid m" and "journal_settled j"
    and "jn_status j = Finalized \<and> new \<noteq> None \<and> ds_schema m = new \<and>
          (\<forall>g t. gen = Some (g, t) \<longrightarrow> map_of (ds_files m) (gn_path g) = Some t) \<or>
         (jn_status j = Abandoned \<or> jn_status j = Failed) \<and> ds_schema m = ds_schema st"
  shows "recovered_ok parse st opid new gen (recover_locked sha parse (put_journal opid j m))"
proof -
  have m: "others_settled opid m" "distinct (map fst (ds_journals m))" using assms(1) by (simp_all add: mid_operation_def)
  have "recover_locked sha parse (put_journal opid j m) = put_journal opid j m"
    using assms(2) by (simp add: recover_put [OF m])
  then show ?thesis
    using assms settled_put [OF m assms(2)] by (auto simp: recovered_ok_def mid_operation_def)
qed

definition written_file :: "'doc work_outcome \<Rightarrow> (string \<times> string) option" where
  "written_file outcome =
     (case outcome of
        Work_Done w \<Rightarrow> map_option (\<lambda>g. (gn_path (fst g), snd g)) (wr_generation w)
      | Work_Threw e left \<Rightarrow> left)"

definition published :: "('doc \<Rightarrow> string list) \<Rightarrow> ('doc \<Rightarrow> string) \<Rightarrow> 'doc work_outcome \<Rightarrow> string option" where
  "published problems render outcome =
     (case outcome of
        Work_Done w \<Rightarrow> if problems (wr_document w) = [] then Some (render (wr_document w)) else None
      | Work_Threw e left \<Rightarrow> None)"

definition generation_of :: "'doc work_outcome \<Rightarrow> (generation_result \<times> string) option" where
  "generation_of outcome = (case outcome of Work_Done w \<Rightarrow> wr_generation w | Work_Threw e left \<Rightarrow> None)"

text \<open>
  What an operation relies on: it starts on a settled namespace, it writes no live path, the
  digest it reports is the hash of what it wrote, and the hash does not confuse the old and the
  new schema text.
\<close>

definition operation_start ::
  "(string \<Rightarrow> string) \<Rightarrow> json_parser \<Rightarrow> ('doc \<Rightarrow> string list) \<Rightarrow> ('doc \<Rightarrow> string) \<Rightarrow> ddl_store
     \<Rightarrow> 'doc work_outcome \<Rightarrow> bool" where
  "operation_start sha parse problems render st outcome \<longleftrightarrow>
     store_settled st \<and> distinct (map fst (ds_journals st)) \<and>
     (\<forall>p t. written_file outcome = Some (p, t) \<longrightarrow> p \<notin> set (live_paths parse (ds_schema st))) \<and>
     (\<forall>g t. generation_of outcome = Some (g, t) \<longrightarrow> gn_sha256 g = sha t) \<and>
     (\<forall>a b. published problems render outcome = Some a \<longrightarrow> ds_schema st = Some b \<longrightarrow> sha a = sha b \<longrightarrow> a = b)"

lemma put_file_journal: "put_file f (put_journal opid j st) = put_journal opid j (put_file f st)"
  by (auto simp: put_file_def put_journal_def split: option.splits)

lemma put_journal_schema: "(put_journal opid j st)\<lparr>ds_schema := x\<rparr> = put_journal opid j (st\<lparr>ds_schema := x\<rparr>)"
  by (simp add: put_journal_def)

lemma trace_valid:
  assumes "problems (wr_document w) = []"
  shows "operation_trace sha problems render st rq opid (Work_Done w) =
    (let j = started_journal sha st rq; text = render (wr_document w);
         m = put_file (map_option (\<lambda>g. (gn_path (fst g), snd g)) (wr_generation w)) st;
         n = m\<lparr>ds_schema := Some text\<rparr>; j1 = prepared_journal sha j text (wr_generation w);
         result = ddl_result_of sha rq text w
     in ([put_journal opid j st, put_journal opid j m, put_journal opid j1 m, put_journal opid j1 n,
          put_journal opid (j1\<lparr>jn_status := Switched\<rparr>) n,
          put_journal opid (j1\<lparr>jn_status := Finalized, jn_result := Some result\<rparr>) n], Inr result))"
  using assms by (simp add: operation_trace_def Let_def put_file_journal put_journal_schema)

lemma mid_start:
  assumes "operation_start sha parse problems render st outcome"
  shows "mid_operation parse st opid st" and "mid_operation parse st opid (put_file (written_file outcome) st)"
  using assms
  by (auto simp: operation_start_def mid_operation_def store_settled_def others_settled_def put_file_def
      split: option.splits prod.splits)

lemma mid_schema: "mid_operation parse st opid m \<Longrightarrow> mid_operation parse st opid (m\<lparr>ds_schema := x\<rparr>)"
  by (simp add: mid_operation_def others_settled_def)

lemma recovered_trace_threw:
  assumes "operation_start sha parse problems render st (Work_Threw e left)"
    and "s \<in> set (fst (operation_trace sha problems render st rq opid (Work_Threw e left)))"
  shows "recovered_ok parse st opid new None (recover_locked sha parse s)"
proof -
  note m = mid_start [OF assms(1), of opid]
  have left: "written_file (Work_Threw e left) = left" by (simp add: written_file_def)
  let ?j = "started_journal sha st rq"
  consider "s = put_journal opid ?j st" | "s = put_journal opid ?j (put_file left st)"
    | "s = put_journal opid (?j\<lparr>jn_status := Failed\<rparr>) (put_file left st)"
    using assms(2) by (auto simp: operation_trace_def Let_def put_file_journal)
  then show ?thesis
  proof cases
    case 1
    show ?thesis unfolding 1
      by (rule recover_abandons [OF m(1)]) (simp_all add: started_journal_def journal_settled_def)
  next
    case 2
    show ?thesis unfolding 2
      by (rule recover_abandons [OF m(2) [unfolded left]]) (simp_all add: started_journal_def journal_settled_def)
  next
    case 3
    show ?thesis unfolding 3 by (rule recover_keeps [OF m(2) [unfolded left]]) simp_all
  qed
qed

lemma recovered_trace_done:
  assumes st: "operation_start sha parse problems render st (Work_Done w)"
    and s: "s \<in> set (fst (operation_trace sha problems render st rq opid (Work_Done w)))"
  shows "recovered_ok parse st opid (published problems render (Work_Done w)) (wr_generation w)
    (recover_locked sha parse s)"
proof -
  let ?gen = "wr_generation w" and ?f = "map_option (\<lambda>g. (gn_path (fst g), snd g)) (wr_generation w)"
  let ?j = "started_journal sha st rq" and ?text = "render (wr_document w)"
  let ?m = "put_file ?f st" and ?j1 = "prepared_journal sha ?j ?text ?gen"
  have m1: "mid_operation parse st opid st" and m2: "mid_operation parse st opid ?m"
    using mid_start [OF st, of opid] by (simp_all add: written_file_def)
  have m3: "mid_operation parse st opid (?m\<lparr>ds_schema := Some ?text\<rparr>)" by (rule mid_schema [OF m2])
  have pre: "\<not> journal_settled ?j" "jn_old ?j = map_option sha (ds_schema st)" "jn_new ?j = None"
    by (simp_all add: started_journal_def journal_settled_def)
  have gen: "\<forall>g t. ?gen = Some (g, t) \<longrightarrow> gn_sha256 g = sha t \<and> map_of (ds_files ?m) (gn_path g) = Some t"
    using st by (auto simp: operation_start_def generation_of_def put_file_def)
  have early: "recovered_ok parse st opid new gen' (recover_locked sha parse (put_journal opid ?j m))"
    if "mid_operation parse st opid m" "ds_schema m = ds_schema st" for m new gen'
    by (rule recover_abandons [OF that pre(1,2)]) (simp add: pre(3))
  show ?thesis
  proof (cases "problems (wr_document w) = []")
    case False
    have "s \<in> {put_journal opid ?j st, put_journal opid ?j ?m,
        put_journal opid (?j\<lparr>jn_status := Failed\<rparr>) ?m}"
      using s False by (auto simp: operation_trace_def Let_def put_file_journal)
    moreover have "recovered_ok parse st opid new gen'
        (recover_locked sha parse (put_journal opid (?j\<lparr>jn_status := Failed\<rparr>) ?m))" for new gen'
      by (rule recover_keeps [OF m2]) simp_all
    ultimately show ?thesis using early m1 m2 by auto
  next
    case True
    let ?n = "?m\<lparr>ds_schema := Some ?text\<rparr>"
    have pub: "published problems render (Work_Done w) = Some ?text" using True by (simp add: published_def)
    have j1: "jn_new ?j1 = Some (sha ?text)" "jn_newPath ?j1 = map_option (\<lambda>g. gn_path (fst g)) ?gen"
      "jn_newDigest ?j1 = map_option (\<lambda>g. gn_sha256 (fst g)) ?gen" "jn_old ?j1 = map_option sha (ds_schema st)"
      "\<not> journal_settled ?j1"
      by (simp_all add: prepared_journal_def started_journal_def journal_settled_def)
    have gen': "\<forall>g t. ?gen = Some (g, t) \<longrightarrow> gn_sha256 g = sha t \<and> map_of (ds_files ?n) (gn_path g) = Some t"
      using gen by simp
    have fin: "recovered_ok parse st opid (Some ?text) ?gen (recover_locked sha parse (put_journal opid j ?n))"
      if "\<not> journal_settled j" "jn_new j = Some (sha ?text)" "jn_newPath j = map_option (\<lambda>g. gn_path (fst g)) ?gen"
        "jn_newDigest j = map_option (\<lambda>g. gn_sha256 (fst g)) ?gen" for j
      by (rule recover_finalizes [OF m3 _ that gen']) simp
    have "s \<in> {put_journal opid ?j st, put_journal opid ?j ?m, put_journal opid ?j1 ?m,
        put_journal opid ?j1 ?n, put_journal opid (?j1\<lparr>jn_status := Switched\<rparr>) ?n,
        put_journal opid (?j1\<lparr>jn_status := Finalized,
          jn_result := Some (ddl_result_of sha rq ?text w)\<rparr>) ?n}"
      using s by (simp add: trace_valid [of problems w, OF True] Let_def)
    moreover have "recovered_ok parse st opid (Some ?text) ?gen (recover_locked sha parse (put_journal opid ?j1 ?m))"
    proof (cases "map_option sha (ds_schema st) = Some (sha ?text)")
      case True
      then obtain old where "ds_schema st = Some old" "sha ?text = sha old" by auto
      then have "ds_schema st = Some ?text" using st pub by (auto simp: operation_start_def)
      then show ?thesis using recover_finalizes [OF m2 _ j1(5,1,2,3) gen] by simp
    next
      case False
      show ?thesis by (rule recover_abandons [OF m2 _ j1(5,4)]) (use False j1(1) in simp_all)
    qed
    moreover have "recovered_ok parse st opid (Some ?text) ?gen (recover_locked sha parse (put_journal opid ?j1 ?n))"
      by (rule fin) (use j1 in simp_all)
    moreover have "recovered_ok parse st opid (Some ?text) ?gen
        (recover_locked sha parse (put_journal opid (?j1\<lparr>jn_status := Switched\<rparr>) ?n))"
      by (rule fin) (use j1 in simp_all)
    moreover have "recovered_ok parse st opid (Some ?text) ?gen
        (recover_locked sha parse (put_journal opid (?j1\<lparr>jn_status := Finalized,
          jn_result := Some (ddl_result_of sha rq ?text w)\<rparr>) ?n))"
      by (rule recover_keeps [OF m3]) (use gen' in simp_all)
    ultimately show ?thesis unfolding pub using early m1 m2 by auto
  qed
qed

lemma crash_recovers:
  assumes "operation_start sha parse problems render st outcome"
    and "s \<in> set (fst (operation_trace sha problems render st rq opid outcome))"
  shows "recovered_ok parse st opid (published problems render outcome) (generation_of outcome)
    (recover_locked sha parse s)"
  using assms recovered_trace_threw recovered_trace_done
  by (cases outcome) (auto simp: generation_of_def)

section \<open>Recovery as an interface\<close>

text \<open>
  What every caller of the coordinator relies on, whatever the operations are: recovery leaves a
  settled state alone, and settles the state a crash leaves after any durable step.
\<close>

locale crash_recovery_store =
  fixes recover :: "'s \<Rightarrow> 's"
    and settled :: "'s \<Rightarrow> bool"
    and may_start :: "'s \<Rightarrow> 'o \<Rightarrow> bool"
    and steps :: "'s \<Rightarrow> 'o \<Rightarrow> 's list"
  assumes settled_fixed: "settled s \<Longrightarrow> recover s = s"
    and crash_settles: "may_start s op \<Longrightarrow> x \<in> set (steps s op) \<Longrightarrow> settled (recover x)"
begin

lemma recover_twice: "may_start s op \<Longrightarrow> x \<in> set (steps s op) \<Longrightarrow> recover (recover x) = recover x"
  by (rule settled_fixed [OF crash_settles])

text \<open>A history of operations, each cut off by a crash after some durable step and recovered.\<close>

fun crash_run :: "'s \<Rightarrow> ('o \<times> nat) list \<Rightarrow> 's" where
  "crash_run s [] = s"
| "crash_run s ((op, i) # hs) = crash_run (recover (steps s op ! i)) hs"

fun run_ok :: "'s \<Rightarrow> ('o \<times> nat) list \<Rightarrow> bool" where
  "run_ok s [] = True"
| "run_ok s ((op, i) # hs) =
     (may_start s op \<and> i < length (steps s op) \<and> run_ok (recover (steps s op ! i)) hs)"

lemma crash_run_settled: "run_ok s hs \<Longrightarrow> settled s \<Longrightarrow> settled (crash_run s hs)"
proof (induction hs arbitrary: s)
  case (Cons h hs)
  obtain op i where h: "h = (op, i)" by fastforce
  with Cons.prems(1) have "settled (recover (steps s op ! i))"
    by (intro crash_settles) auto
  with Cons h show ?case by auto
qed simp

end

interpretation ddl_recovery:
  crash_recovery_store "recover_locked sha parse" store_settled
    "\<lambda>st (rq, opid, outcome). operation_start sha parse problems render st outcome"
    "\<lambda>st (rq, opid, outcome). fst (operation_trace sha problems render st rq opid outcome)"
  for sha :: "string \<Rightarrow> string" and parse :: json_parser and problems :: "'doc \<Rightarrow> string list"
    and render :: "'doc \<Rightarrow> string"
proof
  fix s assume "store_settled s"
  then show "recover_locked sha parse s = s" by (rule recover_settled)
next
  fix s and op :: "ddl_request \<times> string \<times> 'doc work_outcome" and x
  assume a: "case op of (rq, opid, outcome) \<Rightarrow> operation_start sha parse problems render s outcome"
    "x \<in> set (case op of (rq, opid, outcome) \<Rightarrow>
      fst (operation_trace sha problems render s rq opid outcome))"
  obtain rq opid outcome where "op = (rq, opid, outcome)" by (cases op)
  with a crash_recovers [of sha parse problems render s outcome x rq opid]
  show "store_settled (recover_locked sha parse x)" by (simp add: recovered_ok_def)
qed

section \<open>Finding a journal by its key\<close>

lemma find_unique:
  assumes "x \<in> set xs" and "P x" and "\<And>y. y \<in> set xs \<Longrightarrow> P y \<Longrightarrow> y = x"
  shows "List.find P xs = Some x"
proof (cases "List.find P xs")
  case None
  with assms(1,2) show ?thesis by (simp add: find_None_all)
next
  case (Some y)
  with find_Some_set [OF Some] assms(3) show ?thesis by simp
qed

definition key_unused :: "string \<Rightarrow> ddl_store \<Rightarrow> bool" where
  "key_unused key st \<longleftrightarrow> (\<forall>e \<in> set (ds_journals st). jn_key (snd e) \<noteq> Some key)"

lemma in_obj_set: "(k, v) \<in> set (obj_set k v ps)"
  by (induction ps) auto

lemma find_put:
  assumes "key_unused key m" and "jn_key j = Some key" and "distinct (map fst (ds_journals m))"
  shows "List.find (\<lambda>e. jn_key (snd e) = Some key) (read_ddl_journals (put_journal opid j m)) = Some (opid, j)"
proof (rule find_unique)
  show "(opid, j) \<in> set (read_ddl_journals (put_journal opid j m))"
    by (simp add: read_ddl_journals_def in_obj_set)
  fix y assume "y \<in> set (read_ddl_journals (put_journal opid j m))" "jn_key (snd y) = Some key"
  then show "y = (opid, j)"
    using set_obj_set [OF assms(3), of y opid j] assms(1)
    by (auto simp: read_ddl_journals_def key_unused_def)
qed (simp add: assms(2))

lemma find_two:
  assumes "key_unused key m" and "a \<notin> fst ` set (ds_journals m)" and "b \<notin> fst ` set (ds_journals m)"
    and "a @ ''.json'' < b @ ''.json''" and "jn_key i = Some key" and "jn_key j = Some key"
    and "ds_journals m' = obj_set b j (obj_set a i (ds_journals m))"
  shows "List.find (\<lambda>e. jn_key (snd e) = Some key) (read_ddl_journals m') = Some (a, i)"
proof -
  let ?P = "\<lambda>e. jn_key (snd e) = Some key"
  have "a \<noteq> b" using assms(4) by auto
  then have js: "ds_journals m' = ds_journals m @ [(a, i), (b, j)]"
    using assms(2,3,7) by (simp add: obj_set_fresh)
  have "filter ?P (ds_journals m) = []" using assms(1) by (simp add: key_unused_def filter_empty_conv)
  then have "filter ?P (read_ddl_journals m') = [(a, i), (b, j)]"
    using assms(4-6) order.strict_implies_order [OF assms(4)] by (simp add: read_ddl_journals_def filter_sort js)
  then show ?thesis by (simp add: find_filter)
qed

section \<open>Properties\<close>

text \<open>C19: every crash of a DDL operation is recovered.  Whatever durable step an operation was
  cut off after, recovery settles its journal and never fails closed: the operation is finalized
  exactly on the published schema with its generation on disk, or abandoned or failed with the
  old schema still live; every data file the old schema names keeps its content.\<close>

theorem ddl_crash_recovery:
  assumes "operation_start sha parse problems render st outcome"
    and "s \<in> set (fst (operation_trace sha problems render st rq opid outcome))"
    and "r = recover_locked sha parse s"
  shows "store_settled r \<and> ds_schema r = ds_schema s \<and>
    (\<exists>j. map_of (ds_journals r) opid = Some j \<and> jn_status j \<noteq> Fail_Closed \<and>
       (if jn_status j = Finalized
        then ds_schema r = published problems render outcome \<and>
          (\<forall>g t. generation_of outcome = Some (g, t) \<longrightarrow> map_of (ds_files r) (gn_path g) = Some t)
        else ds_schema r = ds_schema st)) \<and>
    (\<forall>p \<in> set (live_paths parse (ds_schema st)). map_of (ds_files r) p = map_of (ds_files st) p)"
proof -
  have ok: "recovered_ok parse st opid (published problems render outcome) (generation_of outcome) r"
    unfolding assms(3) by (rule crash_recovers [OF assms(1,2)])
  have "ds_schema (foldl (recover_one sha parse h) m es) = ds_schema m" for h m es
    by (induction es arbitrary: m) (auto simp: recover_one_def Let_def)
  then have "ds_schema r = ds_schema s" by (simp add: assms(3) recover_locked_def)
  with ok show ?thesis by (auto simp: recovered_ok_def)
qed

text \<open>Recovery is stable under repeated crashes.  After any history of operations, each cut
  off after some durable step and then recovered, from a settled namespace, the namespace is
  settled and recovering it again changes nothing.\<close>

theorem ddl_recovery_history:
  assumes "store_settled st"
    and "ddl_recovery.run_ok sha parse problems render st crashes"
    and "s = ddl_recovery.crash_run sha parse problems render st crashes"
  shows "store_settled s \<and> recover_locked sha parse s = s"
  using ddl_recovery.crash_run_settled [OF assms(2,1)] recover_settled assms(3) by blast

text \<open>DDL is for administrators only.  A named principal may run an operation exactly when its
  namespace scope covers the namespace and its effective roles include the administrator; a
  refused call changes nothing and answers forbidden.\<close>

theorem ddl_admin_only:
  "authorize_ddl (Some p) ns = Inr () \<longleftrightarrow> in_scope p ns \<and> Admin \<in> set (effective_roles p)"
proof (cases "authorize_resource (Some p) ns Tables_Write")
  case Allowed
  then have "in_scope p ns \<and> role_has p Tables_Write" by (simp add: authorize_resource_allowed)
  with Allowed show ?thesis by (simp add: authorize_ddl_def has_any_role_def List.member_iff)
next
  case (Denied r m)
  then have "\<not> (in_scope p ns \<and> role_has p Tables_Write)"
    using authorize_resource_allowed [of p ns Tables_Write] by simp
  then have "\<not> (in_scope p ns \<and> Admin \<in> set (effective_roles p))"
    using admin_has_all by (auto simp: role_has_iff)
  with Denied show ?thesis by (simp add: authorize_ddl_def)
qed


text \<open>A retry after a crash past the switch is refused.  When the process dies between the
  schema switch and the final journal write, recovery finalizes the operation without a recorded
  result, and the retry of the same request with the same key answers that its replay is
  incomplete, although the operation took effect.\<close>

theorem ddl_crashed_retry_refused:
  assumes "operation_start sha parse problems render st (Work_Done w)"
    and "operation_trace sha problems render st rq opid (Work_Done w) = (trace, Inr res)"
    and "rq_key rq = Some key" and "key \<noteq> []" and "key_unused key st"
    and "authorize_ddl po ns = Inr ()" and "s = trace ! 3 \<or> s = trace ! 4"
  shows "ds_schema s = Some (render (wr_document w)) \<and>
    snd (run_operation sha parse problems render po ns (Inr ()) s rq opid' work) = Inl Idempotency_Replay_Incomplete"
proof -
  let ?gen = "wr_generation w" and ?text = "render (wr_document w)"
  let ?f = "map_option (\<lambda>g. (gn_path (fst g), snd g)) ?gen"
  let ?n = "(put_file ?f st)\<lparr>ds_schema := Some ?text\<rparr>"
  let ?j1 = "prepared_journal sha (started_journal sha st rq) ?text ?gen"
  have p: "problems (wr_document w) = []"
    using assms(2) by (auto simp: operation_trace_def Let_def split: if_splits)
  then have "s = put_journal opid ?j1 ?n \<or> s = put_journal opid (?j1\<lparr>jn_status := Switched\<rparr>) ?n"
    using assms(2,7) trace_valid [of problems w, OF p] by (auto simp: Let_def)
  then obtain j where s: "s = put_journal opid j ?n"
    and j: "\<not> journal_settled j" "jn_new j = Some (sha ?text)"
      "jn_newPath j = map_option (\<lambda>g. gn_path (fst g)) ?gen"
      "jn_newDigest j = map_option (\<lambda>g. gn_sha256 (fst g)) ?gen"
      "jn_key j = Some key" "jn_requestHash j = rq_hash rq" "jn_result j = None"
    using assms(3,4) by (force simp: prepared_journal_def started_journal_def journal_settled_def)
  have m: "mid_operation parse st opid ?n"
    using mid_schema [OF mid_start(2) [OF assms(1), of opid]] by (simp add: written_file_def)
  have "\<forall>g t. ?gen = Some (g, t) \<longrightarrow> gn_sha256 g = sha t \<and> map_of (ds_files ?n) (gn_path g) = Some t"
    using assms(1) by (auto simp: operation_start_def generation_of_def put_file_def)
  then have "generation_evidence sha (put_journal opid j ?n) j"
    using j by (cases ?gen) (auto simp: generation_evidence_def)
  then have rec: "recover_locked sha parse s = put_journal opid (j\<lparr>jn_status := Finalized\<rparr>) ?n"
    using j m by (simp add: s recover_put mid_operation_def recover_one_def Let_def)
  have "List.find (\<lambda>e. jn_key (snd e) = Some key) (read_ddl_journals (recover_locked sha parse s))
      = Some (opid, j\<lparr>jn_status := Finalized\<rparr>)"
    unfolding rec by (rule find_put) (use m assms(5) j in \<open>simp_all add: key_unused_def mid_operation_def\<close>)
  then have "idempotency_check (recover_locked sha parse s) rq = Answer (Inl Idempotency_Replay_Incomplete)"
    using assms(3,4) j by (cases key) (simp_all add: idempotency_check_def)
  then show ?thesis using assms(6) by (simp add: run_operation_def s)
qed

text \<open>A failed attempt hides a later success.  When the first attempt of a request with an
  idempotency key failed and the second, under the same key, ran to its end, a further retry is
  not recognised as a replay whenever the failed attempt's journal sorts first: the lookup meets
  the failed journal, and the operation is carried out again.\<close>

theorem ddl_failed_attempt_hides_success:
  assumes "operation_trace sha problems render st rq a (Work_Threw e left) = (trace1, Inl e)"
    and "operation_trace sha problems render (last trace1) rq b (Work_Done w) = (trace2, Inr res)"
    and "rq_key rq = Some key" and "key \<noteq> []" and "key_unused key st"
    and "a \<notin> fst ` set (ds_journals st)" and "b \<notin> fst ` set (ds_journals st)"
    and "a @ ''.json'' < b @ ''.json''"
  shows "idempotency_check (last trace2) rq = Proceed"
proof -
  let ?i = "(started_journal sha st rq)\<lparr>jn_status := Failed\<rparr>"
  let ?st1 = "last trace1"
  let ?j = "(prepared_journal sha (started_journal sha ?st1 rq) (render (wr_document w)) (wr_generation w))
      \<lparr>jn_status := Finalized, jn_result := Some res\<rparr>"
  have st1: "?st1 = put_journal a ?i (put_file left st)"
    using assms(1) by (auto simp: operation_trace_def Let_def put_file_journal)
  have p: "problems (wr_document w) = []"
    using assms(2) by (auto simp: operation_trace_def Let_def split: if_splits)
  have "ds_journals (last trace2) = obj_set b ?j (ds_journals ?st1)"
    using assms(2) trace_valid [of problems w, OF p] by (auto simp: Let_def)
  then have "ds_journals (last trace2) = obj_set b ?j (obj_set a ?i (ds_journals st))"
    by (simp add: st1)
  from find_two [OF assms(5-8) _ _ this]
  have "List.find (\<lambda>e. jn_key (snd e) = Some key) (read_ddl_journals (last trace2)) = Some (a, ?i)"
    using assms(3,4) by (simp add: started_journal_def prepared_journal_def)
  then show ?thesis using assms(3)
    by (cases key) (simp_all add: idempotency_check_def started_journal_def)
qed

text \<open>Recovery deletes superseded generations.  When an operation on a table is cut off right
  after its journal was opened, recovery removes every generation file of that table that the
  live schema does not name, the published generations of earlier operations included.\<close>

theorem ddl_recovery_deletes_superseded:
  assumes "operation_start sha parse problems render st outcome"
    and "s = hd (fst (operation_trace sha problems render st rq opid outcome))"
    and "rq_table rq = Some t" and "t \<noteq> []" and "is_generation_of t p"
    and "map_of (ds_files st) p = Some text" and "p \<notin> set (live_paths parse (ds_schema st))"
  shows "map_of (ds_files s) p = Some text \<and> map_of (ds_files (recover_locked sha parse s)) p = None"
proof -
  let ?j = "started_journal sha st rq"
  have s: "s = put_journal opid ?j st"
    using assms(2) by (cases outcome) (auto simp: operation_trace_def Let_def)
  have m: "others_settled opid st" "distinct (map fst (ds_journals st))"
    using mid_start(1) [OF assms(1), of opid] by (simp_all add: mid_operation_def)
  have "p \<in> fst ` set (ds_files st)" using assms(6) by (force dest: map_of_SomeD)
  then have "p \<in> set (recovery_candidates s ?j (live_paths parse (ds_schema st)))"
    using assms(3,4,5,7) by (simp add: recovery_candidates_def started_journal_def unreferenced_generations_def s)
  then show ?thesis
    using assms(6,7) unfolding s
    by (simp add: recover_put [OF m] recover_one_def Let_def started_journal_def journal_settled_def)
qed

section \<open>Witnesses\<close>

definition demo_text :: string where
  "demo_text = ''old''"

definition demo_parse :: json_parser where
  "demo_parse t =
     (if t = demo_text
      then Some (JObj [(''tables'', JObj [(''t'', JObj [(''storage'',
             JObj [(''path'', JStr ''tables/t/generations/b.jsonl'')])])])])
      else None)"

definition demo_store :: ddl_store where
  "demo_store = \<lparr>ds_schema = Some demo_text,
     ds_files = [(''tables/t/generations/a.jsonl'', ''1''), (''tables/t/generations/b.jsonl'', ''2'')],
     ds_journals = []\<rparr>"

definition demo_request :: ddl_request where
  "demo_request = \<lparr>rq_operation = ''addColumn'', rq_table = Some ''t'', rq_view = None,
     rq_key = Some ''k'', rq_hash = ''h''\<rparr>"

definition demo_work :: "string work_result" where
  "demo_work = \<lparr>wr_document = ''new'', wr_schemaVersion = 2, wr_replay = False,
     wr_generation = Some (\<lparr>gn_path = ''tables/t/generations/c.jsonl'',
       gn_previousPath = ''tables/t/generations/b.jsonl'', gn_sha256 = ''3'', gn_rows = 1\<rparr>, ''3'')\<rparr>"

abbreviation demo_trace :: "ddl_store list \<times> (ddl_error + ddl_result)" where
  "demo_trace \<equiv> operation_trace (\<lambda>t. t) (\<lambda>_. []) (\<lambda>d. d) demo_store demo_request ''op1'' (Work_Done demo_work)"

lemma demo_live: "live_paths demo_parse (ds_schema demo_store) = [''tables/t/generations/b.jsonl'']"
  by (simp add: live_paths_def demo_parse_def demo_store_def demo_text_def List.map_filter_def)

lemma demo_start: "operation_start (\<lambda>t. t) demo_parse (\<lambda>_. []) (\<lambda>d. d) demo_store (Work_Done demo_work)"
  unfolding operation_start_def demo_live
  by (simp add: store_settled_def demo_store_def demo_work_def written_file_def generation_of_def)

lemma demo_key: "key_unused ''k'' demo_store"
  by (simp add: key_unused_def demo_store_def)

lemma demo_answer: "demo_trace = (fst demo_trace, Inr (ddl_result_of (\<lambda>t. t) demo_request ''new'' demo_work))"
  using trace_valid [of "\<lambda>_. []" demo_work] by (simp add: Let_def demo_work_def)

theorem ddl_crash_recovery_witness:
  "store_settled (recover_locked (\<lambda>t. t) demo_parse (hd (fst demo_trace)))"
proof -
  have "hd (fst demo_trace) \<in> set (fst demo_trace)"
    using trace_valid [of "\<lambda>_. []" demo_work] by (simp add: Let_def)
  from ddl_crash_recovery [OF demo_start this refl] show ?thesis by blast
qed

theorem ddl_recovery_history_witness:
  "store_settled (ddl_recovery.crash_run (\<lambda>t. t) demo_parse (\<lambda>_. []) (\<lambda>d. d) demo_store
     [((demo_request, ''op1'', Work_Done demo_work), 2)])"
proof -
  have n: "length (fst demo_trace) = 6"
    using trace_valid [of "\<lambda>_. []" demo_work] by (simp add: Let_def)
  have "store_settled demo_store" using demo_start by (simp add: operation_start_def)
  moreover have "ddl_recovery.run_ok (\<lambda>t. t) demo_parse (\<lambda>_. []) (\<lambda>d. d) demo_store
      [((demo_request, ''op1'', Work_Done demo_work), 2)]"
    using demo_start n by simp
  ultimately show ?thesis using ddl_recovery_history by blast
qed


theorem ddl_crashed_retry_refused_witness:
  "snd (run_operation (\<lambda>t. t) demo_parse (\<lambda>_. []) (\<lambda>d. d) None ''ns'' (Inr ()) (fst demo_trace ! 3)
     demo_request ''op2'' (\<lambda>_. Work_Done demo_work)) = Inl Idempotency_Replay_Incomplete"
proof -
  have "authorize_ddl None ''ns'' = Inr ()" by (simp add: authorize_ddl_def)
  from ddl_crashed_retry_refused [OF demo_start demo_answer _ _ demo_key this, of "fst demo_trace ! 3" "''op2''"
      "\<lambda>_. Work_Done demo_work"]
  show ?thesis by (simp add: demo_request_def)
qed

theorem ddl_failed_attempt_hides_success_witness:
  "\<exists>trace1 trace2 res.
     operation_trace (\<lambda>t. t) (\<lambda>_. []) (\<lambda>d. d) demo_store demo_request ''op1''
       (Work_Threw (Work_Error ''disk'') None :: string work_outcome) = (trace1, Inl (Work_Error ''disk'')) \<and>
     operation_trace (\<lambda>t. t) (\<lambda>_. []) (\<lambda>d. d) (last trace1) demo_request ''op2'' (Work_Done demo_work) =
       (trace2, Inr res) \<and>
     idempotency_check (last trace2) demo_request = Proceed"
proof -
  let ?o = "Work_Threw (Work_Error ''disk'') None :: string work_outcome"
  obtain trace1 where 1: "operation_trace (\<lambda>t. t) (\<lambda>_. []) (\<lambda>d. d) demo_store demo_request ''op1'' ?o =
      (trace1, Inl (Work_Error ''disk''))"
    by (auto simp: operation_trace_def Let_def)
  obtain trace2 res where 2: "operation_trace (\<lambda>t. t) (\<lambda>_. []) (\<lambda>d. d) (last trace1) demo_request ''op2''
      (Work_Done demo_work) = (trace2, Inr res)"
    using trace_valid [of "\<lambda>_. []" demo_work] by (simp add: Let_def)
  have "idempotency_check (last trace2) demo_request = Proceed"
    by (rule ddl_failed_attempt_hides_success [OF 1 2 _ _ demo_key])
      (simp_all add: demo_request_def demo_store_def less_char_def)
  with 1 2 show ?thesis by blast
qed

theorem ddl_recovery_deletes_superseded_witness:
  "map_of (ds_files (recover_locked (\<lambda>t. t) demo_parse (hd (fst demo_trace)))) ''tables/t/generations/a.jsonl'' = None"
proof -
  have "is_generation_of ''t'' ''tables/t/generations/a.jsonl''"
    by (simp add: is_generation_of_def generations_prefix_def starts_with_def ends_with_def)
  then have "map_of (ds_files (recover_locked (\<lambda>t. t) demo_parse (hd (fst demo_trace))))
      ''tables/t/generations/a.jsonl'' = None"
    using ddl_recovery_deletes_superseded [OF demo_start refl, of demo_request "''t''"
        "''tables/t/generations/a.jsonl''" "''1''" "''op1''"]
    by (simp add: demo_live) (simp add: demo_store_def demo_request_def)
  then show ?thesis .
qed

end
