(* ===== verification/Schema_Types.thy ===== *)
theory Schema_Types
  imports Change_Record
begin

text \<open>
  The declared column types of \<^verbatim>\<open>src/serialization/schemaTypes.ts\<close>: which JSON values a declared
  type accepts and their canonical form, canonical defaults, and the assembly of a row from a
  caller's object and back from the stored line.  \<^verbatim>\<open>Date.parse\<close>, whose treatment of the lenient
  forms the input pattern admits is up to the engine, is the argument \<open>date_parse\<close>
  (\<open>None\<close> when it yields NaN); \<^verbatim>\<open>toISOString\<close> is modelled.
\<close>

section \<open>Declared columns\<close>

datatype declared_type =
    Ty_String | Ty_Int64 | Ty_Float64 | Ty_Boolean | Ty_Timestamp | Ty_Json | Ty_Bytes
  | Ty_Other string

datatype row_shape = Object_Rows | Positional_Rows

record column_reference =
  rf_table :: string
  rf_column :: string

record declared_column =
  dc_name :: string
  dc_type :: declared_type
  dc_nullable :: bool
  dc_default :: "json option"
  dc_references :: "column_reference option"

fun type_text :: "declared_type \<Rightarrow> string" where
  "type_text Ty_String = ''string''"
| "type_text Ty_Int64 = ''int64''"
| "type_text Ty_Float64 = ''float64''"
| "type_text Ty_Boolean = ''boolean''"
| "type_text Ty_Timestamp = ''timestamp''"
| "type_text Ty_Json = ''json''"
| "type_text Ty_Bytes = ''bytes''"
| "type_text (Ty_Other s) = s"

definition declared_types :: "declared_type list" where
  "declared_types = [Ty_String, Ty_Int64, Ty_Float64, Ty_Boolean, Ty_Timestamp, Ty_Json, Ty_Bytes]"

definition type_of_text :: "string \<Rightarrow> declared_type" where
  "type_of_text s =
     (case List.find (\<lambda>t. type_text t = s) declared_types of Some t \<Rightarrow> t | None \<Rightarrow> Ty_Other s)"

definition is_declared_column_type :: "declared_type \<Rightarrow> bool" where
  "is_declared_column_type t \<longleftrightarrow> t \<in> set declared_types"

fun shape_text :: "row_shape \<Rightarrow> string" where
  "shape_text Object_Rows = ''object''"
| "shape_text Positional_Rows = ''positional''"

definition column_has_default :: "declared_column \<Rightarrow> bool" where
  "column_has_default c \<longleftrightarrow> dc_default c \<noteq> None"

definition reserved_resource_names :: "string list" where
  "reserved_resource_names = [''_audit'', ''schema'', ''manifest'', ''memories'']"

definition is_reserved_resource_name :: "string \<Rightarrow> bool" where
  "is_reserved_resource_name s \<longleftrightarrow> s \<in> set reserved_resource_names"

definition is_lower :: "char \<Rightarrow> bool" where
  "is_lower c \<longleftrightarrow> 97 \<le> (of_char c :: nat) \<and> (of_char c :: nat) \<le> 122"

definition is_upper :: "char \<Rightarrow> bool" where
  "is_upper c \<longleftrightarrow> 65 \<le> (of_char c :: nat) \<and> (of_char c :: nat) \<le> 90"

definition is_ident_start :: "char \<Rightarrow> bool" where
  "is_ident_start c \<longleftrightarrow> is_lower c \<or> is_upper c \<or> c = CHR ''_''"

definition is_ident_char :: "char \<Rightarrow> bool" where
  "is_ident_char c \<longleftrightarrow> is_ident_start c \<or> is_digit c"

text \<open>\<^verbatim>\<open>RESOURCE_NAME_PATTERN\<close> and \<^verbatim>\<open>COLUMN_NAME_PATTERN\<close>.\<close>

definition resource_name_ok :: "string \<Rightarrow> bool" where
  "resource_name_ok s \<longleftrightarrow>
     s \<noteq> [] \<and> is_lower (hd s) \<and> length (tl s) \<le> 62 \<and>
     list_all (\<lambda>c. is_lower c \<or> is_digit c \<or> c = CHR ''_'') (tl s)"

definition column_name_ok :: "string \<Rightarrow> bool" where
  "column_name_ok s \<longleftrightarrow> s \<noteq> [] \<and> is_ident_start (hd s) \<and> list_all is_ident_char (tl s)"

datatype key_problem = Key_Nullable | Key_Not_Addressable

definition key_column_problem :: "declared_column \<Rightarrow> key_problem option" where
  "key_column_problem c =
     (if dc_nullable c then Some Key_Nullable
      else if dc_type c = Ty_Json \<or> dc_type c = Ty_Bytes then Some Key_Not_Addressable
      else None)"

section \<open>Canonical values\<close>

datatype value_problem =
    Expected_String | Expected_Number | Expected_Boolean | Expected_Json
  | Not_Canonical_Int64 | Outside_Int64
  | Not_An_Instant | Outside_Date_Range
  | Missing_Prefix | Empty_Payload | Not_Url_Safe | Not_Unpadded
  | Unsupported_Type

subsection \<open>Signed 64-bit integers as text\<close>

definition int64_pattern :: "string \<Rightarrow> bool" where
  "int64_pattern s =
     (let body = (case s of c # cs \<Rightarrow> if c = CHR ''-'' then cs else s | [] \<Rightarrow> s)
      in body = ''0'' \<or>
         body \<noteq> [] \<and> list_all is_digit body \<and> hd body \<noteq> CHR ''0'')"

text \<open>\<^verbatim>\<open>BigInt(text)\<close> of a text that matches the pattern.\<close>

definition big_int :: "string \<Rightarrow> int" where
  "big_int s =
     (case s of
        c # cs \<Rightarrow> if c = CHR ''-'' then - int (parse_nat cs) else int (parse_nat s)
      | [] \<Rightarrow> 0)"

definition int64_text_problem :: "string \<Rightarrow> value_problem option" where
  "int64_text_problem s =
     (if \<not> int64_pattern s then Some Not_Canonical_Int64
      else if big_int s < - 9223372036854775808 \<or> 9223372036854775807 < big_int s
        then Some Outside_Int64
      else None)"

subsection \<open>Unpadded base64url\<close>

definition b64_char :: "nat \<Rightarrow> char" where
  "b64_char n =
     (if n < 26 then char_of (65 + n) else if n < 52 then char_of (71 + n)
      else if n < 62 then char_of (n - 4) else if n = 62 then CHR ''-'' else CHR ''_'')"

definition is_b64_char :: "char \<Rightarrow> bool" where
  "is_b64_char c \<longleftrightarrow> is_ident_char c \<or> c = CHR ''-''"

definition b64_val :: "char \<Rightarrow> nat" where
  "b64_val c =
     (let n = (of_char c :: nat) in
      if is_upper c then n - 65 else if is_lower c then n - 71
      else if is_digit c then n + 4 else if c = CHR ''-'' then 62 else 63)"

text \<open>\<^verbatim>\<open>Buffer.from(body, "base64url")\<close> on the alphabet: whole groups, then the bytes that the
  remaining characters determine; \<^verbatim>\<open>toString("base64url")\<close> back.\<close>

fun b64_decode :: "nat list \<Rightarrow> nat list" where
  "b64_decode (a # b # c # d # s) =
     (a * 4 + b div 16) # ((b mod 16) * 16 + c div 4) # ((c mod 4) * 64 + d) # b64_decode s"
| "b64_decode [a, b, c] = [a * 4 + b div 16, (b mod 16) * 16 + c div 4]"
| "b64_decode [a, b] = [a * 4 + b div 16]"
| "b64_decode _ = []"

fun b64_encode :: "nat list \<Rightarrow> nat list" where
  "b64_encode (x # y # z # s) =
     (x div 4) # ((x mod 4) * 16 + y div 16) # ((y mod 16) * 4 + z div 64) # (z mod 64) # b64_encode s"
| "b64_encode [x, y] = [x div 4, (x mod 4) * 16 + y div 16, (y mod 16) * 4]"
| "b64_encode [x] = [x div 4, (x mod 4) * 16]"
| "b64_encode [] = []"

definition bytes_prefix :: string where
  "bytes_prefix = ''base64url:''"

definition bytes_problem :: "string \<Rightarrow> value_problem option" where
  "bytes_problem s =
     (if \<not> starts_with bytes_prefix s then Some Missing_Prefix
      else let body = drop (length bytes_prefix) s
        in if body = [] then Some Empty_Payload
           else if \<not> list_all is_b64_char body then Some Not_Url_Safe
           else if map b64_char (b64_encode (b64_decode (map b64_val body))) \<noteq> body then Some Not_Unpadded
           else None)"

subsection \<open>Instants\<close>

fun match_fixed :: "(char \<Rightarrow> bool) list \<Rightarrow> string \<Rightarrow> string option" where
  "match_fixed [] s = Some s"
| "match_fixed (p # ps) [] = None"
| "match_fixed (p # ps) (c # s) = (if p c then match_fixed ps s else None)"

abbreviation "two_digits \<equiv> [is_digit, is_digit]"
abbreviation "three_digits \<equiv> [is_digit, is_digit, is_digit]"
abbreviation "four_digits \<equiv> [is_digit, is_digit, is_digit, is_digit]"
abbreviation "this_char c \<equiv> [\<lambda>x. x = c]"

definition zone_ok :: "string \<Rightarrow> bool" where
  "zone_ok s \<longleftrightarrow>
     s = ''Z'' \<or> s = ''z'' \<or>
     (case match_fixed ([\<lambda>c. c = CHR ''+'' \<or> c = CHR ''-''] @ two_digits) s of
        None \<Rightarrow> False
      | Some r \<Rightarrow>
          match_fixed two_digits r = Some [] \<or> match_fixed (this_char (CHR '':'') @ two_digits) r = Some [])"

definition fraction_ok :: "string \<Rightarrow> bool" where
  "fraction_ok s \<longleftrightarrow>
     (case s of
        c # r \<Rightarrow>
          if c = CHR ''.''
          then (let n = length (takeWhile is_digit r)
                in 1 \<le> n \<and> n \<le> 9 \<and> zone_ok (dropWhile is_digit r))
          else zone_ok s
      | [] \<Rightarrow> False)"

definition timestamp_input_ok :: "string \<Rightarrow> bool" where
  "timestamp_input_ok s \<longleftrightarrow>
     (case match_fixed (four_digits @ this_char (CHR ''-'') @ two_digits @ this_char (CHR ''-'') @ two_digits @
             [\<lambda>c. c = CHR ''T'' \<or> c = CHR ''t'' \<or> c = CHR '' ''] @ two_digits @ this_char (CHR '':'') @ two_digits) s of
        None \<Rightarrow> False
      | Some r \<Rightarrow>
          (case match_fixed (this_char (CHR '':'') @ two_digits) r of
             None \<Rightarrow> zone_ok r
           | Some r' \<Rightarrow> fraction_ok r'))"

definition timestamp_canonical_ok :: "string \<Rightarrow> bool" where
  "timestamp_canonical_ok s \<longleftrightarrow>
     match_fixed (four_digits @ this_char (CHR ''-'') @ two_digits @ this_char (CHR ''-'') @ two_digits @
       this_char (CHR ''T'') @ two_digits @ this_char (CHR '':'') @ two_digits @ this_char (CHR '':'') @ two_digits @
       this_char (CHR ''.'') @ three_digits @ this_char (CHR ''Z'')) s = Some []"

text \<open>\<^verbatim>\<open>new Date(ms).toISOString()\<close>: the proleptic Gregorian calendar date of a day number.\<close>

definition civil_of_days :: "int \<Rightarrow> int \<times> int \<times> int" where
  "civil_of_days days =
     (let z = days + 719468; era = z div 146097; doe = z mod 146097;
          yoe = (doe - doe div 1460 + doe div 36524 - doe div 146096) div 365;
          doy = doe - (365 * yoe + yoe div 4 - yoe div 100);
          mp = (5 * doy + 2) div 153;
          m = (if mp < 10 then mp + 3 else mp - 9)
      in (yoe + era * 400 + (if m \<le> 2 then 1 else 0), m, doy - (153 * mp + 2) div 5 + 1))"

definition pad_int :: "nat \<Rightarrow> int \<Rightarrow> string" where
  "pad_int w n = pad_zero w (show_nat (nat n))"

definition year_text :: "int \<Rightarrow> string" where
  "year_text y =
     (if 0 \<le> y \<and> y \<le> 9999 then pad_int 4 y
      else (if y < 0 then ''-'' else ''+'') @ pad_int 6 \<bar>y\<bar>)"

definition iso_text :: "int \<Rightarrow> string" where
  "iso_text ms =
     (case civil_of_days (ms div 86400000) of
        (y, m, d) \<Rightarrow>
          let t = ms mod 86400000
          in year_text y @ ''-'' @ pad_int 2 m @ ''-'' @ pad_int 2 d @ ''T'' @
             pad_int 2 (t div 3600000) @ '':'' @ pad_int 2 (t div 60000 mod 60) @ '':'' @
             pad_int 2 (t div 1000 mod 60) @ ''.'' @ pad_int 3 (t mod 1000) @ ''Z'')"

subsection \<open>Normalization\<close>

definition normalize_declared_value ::
  "(string \<Rightarrow> int option) \<Rightarrow> declared_column \<Rightarrow> json \<Rightarrow> value_problem + json" where
  "normalize_declared_value date_parse c v =
     (case dc_type c of
        Ty_String \<Rightarrow> (case v of JStr s \<Rightarrow> Inr v | _ \<Rightarrow> Inl Expected_String)
      | Ty_Int64 \<Rightarrow>
          (case v of
             JStr s \<Rightarrow>
               (case int64_text_problem s of
                  Some p \<Rightarrow> Inl p
                | None \<Rightarrow> Inr (JStr (if big_int s = 0 then ''0'' else s)))
           | _ \<Rightarrow> Inl Expected_String)
      | Ty_Float64 \<Rightarrow>
          (case v of
             JNum x \<Rightarrow>
               if is_finite x then Inr (JNum (if x = Neg_Zero then Fin 0 else x)) else Inl Expected_Number
           | _ \<Rightarrow> Inl Expected_Number)
      | Ty_Boolean \<Rightarrow> (case v of JBool b \<Rightarrow> Inr v | _ \<Rightarrow> Inl Expected_Boolean)
      | Ty_Timestamp \<Rightarrow>
          (case v of
             JStr s \<Rightarrow>
               if \<not> timestamp_input_ok s then Inl Not_An_Instant
               else (case date_parse s of
                       None \<Rightarrow> Inl Not_An_Instant
                     | Some ms \<Rightarrow>
                         if timestamp_canonical_ok (iso_text ms) then Inr (JStr (iso_text ms))
                         else Inl Outside_Date_Range)
           | _ \<Rightarrow> Inl Expected_String)
      | Ty_Json \<Rightarrow>
          (case v of
             JNum x \<Rightarrow> if is_finite x then Inr v else Inl Expected_Json
           | _ \<Rightarrow> Inr v)
      | Ty_Bytes \<Rightarrow>
          (case v of
             JStr s \<Rightarrow> (case bytes_problem s of Some p \<Rightarrow> Inl p | None \<Rightarrow> Inr v)
           | _ \<Rightarrow> Inl Expected_String)
      | Ty_Other s \<Rightarrow> Inl Unsupported_Type)"

datatype default_problem = Null_Default | Invalid_Default value_problem | Noncanonical_Default json

definition same_canonical_value :: "(rat \<Rightarrow> string) \<Rightarrow> json \<Rightarrow> json \<Rightarrow> bool" where
  "same_canonical_value fmt l r \<longleftrightarrow>
     (case (l, r) of
        (JNum x, JNum y) \<Rightarrow> x = y
      | _ \<Rightarrow> json_compact fmt l = json_compact fmt r)"

definition canonical_default_problem ::
  "(rat \<Rightarrow> string) \<Rightarrow> (string \<Rightarrow> int option) \<Rightarrow> declared_column \<Rightarrow> default_problem option" where
  "canonical_default_problem fmt date_parse c =
     (case dc_default c of
        None \<Rightarrow> None
      | Some d \<Rightarrow>
          if d = JNull then (if dc_nullable c then None else Some Null_Default)
          else (case normalize_declared_value date_parse c d of
                  Inl p \<Rightarrow> Some (Invalid_Default p)
                | Inr n \<Rightarrow> if same_canonical_value fmt n d then None else Some (Noncanonical_Default n)))"

section \<open>Rows\<close>

datatype field_problem =
    Not_An_Object | Undeclared_Property | Missing_Required | Null_Not_Allowed | Bad_Value value_problem

record row_issues =
  ri_fields :: "(string \<times> field_problem) list"
  ri_status :: nat

definition resolve_cell ::
  "(string \<Rightarrow> int option) \<Rightarrow> (string \<times> json) list \<Rightarrow> declared_column \<Rightarrow> field_problem + json" where
  "resolve_cell date_parse raw c =
     (case map_of raw (dc_name c) of
        None \<Rightarrow>
          (case dc_default c of
             Some d \<Rightarrow> Inr d
           | None \<Rightarrow> if dc_nullable c then Inr JNull else Inl Missing_Required)
      | Some v \<Rightarrow>
          if v = JNull then (if dc_nullable c then Inr JNull else Inl Null_Not_Allowed)
          else (case normalize_declared_value date_parse c v of
                  Inl p \<Rightarrow> Inl (Bad_Value p) | Inr w \<Rightarrow> Inr w))"

fun row_step ::
  "(string \<Rightarrow> int option) \<Rightarrow> (string \<times> json) list
     \<Rightarrow> (string \<times> json) list \<times> (string \<times> field_problem) list \<times> nat \<Rightarrow> declared_column
     \<Rightarrow> (string \<times> json) list \<times> (string \<times> field_problem) list \<times> nat" where
  "row_step date_parse raw (out, bad, status) c =
     (case resolve_cell date_parse raw c of
        Inr v \<Rightarrow> (obj_set (dc_name c) v out, bad, status)
      | Inl p \<Rightarrow> (out, obj_set (dc_name c) p bad, if p = Missing_Required then status else 422))"

definition normalize_api_row ::
  "(string \<Rightarrow> int option) \<Rightarrow> declared_column list \<Rightarrow> json \<Rightarrow> row_issues + (string \<times> json) list" where
  "normalize_api_row date_parse columns row =
     (case row of
        JObj raw \<Rightarrow>
          (let unknown = filter (\<lambda>k. k \<notin> dc_name ` set columns) (map fst raw)
           in if unknown \<noteq> []
              then Inl \<lparr>ri_fields = map (\<lambda>k. (k, Undeclared_Property)) unknown, ri_status = 400\<rparr>
              else (case foldl (row_step date_parse raw) ([], [], 400) columns of
                      (out, bad, status) \<Rightarrow>
                        if bad \<noteq> [] then Inl \<lparr>ri_fields = bad, ri_status = status\<rparr> else Inr out))
      | _ \<Rightarrow> Inl \<lparr>ri_fields = [(''general'', Not_An_Object)], ri_status = 400\<rparr>)"

definition or_null :: "json option \<Rightarrow> json" where
  "or_null v = (case v of None \<Rightarrow> JNull | Some x \<Rightarrow> x)"

definition apply_declared_read_compat ::
  "declared_column list \<Rightarrow> (string \<times> json) list \<Rightarrow> (string \<times> json) list" where
  "apply_declared_read_compat columns row =
     foldl (\<lambda>r c. case dc_default c of
              None \<Rightarrow> r
            | Some d \<Rightarrow> if map_of r (dc_name c) = Some JNull then obj_set (dc_name c) d r else r) row columns"

definition stored_row_from_api_row ::
  "declared_column list \<Rightarrow> row_shape \<Rightarrow> (string \<times> json) list \<Rightarrow> json" where
  "stored_row_from_api_row columns shape row =
     (case shape of
        Positional_Rows \<Rightarrow> JArr (map (\<lambda>c. or_null (map_of row (dc_name c))) columns)
      | Object_Rows \<Rightarrow>
          JObj (foldl (\<lambda>out c. obj_set (dc_name c) (or_null (map_of row (dc_name c))) out) [] columns))"

definition api_row_from_stored_row :: "declared_column list \<Rightarrow> json \<Rightarrow> (string \<times> json) list" where
  "api_row_from_stored_row columns stored =
     (case stored of
        JArr vs \<Rightarrow>
          foldl (\<lambda>out (i, c). obj_set (dc_name c) (if i < length vs then vs ! i else JNull) out) []
            (enumerate 0 columns)
      | _ \<Rightarrow>
          (let rec = (case stored of JObj ps \<Rightarrow> ps | _ \<Rightarrow> [])
           in foldl (\<lambda>out c. obj_set (dc_name c) (or_null (map_of rec (dc_name c))) out) [] columns))"

definition jsonl_line_for_api_row ::
  "(rat \<Rightarrow> string) \<Rightarrow> declared_column list \<Rightarrow> row_shape \<Rightarrow> (string \<times> json) list \<Rightarrow> string" where
  "jsonl_line_for_api_row fmt columns shape row =
     json_compact fmt (stored_row_from_api_row columns shape row)"

fun declared_read_type :: "declared_type \<Rightarrow> string option" where
  "declared_read_type Ty_Float64 = Some ''DOUBLE''"
| "declared_read_type Ty_Boolean = Some ''BOOLEAN''"
| "declared_read_type Ty_Json = Some ''JSON''"
| "declared_read_type (Ty_Other s) = None"
| "declared_read_type _ = Some ''VARCHAR''"

fun duck_column_type_for_declared :: "declared_type \<Rightarrow> string option" where
  "duck_column_type_for_declared Ty_String = Some ''varchar''"
| "duck_column_type_for_declared Ty_Bytes = Some ''varchar''"
| "duck_column_type_for_declared Ty_Int64 = Some ''bigint''"
| "duck_column_type_for_declared Ty_Float64 = Some ''double''"
| "duck_column_type_for_declared Ty_Boolean = Some ''boolean''"
| "duck_column_type_for_declared Ty_Timestamp = Some ''timestamp''"
| "duck_column_type_for_declared Ty_Json = Some ''json''"
| "duck_column_type_for_declared (Ty_Other s) = None"

definition single_key_column :: "string list \<Rightarrow> string option" where
  "single_key_column ks = (case ks of [k] \<Rightarrow> Some k | _ \<Rightarrow> None)"

section \<open>Integers as text\<close>

lemma is_digit_minus [simp]: "\<not> is_digit (CHR ''-'')"
  by (simp add: is_digit_def)

lemma digit_char_0 [simp]: "digit_char 0 = CHR ''0''"
  by (metis digit_char_val digit_val_zero is_digit_zero)

lemma digit_char_zero: "d < 10 \<Longrightarrow> digit_char d = CHR ''0'' \<longleftrightarrow> d = 0"
  by (metis digit_val_char digit_val_zero digit_char_val is_digit_zero)

lemma parse_nat_pos: "list_all is_digit s \<Longrightarrow> s \<noteq> [] \<Longrightarrow> hd s \<noteq> CHR ''0'' \<Longrightarrow> 0 < parse_nat s"
proof (induction s rule: rev_induct)
  case (snoc c s)
  show ?case
  proof (cases "s = []")
    case True
    then have "digit_val c \<noteq> 0" using snoc.prems digit_char_val [of c] by (cases "digit_val c") auto
    then show ?thesis using True parse_nat_snoc [of "[]" c] by simp
  next
    case False
    then show ?thesis using snoc by simp
  qed
qed simp

lemma show_parse_nat:
  "list_all is_digit s \<Longrightarrow> s \<noteq> [] \<Longrightarrow> hd s \<noteq> CHR ''0'' \<Longrightarrow> show_nat (parse_nat s) = s"
proof (induction s rule: rev_induct)
  case (snoc c s)
  have c: "is_digit c" using snoc.prems(1) by simp
  show ?case
  proof (cases "s = []")
    case True
    then show ?thesis using c digit_val_less [OF c] digit_char_val [OF c] parse_nat_snoc [of "[]" c]
      by (subst show_nat.simps) simp
  next
    case False
    then have s: "list_all is_digit s" "hd s \<noteq> CHR ''0''" using snoc.prems by simp_all
    have "0 < parse_nat s" using parse_nat_pos [OF s(1) False s(2)] .
    then show ?thesis using snoc.IH [OF s(1) False s(2)] digit_val_less [OF c] digit_char_val [OF c]
      by (subst show_nat.simps) simp
  qed
qed simp

lemma show_nat_zero [simp]: "show_nat 0 = ''0''"
  by (subst show_nat.simps) simp

lemma hd_show_nat: "0 < n \<Longrightarrow> hd (show_nat n) \<noteq> CHR ''0''"
proof (induction n rule: show_nat.induct)
  case (1 n)
  show ?case
  proof (cases "n < 10")
    case True
    then show ?thesis using 1 by (subst show_nat.simps) (simp add: digit_char_zero)
  next
    case False
    then show ?thesis using 1 by (subst show_nat.simps) simp
  qed
qed

lemma show_nat_list_all: "list_all is_digit (show_nat n)"
  using show_nat_digits by (simp add: list_all_iff)

lemma hd_show_nat_minus [simp]: "show_nat n = c # cs \<Longrightarrow> c \<noteq> CHR ''-''"
  using show_nat_digits [of n] by auto

lemma int64_pattern_show: "int64_pattern (show_int n)"
proof -
  have body: "show_nat k = ''0'' \<or> show_nat k \<noteq> [] \<and> list_all is_digit (show_nat k) \<and> hd (show_nat k) \<noteq> CHR ''0''"
    for k by (cases "k = 0") (simp_all add: hd_show_nat show_nat_list_all)
  show ?thesis
  proof (cases "show_nat (nat n)")
    case (Cons c cs)
    then show ?thesis using body [of "nat n"] body [of "nat (- n)"] hd_show_nat_minus [OF Cons]
      by (auto simp: int64_pattern_def show_int_def)
  qed simp
qed

lemma big_int_show [simp]: "big_int (show_int n) = n"
proof (cases "show_nat (nat n)")
  case (Cons c cs)
  have "parse_nat (c # cs) = nat n" using Cons parse_show_nat [of "nat n"] by simp
  then show ?thesis using hd_show_nat_minus [OF Cons] Cons by (auto simp: big_int_def show_int_def)
qed simp

lemma show_int_inj [simp]: "show_int m = show_int n \<longleftrightarrow> m = n"
  by (metis big_int_show)

lemma int64_pattern_iff: "int64_pattern s \<longleftrightarrow> s = ''-0'' \<or> (\<exists>n. s = show_int n)"
proof
  assume p: "int64_pattern s"
  have body: "show_nat (parse_nat b) = b" if "b = ''0'' \<or> b \<noteq> [] \<and> list_all is_digit b \<and> hd b \<noteq> CHR ''0''" for b
    using that show_parse_nat [of b] parse_nat_snoc [of "[]" "CHR ''0''"] by auto
  show "s = ''-0'' \<or> (\<exists>n. s = show_int n)"
  proof (cases "\<exists>b. s = CHR ''-'' # b")
    case True
    then obtain b where s: "s = CHR ''-'' # b" by blast
    then have b: "b = ''0'' \<or> b \<noteq> [] \<and> list_all is_digit b \<and> hd b \<noteq> CHR ''0''"
      using p by (simp add: int64_pattern_def)
    show ?thesis
    proof (cases "b = ''0''")
      case False
      then have "0 < parse_nat b" using b parse_nat_pos by blast
      then have "s = show_int (- int (parse_nat b))" using body [OF b] s by (simp add: show_int_def)
      then show ?thesis by blast
    qed (simp add: s)
  next
    case False
    then have "s = ''0'' \<or> s \<noteq> [] \<and> list_all is_digit s \<and> hd s \<noteq> CHR ''0''"
      using p by (auto simp: int64_pattern_def split: list.splits)
    then have "s = show_int (int (parse_nat s))" using body [of s] by (simp add: show_int_def)
    then show ?thesis by blast
  qed
next
  assume "s = ''-0'' \<or> (\<exists>n. s = show_int n)"
  then show "int64_pattern s" using int64_pattern_show by (auto simp: int64_pattern_def)
qed

section \<open>Base64url\<close>

definition b64_vals :: "nat list \<Rightarrow> bool" where
  "b64_vals s \<longleftrightarrow> (\<forall>v \<in> set s. v < 64)"

definition byte_vals :: "nat list \<Rightarrow> bool" where
  "byte_vals s \<longleftrightarrow> (\<forall>v \<in> set s. v < 256)"

lemma b64_encode_vals: "byte_vals s \<Longrightarrow> b64_vals (b64_encode s)"
proof (induction s rule: b64_encode.induct)
  case (1 x y z s)
  then show ?case by (auto simp: byte_vals_def b64_vals_def)
qed (auto simp: byte_vals_def b64_vals_def)

lemma b64_decode_bytes: "b64_vals s \<Longrightarrow> byte_vals (b64_decode s)"
proof (induction s rule: b64_decode.induct)
  case (1 a b c d s)
  then show ?case by (auto simp: byte_vals_def b64_vals_def)
qed (auto simp: byte_vals_def b64_vals_def)

lemma b64_decode_encode: "byte_vals s \<Longrightarrow> b64_decode (b64_encode s) = s"
proof (induction s rule: b64_encode.induct)
  case (1 x y z s)
  then show ?case by (auto simp: byte_vals_def)
qed (auto simp: byte_vals_def)

lemma b64_val_char: "n < 64 \<Longrightarrow> b64_val (b64_char n) = n"
  by (auto simp: b64_val_def b64_char_def is_upper_def is_lower_def is_digit_def Let_def)

lemma is_b64_b64_char: "n < 64 \<Longrightarrow> is_b64_char (b64_char n)"
  by (auto simp: b64_char_def is_b64_char_def is_ident_char_def is_ident_start_def is_upper_def is_lower_def is_digit_def)

lemma b64_val_less: "is_b64_char c \<Longrightarrow> b64_val c < 64"
  by (auto simp: b64_val_def is_b64_char_def is_ident_char_def is_ident_start_def is_upper_def is_lower_def
      is_digit_def Let_def)

lemma map_b64_val_char: "b64_vals s \<Longrightarrow> map b64_val (map b64_char s) = s"
  by (induction s) (auto simp: b64_vals_def b64_val_char)

definition base64url :: "nat list \<Rightarrow> string" where
  "base64url bs = map b64_char (b64_encode bs)"

lemma b64_encode_Nil [simp]: "b64_encode bs = [] \<longleftrightarrow> bs = []"
  by (cases bs rule: b64_encode.cases) simp_all

lemma bytes_problem_None:
  "bytes_problem s = None \<longleftrightarrow> (\<exists>bs. bs \<noteq> [] \<and> byte_vals bs \<and> s = bytes_prefix @ base64url bs)"
proof
  assume ok: "bytes_problem s = None"
  let ?b = "drop (length bytes_prefix) s" and ?bs = "b64_decode (map b64_val (drop (length bytes_prefix) s))"
  have p: "starts_with bytes_prefix s" "?b \<noteq> []" "list_all is_b64_char ?b" "map b64_char (b64_encode ?bs) = ?b"
    using ok by (auto simp: bytes_problem_def Let_def split: if_splits)
  have "b64_vals (map b64_val ?b)" using p(3) b64_val_less by (auto simp: b64_vals_def list_all_iff)
  then have "byte_vals ?bs" by (rule b64_decode_bytes)
  moreover have "s = bytes_prefix @ base64url ?bs" using starts_withE [OF p(1)] p(4) by (simp add: base64url_def)
  moreover have "?bs \<noteq> []" using p(2,4) by (metis b64_encode_Nil list.map_disc_iff)
  ultimately show "\<exists>bs. bs \<noteq> [] \<and> byte_vals bs \<and> s = bytes_prefix @ base64url bs" by blast
next
  assume "\<exists>bs. bs \<noteq> [] \<and> byte_vals bs \<and> s = bytes_prefix @ base64url bs"
  then obtain bs where bs: "bs \<noteq> []" "byte_vals bs" "s = bytes_prefix @ base64url bs" by blast
  have v: "b64_vals (b64_encode bs)" by (rule b64_encode_vals [OF bs(2)])
  have "list_all is_b64_char (base64url bs)"
    using v is_b64_b64_char by (auto simp: base64url_def list_all_iff b64_vals_def)
  then show "bytes_problem s = None"
    using bs map_b64_val_char [OF v] b64_decode_encode [OF bs(2)]
    by (simp add: bytes_problem_def Let_def starts_with_append base64url_def)
qed

section \<open>Canonical values are fixed points\<close>

lemma match_fixed_Cons: "match_fixed (p # ps) s = Some r \<longleftrightarrow> (\<exists>c t. s = c # t \<and> p c \<and> match_fixed ps t = Some r)"
  by (cases s) auto

lemma canonical_timestamp_input: "timestamp_canonical_ok s \<Longrightarrow> timestamp_input_ok s"
  unfolding timestamp_canonical_ok_def
  by (simp only: append.simps match_fixed_Cons match_fixed.simps(1) option.inject, elim exE conjE)
    (simp add: timestamp_input_ok_def fraction_ok_def zone_ok_def Let_def, simp add: is_digit_def)

text \<open>
  What the code relies on of \<^verbatim>\<open>Date.parse\<close>: an instant it has parsed is read back from its
  \<^verbatim>\<open>toISOString\<close> text.
\<close>

definition iso_dates :: "(string \<Rightarrow> int option) \<Rightarrow> bool" where
  "iso_dates date_parse \<longleftrightarrow>
     (\<forall>s ms. date_parse s = Some ms \<longrightarrow> timestamp_canonical_ok (iso_text ms) \<longrightarrow>
        date_parse (iso_text ms) = Some ms)"

lemma normalize_fixed:
  assumes "iso_dates date_parse" and "normalize_declared_value date_parse c v = Inr w"
  shows "normalize_declared_value date_parse c w = Inr w"
proof (cases "dc_type c")
  case Ty_Int64
  have "int64_text_problem ''0'' = None" "big_int ''0'' = 0"
    by (simp_all add: int64_text_problem_def int64_pattern_def big_int_def parse_nat_def)
  then show ?thesis using assms(2) Ty_Int64
    by (auto simp: normalize_declared_value_def split: json.splits option.splits if_splits)
next
  case Ty_Timestamp
  then obtain s ms where ms: "w = JStr (iso_text ms)" "timestamp_canonical_ok (iso_text ms)"
      "date_parse s = Some ms"
    using assms(2) by (auto simp: normalize_declared_value_def split: json.splits option.splits if_splits)
  then have "date_parse (iso_text ms) = Some ms" using assms(1) unfolding iso_dates_def by blast
  then show ?thesis using ms Ty_Timestamp canonical_timestamp_input [OF ms(2)]
    by (simp add: normalize_declared_value_def)
qed (use assms(2) in \<open>auto simp: normalize_declared_value_def split: json.splits option.splits if_splits\<close>)

lemma normalize_not_null:
  assumes "normalize_declared_value date_parse c v = Inr w" and "v \<noteq> JNull"
  shows "w \<noteq> JNull"
  using assms by (cases "dc_type c")
    (auto simp: normalize_declared_value_def split: json.splits option.splits if_splits)

lemma canonical_default_value:
  assumes "canonical_default_problem fmt date_parse c = None" and "dc_default c = Some d" and "d \<noteq> JNull"
  shows "normalize_declared_value date_parse c d = Inr d"
proof -
  obtain n where n: "normalize_declared_value date_parse c d = Inr n" "same_canonical_value fmt n d"
    using assms by (auto simp: canonical_default_problem_def split: sum.splits if_splits)
  have "n = d"
    using n by (cases "dc_type c")
      (auto simp: normalize_declared_value_def same_canonical_value_def json_quote_inj
        split: json.splits option.splits if_splits)
  then show ?thesis using n by simp
qed

section \<open>Rows as the columns list them\<close>

lemma foldl_obj_set:
  "distinct (map f xs) \<Longrightarrow> fst ` set out \<inter> f ` set xs = {} \<Longrightarrow>
    foldl (\<lambda>out x. obj_set (f x) (g x) out) out xs = out @ map (\<lambda>x. (f x, g x)) xs"
proof (induction xs arbitrary: out)
  case (Cons x xs)
  have "obj_set (f x) (g x) out = out @ [(f x, g x)]"
    using Cons.prems(2) by (intro obj_set_fresh) auto
  then show ?case using Cons by auto
qed simp

definition row_of :: "declared_column list \<Rightarrow> (declared_column \<Rightarrow> json) \<Rightarrow> (string \<times> json) list" where
  "row_of columns g = map (\<lambda>c. (dc_name c, g c)) columns"

lemma map_of_row_of: "distinct (map dc_name cs) \<Longrightarrow> c \<in> set cs \<Longrightarrow> map_of (row_of cs g) (dc_name c) = Some (g c)"
  unfolding row_of_def by (rule map_of_is_SomeI) (simp_all add: comp_def)

lemma keys_row_of [simp]: "map fst (row_of cs g) = map dc_name cs"
  by (simp add: row_of_def)

lemma row_of_eq: "row_of cs f = row_of cs g \<longleftrightarrow> (\<forall>c \<in> set cs. f c = g c)"
  by (simp add: row_of_def)

fun cell_value :: "field_problem + json \<Rightarrow> json" where
  "cell_value (Inr v) = v"
| "cell_value (Inl p) = JNull"

lemma row_fold_ok:
  assumes "\<forall>c \<in> set cs. \<exists>v. resolve_cell dp raw c = Inr v"
    and "distinct (map dc_name cs)" and "fst ` set out \<inter> dc_name ` set cs = {}"
  shows "foldl (row_step dp raw) (out, bad, st) cs =
    (out @ row_of cs (\<lambda>c. cell_value (resolve_cell dp raw c)), bad, st)"
  using assms
proof (induction cs arbitrary: out)
  case (Cons c cs)
  obtain v where v: "resolve_cell dp raw c = Inr v" using Cons.prems(1) by auto
  have "obj_set (dc_name c) v out = out @ [(dc_name c, v)]"
    using Cons.prems(3) by (intro obj_set_fresh) auto
  then show ?case using Cons v by (auto simp: row_of_def)
qed (simp add: row_of_def)

lemma row_fold_bad_mono:
  "foldl (row_step dp raw) (out, bad, st) cs = (out', bad', st') \<Longrightarrow> bad \<noteq> [] \<Longrightarrow> bad' \<noteq> []"
proof (induction cs arbitrary: out bad st)
  case (Cons c cs)
  then show ?case by (auto split: sum.splits)
qed simp

lemma row_fold_bad:
  assumes "c \<in> set cs" and "resolve_cell dp raw c = Inl p"
    and "foldl (row_step dp raw) (out, bad, st) cs = (out', bad', st')"
  shows "bad' \<noteq> []"
  using assms
proof (induction cs arbitrary: out bad st)
  case (Cons d cs)
  show ?case
  proof (cases "c = d")
    case True
    then show ?thesis using Cons.prems(2,3) row_fold_bad_mono by simp
  next
    case False
    then show ?thesis using Cons by (cases "resolve_cell dp raw d") auto
  qed
qed simp

lemma normalize_api_row_Inr:
  assumes "distinct (map dc_name cs)"
  shows "normalize_api_row dp cs row = Inr out \<longleftrightarrow>
    (\<exists>raw. row = JObj raw \<and> fst ` set raw \<subseteq> dc_name ` set cs \<and>
       (\<forall>c \<in> set cs. \<exists>v. resolve_cell dp raw c = Inr v) \<and>
       out = row_of cs (\<lambda>c. cell_value (resolve_cell dp raw c)))"
proof (cases "\<exists>raw. row = JObj raw")
  case True
  then obtain raw where row: "row = JObj raw" by blast
  have sub: "filter (\<lambda>k. k \<notin> dc_name ` set cs) (map fst raw) = [] \<longleftrightarrow> fst ` set raw \<subseteq> dc_name ` set cs"
    by (auto simp: filter_empty_conv)
  show ?thesis
  proof (cases "\<forall>c \<in> set cs. \<exists>v. resolve_cell dp raw c = Inr v")
    case True
    then show ?thesis using row_fold_ok [OF True assms, of "[]" "[]" 400] sub row
      by (auto simp: normalize_api_row_def Let_def)
  next
    case False
    then obtain c p where c: "c \<in> set cs" "resolve_cell dp raw c = Inl p" by (meson sum.exhaust)
    obtain o' b' s' where f: "foldl (row_step dp raw) ([], [], 400) cs = (o', b', s')"
      by (cases "foldl (row_step dp raw) ([], [], 400) cs")
    then have "b' \<noteq> []" using row_fold_bad [OF c f] by simp
    then show ?thesis using False f row by (auto simp: normalize_api_row_def Let_def)
  qed
next
  case False
  then show ?thesis by (cases row) (auto simp: normalize_api_row_def)
qed

lemma foldl_enumerate:
  "foldl (\<lambda>out (i, c). h out i c) out (enumerate n cs) =
    foldl (\<lambda>out i. h out (n + i) (cs ! i)) out [0..<length cs]"
proof (induction cs arbitrary: n out)
  case (Cons c cs)
  have "[0..<length (c # cs)] = 0 # map Suc [0..<length cs]"
    by (simp add: map_Suc_upt upt_conv_Cons del: upt_Suc)
  then show ?case using Cons [of "h out n c" "Suc n"] by (simp add: foldl_map)
qed simp

lemma stored_row_back:
  assumes "distinct (map dc_name cs)"
  shows "api_row_from_stored_row cs (stored_row_from_api_row cs shape (row_of cs g)) = row_of cs g"
proof (cases shape)
  case Object_Rows
  have f: "foldl (\<lambda>out c. obj_set (dc_name c) (h c) out) [] cs = row_of cs h" for h
    using foldl_obj_set [OF assms, of "[]" h] by (simp add: row_of_def)
  have "row_of cs (\<lambda>c. or_null (map_of (row_of cs k) (dc_name c))) = row_of cs k" for k
    unfolding row_of_eq using map_of_row_of [OF assms] by (simp add: or_null_def)
  then show ?thesis using Object_Rows
    by (simp add: stored_row_from_api_row_def api_row_from_stored_row_def f)
next
  case Positional_Rows
  let ?vs = "map (\<lambda>c. or_null (map_of (row_of cs g) (dc_name c))) cs"
  have "distinct (map (\<lambda>i. dc_name (cs ! i)) [0..<length cs])"
    using assms by (metis (no_types, lifting) map_map map_nth comp_def map_eq_conv)
  then have "api_row_from_stored_row cs (JArr ?vs) = map (\<lambda>i. (dc_name (cs ! i), ?vs ! i)) [0..<length cs]"
    by (simp add: api_row_from_stored_row_def foldl_enumerate foldl_obj_set)
  also have "\<dots> = row_of cs g"
    using map_of_row_of [OF assms] by (intro nth_equalityI) (simp_all add: row_of_def or_null_def)
  finally show ?thesis using Positional_Rows by (simp add: stored_row_from_api_row_def)
qed

section \<open>Properties\<close>

definition canonical_cell :: "(string \<Rightarrow> int option) \<Rightarrow> declared_column \<Rightarrow> json \<Rightarrow> bool" where
  "canonical_cell date_parse c v \<longleftrightarrow>
     (if v = JNull then dc_nullable c else normalize_declared_value date_parse c v = Inr v)"

lemma resolved_cell_canonical:
  assumes "iso_dates dp" and "canonical_default_problem fmt dp c = None" and "resolve_cell dp raw c = Inr v"
  shows "canonical_cell dp c v"
proof (cases "map_of raw (dc_name c)")
  case None
  then show ?thesis
    using assms canonical_default_value [OF assms(2)]
    by (cases "dc_default c") (auto simp: resolve_cell_def canonical_cell_def canonical_default_problem_def split: if_splits)
next
  case (Some x)
  show ?thesis
  proof (cases "x = JNull")
    case True
    then show ?thesis using assms(3) Some by (auto simp: resolve_cell_def canonical_cell_def split: if_splits)
  next
    case False
    then have n: "normalize_declared_value dp c x = Inr v"
      using assms(3) Some by (auto simp: resolve_cell_def split: sum.splits)
    then show ?thesis using normalize_fixed [OF assms(1) n] normalize_not_null [OF n False]
      by (simp add: canonical_cell_def)
  qed
qed

lemma canonical_cell_resolves:
  "map_of raw (dc_name c) = Some v \<Longrightarrow> canonical_cell dp c v \<Longrightarrow> resolve_cell dp raw c = Inr v"
  by (simp add: resolve_cell_def canonical_cell_def split: if_splits)

text \<open>C38: admitted rows are canonical.  A row the table admits has exactly the declared columns
  in declaration order, \<^verbatim>\<open>null\<close> only where the column is nullable and the canonical form of its
  type elsewhere, defaults included; submitting the admitted row again admits it unchanged.\<close>

theorem api_row_canonical:
  assumes "iso_dates date_parse" and "distinct (map dc_name columns)"
    and "\<forall>c \<in> set columns. canonical_default_problem fmt date_parse c = None"
    and "normalize_api_row date_parse columns row = Inr out"
  shows "map fst out = map dc_name columns \<and>
    (\<forall>c \<in> set columns. \<exists>v. map_of out (dc_name c) = Some v \<and> canonical_cell date_parse c v) \<and>
    normalize_api_row date_parse columns (JObj out) = Inr out"
proof -
  obtain raw where cells: "\<forall>c \<in> set columns. \<exists>v. resolve_cell date_parse raw c = Inr v"
    and out: "out = row_of columns (\<lambda>c. cell_value (resolve_cell date_parse raw c))"
    using assms(4) normalize_api_row_Inr [OF assms(2)] by blast
  have canon: "canonical_cell date_parse c (cell_value (resolve_cell date_parse raw c))" if "c \<in> set columns" for c
    using that cells assms(1,3) resolved_cell_canonical by (metis cell_value.simps(1))
  have again: "resolve_cell date_parse out c = Inr (cell_value (resolve_cell date_parse raw c))"
    if "c \<in> set columns" for c
    unfolding out by (rule canonical_cell_resolves) (simp_all add: map_of_row_of [OF assms(2) that] canon [OF that])
  have keys: "fst ` set out \<subseteq> dc_name ` set columns"
    by (metis keys_row_of list.set_map out order_refl)
  have same: "out = row_of columns (\<lambda>c. cell_value (resolve_cell date_parse out c))"
    using again by (subst out) (simp add: row_of_eq)
  have "\<forall>c \<in> set columns. \<exists>v. resolve_cell date_parse out c = Inr v" using again by blast
  with keys same have "normalize_api_row date_parse columns (JObj out) = Inr out"
    unfolding normalize_api_row_Inr [OF assms(2)] by blast
  then show ?thesis using canon map_of_row_of [OF assms(2)] by (auto simp: out)
qed


text \<open>The 64-bit integers are exactly the canonical numerals in range.  A value is accepted
  for an int64 column if and only if it is the numeral of an integer of the signed 64-bit range
  or the text -0, which becomes 0; the stored text is the numeral of the same integer.\<close>

theorem int64_exact:
  "dc_type c = Ty_Int64 \<Longrightarrow>
    normalize_declared_value date_parse c v = Inr w \<longleftrightarrow>
    (\<exists>n. - (2 ^ 63) \<le> n \<and> n < 2 ^ 63 \<and> w = JStr (show_int n) \<and>
      (v = JStr (show_int n) \<or> n = 0 \<and> v = JStr ''-0''))"
proof -
  assume t: "dc_type c = Ty_Int64"
  have z: "show_int 0 = ''0''" by (simp add: show_int_def)
  have m: "big_int ''-0'' = 0" "int64_pattern ''-0''"
    by (simp_all add: big_int_def parse_nat_def int64_pattern_def)
  have ok: "int64_text_problem s = None \<longleftrightarrow>
      s = ''-0'' \<or> (\<exists>n. s = show_int n \<and> - (2 ^ 63) \<le> n \<and> n < 2 ^ 63)" for s
    using m int64_pattern_iff [of s] by (auto simp: int64_text_problem_def)
  show ?thesis
  proof (cases "\<exists>s. v = JStr s")
    case True
    then obtain s where v: "v = JStr s" by blast
    have "normalize_declared_value date_parse c v = Inr w \<longleftrightarrow>
        int64_text_problem s = None \<and> w = JStr (if big_int s = 0 then ''0'' else s)"
      using t v by (auto simp: normalize_declared_value_def split: option.splits)
    then show ?thesis unfolding ok using m z v by (auto intro: exI [of _ 0])
  qed (use t in \<open>auto simp: normalize_declared_value_def split: json.splits\<close>)
qed

text \<open>The byte strings are exactly the unpadded encodings.  A value is accepted for a bytes
  column if and only if it is the prefix followed by the base64url encoding of some non-empty
  byte sequence, which decoding recovers; it is stored as it is.\<close>

theorem bytes_exact:
  "dc_type c = Ty_Bytes \<Longrightarrow>
    normalize_declared_value date_parse c v = Inr w \<longleftrightarrow>
    w = v \<and> (\<exists>bs. bs \<noteq> [] \<and> byte_vals bs \<and> v = JStr (bytes_prefix @ base64url bs) \<and>
      b64_decode (map b64_val (base64url bs)) = bs)"
proof -
  assume t: "dc_type c = Ty_Bytes"
  have "b64_decode (map b64_val (base64url bs)) = bs" if "byte_vals bs" for bs
    using map_b64_val_char [OF b64_encode_vals [OF that]] b64_decode_encode [OF that]
    by (simp add: base64url_def)
  then show ?thesis using t bytes_problem_None
    by (cases v) (fastforce simp: normalize_declared_value_def split: option.splits)+
qed

section \<open>Witnesses\<close>

definition demo_columns :: "declared_column list" where
  "demo_columns =
     [\<lparr>dc_name = ''id'', dc_type = Ty_Int64, dc_nullable = False, dc_default = None, dc_references = None\<rparr>,
      \<lparr>dc_name = ''at'', dc_type = Ty_Timestamp, dc_nullable = False, dc_default = None, dc_references = None\<rparr>,
      \<lparr>dc_name = ''note'', dc_type = Ty_String, dc_nullable = True, dc_default = Some (JStr ''-''),
        dc_references = None\<rparr>]"

text \<open>A clock that knows one instant, in two notations.\<close>

definition demo_clock :: "string \<Rightarrow> int option" where
  "demo_clock s =
     (if s = ''2024-03-01T01:00:00+01:00'' \<or> s = ''2024-03-01T00:00:00.000Z'' then Some 1709251200000 else None)"

lemma demo_iso: "iso_text 1709251200000 = ''2024-03-01T00:00:00.000Z''"
  by code_simp

lemma demo_clock_iso: "iso_dates demo_clock"
  by (simp add: iso_dates_def demo_clock_def demo_iso)

lemma demo_row:
  "normalize_api_row demo_clock demo_columns
      (JObj [(''id'', JStr ''-0''), (''at'', JStr ''2024-03-01T01:00:00+01:00'')]) =
    Inr [(''id'', JStr ''0''), (''at'', JStr ''2024-03-01T00:00:00.000Z''), (''note'', JStr ''-'')]"
proof -
  have "timestamp_input_ok ''2024-03-01T01:00:00+01:00''"
    by (simp add: timestamp_input_ok_def fraction_ok_def zone_ok_def is_digit_def)
  moreover have "timestamp_canonical_ok ''2024-03-01T00:00:00.000Z''"
    by (simp add: timestamp_canonical_ok_def is_digit_def)
  moreover have "int64_text_problem ''-0'' = None" "big_int ''-0'' = 0"
    by (simp_all add: int64_text_problem_def int64_pattern_def big_int_def parse_nat_def)
  moreover have "demo_clock ''2024-03-01T01:00:00+01:00'' = Some 1709251200000" by (simp add: demo_clock_def)
  ultimately show ?thesis
    by (simp add: normalize_api_row_def demo_columns_def resolve_cell_def normalize_declared_value_def demo_iso)
qed

lemma demo_distinct: "distinct (map dc_name demo_columns)"
  by (simp add: demo_columns_def)

theorem api_row_canonical_witness:
  "normalize_api_row demo_clock demo_columns
      (JObj [(''id'', JStr ''0''), (''at'', JStr ''2024-03-01T00:00:00.000Z''), (''note'', JStr ''-'')]) =
    Inr [(''id'', JStr ''0''), (''at'', JStr ''2024-03-01T00:00:00.000Z''), (''note'', JStr ''-'')]"
proof -
  have "\<forall>c \<in> set demo_columns. canonical_default_problem (\<lambda>_. []) demo_clock c = None"
    by (simp add: demo_columns_def canonical_default_problem_def normalize_declared_value_def
        same_canonical_value_def)
  from api_row_canonical [OF demo_clock_iso demo_distinct this demo_row] show ?thesis by blast
qed


theorem int64_exact_witness:
  "normalize_declared_value (\<lambda>_. None) (hd demo_columns) (JStr (show_int (- (2 ^ 63)))) =
    Inr (JStr (show_int (- (2 ^ 63))))"
proof -
  have "dc_type (hd demo_columns) = Ty_Int64" by (simp add: demo_columns_def)
  from int64_exact [OF this] show ?thesis by fastforce
qed

theorem bytes_exact_witness:
  "\<exists>w. normalize_declared_value (\<lambda>_. None) ((hd demo_columns)\<lparr>dc_type := Ty_Bytes\<rparr>)
     (JStr (bytes_prefix @ base64url [1, 255])) = Inr w"
proof -
  have "b64_decode (map b64_val (base64url [1, 255])) = [1, 255]"
    by (simp add: base64url_def b64_val_char)
  then show ?thesis
    using bytes_exact [of "(hd demo_columns)\<lparr>dc_type := Ty_Bytes\<rparr>" "\<lambda>_. None"] by (fastforce simp: byte_vals_def)
qed

end
