(* ===== verification/View_Query.thy ===== *)
theory View_Query
  imports Schema_Types
begin

text \<open>
  The restricted view queries of \<^verbatim>\<open>src/serialization/schemaJson.ts\<close>: the refused tokens, the
  scan for keywords outside quotes and parentheses, and the parser of
  \<^verbatim>\<open>SELECT <columns> FROM <dependency> ...\<close>.  The regular expressions are written out as
  functions on character lists.
\<close>

section \<open>Characters and words\<close>

definition lower_char :: "char \<Rightarrow> char" where
  "lower_char c = (if is_upper c then char_of ((of_char c :: nat) + 32) else c)"

definition lower_case :: "string \<Rightarrow> string" where
  "lower_case s = map lower_char s"

definition is_quote :: "char \<Rightarrow> bool" where
  "is_quote c \<longleftrightarrow> c = CHR 0x27 \<or> c = CHR 0x22"

text \<open>The maximal runs of word characters, between which the \<^verbatim>\<open>\b\<close> boundaries lie.\<close>

fun word_runs :: "string \<Rightarrow> string \<Rightarrow> string list" where
  "word_runs cur [] = (if cur = [] then [] else [cur])"
| "word_runs cur (c # s) =
     (if is_ident_char c then word_runs (cur @ [c]) s
      else if cur = [] then word_runs [] s else cur # word_runs [] s)"

definition has_word :: "string list \<Rightarrow> string \<Rightarrow> bool" where
  "has_word ws s \<longleftrightarrow> list_ex (\<lambda>w. lower_case w \<in> set ws) (word_runs [] s)"

definition forbidden_words :: "string list" where
  "forbidden_words =
     [''insert'', ''update'', ''delete'', ''create'', ''drop'', ''alter'', ''copy'', ''attach'',
      ''detach'', ''install'', ''load'', ''pragma'', ''export'', ''import'', ''call'', ''set'',
      ''begin'', ''commit'', ''rollback'', ''vacuum'', ''analyze'', ''truncate'', ''replace'',
      ''use'', ''describe'', ''summarize'', ''union'', ''intersect'', ''except'', ''join'',
      ''values'', ''table'', ''read_json'', ''read_json_auto'', ''read_csv'', ''read_csv_auto'',
      ''read_parquet'', ''read_text'', ''read_blob'', ''read_ndjson'', ''glob'', ''sqlite_scan'',
      ''postgres_scan'', ''mysql_scan'', ''parquet_scan'', ''csv_scan'', ''json_scan'',
      ''iceberg_scan'', ''delta_scan'', ''duckdb_scan'']"

fun has_parameter :: "string \<Rightarrow> bool" where
  "has_parameter (c # d # s) = ((c = CHR ''$'' \<and> is_digit d) \<or> has_parameter (d # s))"
| "has_parameter _ = False"

definition forbidden_view_tokens :: "string \<Rightarrow> bool" where
  "forbidden_view_tokens s \<longleftrightarrow>
     CHR '';'' \<in> set s \<or> CHR ''?'' \<in> set s \<or> str_includes ''--'' s \<or> str_includes ''/*'' s \<or>
     has_parameter s \<or> has_word forbidden_words s"

section \<open>Top-level scanning\<close>

fun split_top_level :: "char \<Rightarrow> int \<Rightarrow> char option \<Rightarrow> string \<Rightarrow> string \<Rightarrow> string list" where
  "split_top_level sep depth quote cur [] = [cur]"
| "split_top_level sep depth (Some q) cur (c # s) =
     split_top_level sep depth (if c = q then None else Some q) (cur @ [c]) s"
| "split_top_level sep depth None cur (c # s) =
     (if is_quote c then split_top_level sep depth (Some c) (cur @ [c]) s
      else let d = depth + (if c = CHR ''('' then 1 else 0) - (if c = CHR '')'' then 1 else 0)
        in if c = sep \<and> d = 0 then cur # split_top_level sep d None [] s
           else split_top_level sep d None (cur @ [c]) s)"

definition before_token :: "char \<Rightarrow> bool" where
  "before_token c \<longleftrightarrow> is_space c \<or> c = CHR '','' \<or> c = CHR ''('' \<or> c = CHR '')''"

definition after_token :: "char \<Rightarrow> bool" where
  "after_token c \<longleftrightarrow> is_space c \<or> c = CHR '','' \<or> c = CHR ''(''"

fun head_or :: "char \<Rightarrow> string \<Rightarrow> char" where
  "head_or d [] = d"
| "head_or d (c # s) = c"

fun top_level_index :: "string \<Rightarrow> int \<Rightarrow> char option \<Rightarrow> char \<Rightarrow> nat \<Rightarrow> string \<Rightarrow> nat option" where
  "top_level_index token depth quote prev i [] = None"
| "top_level_index token depth (Some q) prev i (c # s) =
     top_level_index token depth (if c = q then None else Some q) c (Suc i) s"
| "top_level_index token depth None prev i (c # s) =
     (if is_quote c then top_level_index token depth (Some c) c (Suc i) s
      else let d = depth + (if c = CHR ''('' then 1 else 0) - (if c = CHR '')'' then 1 else 0)
        in if d = 0 \<and> starts_with token (lower_case (c # s)) \<and> before_token prev \<and>
              after_token (head_or (CHR '' '') (drop (length token) (c # s)))
           then Some i
           else top_level_index token d None c (Suc i) s)"

abbreviation token_index :: "string \<Rightarrow> string \<Rightarrow> nat option" where
  "token_index s token \<equiv> top_level_index token 0 None (CHR '' '') 0 s"

section \<open>Projections\<close>

record view_projection =
  vp_name :: string
  vp_dependency :: string
  vp_column :: string

record parsed_view_query =
  pv_dependency :: string
  pv_projections :: "view_projection list"

datatype query_problem =
    Empty_Query | Forbidden_Tokens | Not_Select | Sub_Query | No_Dependency | No_Projection | Bad_From
  | Bad_Projection string | Duplicate_Exposed string | Foreign_Projection string

text \<open>\<^verbatim>\<open>/^(.+?)\s+as\s+(identifier)$/i\<close>: the shortest expression before an alias.\<close>

definition alias_tail :: "string \<Rightarrow> string option" where
  "alias_tail r =
     (let r1 = dropWhile is_space r; r2 = drop 2 r1; r3 = dropWhile is_space r2
      in if r1 \<noteq> r \<and> lower_case (take 2 r1) = ''as'' \<and> r3 \<noteq> r2 \<and> column_name_ok r3 then Some r3 else None)"

fun alias_split :: "string \<Rightarrow> string \<Rightarrow> (string \<times> string) option" where
  "alias_split pre [] = None"
| "alias_split pre (c # s) =
     (case (if pre = [] then None else alias_tail (c # s)) of
        Some a \<Rightarrow> Some (pre, a)
      | None \<Rightarrow> if c = newline \<or> c = CHR 0x0D then None else alias_split (pre @ [c]) s)"

definition parse_reference :: "string \<Rightarrow> (string option \<times> string) option" where
  "parse_reference e =
     (case split_on (CHR ''.'') e of
        [c] \<Rightarrow> if column_name_ok c then Some (None, c) else None
      | [d, c] \<Rightarrow> if column_name_ok d \<and> column_name_ok c then Some (Some d, c) else None
      | _ \<Rightarrow> None)"

definition parse_projection :: "string \<Rightarrow> string \<Rightarrow> query_problem + view_projection" where
  "parse_projection from projection =
     (let expr_alias = (case alias_split [] projection of
                          Some (e, a) \<Rightarrow> (trim e, Some a) | None \<Rightarrow> (projection, None))
      in case parse_reference (trim (fst expr_alias)) of
           None \<Rightarrow> Inl (Bad_Projection projection)
         | Some (d, c) \<Rightarrow>
             Inr \<lparr>vp_name = (case snd expr_alias of Some a \<Rightarrow> a | None \<Rightarrow> c),
                  vp_dependency = (case d of Some x \<Rightarrow> x | None \<Rightarrow> from), vp_column = c\<rparr>)"

fun collect_projections ::
  "string \<Rightarrow> string list \<Rightarrow> view_projection list \<Rightarrow> query_problem list \<Rightarrow> view_projection list \<times> query_problem list" where
  "collect_projections from [] ps bad = (ps, bad)"
| "collect_projections from (raw # rest) ps bad =
     (let projection = trim raw
      in if projection = [] then collect_projections from rest ps bad
         else case parse_projection from projection of
             Inl p \<Rightarrow> collect_projections from rest ps (bad @ [p])
           | Inr v \<Rightarrow>
               if vp_name v \<in> vp_name ` set ps
               then collect_projections from rest ps (bad @ [Duplicate_Exposed (vp_name v)])
               else collect_projections from rest (ps @ [v]) bad)"

definition clause_tokens :: "string list" where
  "clause_tokens = [''where'', ''order'', ''limit'', ''group'', ''having'', ''offset'']"

definition first_index :: "nat list \<Rightarrow> nat option" where
  "first_index is = (case is of [] \<Rightarrow> None | i # rest \<Rightarrow> Some (foldl min i rest))"

definition parse_view_query :: "string \<Rightarrow> query_problem list \<times> parsed_view_query option" where
  "parse_view_query query =
     (let text = trim query in
      if text = [] then ([Empty_Query], None)
      else if forbidden_view_tokens text then ([Forbidden_Tokens], None)
      else if \<not> (lower_case (take 6 text) = ''select'' \<and> (drop 6 text = [] \<or> \<not> is_ident_char (hd (drop 6 text))))
        then ([Not_Select], None)
      else if has_word [''select''] (drop 6 text) then ([Sub_Query], None)
      else case token_index text ''from'' of
          None \<Rightarrow> ([No_Dependency], None)
        | Some n \<Rightarrow>
            (let projection_text = trim (drop 6 (take n text));
                 rest = drop (n + 4) text;
                 from_text = trim (case first_index (List.map_filter (token_index rest) clause_tokens) of
                                     None \<Rightarrow> rest | Some e \<Rightarrow> take e rest)
             in if projection_text = [] then ([No_Projection], None)
                else if \<not> column_name_ok from_text then ([Bad_From], None)
                else (case collect_projections from_text
                             (split_top_level (CHR '','') 0 None [] projection_text) [] [] of
                        (ps, bad) \<Rightarrow>
                          if ps = [] \<or> bad \<noteq> [] then (bad, None)
                          else (map (\<lambda>p. Foreign_Projection (vp_dependency p))
                                  (filter (\<lambda>p. vp_dependency p \<noteq> from_text) ps),
                                Some \<lparr>pv_dependency = from_text, pv_projections = ps\<rparr>))))"

section \<open>Identifiers of a query\<close>

text \<open>\<^verbatim>\<open>query.replace(/'[^']*'/g, "''")\<close>: a quote without a partner stays.\<close>

fun strip_quoted :: "string \<Rightarrow> string \<Rightarrow> string" where
  "strip_quoted pending [] = pending"
| "strip_quoted pending (c # s) =
     (if pending = []
      then (if c = CHR 0x27 then strip_quoted [c] s else c # strip_quoted [] s)
      else if c = CHR 0x27 then CHR 0x27 # CHR 0x27 # strip_quoted [] s
      else strip_quoted (pending @ [c]) s)"

fun identifier_tokens :: "string \<Rightarrow> string \<Rightarrow> string list" where
  "identifier_tokens cur [] = (if cur = [] then [] else [cur])"
| "identifier_tokens cur (c # s) =
     (if cur = []
      then (if is_ident_start c then identifier_tokens [c] s else identifier_tokens [] s)
      else if is_ident_char c then identifier_tokens (cur @ [c]) s
      else cur # identifier_tokens [] s)"

definition query_keywords :: "string list" where
  "query_keywords =
     [''select'', ''from'', ''where'', ''order'', ''by'', ''asc'', ''desc'', ''limit'', ''offset'',
      ''and'', ''or'', ''not'', ''null'', ''is'', ''true'', ''false'', ''as'', ''in'', ''between'',
      ''like'', ''group'', ''having'', ''case'', ''when'', ''then'', ''else'', ''end'', ''cast'',
      ''integer'', ''varchar'']"

definition referenced_identifiers :: "string \<Rightarrow> string list" where
  "referenced_identifiers query =
     filter (\<lambda>t. lower_case t \<notin> set query_keywords) (identifier_tokens [] (strip_quoted [] query))"

end
