(* ===== verification/Schema_Json.thy ===== *)
theory Schema_Json
  imports View_Query Row_Policy
begin

text \<open>
  The \<^verbatim>\<open>schema.json\<close> document of \<^verbatim>\<open>src/serialization/schemaJson.ts\<close>: the closed-world structure,
  every semantic rule with its problem, view resolution, cycle detection and the canonical text.
  A problem is a constructor with the names its message carries; tables and views are
  insertion-ordered objects.
\<close>

section \<open>Documents\<close>

record schema_table =
  st_version :: jsnum
  st_path :: string
  st_shape :: string
  st_keys :: "string list"
  st_columns :: "declared_column list"
  st_policy :: "table_policy option"

record schema_view =
  sv_version :: jsnum
  sv_depends :: "string list"
  sv_query :: string

record schema_document =
  sd_tables :: "(string \<times> schema_table) list"
  sd_views :: "(string \<times> schema_view) list"

datatype schema_problem =
    Structural
  | Bad_Name string string | Reserved_Name string string
  | Bad_Version string | Bad_Path string | Bad_Shape string
  | No_Columns string | Bad_Column_Name string string | Duplicate_Column string string
  | Unsupported_Column_Type string string | Bad_Default string string default_problem
  | No_Keys string | Duplicate_Key string string | Undeclared_Key string string
  | Key_Problem string string key_problem
  | Duplicate_Path string string
  | Reference_Table string string | Reference_Column string string | Reference_Not_Key string string
  | Reference_Type string string
  | No_Dependencies string | Duplicate_Dependency string string | Self_Dependency string
  | Unknown_Dependency string string
  | View_Query string query_problem
  | Unlisted_Dependency string string | Unknown_Projection string string | Unknown_Identifier string string
  | View_Cycle "string list"

section \<open>Structure\<close>

text \<open>A strict object: only the allowed fields, and the decoder of each.\<close>

definition strict_object :: "string list \<Rightarrow> json \<Rightarrow> (string \<times> json) list option" where
  "strict_object allowed v =
     (case v of JObj ps \<Rightarrow> if list_all (\<lambda>p. fst p \<in> set allowed) ps then Some ps else None | _ \<Rightarrow> None)"

fun as_string :: "json \<Rightarrow> string option" where
  "as_string (JStr s) = Some s"
| "as_string _ = None"

fun as_number :: "json \<Rightarrow> jsnum option" where
  "as_number (JNum x) = (if is_finite x then Some x else None)"
| "as_number _ = None"

fun as_bool :: "json \<Rightarrow> bool option" where
  "as_bool (JBool b) = Some b"
| "as_bool _ = None"

fun option_map_all :: "('a \<Rightarrow> 'b option) \<Rightarrow> 'a list \<Rightarrow> 'b list option" where
  "option_map_all f [] = Some []"
| "option_map_all f (x # xs) =
     Option.bind (f x) (\<lambda>y. Option.bind (option_map_all f xs) (\<lambda>ys. Some (y # ys)))"

definition as_array :: "(json \<Rightarrow> 'a option) \<Rightarrow> json \<Rightarrow> 'a list option" where
  "as_array f v = (case v of JArr xs \<Rightarrow> option_map_all f xs | _ \<Rightarrow> None)"

definition as_dictionary :: "(json \<Rightarrow> 'a option) \<Rightarrow> json \<Rightarrow> (string \<times> 'a) list option" where
  "as_dictionary f v =
     (case v of
        JObj ps \<Rightarrow> option_map_all (\<lambda>p. Option.bind (f (snd p)) (\<lambda>y. Some (fst p, y))) ps
      | _ \<Rightarrow> None)"

definition required :: "(json \<Rightarrow> 'a option) \<Rightarrow> json option \<Rightarrow> 'a option" where
  "required f v = Option.bind v f"

definition optional :: "(json \<Rightarrow> 'a option) \<Rightarrow> json option \<Rightarrow> 'a option option" where
  "optional f v = (case v of None \<Rightarrow> Some None | Some x \<Rightarrow> Option.bind (f x) (\<lambda>y. Some (Some y)))"

definition nonempty :: "json \<Rightarrow> string option" where
  "nonempty v = Option.bind (as_string v) (\<lambda>s. if s = [] then None else Some s)"

definition parse_column_reference :: "json \<Rightarrow> column_reference option" where
  "parse_column_reference v =
     Option.bind (strict_object [''table'', ''column''] v) (\<lambda>ps.
     Option.bind (required as_string (map_of ps ''table'')) (\<lambda>t.
     Option.bind (required as_string (map_of ps ''column'')) (\<lambda>c.
       Some \<lparr>rf_table = t, rf_column = c\<rparr>)))"

definition parse_column :: "json \<Rightarrow> declared_column option" where
  "parse_column v =
     Option.bind (strict_object [''name'', ''type'', ''nullable'', ''default'', ''references''] v) (\<lambda>ps.
     Option.bind (required as_string (map_of ps ''name'')) (\<lambda>n.
     Option.bind (required as_string (map_of ps ''type'')) (\<lambda>t.
     Option.bind (required as_bool (map_of ps ''nullable'')) (\<lambda>b.
     Option.bind (optional parse_column_reference (map_of ps ''references'')) (\<lambda>r.
       Some \<lparr>dc_name = n, dc_type = type_of_text t, dc_nullable = b, dc_default = map_of ps ''default'',
             dc_references = r\<rparr>)))))"

definition parse_policy_rule :: "json \<Rightarrow> row_policy_rule option" where
  "parse_policy_rule v =
     Option.bind (strict_object [''column'', ''equals''] v) (\<lambda>ps.
     Option.bind (required nonempty (map_of ps ''column'')) (\<lambda>c.
     Option.bind (required nonempty (map_of ps ''equals'')) (\<lambda>e.
       Some \<lparr>rule_column = c, rule_equals = e\<rparr>)))"

definition parse_policy :: "json \<Rightarrow> table_policy option" where
  "parse_policy v =
     Option.bind (strict_object [''read'', ''write''] v) (\<lambda>ps.
     Option.bind (optional parse_policy_rule (map_of ps ''read'')) (\<lambda>r.
     Option.bind (optional parse_policy_rule (map_of ps ''write'')) (\<lambda>w.
       Some \<lparr>tp_read = r, tp_write = w\<rparr>)))"

definition parse_storage :: "json \<Rightarrow> string option" where
  "parse_storage v =
     Option.bind (strict_object [''path''] v) (\<lambda>ps. required as_string (map_of ps ''path''))"

definition parse_table :: "json \<Rightarrow> schema_table option" where
  "parse_table v =
     Option.bind (strict_object [''schemaVersion'', ''storage'', ''rowShape'', ''keyColumns'', ''columns'', ''policy''] v)
       (\<lambda>ps.
     Option.bind (required as_number (map_of ps ''schemaVersion'')) (\<lambda>n.
     Option.bind (required parse_storage (map_of ps ''storage'')) (\<lambda>path.
     Option.bind (required as_string (map_of ps ''rowShape'')) (\<lambda>shape.
     Option.bind (required (as_array as_string) (map_of ps ''keyColumns'')) (\<lambda>keys.
     Option.bind (required (as_array parse_column) (map_of ps ''columns'')) (\<lambda>cols.
     Option.bind (optional parse_policy (map_of ps ''policy'')) (\<lambda>policy.
       Some \<lparr>st_version = n, st_path = path, st_shape = shape, st_keys = keys, st_columns = cols,
             st_policy = policy\<rparr>)))))))"

definition parse_view :: "json \<Rightarrow> schema_view option" where
  "parse_view v =
     Option.bind (strict_object [''schemaVersion'', ''dependsOn'', ''query''] v) (\<lambda>ps.
     Option.bind (required as_number (map_of ps ''schemaVersion'')) (\<lambda>n.
     Option.bind (required (as_array as_string) (map_of ps ''dependsOn'')) (\<lambda>ds.
     Option.bind (required as_string (map_of ps ''query'')) (\<lambda>q.
       Some \<lparr>sv_version = n, sv_depends = ds, sv_query = q\<rparr>))))"

definition default_empty :: "'a list option option \<Rightarrow> 'a list option" where
  "default_empty v = Option.bind v (\<lambda>x. Some (case x of None \<Rightarrow> [] | Some xs \<Rightarrow> xs))"

definition parse_document :: "json \<Rightarrow> schema_document option" where
  "parse_document v =
     Option.bind (strict_object [''schemaVersion'', ''tables'', ''views''] v) (\<lambda>ps.
     if map_of ps ''schemaVersion'' \<noteq> Some (JNum (Fin 1)) then None
     else Option.bind (default_empty (optional (as_dictionary parse_table) (map_of ps ''tables''))) (\<lambda>ts.
     Option.bind (default_empty (optional (as_dictionary parse_view) (map_of ps ''views''))) (\<lambda>vs.
       Some \<lparr>sd_tables = ts, sd_views = vs\<rparr>)))"

section \<open>Tables\<close>

definition drive_prefix :: "string \<Rightarrow> bool" where
  "drive_prefix s \<longleftrightarrow> (case s of c # d # _ \<Rightarrow> (is_lower c \<or> is_upper c) \<and> d = CHR '':'' | _ \<Rightarrow> False)"

definition storage_path_ok :: "string \<Rightarrow> bool" where
  "storage_path_ok s \<longleftrightarrow>
     s \<noteq> [] \<and> \<not> starts_with ''/'' s \<and> \<not> drive_prefix s \<and> CHR 0x5C \<notin> set s \<and> ends_with ''.jsonl'' s \<and>
     list_all (\<lambda>seg. seg \<noteq> [] \<and> seg \<noteq> ''.'' \<and> seg \<noteq> ''..'') (split_on (CHR ''/'') s)"

text \<open>The partition a storage path \<^verbatim>\<open><domain>/<YYYY-MM>/<file>.jsonl\<close> belongs to (\<^verbatim>\<open>ddl.ts\<close>).\<close>

definition partition_for_storage_path :: "string \<Rightarrow> string option" where
  "partition_for_storage_path path =
     (case filter (\<lambda>s. s \<noteq> []) (split_on (CHR ''/'') path) of
        [domain, part, file] \<Rightarrow>
          if list_all (\<lambda>c. is_lower c \<or> is_digit c \<or> c = CHR ''_'' \<or> c = CHR ''-'') domain \<and>
             match_fixed (four_digits @ this_char (CHR ''-'') @ two_digits) part = Some [] \<and> ends_with ''.jsonl'' file
          then Some (domain @ ''/'' @ part @ ''/'') else None
      | _ \<Rightarrow> None)"

definition resource_name_problems :: "string \<Rightarrow> string \<Rightarrow> schema_problem list" where
  "resource_name_problems kind name =
     (if \<not> resource_name_ok name then [Bad_Name kind name]
      else if is_reserved_resource_name name then [Reserved_Name kind name] else [])"

fun column_problems ::
  "(rat \<Rightarrow> string) \<Rightarrow> (string \<Rightarrow> int option) \<Rightarrow> string \<Rightarrow> string list \<Rightarrow> declared_column list \<Rightarrow> schema_problem list" where
  "column_problems fmt dp t seen [] = []"
| "column_problems fmt dp t seen (c # cs) =
     (if \<not> column_name_ok (dc_name c)
      then Bad_Column_Name t (dc_name c) # column_problems fmt dp t seen cs
      else if dc_name c \<in> set seen
      then Duplicate_Column t (dc_name c) # column_problems fmt dp t seen cs
      else (if \<not> is_declared_column_type (dc_type c) then [Unsupported_Column_Type t (dc_name c)]
            else (case canonical_default_problem fmt dp c of
                    Some p \<Rightarrow> [Bad_Default t (dc_name c) p] | None \<Rightarrow> []))
           @ column_problems fmt dp t (dc_name c # seen) cs)"

definition validate_columns ::
  "(rat \<Rightarrow> string) \<Rightarrow> (string \<Rightarrow> int option) \<Rightarrow> string \<Rightarrow> declared_column list \<Rightarrow> schema_problem list" where
  "validate_columns fmt dp t cs = (if cs = [] then [No_Columns t] else column_problems fmt dp t [] cs)"

definition find_column :: "declared_column list \<Rightarrow> string \<Rightarrow> declared_column option" where
  "find_column cs name = List.find (\<lambda>c. dc_name c = name) cs"

fun key_problems :: "string \<Rightarrow> declared_column list \<Rightarrow> string list \<Rightarrow> string list \<Rightarrow> schema_problem list" where
  "key_problems t cs seen [] = []"
| "key_problems t cs seen (k # ks) =
     (if k \<in> set seen then Duplicate_Key t k # key_problems t cs seen ks
      else (case find_column cs k of
              None \<Rightarrow> [Undeclared_Key t k]
            | Some c \<Rightarrow> (case key_column_problem c of Some p \<Rightarrow> [Key_Problem t k p] | None \<Rightarrow> []))
           @ key_problems t cs (k # seen) ks)"

fun positive_integer :: "jsnum \<Rightarrow> bool" where
  "positive_integer (Fin q) = (is_integer (Fin q) \<and> 1 \<le> q)"
| "positive_integer _ = False"

definition validate_table ::
  "(rat \<Rightarrow> string) \<Rightarrow> (string \<Rightarrow> int option) \<Rightarrow> string \<Rightarrow> schema_table \<Rightarrow> schema_problem list" where
  "validate_table fmt dp name t =
     resource_name_problems ''table'' name @
     (if positive_integer (st_version t) then [] else [Bad_Version name]) @
     (if storage_path_ok (st_path t) then [] else [Bad_Path name]) @
     (if st_shape t \<in> shape_text ` {Object_Rows, Positional_Rows} then [] else [Bad_Shape name]) @
     validate_columns fmt dp name (st_columns t) @
     (if st_keys t = [] then [No_Keys name] else []) @
     key_problems name (st_columns t) [] (st_keys t)"

text \<open>Storage paths are owned by the first table that declares them.\<close>

fun path_problems :: "(string \<times> string) list \<Rightarrow> (string \<times> schema_table) list \<Rightarrow> schema_problem list" where
  "path_problems owners [] = []"
| "path_problems owners ((name, t) # ts) =
     (if \<not> storage_path_ok (st_path t) then path_problems owners ts
      else case map_of owners (st_path t) of
          Some owner \<Rightarrow> Duplicate_Path name owner # path_problems owners ts
        | None \<Rightarrow> path_problems ((st_path t, name) # owners) ts)"

definition reference_problems ::
  "schema_document \<Rightarrow> string \<Rightarrow> declared_column \<Rightarrow> schema_problem list" where
  "reference_problems doc name c =
     (case dc_references c of
        None \<Rightarrow> []
      | Some r \<Rightarrow>
          (case map_of (sd_tables doc) (rf_table r) of
             None \<Rightarrow> [Reference_Table name (dc_name c)]
           | Some target \<Rightarrow>
               (case find_column (st_columns target) (rf_column r) of
                  None \<Rightarrow> [Reference_Column name (dc_name c)]
                | Some tc \<Rightarrow>
                    if st_keys target \<noteq> [rf_column r] then [Reference_Not_Key name (dc_name c)]
                    else if dc_type tc \<noteq> dc_type c then [Reference_Type name (dc_name c)] else [])))"

definition validate_references :: "schema_document \<Rightarrow> schema_problem list" where
  "validate_references doc =
     concat (map (\<lambda>(name, t). concat (map (reference_problems doc name) (st_columns t))) (sd_tables doc))"

section \<open>Views\<close>

definition column_types :: "declared_column list \<Rightarrow> (string \<times> declared_type) list" where
  "column_types cs = rev (map (\<lambda>c. (dc_name c, dc_type c)) cs)"

definition project_columns ::
  "(string \<times> declared_type) list \<Rightarrow> view_projection list \<Rightarrow> declared_column list" where
  "project_columns types ps =
     (if list_ex (\<lambda>p. map_of types (vp_column p) = None \<or> map_of types (vp_column p) = Some (Ty_Other [])) ps
      then []
      else map (\<lambda>p. \<lparr>dc_name = vp_name p, dc_type = the (map_of types (vp_column p)), dc_nullable = True,
                     dc_default = None, dc_references = None\<rparr>) ps)"

text \<open>Exposed columns, resolved through the dependencies; \<open>seen\<close> holds the views being resolved.\<close>

function view_exposed_columns :: "schema_document \<Rightarrow> string \<Rightarrow> string list \<Rightarrow> declared_column list" where
  "view_exposed_columns doc view seen =
     (if view \<in> set seen then []
      else case map_of (sd_views doc) view of
          None \<Rightarrow> []
        | Some v \<Rightarrow>
            (case snd (parse_view_query (sv_query v)) of
               None \<Rightarrow> []
             | Some q \<Rightarrow>
                 (case map_of (sd_tables doc) (pv_dependency q) of
                    Some t \<Rightarrow> project_columns (column_types (st_columns t)) (pv_projections q)
                  | None \<Rightarrow>
                      if map_of (sd_views doc) (pv_dependency q) = None then []
                      else project_columns
                             (column_types (view_exposed_columns doc (pv_dependency q) (view # seen)))
                             (pv_projections q))))"
  by pat_completeness auto

termination
proof (relation "measure (\<lambda>(doc, view, seen). card (set (map fst (sd_views doc)) - set seen))", goal_cases)
  case (2 doc view seen v q)
  have "view \<in> set (map fst (sd_views doc))" using map_of_SomeD [OF 2(2)] by force
  then have "set (map fst (sd_views doc)) - set (view # seen) \<subset> set (map fst (sd_views doc)) - set seen"
    using 2(1) by auto
  then show ?case by (simp add: psubset_card_mono del: set_map)
qed simp

declare view_exposed_columns.simps [simp del]

definition exposed_types ::
  "schema_document \<Rightarrow> string \<Rightarrow> string list \<Rightarrow> (string \<times> declared_type) list option" where
  "exposed_types doc dependency seen =
     (case map_of (sd_tables doc) dependency of
        Some t \<Rightarrow> Some (column_types (st_columns t))
      | None \<Rightarrow>
          if map_of (sd_views doc) dependency = None then None
          else Some (column_types (view_exposed_columns doc dependency seen)))"

definition is_resource :: "schema_document \<Rightarrow> string \<Rightarrow> bool" where
  "is_resource doc d \<longleftrightarrow> map_of (sd_tables doc) d \<noteq> None \<or> map_of (sd_views doc) d \<noteq> None"

fun dependency_problems :: "schema_document \<Rightarrow> string \<Rightarrow> string list \<Rightarrow> string list \<Rightarrow> schema_problem list" where
  "dependency_problems doc name seen [] = []"
| "dependency_problems doc name seen (d # ds) =
     (if d \<in> set seen then Duplicate_Dependency name d # dependency_problems doc name seen ds
      else (if d = name then [Self_Dependency name]
            else if \<not> is_resource doc d then [Unknown_Dependency name d] else [])
           @ dependency_problems doc name (d # seen) ds)"

definition query_problems :: "schema_document \<Rightarrow> string \<Rightarrow> schema_view \<Rightarrow> parsed_view_query \<Rightarrow> schema_problem list" where
  "query_problems doc name v q =
     (if pv_dependency q \<in> set (sv_depends v) then [] else [Unlisted_Dependency name (pv_dependency q)]) @
     (case exposed_types doc (pv_dependency q) [name] of
        None \<Rightarrow> [Unknown_Dependency name (pv_dependency q)]
      | Some types \<Rightarrow>
          map (\<lambda>p. Unknown_Projection name (vp_column p))
            (filter (\<lambda>p. map_of types (vp_column p) = None) (pv_projections q)) @
          map (Unknown_Identifier name)
            (filter (\<lambda>t. map_of types t = None)
              (filter (\<lambda>t. t \<noteq> pv_dependency q \<and> t \<notin> vp_name ` set (pv_projections q))
                (nub (referenced_identifiers (sv_query v))))))"

definition validate_view :: "schema_document \<Rightarrow> string \<Rightarrow> schema_view \<Rightarrow> schema_problem list" where
  "validate_view doc name v =
     resource_name_problems ''view'' name @
     (if positive_integer (sv_version v) then [] else [Bad_Version name]) @
     (if sv_depends v = [] then [No_Dependencies name] else []) @
     dependency_problems doc name [] (sv_depends v) @
     map (View_Query name) (fst (parse_view_query (sv_query v))) @
     (case snd (parse_view_query (sv_query v)) of
        None \<Rightarrow> []
      | Some q \<Rightarrow> query_problems doc name v q)"

section \<open>Dependency cycles\<close>

datatype mark = Visiting | Done

definition view_deps :: "schema_document \<Rightarrow> string \<Rightarrow> string list" where
  "view_deps doc name =
     (case map_of (sd_views doc) name of
        None \<Rightarrow> []
      | Some v \<Rightarrow> filter (\<lambda>d. map_of (sd_views doc) d \<noteq> None) (sv_depends v))"

text \<open>
  The visits of \<open>validateViewCycles\<close>: \<open>names\<close> are the views still to visit at this level,
  \<open>path\<close> the views being visited above it; a view met while it is visited closes a cycle.
\<close>

function visit_views ::
  "schema_document \<Rightarrow> string list \<Rightarrow> string list \<Rightarrow> (string \<times> mark) list \<Rightarrow> string list list
     \<Rightarrow> (string \<times> mark) list \<times> string list list" where
  "visit_views doc path [] st cycles = (st, cycles)"
| "visit_views doc path (n # ns) st cycles =
     (case map_of st n of
        Some Done \<Rightarrow> visit_views doc path ns st cycles
      | Some Visiting \<Rightarrow>
          visit_views doc path ns st (cycles @ [dropWhile (\<lambda>p. p \<noteq> n) path @ [n]])
      | None \<Rightarrow>
          (case visit_views doc (path @ [n]) (view_deps doc n) ((n, Visiting) # st) cycles of
             (st', cycles') \<Rightarrow> visit_views doc path ns ((n, Done) # st') cycles'))"
  by pat_completeness auto

definition unmarked :: "schema_document \<Rightarrow> string list \<Rightarrow> (string \<times> mark) list \<Rightarrow> string set" where
  "unmarked doc ns st = (fst ` set (sd_views doc) \<union> set ns) - fst ` set st"

lemma finite_unmarked [simp]: "finite (unmarked doc ns st)"
  by (simp add: unmarked_def)

lemma view_deps_views: "set (view_deps doc n) \<subseteq> fst ` set (sd_views doc)"
  by (auto simp: view_deps_def map_of_eq_None_iff split: option.splits)

lemma visit_keys_grow:
  assumes "visit_views_dom (doc, path, ns, st, cycles)"
  shows "fst ` set st \<subseteq> fst ` set (fst (visit_views doc path ns st cycles))"
  using assms
proof (induction doc path ns st cycles rule: visit_views.pinduct)
  case (2 doc path n ns st cycles)
  show ?case
  proof (cases "map_of st n")
    case None
    obtain st' cycles' where r: "visit_views doc (path @ [n]) (view_deps doc n) ((n, Visiting) # st) cycles = (st', cycles')"
      by (cases "visit_views doc (path @ [n]) (view_deps doc n) ((n, Visiting) # st) cycles")
    have "fst ` set st \<subseteq> fst ` set st'" using 2(2) [OF None] r by auto
    moreover have "fst ` set ((n, Done) # st') \<subseteq> fst ` set (fst (visit_views doc path ns ((n, Done) # st') cycles'))"
      using 2(3) [OF None r [symmetric]] .
    ultimately show ?thesis using None r 2(1) by (simp add: visit_views.psimps) blast
  next
    case (Some m)
    then show ?thesis using 2 by (cases m) (simp_all add: visit_views.psimps)
  qed
qed (simp add: visit_views.psimps)

termination visit_views
proof (relation "inv_image (less_than <*lex*> less_than)
    (\<lambda>(doc, path, ns, st, cycles). (card (unmarked doc ns st), length ns))", goal_cases)
  case 1
  then show ?case by (simp add: wf_lex_prod)
next
  case (2 doc path n ns st cycles)
  have "unmarked doc (view_deps doc n) ((n, Visiting) # st) \<subseteq> unmarked doc (n # ns) st - {n}"
    using view_deps_views [of doc n] by (auto simp: unmarked_def)
  moreover have "n \<in> unmarked doc (n # ns) st" using 2 by (simp add: unmarked_def map_of_eq_None_iff)
  ultimately have "unmarked doc (view_deps doc n) ((n, Visiting) # st) \<subset> unmarked doc (n # ns) st" by blast
  then show ?case by (simp add: psubset_card_mono)
next
  case (3 doc path n ns st cycles st' cycles')
  have "fst ` set ((n, Visiting) # st) \<subseteq> fst ` set st'"
    using visit_keys_grow [OF 3(3)] 3(2) by (metis fst_conv)
  then have "unmarked doc ns ((n, Done) # st') \<subseteq> unmarked doc (n # ns) st" by (auto simp: unmarked_def)
  then have "card (unmarked doc ns ((n, Done) # st')) \<le> card (unmarked doc (n # ns) st)" by (simp add: card_mono)
  then show ?case by auto
next
  case (4 doc path n ns st cycles m)
  have "unmarked doc ns st \<subseteq> unmarked doc (n # ns) st" by (auto simp: unmarked_def)
  then have "card (unmarked doc ns st) \<le> card (unmarked doc (n # ns) st)" by (simp add: card_mono)
  then show ?case by auto
next
  case (5 doc path n ns st cycles m)
  have "unmarked doc ns st \<subseteq> unmarked doc (n # ns) st" by (auto simp: unmarked_def)
  then have "card (unmarked doc ns st) \<le> card (unmarked doc (n # ns) st)" by (simp add: card_mono)
  then show ?case by auto
qed

declare visit_views.simps [simp del]
lemmas visit_views_Nil [simp] = visit_views.simps(1)
lemmas visit_views_Cons = visit_views.simps(2)

definition validate_view_cycles :: "schema_document \<Rightarrow> schema_problem list" where
  "validate_view_cycles doc = map View_Cycle (snd (visit_views doc [] (map fst (sd_views doc)) [] []))"

section \<open>All problems\<close>

definition document_problems ::
  "(rat \<Rightarrow> string) \<Rightarrow> (string \<Rightarrow> int option) \<Rightarrow> schema_document \<Rightarrow> schema_problem list" where
  "document_problems fmt dp doc =
     concat (map (\<lambda>(name, t). validate_table fmt dp name t) (sd_tables doc)) @
     path_problems [] (sd_tables doc) @
     validate_references doc @
     concat (map (\<lambda>(name, v). validate_view doc name v) (sd_views doc)) @
     validate_view_cycles doc"

definition schema_document_problems ::
  "(rat \<Rightarrow> string) \<Rightarrow> (string \<Rightarrow> int option) \<Rightarrow> json \<Rightarrow> schema_problem list" where
  "schema_document_problems fmt dp raw =
     (case parse_document raw of None \<Rightarrow> [Structural] | Some doc \<Rightarrow> document_problems fmt dp doc)"

section \<open>Canonical text\<close>

definition canonical_column :: "declared_column \<Rightarrow> json" where
  "canonical_column c =
     JObj ([(''name'', JStr (dc_name c)), (''type'', JStr (type_text (dc_type c))), (''nullable'', JBool (dc_nullable c))] @
       (case dc_default c of None \<Rightarrow> [] | Some d \<Rightarrow> [(''default'', d)]) @
       (case dc_references c of
          None \<Rightarrow> []
        | Some r \<Rightarrow> [(''references'', JObj [(''table'', JStr (rf_table r)), (''column'', JStr (rf_column r))])]))"

definition table_json :: "schema_table \<Rightarrow> json" where
  "table_json t =
     JObj [(''schemaVersion'', JNum (st_version t)), (''storage'', JObj [(''path'', JStr (st_path t))]),
           (''rowShape'', JStr (st_shape t)), (''keyColumns'', JArr (map JStr (st_keys t))),
           (''columns'', JArr (map canonical_column (st_columns t)))]"

definition view_json :: "schema_view \<Rightarrow> json" where
  "view_json v =
     JObj [(''schemaVersion'', JNum (sv_version v)), (''dependsOn'', JArr (map JStr (sv_depends v))),
           (''query'', JStr (sv_query v))]"

definition document_json :: "schema_document \<Rightarrow> json" where
  "document_json doc =
     JObj [(''schemaVersion'', JNum (Fin 1)),
           (''tables'', JObj (map (\<lambda>(n, t). (n, table_json t)) (sort_key fst (sd_tables doc)))),
           (''views'', JObj (map (\<lambda>(n, v). (n, view_json v)) (sort_key fst (sd_views doc))))]"

definition format_schema_document :: "(rat \<Rightarrow> string) \<Rightarrow> schema_document \<Rightarrow> string" where
  "format_schema_document fmt doc = json_pretty fmt 0 (document_json doc) @ [newline]"

definition empty_schema_document :: schema_document where
  "empty_schema_document = \<lparr>sd_tables = [], sd_views = []\<rparr>"

definition canonical_table_text :: "(rat \<Rightarrow> string) \<Rightarrow> schema_table \<Rightarrow> string" where
  "canonical_table_text fmt t = format_schema_document fmt \<lparr>sd_tables = [(''t'', t)], sd_views = []\<rparr>"

definition same_canonical_table :: "(rat \<Rightarrow> string) \<Rightarrow> schema_table \<Rightarrow> schema_table \<Rightarrow> bool" where
  "same_canonical_table fmt l r \<longleftrightarrow> canonical_table_text fmt l = canonical_table_text fmt r"

end
