(* ===== verification/Schema_Valid.thy ===== *)
theory Schema_Valid
  imports Schema_Json
begin

text \<open>
  What a valid \<^verbatim>\<open>schema.json\<close> document is: the list of problems is empty exactly when the tables
  are well-formed, the references point at single keys of the same type, the views resolve and
  their dependencies have no cycle; and what reading back the canonical text preserves.
\<close>

section \<open>Correctness of the cycle search\<close>

definition view_edges :: "schema_document \<Rightarrow> (string \<times> string) set" where
  "view_edges doc = {(a, b). b \<in> set (view_deps doc a)}"

definition edge :: "schema_document \<Rightarrow> string \<Rightarrow> string \<Rightarrow> bool" where
  "edge doc a b \<longleftrightarrow> (a, b) \<in> view_edges doc"

definition is_cycle :: "schema_document \<Rightarrow> string list \<Rightarrow> bool" where
  "is_cycle doc c \<longleftrightarrow> 2 \<le> length c \<and> hd c = last c \<and> successively (edge doc) c"

text \<open>The path is a chain of dependencies that leads to every name still to visit.\<close>

definition chain_to :: "schema_document \<Rightarrow> string list \<Rightarrow> string list \<Rightarrow> bool" where
  "chain_to doc path ns \<longleftrightarrow>
     successively (edge doc) path \<and> (path \<noteq> [] \<longrightarrow> (\<forall>n \<in> set ns. edge doc (last path) n))"

definition marked :: "mark \<Rightarrow> (string \<times> mark) list \<Rightarrow> string set" where
  "marked m st = {n. map_of st n = Some m}"

lemma marked_Cons: "marked m ((n, k) # st) = (if m = k then insert n (marked m st) else marked m st - {n})"
  by (auto simp: marked_def)

lemma chain_snoc: "chain_to doc path (n # ns) \<Longrightarrow> chain_to doc (path @ [n]) (view_deps doc n)"
  by (auto simp: chain_to_def successively_append_iff edge_def view_edges_def)

lemma chain_tail: "chain_to doc path (n # ns) \<Longrightarrow> chain_to doc path ns"
  by (auto simp: chain_to_def)

lemma close_chain:
  "d \<noteq> [] \<Longrightarrow> hd d = n \<Longrightarrow> successively (edge doc) d \<Longrightarrow> edge doc (last d) n \<Longrightarrow> is_cycle doc (d @ [n])"
  using successively_append_iff [of "edge doc" d "[n]"] by (cases d) (auto simp: is_cycle_def)

lemma closing_cycle:
  assumes "chain_to doc path (n # ns)" and "n \<in> set path"
  shows "is_cycle doc (dropWhile (\<lambda>p. p \<noteq> n) path @ [n])"
proof -
  let ?d = "dropWhile (\<lambda>p. p \<noteq> n) path"
  have ne: "?d \<noteq> []" using assms(2) by (auto simp: dropWhile_eq_Nil_conv)
  then have h: "hd ?d = n" using hd_dropWhile [OF ne] by blast
  have l: "last ?d = last path" using ne by (metis last_appendR takeWhile_dropWhile_id)
  have "successively (edge doc) ?d"
    using assms(1) unfolding chain_to_def by (metis successively_append_iff takeWhile_dropWhile_id)
  moreover have "edge doc (last path) n" using assms by (auto simp: chain_to_def)
  ultimately show ?thesis using close_chain [OF ne h] l by metis
qed

lemma visit_cycles_real:
  assumes "chain_to doc path ns" and "marked Visiting st \<subseteq> set path" and "\<forall>c \<in> set cycles. is_cycle doc c"
    and "visit_views doc path ns st cycles = (st', cycles')"
  shows "marked Visiting st' \<subseteq> set path \<and> (\<forall>c \<in> set cycles'. is_cycle doc c)"
  using assms
proof (induction doc path ns st cycles arbitrary: st' cycles' rule: visit_views.induct)
  case (2 doc path n ns st cycles)
  show ?case
  proof (cases "map_of st n")
    case None
    obtain s1 c1 where r: "visit_views doc (path @ [n]) (view_deps doc n) ((n, Visiting) # st) cycles = (s1, c1)"
      by (cases "visit_views doc (path @ [n]) (view_deps doc n) ((n, Visiting) # st) cycles")
    have "marked Visiting s1 \<subseteq> set (path @ [n]) \<and> (\<forall>c \<in> set c1. is_cycle doc c)"
      using 2(1) [OF None chain_snoc [OF 2(5)] _ 2(7) r] 2(6) by (auto simp: marked_Cons)
    then have "marked Visiting ((n, Done) # s1) \<subseteq> set path" "\<forall>c \<in> set c1. is_cycle doc c"
      by (auto simp: marked_Cons)
    then show ?thesis
      using 2(2) [OF None r [symmetric] chain_tail [OF 2(5)]] 2(8) None r by (simp add: visit_views_Cons)
  next
    case (Some m)
    show ?thesis
    proof (cases m)
      case Visiting
      then have "n \<in> set path" using Some 2(6) by (auto simp: marked_def)
      then have "is_cycle doc (dropWhile (\<lambda>p. p \<noteq> n) path @ [n])" by (rule closing_cycle [OF 2(5)])
      then have c: "\<forall>c \<in> set (cycles @ [dropWhile (\<lambda>p. p \<noteq> n) path @ [n]]). is_cycle doc c" using 2(7) by simp
      have "visit_views doc path ns st (cycles @ [dropWhile (\<lambda>p. p \<noteq> n) path @ [n]]) = (st', cycles')"
        using 2(8) Some Visiting by (simp add: visit_views_Cons)
      from 2(3) [OF Some Visiting chain_tail [OF 2(5)] 2(6) c this] show ?thesis .
    next
      case Done
      then show ?thesis using 2(4) [OF Some Done chain_tail [OF 2(5)] 2(6,7)] 2(8) Some
        by (simp add: visit_views_Cons)
    qed
  qed
qed simp

lemma visit_cycles_append:
  "visit_views doc path ns st cycles = (st', cycles') \<Longrightarrow> \<exists>more. cycles' = cycles @ more"
proof (induction doc path ns st cycles arbitrary: st' cycles' rule: visit_views.induct)
  case (2 doc path n ns st cycles)
  show ?case
  proof (cases "map_of st n")
    case None
    obtain s1 c1 where r: "visit_views doc (path @ [n]) (view_deps doc n) ((n, Visiting) # st) cycles = (s1, c1)"
      by (cases "visit_views doc (path @ [n]) (view_deps doc n) ((n, Visiting) # st) cycles")
    obtain m1 where m1: "c1 = cycles @ m1" using 2(1) [OF None r] by blast
    have "visit_views doc path ns ((n, Done) # s1) c1 = (st', cycles')"
      using 2(5) None r by (simp add: visit_views_Cons)
    then obtain m2 where "cycles' = c1 @ m2" using 2(2) [OF None r [symmetric]] by blast
    then show ?thesis using m1 by simp
  next
    case (Some m)
    show ?thesis
    proof (cases m)
      case Visiting
      then have "visit_views doc path ns st (cycles @ [dropWhile (\<lambda>p. p \<noteq> n) path @ [n]]) = (st', cycles')"
        using 2(5) Some by (simp add: visit_views_Cons)
      then show ?thesis using 2(3) [OF Some Visiting] by fastforce
    next
      case Done
      then have "visit_views doc path ns st cycles = (st', cycles')"
        using 2(5) Some by (simp add: visit_views_Cons)
      then show ?thesis using 2(4) [OF Some Done] by blast
    qed
  qed
qed simp

text \<open>Finished views are closed under dependency and on no cycle.\<close>

definition settled_views :: "schema_document \<Rightarrow> string set \<Rightarrow> bool" where
  "settled_views doc B \<longleftrightarrow> view_edges doc `` B \<subseteq> B \<and> (\<forall>b \<in> B. (b, b) \<notin> (view_edges doc)\<^sup>+)"

lemma closed_trancl: "(a, b) \<in> E\<^sup>* \<Longrightarrow> E `` B \<subseteq> B \<Longrightarrow> a \<in> B \<Longrightarrow> b \<in> B"
  by (induction rule: rtrancl_induct) auto

lemma settled_insert:
  assumes "settled_views doc B" and "set (view_deps doc n) \<subseteq> B" and "n \<notin> B"
  shows "settled_views doc (insert n B)"
proof -
  have "(n, n) \<notin> (view_edges doc)\<^sup>+"
  proof
    assume "(n, n) \<in> (view_edges doc)\<^sup>+"
    then obtain d where d: "(n, d) \<in> view_edges doc" "(d, n) \<in> (view_edges doc)\<^sup>*"
      by (meson tranclD)
    have "d \<in> B" using d(1) assms(2) by (auto simp: view_edges_def)
    moreover have "view_edges doc `` B \<subseteq> B" using assms(1) by (simp add: settled_views_def)
    ultimately have "n \<in> B" using closed_trancl [OF d(2)] by simp
    then show False using assms(3) by blast
  qed
  then show ?thesis using assms(1,2) by (auto simp: settled_views_def view_edges_def)
qed

lemma visit_settles:
  assumes "visit_views doc path ns st cycles = (st', cycles)" and "settled_views doc (marked Done st)"
  shows "settled_views doc (marked Done st') \<and> marked Done st \<subseteq> marked Done st' \<and>
    marked Visiting st' = marked Visiting st \<and> set ns \<subseteq> marked Done st'"
  using assms
proof (induction doc path ns st cycles arbitrary: st' rule: visit_views.induct)
  case (2 doc path n ns st cycles)
  show ?case
  proof (cases "map_of st n")
    case None
    obtain s1 c1 where r: "visit_views doc (path @ [n]) (view_deps doc n) ((n, Visiting) # st) cycles = (s1, c1)"
      by (cases "visit_views doc (path @ [n]) (view_deps doc n) ((n, Visiting) # st) cycles")
    have rest: "visit_views doc path ns ((n, Done) # s1) c1 = (st', cycles)"
      using 2(5) None r by (simp add: visit_views_Cons)
    have c1: "c1 = cycles"
      using visit_cycles_append [OF r] visit_cycles_append [OF rest] by auto
    have d: "marked Done ((n, Visiting) # st) = marked Done st" using None by (auto simp: marked_def)
    have a: "settled_views doc (marked Done s1)" "marked Done st \<subseteq> marked Done s1"
      "marked Visiting s1 = insert n (marked Visiting st)" "set (view_deps doc n) \<subseteq> marked Done s1"
      using 2(1) [OF None r [unfolded c1]] 2(6) unfolding d by (simp_all add: marked_Cons)
    have nd: "n \<notin> marked Done s1"
    proof -
      have "n \<in> marked Visiting s1" using a(3) by blast
      then show ?thesis by (simp add: marked_def)
    qed
    have "settled_views doc (marked Done ((n, Done) # s1))"
      using settled_insert [OF a(1,4) nd] by (simp add: marked_Cons)
    moreover have "n \<notin> marked Visiting st" using None by (simp add: marked_def)
    ultimately show ?thesis
      using 2(2) [OF None r [symmetric]] rest a unfolding c1 by (simp add: marked_Cons) blast
  next
    case (Some m)
    show ?thesis
    proof (cases m)
      case Visiting
      then have "visit_views doc path ns st (cycles @ [dropWhile (\<lambda>p. p \<noteq> n) path @ [n]]) = (st', cycles)"
        using 2(5) Some by (simp add: visit_views_Cons)
      from visit_cycles_append [OF this] show ?thesis by simp
    next
      case Done
      then show ?thesis using 2(4) [OF Some Done] 2(5,6) Some
        by (auto simp: visit_views_Cons marked_def)
    qed
  qed
qed simp

lemma successively_trancl:
  "successively (edge doc) (a # xs) \<Longrightarrow> xs \<noteq> [] \<Longrightarrow> (a, last xs) \<in> (view_edges doc)\<^sup>+"
proof (induction xs arbitrary: a)
  case (Cons b xs)
  then have ab: "(a, b) \<in> view_edges doc" by (simp add: edge_def)
  show ?case
  proof (cases "xs = []")
    case False
    then have "(b, last xs) \<in> (view_edges doc)\<^sup>+" using Cons by simp
    then show ?thesis using ab False by (simp add: trancl_into_trancl2)
  qed (use ab in simp)
qed simp

lemma cycle_trancl: "is_cycle doc c \<Longrightarrow> \<exists>a. (a, a) \<in> (view_edges doc)\<^sup>+"
proof -
  assume c: "is_cycle doc c"
  then obtain a xs where "c = a # xs" and "xs \<noteq> []" by (cases c; cases "tl c") (auto simp: is_cycle_def)
  then have "successively (edge doc) (a # xs)" "last xs = a" using c by (auto simp: is_cycle_def)
  then show ?thesis using successively_trancl \<open>xs \<noteq> []\<close> by blast
qed

lemma view_edges_names: "view_edges doc \<subseteq> fst ` set (sd_views doc) \<times> fst ` set (sd_views doc)"
proof -
  have "a \<in> fst ` set (sd_views doc)" if "b \<in> set (view_deps doc a)" for a b
  proof (cases "map_of (sd_views doc) a")
    case None
    then show ?thesis using that by (simp add: view_deps_def)
  next
    case (Some v)
    then show ?thesis using map_of_SomeD [OF Some] by force
  qed
  then show ?thesis using view_deps_views by (fastforce simp: view_edges_def)
qed

lemma cycles_exact:
  "(validate_view_cycles doc = [] \<longleftrightarrow> acyclic (view_edges doc)) \<and>
   (\<forall>p \<in> set (validate_view_cycles doc). \<exists>c. p = View_Cycle c \<and> is_cycle doc c)"
proof -
  obtain st cs where r: "visit_views doc [] (map fst (sd_views doc)) [] [] = (st, cs)"
    by (cases "visit_views doc [] (map fst (sd_views doc)) [] []")
  have real: "\<forall>c \<in> set cs. is_cycle doc c"
    using visit_cycles_real [OF _ _ _ r] by (simp add: chain_to_def marked_def)
  have "acyclic (view_edges doc)" if "cs = []"
  proof -
    have "settled_views doc (marked Done st)" "set (map fst (sd_views doc)) \<subseteq> marked Done st"
      using visit_settles [OF r [unfolded that]] by (simp_all add: settled_views_def marked_def)
    moreover have "a \<in> fst ` set (sd_views doc)" if "(a, a) \<in> (view_edges doc)\<^sup>+" for a
      using that view_edges_names by (metis (no_types, lifting) SigmaD1 subsetD tranclD)
    ultimately show ?thesis unfolding acyclic_def settled_views_def by fastforce
  qed
  moreover have "cs = []" if "acyclic (view_edges doc)"
    using real cycle_trancl that unfolding acyclic_def by (cases cs) auto
  ultimately show ?thesis using real r by (auto simp: validate_view_cycles_def)
qed

section \<open>Well-formed tables\<close>

definition column_wf :: "(rat \<Rightarrow> string) \<Rightarrow> (string \<Rightarrow> int option) \<Rightarrow> declared_column \<Rightarrow> bool" where
  "column_wf fmt dp c \<longleftrightarrow>
     column_name_ok (dc_name c) \<and> is_declared_column_type (dc_type c) \<and> canonical_default_problem fmt dp c = None"

definition table_wf :: "(rat \<Rightarrow> string) \<Rightarrow> (string \<Rightarrow> int option) \<Rightarrow> string \<Rightarrow> schema_table \<Rightarrow> bool" where
  "table_wf fmt dp name t \<longleftrightarrow>
     resource_name_ok name \<and> \<not> is_reserved_resource_name name \<and>
     positive_integer (st_version t) \<and> storage_path_ok (st_path t) \<and>
     st_shape t \<in> shape_text ` {Object_Rows, Positional_Rows} \<and>
     st_columns t \<noteq> [] \<and> distinct (map dc_name (st_columns t)) \<and> (\<forall>c \<in> set (st_columns t). column_wf fmt dp c) \<and>
     st_keys t \<noteq> [] \<and> distinct (st_keys t) \<and>
     (\<forall>k \<in> set (st_keys t). \<exists>c \<in> set (st_columns t). dc_name c = k \<and> key_column_problem c = None)"

lemma column_problems_Nil:
  "column_problems fmt dp t seen cs = [] \<longleftrightarrow>
    distinct (map dc_name cs) \<and> dc_name ` set cs \<inter> set seen = {} \<and> (\<forall>c \<in> set cs. column_wf fmt dp c)"
proof (induction cs arbitrary: seen)
  case (Cons c cs)
  show ?case
  proof (cases "column_name_ok (dc_name c) \<and> dc_name c \<notin> set seen \<and> column_wf fmt dp c")
    case True
    then have "column_problems fmt dp t seen (c # cs) = column_problems fmt dp t (dc_name c # seen) cs"
      by (simp add: column_wf_def)
    then show ?thesis using Cons [of "dc_name c # seen"] True by auto
  next
    case False
    then have "column_problems fmt dp t seen (c # cs) \<noteq> []"
      by (auto simp: column_wf_def split: option.splits)
    then show ?thesis using False by (auto simp: column_wf_def)
  qed
qed simp

lemma find_column_Some:
  assumes "distinct (map dc_name cs)"
  shows "find_column cs k = Some c \<longleftrightarrow> c \<in> set cs \<and> dc_name c = k"
proof
  assume "find_column cs k = Some c"
  then show "c \<in> set cs \<and> dc_name c = k" unfolding find_column_def by (rule find_Some_set)
next
  assume c: "c \<in> set cs \<and> dc_name c = k"
  then obtain d where d: "find_column cs k = Some d"
    unfolding find_column_def using find_None_all [of "\<lambda>c. dc_name c = k" cs] by (metis option.exhaust)
  then have "d \<in> set cs \<and> dc_name d = k" unfolding find_column_def by (rule find_Some_set)
  then have "d = c" using c assms by (metis distinct_map inj_on_contraD)
  then show "find_column cs k = Some c" using d by simp
qed

lemma key_problems_Nil:
  assumes "distinct (map dc_name cs)"
  shows "key_problems t cs seen ks = [] \<longleftrightarrow>
    distinct ks \<and> set ks \<inter> set seen = {} \<and>
    (\<forall>k \<in> set ks. \<exists>c \<in> set cs. dc_name c = k \<and> key_column_problem c = None)"
proof (induction ks arbitrary: seen)
  case (Cons k ks)
  have "(case find_column cs k of None \<Rightarrow> [Undeclared_Key t k]
        | Some c \<Rightarrow> (case key_column_problem c of Some p \<Rightarrow> [Key_Problem t k p] | None \<Rightarrow> [])) = [] \<longleftrightarrow>
      (\<exists>c \<in> set cs. dc_name c = k \<and> key_column_problem c = None)"
  proof (cases "find_column cs k")
    case None
    then have "\<forall>c \<in> set cs. dc_name c \<noteq> k" using find_column_Some [OF assms, of k] by force
    then show ?thesis using None by auto
  next
    case (Some c)
    then have "\<forall>d. d \<in> set cs \<and> dc_name d = k \<longleftrightarrow> d = c"
      by (metis Some find_column_Some [OF assms] option.inject)
    then have "(\<exists>d \<in> set cs. dc_name d = k \<and> key_column_problem d = None) \<longleftrightarrow> key_column_problem c = None" by metis
    then show ?thesis using Some by (cases "key_column_problem c") auto
  qed
  then show ?case using Cons [of "k # seen"] by auto
qed simp

lemma validate_table_Nil: "validate_table fmt dp name t = [] \<longleftrightarrow> table_wf fmt dp name t"
proof (cases "distinct (map dc_name (st_columns t))")
  case True
  then show ?thesis using key_problems_Nil [OF True, of name "[]" "st_keys t"]
    by (auto simp: validate_table_def table_wf_def resource_name_problems_def validate_columns_def column_problems_Nil
        split: if_splits)
next
  case False
  then show ?thesis
    by (auto simp: validate_table_def table_wf_def validate_columns_def column_problems_Nil)
qed

lemma path_problems_Nil:
  assumes "\<forall>(n, t) \<in> set ts. storage_path_ok (st_path t)"
  shows "path_problems owners ts = [] \<longleftrightarrow>
    distinct (map (\<lambda>(n, t). st_path t) ts) \<and> (\<lambda>(n, t). st_path t) ` set ts \<inter> fst ` set owners = {}"
  using assms
proof (induction ts arbitrary: owners)
  case (Cons p ts)
  obtain n t where p: "p = (n, t)" by force
  show ?case
  proof (cases "map_of owners (st_path t)")
    case None
    then have "st_path t \<notin> fst ` set owners" by (simp add: map_of_eq_None_iff)
    then show ?thesis using Cons.prems Cons.IH [of "(st_path t, n) # owners"] None by (auto simp: p)
  next
    case (Some o')
    then have "st_path t \<in> fst ` set owners" by (force dest: map_of_SomeD)
    then show ?thesis using Cons.prems Some by (auto simp: p)
  qed
qed simp

definition reference_wf :: "schema_document \<Rightarrow> declared_column \<Rightarrow> bool" where
  "reference_wf doc c \<longleftrightarrow>
     (case dc_references c of
        None \<Rightarrow> True
      | Some r \<Rightarrow>
          (case map_of (sd_tables doc) (rf_table r) of
             None \<Rightarrow> False
           | Some target \<Rightarrow>
               st_keys target = [rf_column r] \<and>
               (case find_column (st_columns target) (rf_column r) of
                  None \<Rightarrow> False | Some tc \<Rightarrow> dc_type tc = dc_type c)))"

lemma reference_problems_Nil: "reference_problems doc name c = [] \<longleftrightarrow> reference_wf doc c"
  by (simp add: reference_problems_def reference_wf_def split: option.splits)

lemma validate_references_Nil:
  "validate_references doc = [] \<longleftrightarrow> (\<forall>(n, t) \<in> set (sd_tables doc). \<forall>c \<in> set (st_columns t). reference_wf doc c)"
  by (auto simp: validate_references_def reference_problems_Nil)

definition document_wf :: "(rat \<Rightarrow> string) \<Rightarrow> (string \<Rightarrow> int option) \<Rightarrow> schema_document \<Rightarrow> bool" where
  "document_wf fmt dp doc \<longleftrightarrow>
     (\<forall>(n, t) \<in> set (sd_tables doc). table_wf fmt dp n t \<and> (\<forall>c \<in> set (st_columns t). reference_wf doc c)) \<and>
     distinct (map (\<lambda>(n, t). st_path t) (sd_tables doc)) \<and>
     (\<forall>(n, v) \<in> set (sd_views doc). validate_view doc n v = []) \<and>
     acyclic (view_edges doc)"

lemma document_problems_Nil: "document_problems fmt dp doc = [] \<longleftrightarrow> document_wf fmt dp doc"
proof (cases "\<forall>(n, t) \<in> set (sd_tables doc). table_wf fmt dp n t")
  case True
  then have "\<forall>(n, t) \<in> set (sd_tables doc). storage_path_ok (st_path t)" by (auto simp: table_wf_def)
  from path_problems_Nil [OF this, of "[]"] True show ?thesis
    using cycles_exact [of doc]
    by (auto simp: document_problems_def document_wf_def validate_table_Nil validate_references_Nil)
next
  case False
  then show ?thesis by (auto simp: document_problems_def document_wf_def validate_table_Nil)
qed

section \<open>Views of a valid document\<close>

lemma map_of_column_types: "map_of (column_types cs) n = Some t \<Longrightarrow> \<exists>c \<in> set cs. dc_name c = n \<and> dc_type c = t"
  by (auto simp: column_types_def dest!: map_of_SomeD)

definition declared_tables :: "schema_document \<Rightarrow> bool" where
  "declared_tables doc \<longleftrightarrow> (\<forall>(n, t) \<in> set (sd_tables doc). \<forall>c \<in> set (st_columns t). is_declared_column_type (dc_type c))"

lemma project_columns_types:
  "\<forall>c \<in> set cs. is_declared_column_type (dc_type c) \<Longrightarrow> d \<in> set (project_columns (column_types cs) ps) \<Longrightarrow>
    is_declared_column_type (dc_type d) \<and> dc_nullable d"
  by (fastforce simp: project_columns_def list_ex_iff dest: map_of_column_types split: if_splits)

lemma table_columns_declared:
  "declared_tables doc \<Longrightarrow> map_of (sd_tables doc) n = Some t \<Longrightarrow> \<forall>c \<in> set (st_columns t). is_declared_column_type (dc_type c)"
  by (auto simp: declared_tables_def dest!: map_of_SomeD)

lemma exposed_query:
  assumes "c \<in> set (view_exposed_columns doc view seen)"
  shows "\<exists>v q. view \<notin> set seen \<and> map_of (sd_views doc) view = Some v \<and>
    snd (parse_view_query (sv_query v)) = Some q"
proof (cases "map_of (sd_views doc) view")
  case None
  then show ?thesis using assms by (subst (asm) view_exposed_columns.simps) (simp split: if_splits)
next
  case (Some v)
  then show ?thesis using assms
    by (cases "snd (parse_view_query (sv_query v))"; subst (asm) view_exposed_columns.simps) (simp_all split: if_splits)
qed

lemma exposed_declared:
  assumes "declared_tables doc"
  shows "c \<in> set (view_exposed_columns doc view seen) \<Longrightarrow> is_declared_column_type (dc_type c) \<and> dc_nullable c"
  using assms
proof (induction doc view seen arbitrary: c rule: view_exposed_columns.induct)
  case (1 doc view seen)
  obtain v q where v: "view \<notin> set seen" "map_of (sd_views doc) view = Some v"
      "snd (parse_view_query (sv_query v)) = Some q"
    using exposed_query [OF 1(2)] by blast
  have e: "view_exposed_columns doc view seen =
      (case map_of (sd_tables doc) (pv_dependency q) of
         Some t \<Rightarrow> project_columns (column_types (st_columns t)) (pv_projections q)
       | None \<Rightarrow>
           if map_of (sd_views doc) (pv_dependency q) = None then []
           else project_columns (column_types (view_exposed_columns doc (pv_dependency q) (view # seen)))
                  (pv_projections q))"
    using v by (subst view_exposed_columns.simps) simp
  show ?case
  proof (cases "map_of (sd_tables doc) (pv_dependency q)")
    case (Some t)
    then show ?thesis
      using 1(2) project_columns_types [OF table_columns_declared [OF 1(3) Some]] unfolding e by simp
  next
    case None
    then have d: "map_of (sd_views doc) (pv_dependency q) \<noteq> None" using 1(2) unfolding e by (auto split: if_splits)
    have "\<forall>c \<in> set (view_exposed_columns doc (pv_dependency q) (view # seen)). is_declared_column_type (dc_type c)"
      using 1(1) [OF v(1,2,3) None d _ 1(3)] by blast
    from project_columns_types [OF this] show ?thesis using 1(2) None d unfolding e by simp
  qed
qed

lemma declared_not_empty: "is_declared_column_type t \<Longrightarrow> t \<noteq> Ty_Other []"
  by (auto simp: is_declared_column_type_def declared_types_def)

lemma project_columns_all:
  assumes "\<forall>p \<in> set ps. map_of (column_types cs) (vp_column p) \<noteq> None"
    and "\<forall>c \<in> set cs. is_declared_column_type (dc_type c)"
  shows "map dc_name (project_columns (column_types cs) ps) = map vp_name ps"
proof -
  have "\<not> list_ex (\<lambda>p. map_of (column_types cs) (vp_column p) = None \<or>
      map_of (column_types cs) (vp_column p) = Some (Ty_Other [])) ps"
    using assms declared_not_empty map_of_column_types by (fastforce simp: list_ex_iff)
  then show ?thesis by (simp add: project_columns_def)
qed

lemma document_wf_declared: "document_wf fmt dp doc \<Longrightarrow> declared_tables doc"
  by (fastforce simp: document_wf_def declared_tables_def table_wf_def column_wf_def)

lemma valid_view_query:
  assumes "validate_view doc n v = []" and "parse_view_query (sv_query v) = (bad, r)"
  shows "bad = []"
  using assms by (simp add: validate_view_def)

lemma collect_projections_ok:
  assumes "collect_projections from raws ps bad = (ps', [])"
    and "distinct (map vp_name ps)"
  shows "bad = [] \<and> distinct (map vp_name ps')"
  using assms
proof (induction raws arbitrary: ps bad)
  case (Cons raw raws)
  show ?case
  proof (cases "trim raw = []")
    case False
    show ?thesis
    proof (cases "parse_projection from (trim raw)")
      case (Inl p)
      then show ?thesis using Cons.IH [of ps "bad @ [p]"] Cons.prems False by (simp add: Let_def)
    next
      case (Inr v)
      then show ?thesis
        using Cons.IH [of ps "bad @ [Duplicate_Exposed (vp_name v)]"] Cons.IH [of "ps @ [v]" bad] Cons.prems False
        by (auto simp: Let_def split: if_splits)
    qed
  qed (use Cons in \<open>simp add: Let_def\<close>)
qed simp

lemma parse_view_query_sound:
  assumes "parse_view_query query = ([], r)"
  shows "case r of None \<Rightarrow> True | Some q \<Rightarrow> column_name_ok (pv_dependency q) \<and> pv_projections q \<noteq> [] \<and>
    distinct (map vp_name (pv_projections q)) \<and> (\<forall>p \<in> set (pv_projections q). vp_dependency p = pv_dependency q) \<and>
    \<not> forbidden_view_tokens (trim query) \<and> \<not> has_word [''select''] (drop 6 (trim query))"
proof (cases r)
  case (Some q)
  then obtain n where n: "token_index (trim query) ''from'' = Some n"
    using assms by (auto simp: parse_view_query_def Let_def split: if_splits option.splits)
  define from_text where "from_text =
    trim (case first_index (List.map_filter (token_index (drop (n + 4) (trim query))) clause_tokens) of
            None \<Rightarrow> drop (n + 4) (trim query) | Some e \<Rightarrow> take e (drop (n + 4) (trim query)))"
  obtain ps bad where c: "collect_projections from_text
      (split_top_level (CHR '','') 0 None [] (trim (drop 6 (take n (trim query))))) [] [] = (ps, bad)"
    by (cases "collect_projections from_text
      (split_top_level (CHR '','') 0 None [] (trim (drop 6 (take n (trim query))))) [] []")
  have u: "column_name_ok from_text" "\<not> forbidden_view_tokens (trim query)"
      "\<not> has_word [''select''] (drop 6 (trim query))" "ps \<noteq> []" "bad = []"
      "filter (\<lambda>p. vp_dependency p \<noteq> from_text) ps = []"
      "q = \<lparr>pv_dependency = from_text, pv_projections = ps\<rparr>"
    using assms Some by (auto simp: parse_view_query_def Let_def n c simp flip: from_text_def split: if_splits)
  then have "distinct (map vp_name ps)" using collect_projections_ok [OF c [unfolded u(5)]] by simp
  then show ?thesis using u Some by (auto simp: filter_empty_conv)
qed simp

lemma valid_view:
  assumes "document_wf fmt dp doc" and "map_of (sd_views doc) name = Some v"
  shows "validate_view doc name v = []"
  using assms(1) map_of_SomeD [OF assms(2)] by (auto simp: document_wf_def)

lemma valid_view_exposes:
  assumes "document_wf fmt dp doc" and "map_of (sd_views doc) name = Some v"
    and "snd (parse_view_query (sv_query v)) = Some q"
  shows "map dc_name (view_exposed_columns doc name []) = map vp_name (pv_projections q)"
proof -
  have dt: "declared_tables doc" by (rule document_wf_declared [OF assms(1)])
  have "query_problems doc name v q = []"
    using valid_view [OF assms(1,2)] assms(3) by (simp add: validate_view_def)
  then obtain types where t: "exposed_types doc (pv_dependency q) [name] = Some types"
    and p: "\<forall>p \<in> set (pv_projections q). map_of types (vp_column p) \<noteq> None"
    by (auto simp: query_problems_def filter_empty_conv split: if_splits option.splits)
  show ?thesis
  proof (cases "map_of (sd_tables doc) (pv_dependency q)")
    case (Some tb)
    then have "view_exposed_columns doc name [] = project_columns (column_types (st_columns tb)) (pv_projections q)"
      using assms(2,3) by (subst view_exposed_columns.simps) simp
    moreover have "types = column_types (st_columns tb)" using t Some by (simp add: exposed_types_def)
    ultimately show ?thesis using project_columns_all p table_columns_declared [OF dt Some] by simp
  next
    case None
    let ?cs = "view_exposed_columns doc (pv_dependency q) [name]"
    have "map_of (sd_views doc) (pv_dependency q) \<noteq> None" using t None
      by (auto simp: exposed_types_def split: if_splits)
    then have "view_exposed_columns doc name [] = project_columns (column_types ?cs) (pv_projections q)"
      using assms(2,3) None by (subst view_exposed_columns.simps) auto
    moreover have "types = column_types ?cs" using None t by (simp add: exposed_types_def split: if_splits)
    moreover have "\<forall>c \<in> set ?cs. is_declared_column_type (dc_type c)" using exposed_declared [OF dt] by blast
    ultimately show ?thesis using project_columns_all p by simp
  qed
qed

section \<open>Reading back the canonical text\<close>

lemma option_map_all_map:
  "(\<And>x. x \<in> set xs \<Longrightarrow> f (g x) = Some (h x)) \<Longrightarrow> option_map_all f (map g xs) = Some (map h xs)"
  by (induction xs) auto

lemma option_map_all_set: "option_map_all f xs = Some ys \<Longrightarrow> y \<in> set ys \<Longrightarrow> \<exists>x \<in> set xs. f x = Some y"
proof (induction xs arbitrary: ys)
  case (Cons x xs)
  then show ?case by (cases "f x"; cases "option_map_all f xs") auto
qed simp

definition column_normal :: "declared_column \<Rightarrow> bool" where
  "column_normal c \<longleftrightarrow> type_of_text (type_text (dc_type c)) = dc_type c"

definition table_normal :: "schema_table \<Rightarrow> bool" where
  "table_normal t \<longleftrightarrow> is_finite (st_version t) \<and> (\<forall>c \<in> set (st_columns t). column_normal c)"

definition document_normal :: "schema_document \<Rightarrow> bool" where
  "document_normal doc \<longleftrightarrow>
     (\<forall>(n, t) \<in> set (sd_tables doc). table_normal t) \<and> (\<forall>(n, v) \<in> set (sd_views doc). is_finite (sv_version v))"

lemma type_text_of_text [simp]: "type_text (type_of_text s) = s"
proof (cases "List.find (\<lambda>t. type_text t = s) declared_types")
  case (Some t)
  then show ?thesis using find_Some_set [OF Some] by (simp add: type_of_text_def)
qed (simp add: type_of_text_def)

lemma parse_canonical_column: "column_normal c \<Longrightarrow> parse_column (canonical_column c) = Some c"
  by (cases c; cases "dc_default c"; cases "dc_references c")
    (auto simp: parse_column_def canonical_column_def strict_object_def required_def optional_def column_normal_def
      parse_column_reference_def)

lemma parse_table_json: "table_normal t \<Longrightarrow> parse_table (table_json t) = Some (t\<lparr>st_policy := None\<rparr>)"
  using option_map_all_map [of "st_keys t" as_string JStr "\<lambda>k. k"]
    option_map_all_map [of "st_columns t" parse_column canonical_column "\<lambda>c. c"]
  by (cases t) (simp add: parse_table_def table_json_def strict_object_def required_def optional_def as_array_def
      table_normal_def parse_storage_def parse_canonical_column)

lemma parse_view_json: "is_finite (sv_version v) \<Longrightarrow> parse_view (view_json v) = Some v"
  using option_map_all_map [of "sv_depends v" as_string JStr "\<lambda>k. k"]
  by (cases v) (simp add: parse_view_def view_json_def strict_object_def required_def as_array_def)

definition canonical_document :: "schema_document \<Rightarrow> schema_document" where
  "canonical_document doc =
     \<lparr>sd_tables = map (\<lambda>(n, t). (n, t\<lparr>st_policy := None\<rparr>)) (sort_key fst (sd_tables doc)),
      sd_views = sort_key fst (sd_views doc)\<rparr>"

lemma as_dictionary_map:
  "(\<And>n x. (n, x) \<in> set ps \<Longrightarrow> f (g x) = Some (h x)) \<Longrightarrow>
    as_dictionary f (JObj (map (\<lambda>(n, x). (n, g x)) ps)) = Some (map (\<lambda>(n, x). (n, h x)) ps)"
  unfolding as_dictionary_def json.case by (rule option_map_all_map) auto

lemma parse_document_json:
  assumes "document_normal doc"
  shows "parse_document (document_json doc) = Some (canonical_document doc)"
proof -
  have "as_dictionary parse_table (JObj (map (\<lambda>(n, t). (n, table_json t)) (sort_key fst (sd_tables doc)))) =
      Some (sd_tables (canonical_document doc))"
    using assms by (auto simp: canonical_document_def document_normal_def intro!: as_dictionary_map parse_table_json)
  moreover have "as_dictionary parse_view (JObj (map (\<lambda>(n, v). (n, view_json v)) (sort_key fst (sd_views doc)))) =
      Some (map (\<lambda>(n, v). (n, v)) (sort_key fst (sd_views doc)))"
    by (rule as_dictionary_map) (use assms in \<open>auto simp: document_normal_def intro!: parse_view_json\<close>)
  ultimately show ?thesis
    by (simp add: parse_document_def document_json_def strict_object_def optional_def default_empty_def
        canonical_document_def)
qed

lemma parse_column_normal: "parse_column j = Some c \<Longrightarrow> column_normal c"
  by (auto simp: parse_column_def column_normal_def bind_eq_Some_conv)

lemma as_number_finite: "as_number j = Some x \<Longrightarrow> is_finite x"
  by (cases j) (auto split: if_splits)

lemma as_array_set: "as_array f j = Some ys \<Longrightarrow> y \<in> set ys \<Longrightarrow> \<exists>x. f x = Some y"
  by (cases j) (auto simp: as_array_def dest: option_map_all_set)

lemma parse_table_normal:
  assumes "parse_table j = Some t"
  shows "table_normal t"
proof -
  obtain v w n path shape keys cols policy where "as_number v = Some n" "as_array parse_column w = Some cols"
      "t = \<lparr>st_version = n, st_path = path, st_shape = shape, st_keys = keys, st_columns = cols, st_policy = policy\<rparr>"
    using assms unfolding parse_table_def bind_eq_Some_conv required_def by blast
  then show ?thesis using as_number_finite as_array_set parse_column_normal by (fastforce simp: table_normal_def)
qed

lemma parse_view_finite: "parse_view j = Some v \<Longrightarrow> is_finite (sv_version v)"
  by (auto simp: parse_view_def bind_eq_Some_conv required_def dest: as_number_finite)

lemma as_dictionary_set:
  "as_dictionary f j = Some ys \<Longrightarrow> (n, y) \<in> set ys \<Longrightarrow> \<exists>x. f x = Some y"
  by (cases j) (auto simp: as_dictionary_def bind_eq_Some_conv dest!: option_map_all_set)

lemma parse_document_normal:
  assumes "parse_document raw = Some doc"
  shows "document_normal doc"
proof -
  have ts: "default_empty (optional (as_dictionary parse_table) v) = Some xs \<Longrightarrow> (n, t) \<in> set xs \<Longrightarrow> table_normal t" for v xs n t
    by (auto simp: default_empty_def optional_def bind_eq_Some_conv split: option.splits
        dest!: as_dictionary_set dest: parse_table_normal)
  have vs: "default_empty (optional (as_dictionary parse_view) v) = Some xs \<Longrightarrow> (n, w) \<in> set xs \<Longrightarrow> is_finite (sv_version w)"
    for v xs n w
    by (auto simp: default_empty_def optional_def bind_eq_Some_conv split: option.splits
        dest!: as_dictionary_set dest: parse_view_finite)
  show ?thesis
    using assms by (auto simp: parse_document_def document_normal_def bind_eq_Some_conv split: if_splits dest: ts vs)
qed

lemma map_of_find: "map_of ps k = map_option snd (List.find (\<lambda>p. fst p = k) ps)"
  by (induction ps) auto

lemma map_of_sort_key: "map_of (sort_key fst ps) k = map_of ps k"
  by (simp add: map_of_find find_filter sort_key_stable)

lemma canonical_document_lookup:
  "map_of (sd_tables (canonical_document doc)) n = map_option (\<lambda>t. t\<lparr>st_policy := None\<rparr>) (map_of (sd_tables doc) n)"
  "map_of (sd_views (canonical_document doc)) n = map_of (sd_views doc) n"
proof -
  have "map_of (map (\<lambda>(n, t). (n, f t)) ps) n = map_option f (map_of ps n)" for f :: "schema_table \<Rightarrow> schema_table" and ps
    by (induction ps) auto
  then show "map_of (sd_tables (canonical_document doc)) n = map_option (\<lambda>t. t\<lparr>st_policy := None\<rparr>) (map_of (sd_tables doc) n)"
    by (simp add: canonical_document_def map_of_sort_key)
  show "map_of (sd_views (canonical_document doc)) n = map_of (sd_views doc) n"
    by (simp add: canonical_document_def map_of_sort_key)
qed

section \<open>Properties\<close>


text \<open>C34: view cycles are found exactly.  The depth-first search reports no cycle if and only if the
  dependency relation of the views has none, and every list it reports is a closed chain of
  dependencies.\<close>

theorem view_cycles_exact:
  "(validate_view_cycles doc = [] \<longleftrightarrow> acyclic (view_edges doc)) \<and>
   (\<forall>p \<in> set (validate_view_cycles doc). \<exists>c. p = View_Cycle c \<and> is_cycle doc c)"
  by (rule cycles_exact)

text \<open>The views of a valid document resolve.  Every view of a valid document either projects
  nothing at all or is a plain projection of one listed dependency, and then its exposed columns
  are exactly the projected names, nullable and of declared types.\<close>

theorem valid_view_resolves:
  assumes "document_wf fmt date_parse doc" and "map_of (sd_views doc) name = Some v"
  shows "case snd (parse_view_query (sv_query v)) of
      None \<Rightarrow> view_exposed_columns doc name [] = []
    | Some q \<Rightarrow>
        pv_dependency q \<in> set (sv_depends v) \<and> is_resource doc (pv_dependency q) \<and>
        distinct (map vp_name (pv_projections q)) \<and> view_exposed_columns doc name [] \<noteq> [] \<and>
        map dc_name (view_exposed_columns doc name []) = map vp_name (pv_projections q) \<and>
        (\<forall>c \<in> set (view_exposed_columns doc name []). dc_nullable c \<and> is_declared_column_type (dc_type c))"
proof (cases "snd (parse_view_query (sv_query v))")
  case None
  then show ?thesis using assms(2) by (subst view_exposed_columns.simps) simp
next
  case (Some q)
  obtain bad where p: "parse_view_query (sv_query v) = (bad, Some q)"
    using Some by (cases "parse_view_query (sv_query v)") simp
  have v: "validate_view doc name v = []" by (rule valid_view [OF assms])
  then have "query_problems doc name v q = []" "bad = []" using p by (simp_all add: validate_view_def)
  then have d: "pv_dependency q \<in> set (sv_depends v)" "is_resource doc (pv_dependency q)"
    by (auto simp: query_problems_def exposed_types_def is_resource_def split: if_splits option.splits)
  have q: "pv_projections q \<noteq> []" "distinct (map vp_name (pv_projections q))"
    using parse_view_query_sound [OF p [unfolded \<open>bad = []\<close>]] by simp_all
  have m: "map dc_name (view_exposed_columns doc name []) = map vp_name (pv_projections q)"
    by (rule valid_view_exposes [OF assms Some])
  then have "view_exposed_columns doc name [] \<noteq> []" using q(1) by (metis list.map_disc_iff)
  then show ?thesis
    using Some d q(2) m exposed_declared [OF document_wf_declared [OF assms(1)]] by simp
qed

text \<open>C24: the canonical text loses the row policies.  Reading back the text written for a document
  gives the same tables and views, in name order, except that no table has a row policy any
  more: whatever policy was declared, every principal then reads and writes every row.\<close>

theorem canonical_text_drops_policies:
  assumes "parse_document raw = Some doc"
    and "parse (format_schema_document fmt doc) = Some (document_json doc)"
  shows "\<exists>doc'. Option.bind (parse (format_schema_document fmt doc)) parse_document = Some doc' \<and>
    map_of (sd_views doc') = map_of (sd_views doc) \<and>
    map_of (sd_tables doc') = map_option (\<lambda>t. t\<lparr>st_policy := None\<rparr>) \<circ> map_of (sd_tables doc) \<and>
    (\<forall>n t d po. map_of (sd_tables doc') n = Some t \<longrightarrow> resolve_row_policy (st_policy t) d po = Open)"
proof -
  have "Option.bind (parse (format_schema_document fmt doc)) parse_document = Some (canonical_document doc)"
    using assms(2) parse_document_json [OF parse_document_normal [OF assms(1)]] by simp
  moreover have "map_of (sd_tables (canonical_document doc)) =
      map_option (\<lambda>t. t\<lparr>st_policy := None\<rparr>) \<circ> map_of (sd_tables doc)"
    using canonical_document_lookup(1) by auto
  moreover have "map_of (sd_views (canonical_document doc)) = map_of (sd_views doc)"
    using canonical_document_lookup(2) by auto
  ultimately show ?thesis
    by (auto simp: resolve_row_policy_def policy_rule_def)
qed

text \<open>Two declarations have the same canonical text exactly when they differ at most in the row
  policy, so that an idempotent create and the merge of a declaration ignore the policy.\<close>

theorem same_canonical_table_exact:
  assumes "table_normal l" and "table_normal r"
    and "\<And>t. t \<in> {l, r} \<Longrightarrow>
      parse (canonical_table_text fmt t) = Some (document_json \<lparr>sd_tables = [(''t'', t)], sd_views = []\<rparr>)"
  shows "same_canonical_table fmt l r \<longleftrightarrow> l\<lparr>st_policy := None\<rparr> = r\<lparr>st_policy := None\<rparr>"
proof
  let ?d = "\<lambda>t. \<lparr>sd_tables = [(''t'', t)], sd_views = []\<rparr> :: schema_document"
  assume "same_canonical_table fmt l r"
  then have "document_json (?d l) = document_json (?d r)" using assms(3) [of l] assms(3) [of r]
    by (simp add: same_canonical_table_def)
  moreover have "parse_document (document_json (?d t)) = Some (canonical_document (?d t))" if "table_normal t" for t
    using that by (intro parse_document_json) (simp add: document_normal_def)
  ultimately have "canonical_document (?d l) = canonical_document (?d r)" using assms(1,2) by (metis option.inject)
  then show "l\<lparr>st_policy := None\<rparr> = r\<lparr>st_policy := None\<rparr>" by (simp add: canonical_document_def)
next
  assume e: "l\<lparr>st_policy := None\<rparr> = r\<lparr>st_policy := None\<rparr>"
  have "table_json (t\<lparr>st_policy := None\<rparr>) = table_json t" for t by (simp add: table_json_def)
  then have "table_json l = table_json r" using e by metis
  then show "same_canonical_table fmt l r"
    by (simp add: same_canonical_table_def canonical_table_text_def format_schema_document_def document_json_def)
qed

text \<open>Rows admitted to a table of a valid document are addressable.  Every key column of an
  admitted row has a canonical value that is not \<^verbatim>\<open>null\<close>.\<close>

theorem admitted_rows_addressable:
  assumes "schema_document_problems fmt date_parse raw = []" and "parse_document raw = Some doc"
    and "map_of (sd_tables doc) name = Some t" and "iso_dates date_parse"
    and "normalize_api_row date_parse (st_columns t) row = Inr out"
  shows "\<forall>k \<in> set (st_keys t). \<exists>v. map_of out k = Some v \<and> v \<noteq> JNull"
proof
  fix k assume k: "k \<in> set (st_keys t)"
  have wf: "table_wf fmt date_parse name t"
    using assms(1-3) map_of_SomeD [OF assms(3)]
    by (auto simp: schema_document_problems_def document_problems_Nil document_wf_def)
  then obtain c where c: "c \<in> set (st_columns t)" "dc_name c = k" "key_column_problem c = None"
    using k by (auto simp: table_wf_def)
  have d: "distinct (map dc_name (st_columns t))"
    and ok: "canonical_default_problem fmt date_parse c = None"
    using wf c(1) by (auto simp: table_wf_def column_wf_def)
  obtain rw where cell: "\<exists>v. resolve_cell date_parse rw c = Inr v"
    and out: "out = row_of (st_columns t) (\<lambda>c. cell_value (resolve_cell date_parse rw c))"
    using assms(5) c(1) unfolding normalize_api_row_Inr [OF d] by blast
  obtain v where v: "resolve_cell date_parse rw c = Inr v" using cell by blast
  have "v \<noteq> JNull"
    using resolved_cell_canonical [OF assms(4) ok v] c(3) by (auto simp: canonical_cell_def key_column_problem_def split: if_splits)
  moreover have "map_of out k = Some v" using map_of_row_of [OF d c(1)] v c(2) by (simp add: out)
  ultimately show "\<exists>v. map_of out k = Some v \<and> v \<noteq> JNull" by blast
qed

section \<open>Witnesses\<close>

definition demo_key_column :: declared_column where
  "demo_key_column = \<lparr>dc_name = ''id'', dc_type = Ty_Int64, dc_nullable = False, dc_default = None, dc_references = None\<rparr>"

definition demo_table :: "table_policy option \<Rightarrow> schema_table" where
  "demo_table pol = \<lparr>st_version = Fin 1, st_path = ''t/c.jsonl'', st_shape = ''object'', st_keys = [''id''],
     st_columns = [demo_key_column], st_policy = pol\<rparr>"

definition demo_policy :: table_policy where
  "demo_policy = \<lparr>tp_read = Some \<lparr>rule_column = ''id'', rule_equals = ''.name''\<rparr>, tp_write = None\<rparr>"

definition demo_view :: schema_view where
  "demo_view = \<lparr>sv_version = Fin 1, sv_depends = [''t''], sv_query = ''select id from t''\<rparr>"

definition demo_document :: schema_document where
  "demo_document = \<lparr>sd_tables = [(''t'', demo_table None)], sd_views = [(''v'', demo_view)]\<rparr>"

text \<open>The document as it is on disk, with a policy on its table.\<close>

definition demo_raw :: json where
  "demo_raw =
     JObj [(''schemaVersion'', JNum (Fin 1)),
       (''tables'', JObj [(''t'', JObj [(''schemaVersion'', JNum (Fin 1)), (''storage'', JObj [(''path'', JStr ''t/c.jsonl'')]),
          (''rowShape'', JStr ''object''), (''keyColumns'', JArr [JStr ''id'']),
          (''columns'', JArr [JObj [(''name'', JStr ''id''), (''type'', JStr ''int64''), (''nullable'', JBool False)]]),
          (''policy'', JObj [(''read'', JObj [(''column'', JStr ''id''), (''equals'', JStr ''.name'')])])])]),
       (''views'', JObj [])]"

definition demo_loop :: schema_document where
  "demo_loop = \<lparr>sd_tables = [],
     sd_views = [(''a'', demo_view\<lparr>sv_depends := [''b'']\<rparr>), (''b'', demo_view\<lparr>sv_depends := [''a'']\<rparr>)]\<rparr>"

lemma demo_parsed:
  "parse_document demo_raw = Some \<lparr>sd_tables = [(''t'', demo_table (Some demo_policy))], sd_views = []\<rparr>"
  by (simp add: demo_raw_def parse_document_def strict_object_def optional_def required_def default_empty_def
      as_dictionary_def parse_table_def parse_storage_def as_array_def parse_column_def parse_policy_def
      parse_policy_rule_def nonempty_def demo_table_def demo_policy_def demo_key_column_def type_of_text_def
      declared_types_def)

text \<open>The query of the example, token by token.\<close>

lemmas char_classes = is_ident_char_def is_ident_start_def is_lower_def is_upper_def is_digit_def

lemma demo_words: "word_runs [] ''select id from t'' = [''select'', ''id'', ''from'', ''t'']"
    "word_runs [] '' id from t'' = [''id'', ''from'', ''t'']"
  by (simp_all add: char_classes)

lemma demo_allowed: "\<not> forbidden_view_tokens ''select id from t''"
  unfolding forbidden_view_tokens_def has_word_def demo_words
  by (simp add: starts_with_def forbidden_words_def lower_case_def lower_char_def is_upper_def)

lemma demo_from: "token_index ''select id from t'' ''from'' = Some 10"
  by (simp add: is_quote_def lower_case_def lower_char_def is_upper_def starts_with_def before_token_def after_token_def is_space_def)

lemma demo_no_clause: "List.map_filter (token_index '' t'') clause_tokens = []"
  by (simp add: List.map_filter_def clause_tokens_def is_quote_def lower_case_def lower_char_def is_upper_def starts_with_def before_token_def after_token_def is_space_def)

lemma demo_trim: "trim ''select id from t'' = ''select id from t''" "trim '' id '' = ''id''" "trim '' t'' = ''t''" "trim ''id'' = ''id''"
  by (simp_all add: trim_def is_space_def)

lemma demo_projection: "collect_projections ''t'' [''id''] [] [] = ([\<lparr>vp_name = ''id'', vp_dependency = ''t'', vp_column = ''id''\<rparr>], [])"
  by (simp add: demo_trim parse_projection_def parse_reference_def column_name_ok_def alias_tail_def char_classes newline_def is_space_def Let_def)

lemma demo_scan: "lower_case ''select'' = ''select''" "\<not> is_ident_char (CHR '' '')" "\<not> has_word [''select''] '' id from t''"
    "column_name_ok ''t''" "split_top_level (CHR '','') 0 None [] ''id'' = [''id'']"
  unfolding has_word_def demo_words
  apply (simp add: lower_case_def lower_char_def is_upper_def)
  apply (simp add: char_classes)
  apply (simp add: lower_case_def lower_char_def is_upper_def)
  apply (simp add: char_classes column_name_ok_def)
  apply (simp add: is_quote_def)
  done

lemma demo_query: "parse_view_query ''select id from t'' =
      ([], Some \<lparr>pv_dependency = ''t'', pv_projections = [\<lparr>vp_name = ''id'', vp_dependency = ''t'', vp_column = ''id''\<rparr>]\<rparr>)"
  unfolding parse_view_query_def demo_trim(1) Let_def
  by (simp add: demo_allowed demo_from demo_no_clause demo_trim demo_projection demo_scan first_index_def del: top_level_index.simps split_top_level.simps collect_projections.simps)

lemma demo_valid: "document_problems (\<lambda>_. []) (\<lambda>_. None) demo_document = []"
proof -
  have t: "validate_table (\<lambda>_. []) (\<lambda>_. None) ''t'' (demo_table None) = []" by code_simp
  have c: "validate_view_cycles demo_document = []" by code_simp
  have i: "referenced_identifiers ''select id from t'' = [''id'', ''t'']" by code_simp
  have n: "resource_name_problems ''view'' ''v'' = []" by code_simp
  have "validate_view demo_document ''v'' demo_view = []"
    by (simp add: validate_view_def n demo_view_def demo_query query_problems_def exposed_types_def demo_document_def
        column_types_def demo_table_def demo_key_column_def i is_resource_def)
  then show ?thesis
    using t c by (simp add: document_problems_def demo_document_def validate_references_def reference_problems_def)
      (simp add: demo_table_def demo_key_column_def)
qed

lemma demo_policy_valid:
  "document_problems (\<lambda>_. []) (\<lambda>_. None) \<lparr>sd_tables = [(''t'', demo_table (Some demo_policy))], sd_views = []\<rparr> = []"
  by code_simp

theorem view_cycles_exact_witness:
  "\<not> acyclic (view_edges demo_loop) \<and> is_cycle demo_loop [''a'', ''b'', ''a'']"
proof -
  have "validate_view_cycles demo_loop = [View_Cycle [''a'', ''b'', ''a'']]" by code_simp
  then show ?thesis using view_cycles_exact [of demo_loop] by auto
qed

theorem valid_view_resolves_witness:
  "map dc_name (view_exposed_columns demo_document ''v'' []) = [''id'']"
proof -
  have "document_wf (\<lambda>_. []) (\<lambda>_. None) demo_document" using demo_valid document_problems_Nil by blast
  moreover have "map_of (sd_views demo_document) ''v'' = Some demo_view" by (simp add: demo_document_def)
  moreover have "snd (parse_view_query (sv_query demo_view)) =
      Some \<lparr>pv_dependency = ''t'',
            pv_projections = [\<lparr>vp_name = ''id'', vp_dependency = ''t'', vp_column = ''id''\<rparr>]\<rparr>"
    by (simp add: demo_view_def demo_query)
  ultimately show ?thesis using valid_view_resolves [of "\<lambda>_. []" "\<lambda>_. None" demo_document "''v''" demo_view] by simp
qed

theorem canonical_text_drops_policies_witness:
  "\<exists>doc'. parse_document (document_json \<lparr>sd_tables = [(''t'', demo_table (Some demo_policy))], sd_views = []\<rparr>) = Some doc' \<and>
     map_of (sd_tables doc') ''t'' = Some (demo_table None)"
proof -
  let ?doc = "\<lparr>sd_tables = [(''t'', demo_table (Some demo_policy))], sd_views = []\<rparr> :: schema_document"
  let ?parse = "\<lambda>text :: string. Some (document_json ?doc)"
  obtain doc' where "Option.bind (?parse (format_schema_document (\<lambda>_. []) ?doc)) parse_document = Some doc'"
    and "map_of (sd_tables doc') = map_option (\<lambda>t. t\<lparr>st_policy := None\<rparr>) \<circ> map_of (sd_tables ?doc)"
    using canonical_text_drops_policies [OF demo_parsed, of ?parse "\<lambda>_. []"] by auto
  then show ?thesis by (simp add: demo_table_def)
qed

theorem same_canonical_table_exact_witness:
  "same_canonical_table (\<lambda>_. []) (demo_table None) (demo_table (Some demo_policy))"
proof -
  let ?d = "\<lambda>t. \<lparr>sd_tables = [(''t'', t)], sd_views = []\<rparr> :: schema_document"
  have j: "document_json (?d (demo_table pol)) = document_json (?d (demo_table None))" for pol
    by (simp add: document_json_def table_json_def demo_table_def)
  have n: "table_normal (demo_table pol)" for pol
    by (simp add: table_normal_def demo_table_def column_normal_def demo_key_column_def type_of_text_def declared_types_def)
  have "same_canonical_table (\<lambda>_. []) (demo_table None) (demo_table (Some demo_policy)) \<longleftrightarrow>
      (demo_table None)\<lparr>st_policy := None\<rparr> = (demo_table (Some demo_policy))\<lparr>st_policy := None\<rparr>"
    by (rule same_canonical_table_exact [where parse = "\<lambda>text. Some (document_json (?d (demo_table None)))"])
      (auto simp: n j [of "Some demo_policy"])
  then show ?thesis by (simp add: demo_table_def)
qed

theorem admitted_rows_addressable_witness:
  "\<exists>v. map_of [(''id'', JStr ''7'')] ''id'' = Some v \<and> v \<noteq> JNull"
proof -
  have "schema_document_problems (\<lambda>_. []) (\<lambda>_. None) demo_raw = []"
    by (simp add: schema_document_problems_def demo_parsed demo_policy_valid)
  moreover have "iso_dates (\<lambda>_. None)" by (simp add: iso_dates_def)
  moreover have "normalize_api_row (\<lambda>_. None) [demo_key_column] (JObj [(''id'', JStr ''7'')]) = Inr [(''id'', JStr ''7'')]"
    by code_simp
  ultimately show ?thesis
    using admitted_rows_addressable [OF _ demo_parsed, of "\<lambda>_. []" "\<lambda>_. None" "''t''" "demo_table (Some demo_policy)"]
    by (simp add: demo_table_def)
qed

section \<open>A view that projects nothing\<close>

lemma blank_words: "word_runs [] ''select , from x'' = [''select'', ''from'', ''x'']"
    "word_runs [] '' , from x'' = [''from'', ''x'']"
  by (simp_all add: char_classes)

lemma blank_allowed: "\<not> forbidden_view_tokens ''select , from x''"
  unfolding forbidden_view_tokens_def has_word_def blank_words
  by (simp add: starts_with_def forbidden_words_def lower_case_def lower_char_def is_upper_def)

lemma blank_from: "token_index ''select , from x'' ''from'' = Some 9"
  by (simp add: is_quote_def lower_case_def lower_char_def is_upper_def starts_with_def before_token_def
      after_token_def is_space_def)

lemma blank_no_clause: "List.map_filter (token_index '' x'') clause_tokens = []"
  by (simp add: List.map_filter_def clause_tokens_def is_quote_def lower_case_def lower_char_def is_upper_def
      starts_with_def before_token_def after_token_def is_space_def)

lemma blank_scan: "trim ''select , from x'' = ''select , from x''" "trim '' , '' = '',''" "trim '' x'' = ''x''" "trim [] = []"
    "column_name_ok ''x''" "\<not> has_word [''select''] '' , from x''"
    "split_top_level (CHR '','') 0 None [] '','' = [[], []]"
  unfolding has_word_def blank_words
  by (simp_all add: trim_def is_space_def lower_case_def lower_char_def char_classes column_name_ok_def is_quote_def)

lemma blank_query: "parse_view_query ''select , from x'' = ([], None)"
  unfolding parse_view_query_def blank_scan(1) Let_def
  by (simp add: blank_allowed blank_from blank_no_clause blank_scan demo_scan(1,2) first_index_def
      del: top_level_index.simps split_top_level.simps)

text \<open>
  The query \<^verbatim>\<open>select , from x\<close> raises no problem: the document is valid although the dependency
  \<^verbatim>\<open>x\<close> does not exist, and the view exposes no column.
\<close>

theorem blank_view_accepted:
  "document_problems (\<lambda>_. []) (\<lambda>_. None)
      (demo_document\<lparr>sd_views := [(''v'', demo_view\<lparr>sv_query := ''select , from x''\<rparr>)]\<rparr>) = [] \<and>
   view_exposed_columns (demo_document\<lparr>sd_views := [(''v'', demo_view\<lparr>sv_query := ''select , from x''\<rparr>)]\<rparr>) ''v'' [] = []"
proof -
  let ?v = "demo_view\<lparr>sv_query := ''select , from x''\<rparr>"
  let ?d = "demo_document\<lparr>sd_views := [(''v'', ?v)]\<rparr>"
  have t: "validate_table (\<lambda>_. []) (\<lambda>_. None) ''t'' (demo_table None) = []" by code_simp
  have c: "validate_view_cycles ?d = []" by code_simp
  have n: "resource_name_problems ''view'' ''v'' = []" by code_simp
  have "validate_view ?d ''v'' ?v = []"
    by (simp add: validate_view_def n demo_view_def blank_query demo_document_def is_resource_def)
  then have "document_problems (\<lambda>_. []) (\<lambda>_. None) ?d = []"
    using t c by (simp add: document_problems_def demo_document_def validate_references_def reference_problems_def)
      (simp add: demo_table_def demo_key_column_def)
  moreover have "view_exposed_columns ?d ''v'' [] = []"
    by (subst view_exposed_columns.simps) (simp add: demo_document_def blank_query)
  ultimately show ?thesis by simp
qed

end
