(* ===== verification/Ddl_Operations.thy ===== *)
theory Ddl_Operations
  imports Ddl_Journal Schema_Valid
begin

text \<open>
  What each DDL operation of \<^verbatim>\<open>src/serialization/ddl.ts\<close> computes under the fence: the next schema
  document and, for a materialized change, the new generation of the table's rows.  These are
  the \<^verbatim>\<open>hooks.work\<close> that \<open>Ddl_Journal\<close> runs.  \<^verbatim>\<open>Number(text)\<close> is the argument \<open>to_number\<close>.
\<close>

section \<open>The environment of an operation\<close>

record ddl_env =
  de_fmt :: "rat \<Rightarrow> string"
  de_date :: "string \<Rightarrow> int option"
  de_parse :: json_parser
  de_sha :: "string \<Rightarrow> string"
  de_number :: "string \<Rightarrow> jsnum"

datatype backfill_policy = Backfill_Null | Backfill_Default | Backfill_Materialize

text \<open>\<^verbatim>\<open>loadNamespaceSchema\<close> under the fence, in a process without an earlier snapshot.\<close>

definition loaded_document :: "ddl_env \<Rightarrow> ddl_store \<Rightarrow> schema_document" where
  "loaded_document env st =
     (case Option.bind (ds_schema st) (de_parse env) of
        None \<Rightarrow> empty_schema_document
      | Some raw \<Rightarrow>
          if schema_document_problems (de_fmt env) (de_date env) raw = []
          then (case parse_document raw of None \<Rightarrow> empty_schema_document | Some doc \<Rightarrow> doc)
          else empty_schema_document)"

text \<open>The problems \<^verbatim>\<open>assertDocumentValid\<close> raises, as the journal's check takes them.\<close>

definition document_refusals :: "ddl_env \<Rightarrow> schema_document \<Rightarrow> string list" where
  "document_refusals env doc =
     map (\<lambda>_. ''VALIDATION_ERROR'') (document_problems (de_fmt env) (de_date env) doc)"

definition refuse :: "string \<Rightarrow> schema_document work_outcome" where
  "refuse code = Work_Threw (Work_Error code) None"

definition when_valid :: "ddl_env \<Rightarrow> schema_document \<Rightarrow> schema_document work_outcome \<Rightarrow> schema_document work_outcome" where
  "when_valid env doc k = (if document_refusals env doc = [] then k else refuse ''VALIDATION_ERROR'')"

section \<open>Requests\<close>

definition validate_resource_name :: "string \<Rightarrow> string option" where
  "validate_resource_name name =
     (if name = [] then Some ''VALIDATION_ERROR''
      else if is_reserved_resource_name name then Some ''RESERVED_RESOURCE''
      else if \<not> resource_name_ok name then Some ''VALIDATION_ERROR'' else None)"

definition validate_column_shape :: "declared_column \<Rightarrow> string option" where
  "validate_column_shape c =
     (if \<not> column_name_ok (dc_name c) then Some ''VALIDATION_ERROR''
      else if \<not> is_declared_column_type (dc_type c) then Some ''VALIDATION_ERROR'' else None)"

definition safe_relative_jsonl_path :: "string \<Rightarrow> bool" where
  "safe_relative_jsonl_path v \<longleftrightarrow>
     v \<noteq> [] \<and> \<not> starts_with ''/'' v \<and> \<not> str_includes ''..'' v \<and> ends_with ''.jsonl'' v"

definition resolve_backfill_policy :: "declared_column \<Rightarrow> backfill_policy option \<Rightarrow> string + backfill_policy" where
  "resolve_backfill_policy c requested =
     (case requested of
        Some Backfill_Materialize \<Rightarrow>
          if \<not> dc_nullable c \<and> dc_default c = None then Inl ''BACKFILL_POLICY_REQUIRED'' else Inr Backfill_Materialize
      | Some Backfill_Default \<Rightarrow>
          if dc_default c = None then Inl ''BACKFILL_POLICY_REQUIRED'' else Inr Backfill_Default
      | Some Backfill_Null \<Rightarrow> if \<not> dc_nullable c then Inl ''VALIDATION_ERROR'' else Inr Backfill_Null
      | None \<Rightarrow>
          if dc_default c \<noteq> None then Inr Backfill_Default
          else if dc_nullable c then Inr Backfill_Null else Inl ''BACKFILL_POLICY_REQUIRED'')"

section \<open>Rows of a generation\<close>

definition table_shape :: "schema_table \<Rightarrow> row_shape" where
  "table_shape t = (if st_shape t = ''positional'' then Positional_Rows else Object_Rows)"

definition generation_row :: "ddl_env \<Rightarrow> schema_table \<Rightarrow> string \<Rightarrow> (string \<times> json) list option" where
  "generation_row env t line =
     (case de_parse env line of
        None \<Rightarrow> None
      | Some v \<Rightarrow>
          (case (table_shape t, v) of
             (Positional_Rows, JArr _) \<Rightarrow> Some (api_row_from_stored_row (st_columns t) v)
           | (Object_Rows, JObj _) \<Rightarrow> Some (api_row_from_stored_row (st_columns t) v)
           | _ \<Rightarrow> None))"

text \<open>\<open>None\<close> is the reported problem of the first bad line.\<close>

definition read_rows_for_generation ::
  "ddl_env \<Rightarrow> schema_table \<Rightarrow> string option \<Rightarrow> (string \<times> json) list list option" where
  "read_rows_for_generation env t file =
     (case file of None \<Rightarrow> Some [] | Some text \<Rightarrow> option_map_all (generation_row env t) (file_lines text))"

fun canonical_generation_row ::
  "(string \<Rightarrow> int option) \<Rightarrow> declared_column list \<Rightarrow> (string \<times> json) list \<Rightarrow> (string \<times> json) list
     \<Rightarrow> (string \<times> json) list option" where
  "canonical_generation_row dp [] values out = Some out"
| "canonical_generation_row dp (c # cs) values out =
     (if or_null (map_of values (dc_name c)) = JNull
      then if \<not> dc_nullable c \<and> dc_default c = None then None
           else canonical_generation_row dp cs values (obj_set (dc_name c) (or_null (dc_default c)) out)
      else case normalize_declared_value dp c (or_null (map_of values (dc_name c))) of
          Inl p \<Rightarrow> None
        | Inr w \<Rightarrow> canonical_generation_row dp cs values (obj_set (dc_name c) w out))"

definition generation_key :: "(rat \<Rightarrow> string) \<Rightarrow> string list \<Rightarrow> (string \<times> json) list \<Rightarrow> string list" where
  "generation_key fmt keys row = map (\<lambda>k. json_compact fmt (or_null (map_of row k))) keys"

text \<open>The keys seen so far, joined with NUL, which no JSON text contains.\<close>

fun validate_generation_rows ::
  "ddl_env \<Rightarrow> schema_table \<Rightarrow> string list \<Rightarrow> (string \<times> json) list list \<Rightarrow> (string \<times> json) list list option" where
  "validate_generation_rows env t seen [] = Some []"
| "validate_generation_rows env t seen (r # rs) =
     (case canonical_generation_row (de_date env) (st_columns t) r [] of
        None \<Rightarrow> None
      | Some c \<Rightarrow>
          (let key = join_with [CHR 0x00] (generation_key (de_fmt env) (st_keys t) c)
           in if key \<in> set seen then None
              else Option.bind (validate_generation_rows env t (key # seen) rs) (\<lambda>cs. Some (c # cs))))"

definition generation_lines :: "ddl_env \<Rightarrow> schema_table \<Rightarrow> (string \<times> json) list list \<Rightarrow> string list" where
  "generation_lines env t rows = map (jsonl_line_for_api_row (de_fmt env) (st_columns t) (table_shape t)) rows"

text \<open>\<^verbatim>\<open>declaredRowValidator\<close> of \<^verbatim>\<open>schemaRegistry.ts\<close>, the check of every written line.\<close>

definition declared_row_valid :: "(string \<Rightarrow> int option) \<Rightarrow> schema_table \<Rightarrow> json \<Rightarrow> bool" where
  "declared_row_valid dp t v =
     (case (table_shape t, v) of
        (Positional_Rows, JArr vs) \<Rightarrow>
          length vs = length (st_columns t) \<and>
          list_all (\<lambda>(i, c). case resolve_cell dp [(dc_name c, vs ! i)] c of Inr w \<Rightarrow> True | Inl p \<Rightarrow> False)
            (enumerate 0 (st_columns t))
      | (Object_Rows, JObj ps) \<Rightarrow>
          list_all (\<lambda>p. fst p \<in> dc_name ` set (st_columns t)) ps \<and>
          list_all (\<lambda>c. case resolve_cell dp ps c of Inr w \<Rightarrow> True | Inl p \<Rightarrow> False) (st_columns t)
      | _ \<Rightarrow> False)"

definition generation_path_for :: "string \<Rightarrow> string \<Rightarrow> string" where
  "generation_path_for table opid = generations_prefix table @ opid @ ''.jsonl''"

text \<open>The written generation, or the file left behind when a line fails the final check.\<close>

definition materialize_converted_rows ::
  "ddl_env \<Rightarrow> string \<Rightarrow> string \<Rightarrow> schema_table \<Rightarrow> schema_table \<Rightarrow> (string \<times> json) list list
     \<Rightarrow> (string \<times> string) + (generation_result \<times> string)" where
  "materialize_converted_rows env opid name previous t rows =
     (let ls = generation_lines env t rows; path = generation_path_for name opid; text = lines_text ls
      in if list_all (\<lambda>l. case de_parse env l of None \<Rightarrow> False | Some v \<Rightarrow> declared_row_valid (de_date env) t v)
              (file_lines text)
         then Inr (\<lparr>gn_path = path, gn_previousPath = st_path previous, gn_sha256 = de_sha env text,
                    gn_rows = length ls\<rparr>, text)
         else Inl (path, text))"

section \<open>Operations on tables\<close>

definition set_table :: "string \<Rightarrow> schema_table \<Rightarrow> schema_document \<Rightarrow> schema_document" where
  "set_table name t doc = doc\<lparr>sd_tables := obj_set name t (sd_tables doc)\<rparr>"

definition set_view :: "string \<Rightarrow> schema_view \<Rightarrow> schema_document \<Rightarrow> schema_document" where
  "set_view name v doc = doc\<lparr>sd_views := obj_set name v (sd_views doc)\<rparr>"

fun version_int :: "jsnum \<Rightarrow> int" where
  "version_int (Fin q) = \<lfloor>q\<rfloor>"
| "version_int _ = 0"

fun next_version :: "jsnum \<Rightarrow> jsnum" where
  "next_version (Fin q) = Fin (q + 1)"
| "next_version x = x"

definition logical_result :: "schema_document \<Rightarrow> jsnum \<Rightarrow> bool \<Rightarrow> schema_document work_outcome" where
  "logical_result doc version replay =
     Work_Done \<lparr>wr_document = doc, wr_schemaVersion = version_int version, wr_replay = replay, wr_generation = None\<rparr>"

definition materialized_result ::
  "string \<Rightarrow> schema_table \<Rightarrow> schema_document \<Rightarrow> (string \<times> string) + (generation_result \<times> string)
     \<Rightarrow> schema_document work_outcome" where
  "materialized_result name t doc outcome =
     (case outcome of
        Inl left \<Rightarrow> Work_Threw (Work_Error ''CONVERSION_FAILED'') (Some left)
      | Inr g \<Rightarrow>
          Work_Done \<lparr>wr_document = set_table name (t\<lparr>st_path := gn_path (fst g)\<rparr>) doc,
                     wr_schemaVersion = version_int (st_version t), wr_replay = False, wr_generation = Some g\<rparr>)"

definition create_table_work ::
  "ddl_env \<Rightarrow> string \<Rightarrow> schema_table \<Rightarrow> ddl_store \<Rightarrow> schema_document work_outcome" where
  "create_table_work env name candidate st =
     (let doc = loaded_document env st
      in case map_of (sd_tables doc) name of
           Some t \<Rightarrow>
             if same_canonical_table (de_fmt env) t candidate then logical_result doc (st_version t) True
             else refuse ''TABLE_ALREADY_DECLARED''
         | None \<Rightarrow> logical_result (set_table name candidate doc) (st_version candidate) False)"

definition add_column_work ::
  "ddl_env \<Rightarrow> string \<Rightarrow> string \<Rightarrow> declared_column \<Rightarrow> backfill_policy \<Rightarrow> ddl_store \<Rightarrow> schema_document work_outcome" where
  "add_column_work env opid name c policy st =
     (let doc = loaded_document env st
      in case map_of (sd_tables doc) name of
           None \<Rightarrow> refuse ''TABLE_NOT_FOUND''
         | Some old \<Rightarrow>
             if dc_name c \<in> dc_name ` set (st_columns old) then refuse ''COLUMN_ALREADY_DECLARED''
             else let t = old\<lparr>st_version := next_version (st_version old), st_columns := st_columns old @ [c]\<rparr>
               in when_valid env (set_table name t doc)
                    (if policy \<noteq> Backfill_Materialize
                     then logical_result (set_table name t doc) (st_version t) False
                     else case Option.bind (read_rows_for_generation env old (map_of (ds_files st) (st_path old)))
                                  (validate_generation_rows env t []) of
                         None \<Rightarrow> refuse ''CONVERSION_FAILED''
                       | Some rows \<Rightarrow>
                           materialized_result name t doc (materialize_converted_rows env opid name old t rows)))"

definition retype_allowed :: "declared_type \<Rightarrow> declared_type \<Rightarrow> bool" where
  "retype_allowed from to \<longleftrightarrow>
     (from, to) \<in> {(Ty_Int64, Ty_Float64), (Ty_String, Ty_Json), (Ty_String, Ty_Timestamp)}"

definition retype_value :: "ddl_env \<Rightarrow> declared_type \<Rightarrow> declared_type \<Rightarrow> json \<Rightarrow> json option" where
  "retype_value env from to v =
     (if v = JNull then Some JNull
      else if from = Ty_Int64 \<and> to = Ty_Float64
      then (let x = de_number env (js_string (de_fmt env) v)
            in if \<not> is_finite x then None
               else if \<not> is_safe_integer x \<and> is_integer x then None
               else Some (JNum (if x = Neg_Zero then Fin 0 else x)))
      else if from = Ty_String \<and> to = Ty_Json then de_parse env (js_string (de_fmt env) v)
      else if from = Ty_String \<and> to = Ty_Timestamp
      then (case normalize_declared_value (de_date env)
                   \<lparr>dc_name = ''conversion'', dc_type = Ty_Timestamp, dc_nullable = False, dc_default = None,
                    dc_references = None\<rparr> v of
              Inl p \<Rightarrow> None | Inr w \<Rightarrow> Some w)
      else None)"

definition retype_row ::
  "ddl_env \<Rightarrow> declared_column \<Rightarrow> declared_type \<Rightarrow> (string \<times> json) list \<Rightarrow> (string \<times> json) list option" where
  "retype_row env target to row =
     (if or_null (map_of row (dc_name target)) = JNull then Some (obj_set (dc_name target) JNull row)
      else Option.bind (retype_value env (dc_type target) to (or_null (map_of row (dc_name target))))
             (\<lambda>w. Some (obj_set (dc_name target) w row)))"

definition retype_column_work ::
  "ddl_env \<Rightarrow> string \<Rightarrow> string \<Rightarrow> string \<Rightarrow> declared_type \<Rightarrow> ddl_store \<Rightarrow> schema_document work_outcome" where
  "retype_column_work env opid name column to st =
     (let doc = loaded_document env st
      in case map_of (sd_tables doc) name of
           None \<Rightarrow> refuse ''TABLE_NOT_FOUND''
         | Some old \<Rightarrow>
             (case find_column (st_columns old) column of
                None \<Rightarrow> refuse ''COLUMN_NOT_FOUND''
              | Some target \<Rightarrow>
                  if dc_name target \<in> set (st_keys old) then refuse ''RETYPE_NOT_PERMITTED''
                  else if dc_type target = to then refuse ''VALIDATION_ERROR''
                  else if \<not> retype_allowed (dc_type target) to then refuse ''RETYPE_NOT_PERMITTED''
                  else let t = old\<lparr>st_version := next_version (st_version old),
                                 st_columns := map (\<lambda>c. if dc_name c = dc_name target then target\<lparr>dc_type := to\<rparr> else c)
                                                 (st_columns old)\<rparr>
                    in when_valid env (set_table name t doc)
                         (case Option.bind (read_rows_for_generation env old (map_of (ds_files st) (st_path old)))
                                 (\<lambda>rows. Option.bind (option_map_all (retype_row env target to) rows)
                                   (validate_generation_rows env t [])) of
                            None \<Rightarrow> refuse ''CONVERSION_FAILED''
                          | Some rows \<Rightarrow>
                              materialized_result name t doc (materialize_converted_rows env opid name old t rows))))"

section \<open>Operations on views\<close>

definition declare_view_work ::
  "ddl_env \<Rightarrow> string \<Rightarrow> string list \<Rightarrow> string \<Rightarrow> ddl_store \<Rightarrow> schema_document work_outcome" where
  "declare_view_work env name depends query st =
     (let doc = loaded_document env st
      in if map_of (sd_views doc) name \<noteq> None then refuse ''VIEW_ALREADY_DECLARED''
         else let v = \<lparr>sv_version = Fin 1, sv_depends = depends, sv_query = query\<rparr>
           in when_valid env (set_view name v doc) (logical_result (set_view name v doc) (Fin 1) False))"

definition exposed_shape :: "declared_column list \<Rightarrow> string" where
  "exposed_shape cs = join_with '','' (map (\<lambda>c. dc_name c @ '':'' @ type_text (dc_type c)) cs)"

definition redeclare_view_work ::
  "ddl_env \<Rightarrow> string \<Rightarrow> string list \<Rightarrow> string \<Rightarrow> ddl_store \<Rightarrow> schema_document work_outcome" where
  "redeclare_view_work env name depends query st =
     (let doc = loaded_document env st
      in case map_of (sd_views doc) name of
           None \<Rightarrow> refuse ''VIEW_NOT_FOUND''
         | Some old \<Rightarrow>
             (let before = view_exposed_columns doc name [];
                  v = \<lparr>sv_version = next_version (sv_version old), sv_depends = depends, sv_query = query\<rparr>;
                  doc' = set_view name v doc;
                  after = view_exposed_columns doc' name []
              in if after \<noteq> [] \<and> exposed_shape before \<noteq> exposed_shape after then refuse ''VIEW_SHAPE_CHANGED''
                 else when_valid env doc'
                        (if exposed_shape before \<noteq> exposed_shape after then refuse ''VIEW_SHAPE_CHANGED''
                         else logical_result doc' (sv_version v) False)))"

text \<open>A DDL call on a schema document: \<open>run_operation\<close> with the concrete problems and text.\<close>

definition run_ddl ::
  "ddl_env \<Rightarrow> principal option \<Rightarrow> string \<Rightarrow> ddl_error + unit \<Rightarrow> ddl_store \<Rightarrow> ddl_request \<Rightarrow> string
     \<Rightarrow> (ddl_store \<Rightarrow> schema_document work_outcome) \<Rightarrow> ddl_store list \<times> (ddl_error + ddl_result)" where
  "run_ddl env po ns guard st rq opid work =
     run_operation (de_sha env) (de_parse env) (document_refusals env) (format_schema_document (de_fmt env))
       po ns guard st rq opid work"

fun sort_json :: "json \<Rightarrow> json" where
  "sort_json (JArr xs) = JArr (map sort_json xs)"
| "sort_json (JObj ps) = JObj (sort_key fst (map (\<lambda>p. (fst p, sort_json (snd p))) ps))"
| "sort_json v = v"

definition request_hash_for :: "ddl_env \<Rightarrow> string \<Rightarrow> json \<Rightarrow> string" where
  "request_hash_for env operation request =
     de_sha env (operation @ [CHR 0x00] @ json_compact (de_fmt env) (sort_json request))"

definition table_request :: "ddl_env \<Rightarrow> string \<Rightarrow> string \<Rightarrow> string option \<Rightarrow> json \<Rightarrow> ddl_request" where
  "table_request env operation table key request =
     \<lparr>rq_operation = operation, rq_table = Some table, rq_view = None, rq_key = key,
      rq_hash = request_hash_for env operation request\<rparr>"

definition view_request :: "ddl_env \<Rightarrow> string \<Rightarrow> string \<Rightarrow> string option \<Rightarrow> json \<Rightarrow> ddl_request" where
  "view_request env operation view key request =
     \<lparr>rq_operation = operation, rq_table = None, rq_view = Some view, rq_key = key,
      rq_hash = request_hash_for env operation request\<rparr>"

fun policy_text :: "backfill_policy \<Rightarrow> string" where
  "policy_text Backfill_Null = ''null''"
| "policy_text Backfill_Default = ''default''"
| "policy_text Backfill_Materialize = ''materialize''"

text \<open>The calls: the checks that need no fence come first, then the operation.\<close>

definition first_refusal :: "string option list \<Rightarrow> string option" where
  "first_refusal rs = (case List.find (\<lambda>r. r \<noteq> None) rs of Some r \<Rightarrow> r | None \<Rightarrow> None)"

definition create_table_call ::
  "ddl_env \<Rightarrow> principal option \<Rightarrow> string \<Rightarrow> ddl_error + unit \<Rightarrow> ddl_store \<Rightarrow> string option \<Rightarrow> string
     \<Rightarrow> string \<Rightarrow> string \<Rightarrow> string list \<Rightarrow> declared_column list \<Rightarrow> string
     \<Rightarrow> ddl_store list \<times> (ddl_error + ddl_result)" where
  "create_table_call env po ns guard st key opid name shape keys columns path =
     (case first_refusal
             ([validate_resource_name name,
               if shape \<in> shape_text ` {Object_Rows, Positional_Rows} then None else Some ''VALIDATION_ERROR'',
               if keys = [] then Some ''VALIDATION_ERROR'' else None,
               if columns = [] then Some ''VALIDATION_ERROR'' else None] @
              map validate_column_shape columns @
              [if safe_relative_jsonl_path path then None else Some ''VALIDATION_ERROR'']) of
        Some code \<Rightarrow> ([st], Inl (Work_Error code))
      | None \<Rightarrow>
          (let t = \<lparr>st_version = Fin 1, st_path = path, st_shape = shape, st_keys = keys, st_columns = columns,
                    st_policy = None\<rparr>
           in run_ddl env po ns guard st
                (table_request env ''createTable'' name key
                   (JObj [(''table'', JStr name), (''rowShape'', JStr shape), (''keyColumns'', JArr (map JStr keys)),
                          (''columns'', JArr (map canonical_column columns)), (''storagePath'', JStr path)]))
                opid (create_table_work env name t)))"

definition add_column_call ::
  "ddl_env \<Rightarrow> principal option \<Rightarrow> string \<Rightarrow> ddl_error + unit \<Rightarrow> ddl_store \<Rightarrow> string option \<Rightarrow> string
     \<Rightarrow> string \<Rightarrow> declared_column \<Rightarrow> backfill_policy option \<Rightarrow> ddl_store list \<times> (ddl_error + ddl_result)" where
  "add_column_call env po ns guard st key opid name c requested =
     (case first_refusal [validate_resource_name name, validate_column_shape c] of
        Some code \<Rightarrow> ([st], Inl (Work_Error code))
      | None \<Rightarrow>
          (case resolve_backfill_policy c requested of
             Inl code \<Rightarrow> ([st], Inl (Work_Error code))
           | Inr policy \<Rightarrow>
               run_ddl env po ns guard st
                 (table_request env ''addColumn'' name key
                    (JObj [(''table'', JStr name), (''column'', canonical_column c), (''policy'', JStr (policy_text policy))]))
                 opid (add_column_work env opid name c policy)))"

definition retype_column_call ::
  "ddl_env \<Rightarrow> principal option \<Rightarrow> string \<Rightarrow> ddl_error + unit \<Rightarrow> ddl_store \<Rightarrow> string option \<Rightarrow> string
     \<Rightarrow> string \<Rightarrow> string \<Rightarrow> declared_type \<Rightarrow> backfill_policy \<Rightarrow> ddl_store list \<times> (ddl_error + ddl_result)" where
  "retype_column_call env po ns guard st key opid name column to policy =
     (case first_refusal
             [validate_resource_name name,
              if policy = Backfill_Materialize then None else Some ''BACKFILL_POLICY_REQUIRED'',
              if is_declared_column_type to then None else Some ''VALIDATION_ERROR''] of
        Some code \<Rightarrow> ([st], Inl (Work_Error code))
      | None \<Rightarrow>
          run_ddl env po ns guard st
            (table_request env ''retypeColumn'' name key
               (JObj [(''table'', JStr name), (''column'', JStr column), (''type'', JStr (type_text to)),
                      (''policy'', JStr ''materialize'')]))
            opid (retype_column_work env opid name column to))"

definition view_call ::
  "ddl_env \<Rightarrow> principal option \<Rightarrow> string \<Rightarrow> ddl_error + unit \<Rightarrow> ddl_store \<Rightarrow> string option \<Rightarrow> string
     \<Rightarrow> bool \<Rightarrow> string \<Rightarrow> string list \<Rightarrow> string \<Rightarrow> ddl_store list \<times> (ddl_error + ddl_result)" where
  "view_call env po ns guard st key opid again name depends query =
     (case validate_resource_name name of
        Some code \<Rightarrow> ([st], Inl (Work_Error code))
      | None \<Rightarrow>
          run_ddl env po ns guard st
            (view_request env (if again then ''redeclareView'' else ''declareView'') name key
               (JObj [(''view'', JStr name), (''dependsOn'', JArr (map JStr depends)), (''query'', JStr query)]))
            opid (if again then redeclare_view_work env name depends query else declare_view_work env name depends query))"

section \<open>The migrated rows\<close>

definition migrated_cell :: "(string \<Rightarrow> int option) \<Rightarrow> (string \<times> json) list \<Rightarrow> declared_column \<Rightarrow> json option" where
  "migrated_cell dp values c =
     (let v = or_null (map_of values (dc_name c))
      in if v = JNull then (if \<not> dc_nullable c \<and> dc_default c = None then None else Some (or_null (dc_default c)))
         else (case normalize_declared_value dp c v of Inl p \<Rightarrow> None | Inr w \<Rightarrow> Some w))"

lemma canonical_row_step:
  "canonical_generation_row dp (c # cs) values out =
    Option.bind (migrated_cell dp values c) (\<lambda>w. canonical_generation_row dp cs values (obj_set (dc_name c) w out))"
  by (simp add: migrated_cell_def Let_def split: sum.split)

lemma canonical_row_Some:
  assumes "distinct (map dc_name cs)" and "fst ` set out \<inter> dc_name ` set cs = {}"
    and "canonical_generation_row dp cs values out = Some r"
  shows "(\<forall>c \<in> set cs. migrated_cell dp values c \<noteq> None) \<and>
    r = out @ row_of cs (\<lambda>c. the (migrated_cell dp values c))"
  using assms
proof (induction cs arbitrary: out)
  case (Cons c cs)
  obtain w where w: "migrated_cell dp values c = Some w"
    and r: "canonical_generation_row dp cs values (obj_set (dc_name c) w out) = Some r"
    using Cons.prems(3) unfolding canonical_row_step by (auto simp: bind_eq_Some_conv)
  have o: "obj_set (dc_name c) w out = out @ [(dc_name c, w)]"
    using Cons.prems(2) by (intro obj_set_fresh) auto
  have "fst ` set (out @ [(dc_name c, w)]) \<inter> dc_name ` set cs = {}" using Cons.prems(1,2) by auto
  then show ?case using Cons.IH [OF _ _ r [unfolded o]] Cons.prems(1) w by (simp add: row_of_def)
qed (simp add: row_of_def)

lemma validated_rows:
  assumes "distinct (map dc_name (st_columns t))" and "validate_generation_rows env t seen rs = Some rows"
  shows "length rows = length rs \<and>
    (\<forall>i < length rs. (\<forall>c \<in> set (st_columns t). migrated_cell (de_date env) (rs ! i) c \<noteq> None) \<and>
       rows ! i = row_of (st_columns t) (\<lambda>c. the (migrated_cell (de_date env) (rs ! i) c))) \<and>
    distinct (map (\<lambda>r. join_with [CHR 0x00] (generation_key (de_fmt env) (st_keys t) r)) rows) \<and>
    (\<forall>r \<in> set rows. join_with [CHR 0x00] (generation_key (de_fmt env) (st_keys t) r) \<notin> set seen)"
  using assms(2)
proof (induction rs arbitrary: seen rows)
  case (Cons r rs)
  obtain c where c: "canonical_generation_row (de_date env) (st_columns t) r [] = Some c"
    using Cons.prems by (auto split: option.splits)
  let ?key = "\<lambda>r. join_with [CHR 0x00] (generation_key (de_fmt env) (st_keys t) r)"
  obtain cs where cs: "validate_generation_rows env t (?key c # seen) rs = Some cs" "rows = c # cs" "?key c \<notin> set seen"
    using Cons.prems c by (auto simp: Let_def bind_eq_Some_conv split: if_splits)
  have "(\<forall>x \<in> set (st_columns t). migrated_cell (de_date env) r x \<noteq> None) \<and>
      c = row_of (st_columns t) (\<lambda>x. the (migrated_cell (de_date env) r x))"
    using canonical_row_Some [OF assms(1) _ c] by simp
  then show ?case using Cons.IH [OF cs(1)] cs(2,3) by (auto simp: nth_Cons split: nat.split)
qed simp

section \<open>Reading a written generation\<close>

text \<open>What the code relies on of \<^verbatim>\<open>JSON.parse\<close> for the lines it wrote, and of number texts.\<close>

definition reads_back :: "ddl_env \<Rightarrow> schema_table \<Rightarrow> (string \<times> json) list list \<Rightarrow> bool" where
  "reads_back env t rows \<longleftrightarrow>
     (\<forall>r \<in> set rows. de_parse env (jsonl_line_for_api_row (de_fmt env) (st_columns t) (table_shape t) r) =
        Some (stored_row_from_api_row (st_columns t) (table_shape t) r)) \<and>
     (\<forall>q. newline \<notin> set (de_fmt env q))"

lemma jsonl_line_record:
  assumes "\<forall>q. newline \<notin> set (fmt q)"
  shows "record_line (jsonl_line_for_api_row fmt cs shape r)"
proof -
  have "\<not> is_space (CHR ''['')" "\<not> is_space (CHR ''{'')" by (simp_all add: is_space_def)
  then have "\<not> blank (jsonl_line_for_api_row fmt cs shape r)"
    by (cases shape) (auto simp: blank_iff jsonl_line_for_api_row_def stored_row_from_api_row_def)
  then show ?thesis
    using json_compact_no_newline [OF assms] by (simp add: record_line_def jsonl_line_for_api_row_def)
qed

lemma read_written_generation:
  assumes "distinct (map dc_name (st_columns t))" and "reads_back env t rows"
    and "\<forall>r \<in> set rows. \<exists>g. r = row_of (st_columns t) g"
  shows "read_rows_for_generation env t (Some (lines_text (generation_lines env t rows))) = Some rows"
proof -
  have "file_lines (lines_text (generation_lines env t rows)) = generation_lines env t rows"
    using assms(2) jsonl_line_record by (intro file_lines_text) (auto simp: generation_lines_def reads_back_def)
  moreover have "generation_row env t (jsonl_line_for_api_row (de_fmt env) (st_columns t) (table_shape t) r) = Some r"
    if "r \<in> set rows" for r
  proof -
    have "api_row_from_stored_row (st_columns t) (stored_row_from_api_row (st_columns t) (table_shape t) r) = r"
      using assms(3) that stored_row_back [OF assms(1)] by metis
    then show ?thesis
      using assms(2) that by (cases "table_shape t")
        (auto simp: generation_row_def reads_back_def stored_row_from_api_row_def)
  qed
  ultimately show ?thesis
    unfolding read_rows_for_generation_def generation_lines_def option.case
    using option_map_all_map [of rows "generation_row env t" _ "\<lambda>r. r"] by simp
qed

section \<open>What an operation changes\<close>

lemma add_column_done:
  assumes "add_column_work env opid name c policy st = Work_Done w"
  shows "\<exists>old. map_of (sd_tables (loaded_document env st)) name = Some old \<and> dc_name c \<notin> dc_name ` set (st_columns old) \<and>
    document_refusals env (set_table name (old\<lparr>st_version := next_version (st_version old), st_columns := st_columns old @ [c]\<rparr>)
      (loaded_document env st)) = []"
  using assms by (auto simp: add_column_work_def Let_def refuse_def when_valid_def split: option.splits if_splits)

lemma refusals_Nil [simp]: "document_refusals env doc = [] \<longleftrightarrow> document_wf (de_fmt env) (de_date env) doc"
  by (simp add: document_refusals_def document_problems_Nil)

lemma wf_table_columns:
  assumes "document_wf fmt dp (set_table name t doc)"
  shows "table_wf fmt dp name t"
proof -
  have "(name, t) \<in> set (obj_set name t ts)" for ts by (induction ts) auto
  then show ?thesis using assms by (auto simp: document_wf_def set_table_def)
qed

text \<open>The rows of a materialized table, old and new.\<close>

definition migrated ::
  "ddl_env \<Rightarrow> schema_table \<Rightarrow> (string \<times> json) list list \<Rightarrow> (string \<times> json) list list \<Rightarrow> bool" where
  "migrated env t old_rows rows \<longleftrightarrow>
     length rows = length old_rows \<and>
     (\<forall>i < length rows. \<forall>c \<in> set (st_columns t). map_of (rows ! i) (dc_name c) = migrated_cell (de_date env) (old_rows ! i) c) \<and>
     distinct (map (\<lambda>r. map (\<lambda>k. or_null (map_of r k)) (st_keys t)) rows)"

lemma validated_migrated:
  assumes d: "distinct (map dc_name (st_columns t))" and v: "validate_generation_rows env t [] rs = Some rows"
  shows "migrated env t rs rows \<and> (\<forall>r \<in> set rows. \<exists>g. r = row_of (st_columns t) g)"
proof -
  note m = validated_rows [OF d v]
  have len: "length rows = length rs" using m by blast
  have cells: "\<forall>c \<in> set (st_columns t). migrated_cell (de_date env) (rs ! i) c \<noteq> None"
    and row: "rows ! i = row_of (st_columns t) (\<lambda>c. the (migrated_cell (de_date env) (rs ! i) c))"
    if "i < length rs" for i using m that by blast+
  have "distinct (map (\<lambda>r. join_with [CHR 0x00] (generation_key (de_fmt env) (st_keys t) r)) rows)" using m by blast
  moreover have "map (\<lambda>r. join_with [CHR 0x00] (generation_key (de_fmt env) (st_keys t) r)) rows =
      map (\<lambda>ks. join_with [CHR 0x00] (map (json_compact (de_fmt env)) ks)) (map (\<lambda>r. map (\<lambda>k. or_null (map_of r k)) (st_keys t)) rows)"
    by (simp add: generation_key_def comp_def)
  ultimately have "distinct (map (\<lambda>r. map (\<lambda>k. or_null (map_of r k)) (st_keys t)) rows)" by (metis distinct_map)
  moreover have "map_of (rows ! i) (dc_name c) = migrated_cell (de_date env) (rs ! i) c"
    if "i < length rows" "c \<in> set (st_columns t)" for i c
    using row [of i] cells [of i] that len map_of_row_of [OF d that(2)] by fastforce
  moreover have "\<exists>g. r = row_of (st_columns t) g" if "r \<in> set rows" for r
    using that row len by (metis in_set_conv_nth)
  ultimately show ?thesis using len by (simp add: migrated_def)
qed

lemma materialized_done:
  assumes "materialized_result name t doc (materialize_converted_rows env opid nm previous t rows) = Work_Done w"
  shows "wr_document w = set_table name (t\<lparr>st_path := generation_path_for nm opid\<rparr>) doc \<and>
    wr_generation w = Some (\<lparr>gn_path = generation_path_for nm opid, gn_previousPath = st_path previous,
      gn_sha256 = de_sha env (lines_text (generation_lines env t rows)), gn_rows = length rows\<rparr>,
      lines_text (generation_lines env t rows))"
  using assms
  by (auto simp: materialized_result_def materialize_converted_rows_def Let_def generation_lines_def split: if_splits)

text \<open>The table after a column was added, before its storage path moves.\<close>

definition added_table :: "schema_table \<Rightarrow> declared_column \<Rightarrow> schema_table" where
  "added_table old c = old\<lparr>st_version := next_version (st_version old), st_columns := st_columns old @ [c]\<rparr>"

lemma read_rows_path: "read_rows_for_generation env (t\<lparr>st_path := p\<rparr>) f = read_rows_for_generation env t f"
proof -
  have "generation_row env (t\<lparr>st_path := p\<rparr>) = generation_row env t"
    by (auto simp: generation_row_def table_shape_def fun_eq_iff split: option.splits json.splits)
  then show ?thesis by (cases f) (simp_all add: read_rows_for_generation_def)
qed

lemma add_column_rows:
  assumes "add_column_work env opid name c Backfill_Materialize st = Work_Done w"
    and "map_of (sd_tables (loaded_document env st)) name = Some old"
    and "read_rows_for_generation env old (map_of (ds_files st) (st_path old)) = Some old_rows"
    and "validate_generation_rows env (added_table old c) [] old_rows = Some rows"
    and "reads_back env (added_table old c) rows"
  shows "migrated env (added_table old c) old_rows rows \<and>
    (\<exists>g text. wr_generation w = Some (g, text) \<and>
       map_of (sd_tables (wr_document w)) name = Some ((added_table old c)\<lparr>st_path := gn_path g\<rparr>) \<and>
       read_rows_for_generation env ((added_table old c)\<lparr>st_path := gn_path g\<rparr>) (Some text) = Some rows)"
proof -
  let ?doc = "loaded_document env st" and ?t = "added_table old c"
  have c: "dc_name c \<notin> dc_name ` set (st_columns old)"
    and wf: "document_wf (de_fmt env) (de_date env) (set_table name ?t ?doc)"
    using add_column_done [OF assms(1)] assms(2) by (auto simp: added_table_def)
  have r: "materialized_result name ?t ?doc (materialize_converted_rows env opid name old ?t rows) = Work_Done w"
    using assms(1-4) c wf by (simp add: add_column_work_def Let_def when_valid_def flip: added_table_def)
  have d: "distinct (map dc_name (st_columns ?t))" using wf_table_columns [OF wf] by (simp add: table_wf_def)
  note m = validated_migrated [OF d assms(4)] and res = materialized_done [OF r]
  have "read_rows_for_generation env ?t (Some (lines_text (generation_lines env ?t rows))) = Some rows"
    using read_written_generation [OF d assms(5)] m by blast
  then show ?thesis using m res by (simp add: read_rows_path set_table_def)
qed

text \<open>Every operation changes at most the declaration it names, and leaves a well-formed document.\<close>

definition changes_only_table :: "string \<Rightarrow> schema_document \<Rightarrow> schema_document \<Rightarrow> bool" where
  "changes_only_table name doc doc' \<longleftrightarrow>
     sd_views doc' = sd_views doc \<and> (\<forall>n. n \<noteq> name \<longrightarrow> map_of (sd_tables doc') n = map_of (sd_tables doc) n)"

definition changes_only_view :: "string \<Rightarrow> schema_document \<Rightarrow> schema_document \<Rightarrow> bool" where
  "changes_only_view name doc doc' \<longleftrightarrow>
     sd_tables doc' = sd_tables doc \<and> (\<forall>n. n \<noteq> name \<longrightarrow> map_of (sd_views doc') n = map_of (sd_views doc) n)"

lemma set_table_only: "changes_only_table name doc (set_table name t doc)"
  by (simp add: changes_only_table_def set_table_def)

lemma set_view_only: "changes_only_view name doc (set_view name v doc)"
  by (simp add: changes_only_view_def set_view_def)

lemma logical_result_done: "logical_result doc v b = Work_Done w \<Longrightarrow> wr_document w = doc \<and> wr_generation w = None"
  by (auto simp: logical_result_def)

lemma when_valid_done: "when_valid env doc k = Work_Done w \<Longrightarrow> document_wf (de_fmt env) (de_date env) doc \<and> k = Work_Done w"
  by (auto simp: when_valid_def refuse_def split: if_splits)

lemma refuse_not_done [simp]: "refuse code \<noteq> Work_Done w"
  by (simp add: refuse_def)

lemma create_table_frame:
  "create_table_work env name t st = Work_Done w \<Longrightarrow> changes_only_table name (loaded_document env st) (wr_document w)"
  by (auto simp: create_table_work_def Let_def set_table_only dest!: logical_result_done split: option.splits if_splits)
    (simp add: changes_only_table_def)

lemma materialized_frame:
  "materialized_result name t doc r = Work_Done w \<Longrightarrow> changes_only_table name doc (wr_document w)"
  by (auto simp: materialized_result_def set_table_only split: sum.splits)

lemma add_column_frame:
  "add_column_work env opid name c policy st = Work_Done w \<Longrightarrow> changes_only_table name (loaded_document env st) (wr_document w)"
  by (auto simp: add_column_work_def Let_def set_table_only dest!: when_valid_done logical_result_done
      intro: materialized_frame split: option.splits if_splits)

lemma retype_column_frame:
  "retype_column_work env opid name column to st = Work_Done w \<Longrightarrow>
    changes_only_table name (loaded_document env st) (wr_document w)"
  by (auto simp: retype_column_work_def Let_def dest!: when_valid_done intro: materialized_frame split: option.splits if_splits)

lemma view_frame:
  "declare_view_work env name ds q st = Work_Done w \<Longrightarrow> changes_only_view name (loaded_document env st) (wr_document w)"
  "redeclare_view_work env name ds q st = Work_Done w \<Longrightarrow> changes_only_view name (loaded_document env st) (wr_document w)"
  by (auto simp: declare_view_work_def redeclare_view_work_def Let_def set_view_only
      dest!: when_valid_done logical_result_done split: option.splits if_splits)

section \<open>View redeclaration\<close>

lemma type_text_no_comma: "is_declared_column_type t \<Longrightarrow> CHR '','' \<notin> set (type_text t)"
  by (auto simp: is_declared_column_type_def declared_types_def)

lemma type_text_inj: "is_declared_column_type t \<Longrightarrow> is_declared_column_type u \<Longrightarrow> type_text t = type_text u \<Longrightarrow> t = u"
  by (auto simp: is_declared_column_type_def declared_types_def)

lemma ident_no_sep:
  "column_name_ok s \<Longrightarrow> CHR '','' \<notin> set s \<and> CHR '':'' \<notin> set s"
proof -
  assume ok: "column_name_ok s"
  then have "\<forall>c \<in> set s. is_ident_char c"
    by (cases s) (auto simp: column_name_ok_def is_ident_char_def list_all_iff)
  moreover have "\<not> is_ident_char (CHR '','')" "\<not> is_ident_char (CHR '':'')" by (simp_all add: char_classes)
  ultimately show ?thesis by metis
qed

lemma split_join:
  "ps \<noteq> [] \<Longrightarrow> \<forall>p \<in> set ps. c \<notin> set p \<Longrightarrow> split_on c (join_with [c] ps) = ps"
  by (induction "[c]" ps rule: join_with.induct) (auto simp: split_on_append_sep split_on_id)

lemma join_inj:
  assumes "join_with [c] ps = join_with [c] qs"
    and "\<forall>p \<in> set ps. c \<notin> set p \<and> p \<noteq> []" and "\<forall>q \<in> set qs. c \<notin> set q \<and> q \<noteq> []"
  shows "ps = qs"
proof -
  have "split_on c (join_with [c] rs) = (if rs = [] then [[]] else rs)" if "\<forall>r \<in> set rs. c \<notin> set r \<and> r \<noteq> []" for rs
    using split_join [of rs c] that by auto
  then have "(if ps = [] then [[]] else ps) = (if qs = [] then [[]] else qs)" using assms by metis
  then show ?thesis using assms(2,3) by (auto split: if_splits)
qed

lemma map_eq_transfer:
  "map f xs = map f ys \<Longrightarrow> (\<And>x y. x \<in> set xs \<Longrightarrow> y \<in> set ys \<Longrightarrow> f x = f y \<Longrightarrow> g x = g y) \<Longrightarrow> map g xs = map g ys"
proof (induction xs arbitrary: ys)
  case (Cons x xs)
  then show ?case by (cases ys) auto
qed simp

lemma exposed_shape_inj:
  assumes "exposed_shape cs = exposed_shape ds"
    and "\<forall>c \<in> set cs \<union> set ds. column_name_ok (dc_name c) \<and> is_declared_column_type (dc_type c)"
  shows "map (\<lambda>c. (dc_name c, dc_type c)) cs = map (\<lambda>c. (dc_name c, dc_type c)) ds"
proof -
  let ?e = "\<lambda>c. dc_name c @ '':'' @ type_text (dc_type c)"
  have ok: "CHR '','' \<notin> set (?e c) \<and> ?e c \<noteq> []" if "c \<in> set cs \<union> set ds" for c
    using assms(2) that ident_no_sep type_text_no_comma by fastforce
  have "map ?e cs = map ?e ds"
    by (rule join_inj [of "CHR '',''"]) (use assms(1) ok in \<open>auto simp: exposed_shape_def\<close>)
  moreover have "(dc_name c, dc_type c) = (dc_name d, dc_type d)"
    if "?e c = ?e d" "c \<in> set cs" "d \<in> set ds" for c d
  proof -
    have "CHR '':'' \<notin> set (dc_name c)" "CHR '':'' \<notin> set (dc_name d)" using assms(2) that ident_no_sep by blast+
    then have "split_on (CHR '':'') (?e c) = dc_name c # split_on (CHR '':'') (type_text (dc_type c))"
        "split_on (CHR '':'') (?e d) = dc_name d # split_on (CHR '':'') (type_text (dc_type d))"
      using split_on_append_sep by simp_all
    then have n: "dc_name c = dc_name d" using that(1) by simp
    then have "type_text (dc_type c) = type_text (dc_type d)" using that(1) by simp
    then show ?thesis using n type_text_inj assms(2) that(2,3) by blast
  qed
  ultimately show ?thesis using map_eq_transfer [of ?e cs ds "\<lambda>c. (dc_name c, dc_type c)"] by blast
qed

lemma alias_split_ok: "alias_split pre s = Some (e, a) \<Longrightarrow> column_name_ok a"
  by (induction pre s rule: alias_split.induct)
    (auto simp: alias_tail_def Let_def split: option.splits if_splits)

lemma parse_projection_ok: "parse_projection from p = Inr v \<Longrightarrow> column_name_ok (vp_name v)"
  by (auto simp: parse_projection_def parse_reference_def Let_def split: option.splits list.splits if_splits
      dest: alias_split_ok)

lemma collect_projections_names:
  "collect_projections from raws ps bad = (ps', bad') \<Longrightarrow> \<forall>p \<in> set ps. column_name_ok (vp_name p) \<Longrightarrow>
    \<forall>p \<in> set ps'. column_name_ok (vp_name p)"
proof (induction raws arbitrary: ps bad)
  case (Cons raw raws)
  show ?case
  proof (cases "parse_projection from (trim raw)")
    case (Inl q)
    then show ?thesis using Cons.prems Cons.IH [of ps bad] Cons.IH [of ps "bad @ [q]"]
      by (simp add: Let_def split: if_splits)
  next
    case (Inr v)
    have "\<forall>p \<in> set (ps @ [v]). column_name_ok (vp_name p)" using Cons.prems(2) parse_projection_ok [OF Inr] by simp
    then show ?thesis
      using Inr Cons.prems Cons.IH [of ps bad] Cons.IH [of ps "bad @ [Duplicate_Exposed (vp_name v)]"] Cons.IH [of "ps @ [v]" bad]
      by (simp add: Let_def split: if_splits)
  qed
qed simp

lemma parsed_names:
  assumes "snd (parse_view_query query) = Some q"
  shows "\<forall>p \<in> set (pv_projections q). column_name_ok (vp_name p)"
proof -
  obtain n where n: "token_index (trim query) ''from'' = Some n"
    using assms by (auto simp: parse_view_query_def Let_def split: if_splits option.splits)
  define from_text where "from_text =
    trim (case first_index (List.map_filter (token_index (drop (n + 4) (trim query))) clause_tokens) of
            None \<Rightarrow> drop (n + 4) (trim query) | Some e \<Rightarrow> take e (drop (n + 4) (trim query)))"
  obtain ps bad where c: "collect_projections from_text
      (split_top_level (CHR '','') 0 None [] (trim (drop 6 (take n (trim query))))) [] [] = (ps, bad)"
    by (cases "collect_projections from_text
      (split_top_level (CHR '','') 0 None [] (trim (drop 6 (take n (trim query))))) [] []")
  have "pv_projections q = ps"
    using assms by (auto simp: parse_view_query_def Let_def n c simp flip: from_text_def split: if_splits)
  then show ?thesis using collect_projections_names [OF c] by simp
qed

lemma exposed_names:
  assumes "c \<in> set (view_exposed_columns doc view seen)"
  shows "column_name_ok (dc_name c)"
proof -
  obtain v q where v: "view \<notin> set seen" "map_of (sd_views doc) view = Some v"
      "snd (parse_view_query (sv_query v)) = Some q"
    using exposed_query [OF assms] by blast
  have "\<exists>types. c \<in> set (project_columns types (pv_projections q))"
    using assms v by (subst (asm) view_exposed_columns.simps) (auto split: if_splits option.splits)
  then have "\<exists>p \<in> set (pv_projections q). dc_name c = vp_name p"
    by (auto simp: project_columns_def split: if_splits)
  then show ?thesis using parsed_names [OF v(3)] by metis
qed

lemma loaded_declared: "declared_tables (loaded_document env st)"
proof -
  have "declared_tables empty_schema_document" by (simp add: declared_tables_def empty_schema_document_def)
  then show ?thesis
    using document_wf_declared
    by (auto simp: loaded_document_def schema_document_problems_def document_problems_Nil split: option.splits)
qed

lemma redeclare_shape:
  assumes "redeclare_view_work env name depends query st = Work_Done w"
  shows "map (\<lambda>c. (dc_name c, dc_type c)) (view_exposed_columns (wr_document w) name []) =
    map (\<lambda>c. (dc_name c, dc_type c)) (view_exposed_columns (loaded_document env st) name [])"
proof -
  have e: "exposed_shape (view_exposed_columns (wr_document w) name []) =
        exposed_shape (view_exposed_columns (loaded_document env st) name [])"
    and wf: "document_wf (de_fmt env) (de_date env) (wr_document w)"
    using assms by (auto simp: redeclare_view_work_def Let_def dest!: when_valid_done logical_result_done
        split: option.splits if_splits)
  show ?thesis
    by (rule exposed_shape_inj [OF e])
      (use exposed_names exposed_declared [OF document_wf_declared [OF wf]] exposed_declared [OF loaded_declared] in blast)
qed

section \<open>The canonical document is as well-formed\<close>

lemma canonical_views [simp]: "map_of (sd_views (canonical_document doc)) = map_of (sd_views doc)"
  using canonical_document_lookup(2) by blast

lemma canonical_tables:
  "map_of (sd_tables (canonical_document doc)) n = map_option (\<lambda>t. t\<lparr>st_policy := None\<rparr>) (map_of (sd_tables doc) n)"
  by (rule canonical_document_lookup(1))

lemma canonical_exposed: "view_exposed_columns (canonical_document doc) view seen = view_exposed_columns doc view seen"
proof (induction doc view seen rule: view_exposed_columns.induct)
  case (1 doc view seen)
  show ?case
  proof (cases "map_of (sd_views doc) view")
    case None
    then show ?thesis by (subst (1 2) view_exposed_columns.simps) simp
  next
    case (Some v)
    note v = this
    show ?thesis
    proof (cases "snd (parse_view_query (sv_query v))")
      case None
      then show ?thesis using v by (subst (1 2) view_exposed_columns.simps) simp
    next
      case (Some q)
      have "view_exposed_columns (canonical_document doc) (pv_dependency q) (view # seen) =
          view_exposed_columns doc (pv_dependency q) (view # seen)"
        if "view \<notin> set seen" "map_of (sd_tables doc) (pv_dependency q) = None"
          "map_of (sd_views doc) (pv_dependency q) \<noteq> None"
        using 1 [OF that(1) v Some that(2,3)] .
      then show ?thesis using v Some
        by (cases "map_of (sd_tables doc) (pv_dependency q)"; cases "map_of (sd_views doc) (pv_dependency q)";
            subst (1 2) view_exposed_columns.simps) (simp_all add: canonical_tables)
    qed
  qed
qed

lemma canonical_types: "exposed_types (canonical_document doc) d seen = exposed_types doc d seen"
  by (simp add: exposed_types_def canonical_tables canonical_exposed split: option.split)

lemma canonical_dependencies: "dependency_problems (canonical_document doc) n seen ds = dependency_problems doc n seen ds"
  by (induction ds arbitrary: seen) (simp_all add: is_resource_def canonical_tables)

lemma canonical_validate_view: "validate_view (canonical_document doc) n v = validate_view doc n v"
proof -
  have "query_problems (canonical_document doc) n v = query_problems doc n v"
    by (rule ext) (simp add: query_problems_def canonical_types)
  then show ?thesis
    by (cases "snd (parse_view_query (sv_query v))") (simp_all add: validate_view_def canonical_dependencies)
qed

lemma canonical_edges: "view_edges (canonical_document doc) = view_edges doc"
  by (simp add: view_edges_def view_deps_def)

lemma canonical_reference: "reference_wf doc c \<Longrightarrow> reference_wf (canonical_document doc) c"
  by (auto simp: reference_wf_def canonical_tables split: option.splits)

lemma table_wf_policy: "table_wf fmt dp n (t\<lparr>st_policy := p\<rparr>) \<longleftrightarrow> table_wf fmt dp n t"
  by (simp add: table_wf_def)

lemma distinct_map_sort_key: "distinct (map f (sort_key g xs)) \<longleftrightarrow> distinct (map f xs)"
  by (simp add: distinct_map)

lemma canonical_wf:
  assumes "document_wf fmt dp doc"
  shows "document_wf fmt dp (canonical_document doc)"
proof -
  have "map (\<lambda>(n, t). st_path t) (sd_tables (canonical_document doc)) =
      map (\<lambda>(n, t). st_path t) (sort_key fst (sd_tables doc))"
    by (simp add: canonical_document_def comp_def case_prod_unfold)
  then have "distinct (map (\<lambda>(n, t). st_path t) (sd_tables (canonical_document doc)))"
    using assms by (simp only: distinct_map_sort_key document_wf_def)
  moreover have "set (sd_views (canonical_document doc)) = set (sd_views doc)"
    by (simp add: canonical_document_def)
  moreover have "table_wf fmt dp n t \<and> (\<forall>c \<in> set (st_columns t). reference_wf (canonical_document doc) c)"
    if "(n, t) \<in> set (sd_tables (canonical_document doc))" for n t
    using that assms canonical_reference
    by (fastforce simp: canonical_document_def document_wf_def table_wf_policy)
  ultimately show ?thesis
    using assms by (auto simp: document_wf_def canonical_validate_view canonical_edges)
qed

lemma wf_normal: "document_wf fmt dp doc \<Longrightarrow> document_normal doc"
proof -
  assume wf: "document_wf fmt dp doc"
  have pos: "positive_integer x \<Longrightarrow> is_finite x" for x by (cases x) auto
  have dec: "type_of_text (type_text ty) = ty" if d: "is_declared_column_type ty" for ty
  proof -
    obtain u where u: "List.find (\<lambda>t. type_text t = type_text ty) declared_types = Some u"
      using d find_None_all [of "\<lambda>t. type_text t = type_text ty" declared_types]
      by (cases "List.find (\<lambda>t. type_text t = type_text ty) declared_types") (auto simp: is_declared_column_type_def)
    then have "u = ty" using find_Some_set [OF u] d type_text_inj by (auto simp: is_declared_column_type_def)
    then show ?thesis using u by (simp add: type_of_text_def)
  qed
  have "table_normal t" if "(n, t) \<in> set (sd_tables doc)" for n t
  proof -
    have "table_wf fmt dp n t" using wf that by (auto simp: document_wf_def)
    then show ?thesis using pos dec by (auto simp: table_wf_def table_normal_def column_normal_def column_wf_def)
  qed
  moreover have "is_finite (sv_version v)" if "(n, v) \<in> set (sd_views doc)" for n v
  proof -
    have "validate_view doc n v = []" using wf that by (auto simp: document_wf_def)
    then have "positive_integer (sv_version v)" by (simp add: validate_view_def split: if_splits)
    then show ?thesis by (rule pos)
  qed
  ultimately show ?thesis by (auto simp: document_normal_def)
qed

lemma loaded_published:
  assumes "ds_schema r = Some (format_schema_document (de_fmt env) doc)" and "document_wf (de_fmt env) (de_date env) doc"
    and "de_parse env (format_schema_document (de_fmt env) doc) = Some (document_json doc)"
  shows "loaded_document env r = canonical_document doc"
proof -
  have p: "parse_document (document_json doc) = Some (canonical_document doc)"
    by (rule parse_document_json [OF wf_normal [OF assms(2)]])
  then have "schema_document_problems (de_fmt env) (de_date env) (document_json doc) = []"
    using canonical_wf [OF assms(2)] by (simp add: schema_document_problems_def document_problems_Nil)
  then show ?thesis using assms(1,3) p by (simp add: loaded_document_def)
qed

lemma loaded_schema: "ds_schema a = ds_schema b \<Longrightarrow> loaded_document env a = loaded_document env b"
  by (simp add: loaded_document_def)

section \<open>The outcomes of the operations\<close>

definition ddl_outcome :: "ddl_env \<Rightarrow> string \<Rightarrow> ddl_store \<Rightarrow> schema_document work_outcome \<Rightarrow> bool" where
  "ddl_outcome env opid st outcome \<longleftrightarrow>
     (\<exists>name t. outcome = create_table_work env name t st) \<or>
     (\<exists>name c policy. outcome = add_column_work env opid name c policy st) \<or>
     (\<exists>name column to. outcome = retype_column_work env opid name column to st) \<or>
     (\<exists>name depends query. outcome = declare_view_work env name depends query st \<or>
        outcome = redeclare_view_work env name depends query st)"

definition fresh_operation :: "ddl_env \<Rightarrow> string \<Rightarrow> ddl_store \<Rightarrow> bool" where
  "fresh_operation env opid st \<longleftrightarrow>
     (\<forall>name. generation_path_for name opid \<notin> set (live_paths (de_parse env) (ds_schema st)))"

text \<open>The files an operation writes are its own generation, and the digest is that of the text.\<close>

definition own_generation :: "ddl_env \<Rightarrow> string \<Rightarrow> schema_document work_outcome \<Rightarrow> bool" where
  "own_generation env opid outcome \<longleftrightarrow>
     (\<forall>p text. written_file outcome = Some (p, text) \<longrightarrow> (\<exists>name. p = generation_path_for name opid)) \<and>
     (\<forall>g text. generation_of outcome = Some (g, text) \<longrightarrow> gn_sha256 g = de_sha env text)"

lemma own_refuse: "own_generation env opid (refuse code)"
  by (simp add: own_generation_def refuse_def written_file_def generation_of_def)

lemma own_logical: "own_generation env opid (logical_result doc v b)"
  by (simp add: own_generation_def logical_result_def written_file_def generation_of_def)

lemma own_materialized:
  "own_generation env opid (materialized_result name t doc (materialize_converted_rows env opid nm previous t rows))"
  by (auto simp: own_generation_def materialized_result_def materialize_converted_rows_def Let_def written_file_def
      generation_of_def)

lemmas own_intros = own_refuse own_logical own_materialized

lemma own_outcome:
  assumes "ddl_outcome env opid st outcome"
  shows "own_generation env opid outcome"
  using assms own_intros
  by (auto simp: ddl_outcome_def create_table_work_def add_column_work_def retype_column_work_def declare_view_work_def
      redeclare_view_work_def Let_def when_valid_def split: option.splits)

section \<open>Properties\<close>

text \<open>C16: a schema change is atomic.  Whatever operation runs and whatever durable step it is cut off
  after, recovery leaves a settled namespace in which the loaded document is the one before the
  operation or the one the operation computed, in canonical form and with its generation on
  disk, and every file the old schema named keeps its content.\<close>

theorem ddl_change_atomic:
  assumes "ddl_outcome env opid st outcome" and "store_settled st" and "distinct (map fst (ds_journals st))"
    and "fresh_operation env opid st"
    and "\<forall>w. outcome = Work_Done w \<longrightarrow>
      de_parse env (format_schema_document (de_fmt env) (wr_document w)) = Some (document_json (wr_document w))"
    and "\<forall>w b. outcome = Work_Done w \<longrightarrow> ds_schema st = Some b \<longrightarrow>
      de_sha env (format_schema_document (de_fmt env) (wr_document w)) = de_sha env b \<longrightarrow>
      format_schema_document (de_fmt env) (wr_document w) = b"
    and "s \<in> set (fst (operation_trace (de_sha env) (document_refusals env) (format_schema_document (de_fmt env))
      st rq opid outcome))"
    and "r = recover_locked (de_sha env) (de_parse env) s"
  shows "store_settled r \<and>
    (loaded_document env r = loaded_document env st \<or>
     (\<exists>w. outcome = Work_Done w \<and> loaded_document env r = canonical_document (wr_document w) \<and>
        (\<forall>g text. wr_generation w = Some (g, text) \<longrightarrow> map_of (ds_files r) (gn_path g) = Some text))) \<and>
    (\<forall>p \<in> set (live_paths (de_parse env) (ds_schema st)). map_of (ds_files r) p = map_of (ds_files st) p)"
proof -
  let ?new = "published (document_refusals env) (format_schema_document (de_fmt env)) outcome"
  have "operation_start (de_sha env) (de_parse env) (document_refusals env) (format_schema_document (de_fmt env)) st outcome"
    using assms(2-4,6) own_outcome [OF assms(1)]
    by (fastforce simp: operation_start_def own_generation_def fresh_operation_def published_def
        split: work_outcome.splits if_splits)
  from crash_recovers [OF this assms(7)]
  have ok: "recovered_ok (de_parse env) st opid ?new (generation_of outcome) r" by (simp add: assms(8))
  have "loaded_document env r = loaded_document env st \<or>
     (\<exists>w. outcome = Work_Done w \<and> loaded_document env r = canonical_document (wr_document w) \<and>
        (\<forall>g text. wr_generation w = Some (g, text) \<longrightarrow> map_of (ds_files r) (gn_path g) = Some text))"
  proof (cases "ds_schema r = ds_schema st")
    case True
    then show ?thesis using loaded_schema by blast
  next
    case False
    then have new: "?new \<noteq> None" "ds_schema r = ?new"
      and gen: "\<forall>g t. generation_of outcome = Some (g, t) \<longrightarrow> map_of (ds_files r) (gn_path g) = Some t"
      using ok by (auto simp: recovered_ok_def)
    then obtain w where w: "outcome = Work_Done w" and wf: "document_wf (de_fmt env) (de_date env) (wr_document w)"
      by (auto simp: published_def split: work_outcome.splits if_splits)
    have "ds_schema r = Some (format_schema_document (de_fmt env) (wr_document w))"
      using new(2) wf by (simp add: published_def w)
    from loaded_published [OF this wf] assms(5) w gen show ?thesis by (simp add: generation_of_def)
  qed
  then show ?thesis using ok by (simp add: recovered_ok_def)
qed

text \<open>C17: adding a column migrates the rows faithfully.  A materialized \<^verbatim>\<open>addColumn\<close> writes a generation
  that reads back, under the new declaration, row for row: every old value in canonical form,
  the declared default or \<^verbatim>\<open>null\<close> where there was none, and no two rows with the same key.\<close>

theorem add_column_migrates:
  assumes "add_column_work env opid name c Backfill_Materialize st = Work_Done w"
    and "map_of (sd_tables (loaded_document env st)) name = Some old"
    and "read_rows_for_generation env old (map_of (ds_files st) (st_path old)) = Some old_rows"
    and "validate_generation_rows env (added_table old c) [] old_rows = Some rows"
    and "reads_back env (added_table old c) rows"
  shows "migrated env (added_table old c) old_rows rows \<and>
    (\<exists>g text. wr_generation w = Some (g, text) \<and>
       map_of (sd_tables (wr_document w)) name = Some ((added_table old c)\<lparr>st_path := gn_path g\<rparr>) \<and>
       read_rows_for_generation env ((added_table old c)\<lparr>st_path := gn_path g\<rparr>) (Some text) = Some rows)"
  by (rule add_column_rows [OF assms])


text \<open>Redeclaring a view keeps its shape.  An accepted \<^verbatim>\<open>redeclareView\<close> exposes exactly the names
  and types the view exposed before.\<close>

theorem redeclare_keeps_shape:
  assumes "redeclare_view_work env name depends query st = Work_Done w"
  shows "map (\<lambda>c. (dc_name c, dc_type c)) (view_exposed_columns (wr_document w) name []) =
    map (\<lambda>c. (dc_name c, dc_type c)) (view_exposed_columns (loaded_document env st) name [])"
  by (rule redeclare_shape [OF assms])

section \<open>Witnesses\<close>

definition demo_env :: "(string \<Rightarrow> json option) \<Rightarrow> ddl_env" where
  "demo_env parse = \<lparr>de_fmt = (\<lambda>_. []), de_date = (\<lambda>_. None), de_parse = parse, de_sha = (\<lambda>t. t), de_number = (\<lambda>_. Fin 0)\<rparr>"

definition created_document :: schema_document where
  "created_document = \<lparr>sd_tables = [(''t'', demo_table None)], sd_views = []\<rparr>"

definition empty_store :: ddl_store where
  "empty_store = \<lparr>ds_schema = None, ds_files = [], ds_journals = []\<rparr>"

abbreviation created_env :: ddl_env where
  "created_env \<equiv> demo_env (\<lambda>_. Some (document_json created_document))"

lemma loaded_empty: "loaded_document env empty_store = empty_schema_document"
  by (simp add: loaded_document_def empty_store_def)

lemma create_work:
  "create_table_work created_env ''t'' (demo_table None) empty_store =
    Work_Done \<lparr>wr_document = created_document, wr_schemaVersion = 1, wr_replay = False, wr_generation = None\<rparr>"
  unfolding create_table_work_def loaded_empty
  by (simp add: empty_schema_document_def logical_result_def set_table_def created_document_def demo_table_def)

theorem ddl_change_atomic_witness:
  "\<exists>s. store_settled (recover_locked (de_sha created_env) (de_parse created_env) s)"
proof -
  let ?w = "\<lparr>wr_document = created_document, wr_schemaVersion = 1, wr_replay = False, wr_generation = None\<rparr>"
  let ?trace = "fst (operation_trace (de_sha created_env) (document_refusals created_env)
      (format_schema_document (de_fmt created_env)) empty_store demo_request ''op1'' (Work_Done ?w))"
  have h: "hd ?trace \<in> set ?trace" by (simp add: operation_trace_def Let_def)
  have o: "ddl_outcome created_env ''op1'' empty_store (Work_Done ?w)"
    unfolding ddl_outcome_def using create_work by metis
  have e: "store_settled empty_store" "distinct (map fst (ds_journals empty_store))"
      "fresh_operation created_env ''op1'' empty_store"
    by (simp_all add: store_settled_def empty_store_def fresh_operation_def live_paths_def)
  have p: "\<forall>w. Work_Done ?w = Work_Done w \<longrightarrow>
      de_parse created_env (format_schema_document (de_fmt created_env) (wr_document w)) = Some (document_json (wr_document w))"
    by (auto simp: demo_env_def)
  have n: "\<forall>w b. Work_Done ?w = Work_Done w \<longrightarrow> ds_schema empty_store = Some b \<longrightarrow>
      de_sha created_env (format_schema_document (de_fmt created_env) (wr_document w)) = de_sha created_env b \<longrightarrow>
      format_schema_document (de_fmt created_env) (wr_document w) = b"
    by (simp add: empty_store_def)
  from ddl_change_atomic [OF o e p n h refl] show ?thesis by blast
qed


text \<open>A table with one stored row, to which a nullable column is added.\<close>

definition note_column :: declared_column where
  "note_column = \<lparr>dc_name = ''note'', dc_type = Ty_String, dc_nullable = True, dc_default = None, dc_references = None\<rparr>"

definition row_env :: ddl_env where
  "row_env = demo_env (\<lambda>t. if t = ''s'' then Some (document_json created_document)
     else if t = ''r'' then Some (JObj [(''id'', JStr ''7'')])
     else Some (JObj [(''id'', JStr ''7''), (''note'', JNull)]))"

definition row_store :: ddl_store where
  "row_store = \<lparr>ds_schema = Some ''s'', ds_files = [(''t/c.jsonl'', ''r'')], ds_journals = []\<rparr>"

lemma row_loaded: "loaded_document row_env row_store = created_document"
  by code_simp

lemma row_work: "case add_column_work row_env ''op1'' ''t'' note_column Backfill_Materialize row_store of
    Work_Done w \<Rightarrow> True | Work_Threw e l \<Rightarrow> False"
  by code_simp

theorem add_column_migrates_witness:
  "\<exists>w g text. add_column_work row_env ''op1'' ''t'' note_column Backfill_Materialize row_store = Work_Done w \<and>
    wr_generation w = Some (g, text) \<and>
    read_rows_for_generation row_env ((added_table (demo_table None) note_column)\<lparr>st_path := gn_path g\<rparr>) (Some text) =
      Some [[(''id'', JStr ''7''), (''note'', JNull)]]"
proof -
  obtain w where w: "add_column_work row_env ''op1'' ''t'' note_column Backfill_Materialize row_store = Work_Done w"
    using row_work by (auto split: work_outcome.splits)
  have t: "map_of (sd_tables (loaded_document row_env row_store)) ''t'' = Some (demo_table None)"
    unfolding row_loaded by (simp add: created_document_def)
  have r: "read_rows_for_generation row_env (demo_table None) (map_of (ds_files row_store) (st_path (demo_table None))) =
      Some [[(''id'', JStr ''7'')]]" by code_simp
  have v: "validate_generation_rows row_env (added_table (demo_table None) note_column) [] [[(''id'', JStr ''7'')]] =
      Some [[(''id'', JStr ''7''), (''note'', JNull)]]" by code_simp
  have l: "jsonl_line_for_api_row (de_fmt row_env) (st_columns (added_table (demo_table None) note_column))
      (table_shape (added_table (demo_table None) note_column)) [(''id'', JStr ''7''), (''note'', JNull)] \<notin> {''s'', ''r''}"
    by code_simp
  have "reads_back row_env (added_table (demo_table None) note_column) [[(''id'', JStr ''7''), (''note'', JNull)]]"
    using l by (simp add: reads_back_def row_env_def demo_env_def stored_row_from_api_row_def table_shape_def
        added_table_def demo_table_def demo_key_column_def note_column_def or_null_def)
  from add_column_migrates [OF w t r v this] w show ?thesis by blast
qed

text \<open>The document with the view \<^verbatim>\<open>v\<close>, redeclared with the query it already has.\<close>

definition renewed_document :: schema_document where
  "renewed_document = \<lparr>sd_tables = [(''t'', demo_table None)], sd_views = [(''v'', demo_view\<lparr>sv_version := Fin 2\<rparr>)]\<rparr>"

abbreviation view_env :: ddl_env where
  "view_env \<equiv> demo_env (\<lambda>_. Some (document_json demo_document))"

lemma renewed_valid: "document_problems (\<lambda>_. []) (\<lambda>_. None) renewed_document = []"
proof -
  have t: "validate_table (\<lambda>_. []) (\<lambda>_. None) ''t'' (demo_table None) = []" by code_simp
  have c: "validate_view_cycles renewed_document = []" by code_simp
  have i: "referenced_identifiers ''select id from t'' = [''id'', ''t'']" by code_simp
  have n: "resource_name_problems ''view'' ''v'' = []" by code_simp
  have "validate_view renewed_document ''v'' (demo_view\<lparr>sv_version := Fin 2\<rparr>) = []"
    by (simp add: validate_view_def n demo_view_def demo_query query_problems_def exposed_types_def renewed_document_def
        column_types_def demo_table_def demo_key_column_def i is_resource_def)
  then show ?thesis
    using t c by (simp add: document_problems_def renewed_document_def validate_references_def reference_problems_def)
      (simp add: demo_table_def demo_key_column_def)
qed

lemma view_loaded: "loaded_document view_env row_store = demo_document"
proof -
  have p: "parse_document (document_json demo_document) = Some demo_document"
    by code_simp
  show ?thesis
    by (simp add: loaded_document_def row_store_def demo_env_def schema_document_problems_def p demo_valid)
qed

lemma demo_exposed:
  "view_exposed_columns demo_document ''v'' [] = [demo_key_column\<lparr>dc_nullable := True\<rparr>]"
  "view_exposed_columns renewed_document ''v'' [] = [demo_key_column\<lparr>dc_nullable := True\<rparr>]"
  by (subst view_exposed_columns.simps,
      simp add: demo_document_def renewed_document_def demo_view_def demo_query demo_table_def demo_key_column_def
        project_columns_def column_types_def)+

lemma redeclare_work:
  "redeclare_view_work view_env ''v'' [''t''] ''select id from t'' row_store =
    Work_Done \<lparr>wr_document = renewed_document, wr_schemaVersion = 2, wr_replay = False, wr_generation = None\<rparr>"
proof -
  have s: "set_view ''v'' (demo_view\<lparr>sv_version := Fin 2\<rparr>) demo_document = renewed_document"
    by (simp add: set_view_def demo_document_def renewed_document_def)
  have v: "\<lparr>sv_version = Fin 2, sv_depends = [''t''], sv_query = ''select id from t''\<rparr> = demo_view\<lparr>sv_version := Fin 2\<rparr>"
    by (simp add: demo_view_def)
  have o: "map_of (sd_views demo_document) ''v'' = Some demo_view" "next_version (sv_version demo_view) = Fin 2"
    by (simp_all add: demo_document_def demo_view_def)
  have d: "document_refusals view_env renewed_document = []"
    by (simp add: document_refusals_def demo_env_def renewed_valid)
  show ?thesis
    unfolding redeclare_view_work_def view_loaded Let_def
    by (simp add: o v s demo_exposed when_valid_def d logical_result_def)
qed

theorem redeclare_keeps_shape_witness:
  "map (\<lambda>c. (dc_name c, dc_type c)) (view_exposed_columns renewed_document ''v'' []) = [(''id'', Ty_Int64)]"
  using redeclare_keeps_shape [OF redeclare_work]
  by (simp add: view_loaded demo_exposed demo_key_column_def)

end
