(* ===== verification/Jsonl_Store.thy ===== *)
theory Jsonl_Store
  imports Audit_Ledger
begin

text \<open>
  Chunked JSONL partitions, \<^verbatim>\<open>src/storage/jsonl.ts\<close> and the framed append of
  \<^verbatim>\<open>src/storage/durability.ts\<close>: the order of chunk names, the file the next append lands in, the
  append itself in its line and its block-framed form, and the readers.  A partition directory
  is the list of its files, name and content, in the order \<^verbatim>\<open>readdirSync\<close> returns them; a missing
  directory is the empty list.  \<^verbatim>\<open>localeCompare\<close> is the argument \<open>lc\<close>, and \<^verbatim>\<open>JSON.parse\<close> followed
  by the row schema is the argument \<open>decode\<close>.  Numbers in file names are below \<open>2^53\<close>.
\<close>

section \<open>Chunk names\<close>

definition current_chunk :: string where
  "current_chunk = ''current.jsonl''"

definition chunk_name :: "nat \<Rightarrow> string" where
  "chunk_name n = pad_zero 4 (show_nat n) @ jsonl_ext"

definition is_numeric_chunk :: "string \<Rightarrow> bool" where
  "is_numeric_chunk n \<longleftrightarrow>
     ends_with jsonl_ext n \<and> (let ds = take (length n - 6) n in ds \<noteq> [] \<and> list_all is_digit ds)"

text \<open>\<^verbatim>\<open>parseInt(name, 10)\<close> of a name that starts with digits.\<close>

definition chunk_number :: "string \<Rightarrow> nat" where
  "chunk_number n = parse_nat (takeWhile is_digit n)"

definition compare_chunk_names :: "(string \<Rightarrow> string \<Rightarrow> int) \<Rightarrow> string \<Rightarrow> string \<Rightarrow> int" where
  "compare_chunk_names lc a b =
     (if is_numeric_chunk a \<and> is_numeric_chunk b then int (chunk_number a) - int (chunk_number b)
      else if is_numeric_chunk a then - 1
      else if is_numeric_chunk b then 1
      else lc a b)"

text \<open>The numeric chunks of a directory in order; \<open>lc\<close> is never asked.\<close>

definition numeric_chunks :: "ledger_dir \<Rightarrow> string list" where
  "numeric_chunks d = sort_by (compare_chunk_names (\<lambda>_ _. 0)) (filter is_numeric_chunk (map fst d))"

lemma chunk_name_inj [simp]: "chunk_name a = chunk_name b \<longleftrightarrow> a = b"
  by (simp add: chunk_name_def)

text \<open>The \<^verbatim>\<open>while\<close> loop that steps over existing names.\<close>

function next_free :: "string list \<Rightarrow> nat \<Rightarrow> nat" where
  "next_free names n = (if chunk_name n \<in> set names then next_free names (n + 1) else n)"
  by pat_completeness auto

termination
proof (relation "measure (\<lambda>(names, n). card {m. n \<le> m \<and> chunk_name m \<in> set names})")
  fix names :: "string list" and n
  assume present: "chunk_name n \<in> set names"
  have "inj chunk_name" by (simp add: inj_def)
  then have "finite (chunk_name -` set names)" by (simp add: finite_vimageI)
  then have "finite {m. n \<le> m \<and> chunk_name m \<in> set names}" by (rule rev_finite_subset) auto
  moreover have "n \<in> {m. n \<le> m \<and> chunk_name m \<in> set names} - {m. n + 1 \<le> m \<and> chunk_name m \<in> set names}"
    using present by simp
  then have "{m. n + 1 \<le> m \<and> chunk_name m \<in> set names} \<subset> {m. n \<le> m \<and> chunk_name m \<in> set names}"
    by fastforce
  ultimately show "((names, n + 1), (names, n)) \<in> measure (\<lambda>(names, n). card {m. n \<le> m \<and> chunk_name m \<in> set names})"
    by (simp add: psubset_card_mono)
qed simp

declare next_free.simps [simp del]

definition get_next_chunk_name :: "ledger_dir \<Rightarrow> string" where
  "get_next_chunk_name d =
     (if numeric_chunks d = [] then ''0001.jsonl''
      else chunk_name (next_free (map fst d) (chunk_number (last (numeric_chunks d)) + 1)))"

section \<open>Appending\<close>

definition max_lines_per_chunk :: nat where
  "max_lines_per_chunk = 1000"

definition max_bytes_per_chunk :: nat where
  "max_bytes_per_chunk = 1024 * 1024"

definition active_chunk :: "ledger_dir \<Rightarrow> string \<Rightarrow> string" where
  "active_chunk d name =
     (if name = current_chunk \<and> numeric_chunks d \<noteq> [] then last (numeric_chunks d) else name)"

definition chunk_full :: "string \<Rightarrow> string \<Rightarrow> bool" where
  "chunk_full content line \<longleftrightarrow>
     max_bytes_per_chunk < utf8_length content + utf8_length (line @ [newline]) \<or>
     max_lines_per_chunk \<le> count_non_blank content"

definition resolve_jsonl_target :: "ledger_dir \<Rightarrow> string \<Rightarrow> string \<Rightarrow> string" where
  "resolve_jsonl_target d name line =
     (if map_of d (active_chunk d name) = None then active_chunk d name
      else if chunk_full (content_of d (active_chunk d name)) line then get_next_chunk_name d
      else active_chunk d name)"

text \<open>An append to a file of the directory: \<^verbatim>\<open>appendFileSync\<close> creates a missing file.\<close>

definition append_file :: "string \<Rightarrow> string \<Rightarrow> ledger_dir \<Rightarrow> ledger_dir" where
  "append_file n bytes d = obj_set n (content_of d n @ bytes) d"

definition append_with :: "(string \<Rightarrow> string) \<Rightarrow> ledger_dir \<Rightarrow> string \<Rightarrow> string \<Rightarrow> ledger_dir" where
  "append_with bytes d name line = append_file (resolve_jsonl_target d name line) (bytes line) d"

definition plain_record :: "string \<Rightarrow> string" where
  "plain_record line = line @ [newline]"

definition append_chunk :: "ledger_dir \<Rightarrow> string \<Rightarrow> string \<Rightarrow> ledger_dir" where
  "append_chunk d name line = append_with plain_record d name line"

definition durability_block_size :: nat where
  "durability_block_size = 4096"

text \<open>\<^verbatim>\<open>Math.max(1, Math.ceil(n / 4096))\<close> blocks, padded with line separators.\<close>

definition frame_blocks :: "nat \<Rightarrow> nat" where
  "frame_blocks n = max 1 ((n + durability_block_size - 1) div durability_block_size)"

definition frame_jsonl_record :: "string \<Rightarrow> string" where
  "frame_jsonl_record line =
     (let payload = line @ [newline]
      in payload @ replicate (frame_blocks (utf8_length payload) * durability_block_size - utf8_length payload) newline)"

definition is_memory_shaped :: "json \<Rightarrow> bool" where
  "is_memory_shaped v =
     (case v of JObj ps \<Rightarrow> (case map_of ps ''key'' of Some (JStr s) \<Rightarrow> True | _ \<Rightarrow> False) | _ \<Rightarrow> False)"

definition direct_target :: "ledger_dir \<Rightarrow> string \<Rightarrow> json \<Rightarrow> string \<Rightarrow> string" where
  "direct_target d name v line = (if is_memory_shaped v then resolve_jsonl_target d name line else name)"

definition append_jsonl_direct :: "ledger_dir \<Rightarrow> string \<Rightarrow> json \<Rightarrow> string \<Rightarrow> ledger_dir" where
  "append_jsonl_direct d name v line = append_file (direct_target d name v line) (frame_jsonl_record line) d"

section \<open>Reading\<close>

text \<open>The records of one file; a limit of zero is no limit, \<open>Inl\<close> the number of the bad line.\<close>

fun read_lines :: "(string \<Rightarrow> 'a option) \<Rightarrow> nat \<Rightarrow> nat \<Rightarrow> string list \<Rightarrow> nat + 'a list" where
  "read_lines decode limit i [] = Inr []"
| "read_lines decode limit i (l # ls) =
     (if limit \<noteq> 0 \<and> limit \<le> i then Inr []
      else case decode l of
          None \<Rightarrow> Inl (i + 1)
        | Some r \<Rightarrow> res_bind (read_lines decode limit (i + 1) ls) (\<lambda>rs. Inr (r # rs)))"

definition read_from_jsonl :: "(string \<Rightarrow> 'a option) \<Rightarrow> nat \<Rightarrow> string option \<Rightarrow> nat + 'a list" where
  "read_from_jsonl decode limit content =
     (case content of None \<Rightarrow> Inr [] | Some t \<Rightarrow> read_lines decode limit 0 (file_lines t))"

fun read_chunks ::
  "(string \<Rightarrow> 'a option) \<Rightarrow> nat \<Rightarrow> ledger_dir \<Rightarrow> 'a list \<Rightarrow> string list \<Rightarrow> nat + 'a list" where
  "read_chunks decode limit d acc [] = Inr acc"
| "read_chunks decode limit d acc (c # cs) =
     res_bind (read_from_jsonl decode 0 (map_of d c)) (\<lambda>rs.
       if limit \<noteq> 0 \<and> limit \<le> length (acc @ rs) then Inr (take limit (acc @ rs))
       else read_chunks decode limit d (acc @ rs) cs)"

definition read_partition ::
  "(string \<Rightarrow> string \<Rightarrow> int) \<Rightarrow> (string \<Rightarrow> 'a option) \<Rightarrow> nat \<Rightarrow> ledger_dir \<Rightarrow> nat + 'a list" where
  "read_partition lc decode limit d =
     read_chunks decode limit d [] (sort_by (compare_chunk_names lc) (filter (ends_with jsonl_ext) (map fst d)))"

section \<open>Names and their order\<close>

lemma numeric_chunk_name [simp]: "is_numeric_chunk (chunk_name n)"
  using pad_zero_digits [OF show_nat_digits, of 4 n]
  by (auto simp: is_numeric_chunk_def chunk_name_def ends_with_iff jsonl_ext_def list_all_iff Let_def)

lemma chunk_number_name [simp]: "chunk_number (chunk_name n) = n"
proof -
  have "takeWhile is_digit (chunk_name n) = pad_zero 4 (show_nat n)"
    using pad_zero_digits [OF show_nat_digits, of 4 n]
    by (simp add: chunk_name_def jsonl_ext_def takeWhile_append is_digit_def)
  then show ?thesis by (simp add: chunk_number_def)
qed

lemma current_not_numeric [simp]: "\<not> is_numeric_chunk current_chunk"
  by (simp add: is_numeric_chunk_def current_chunk_def jsonl_ext_def is_digit_def)

lemma name_not_current [simp]: "chunk_name n \<noteq> current_chunk" "current_chunk \<noteq> chunk_name n"
  using numeric_chunk_name [of n] current_not_numeric by metis+

lemma first_chunk_name: "''0001.jsonl'' = chunk_name 1"
  by code_simp

lemma numeric_chunks_sorted: "numeric_chunks d = sort_key chunk_number (filter is_numeric_chunk (map fst d))"
  unfolding numeric_chunks_def by (rule sort_by_key) (auto simp: compare_chunk_names_def)

lemma set_numeric_chunks [simp]: "set (numeric_chunks d) = {n \<in> fst ` set d. is_numeric_chunk n}"
  by (auto simp: numeric_chunks_def)

lemma last_sorted_max:
  "xs \<noteq> [] \<Longrightarrow> x \<in> set xs \<Longrightarrow> f x \<le> (f (last (sort_key f xs)) :: nat)"
proof -
  assume ne: "xs \<noteq> []" and x: "x \<in> set xs"
  let ?s = "sort_key f xs"
  from x obtain i where i: "i < length ?s" "?s ! i = x" by (metis in_set_conv_nth set_sort)
  have "sorted (map f ?s)" by simp
  then have "map f ?s ! i \<le> map f ?s ! (length ?s - 1)"
    using i(1) by (intro sorted_nth_mono) simp_all
  moreover have "?s \<noteq> []" using ne by (metis length_0_conv length_sort)
  ultimately show ?thesis using i by (simp add: last_conv_nth)
qed

lemma numeric_below_last:
  assumes "n \<in> fst ` set d" and "is_numeric_chunk n"
  shows "chunk_number n \<le> chunk_number (last (numeric_chunks d))"
  unfolding numeric_chunks_sorted
  by (rule last_sorted_max) (use assms in \<open>auto simp: filter_empty_conv\<close>)

text \<open>The next name is fresh, and its number is above that of every numeric chunk.\<close>

lemma next_free_fresh: "chunk_name (next_free names n) \<notin> set names \<and> n \<le> next_free names n"
proof (induction names n rule: next_free.induct)
  case (1 names n)
  show ?case
  proof (cases "chunk_name n \<in> set names")
    case True
    from 1 [OF True] have "chunk_name (next_free names (n + 1)) \<notin> set names \<and> n + 1 \<le> next_free names (n + 1)" .
    moreover have "next_free names n = next_free names (n + 1)" using True by (subst next_free.simps) simp
    ultimately show ?thesis by simp
  next
    case False
    then have "next_free names n = n" by (subst next_free.simps) simp
    with False show ?thesis by simp
  qed
qed

lemma next_chunk_spec:
  obtains k where "get_next_chunk_name d = chunk_name k" and "chunk_name k \<notin> fst ` set d"
    and "\<And>n. n \<in> fst ` set d \<Longrightarrow> is_numeric_chunk n \<Longrightarrow> chunk_number n < k"
proof (cases "numeric_chunks d = []")
  case True
  then have none: "\<not> is_numeric_chunk n" if "n \<in> fst ` set d" for n
    using that set_numeric_chunks [of d] by force
  show thesis
  proof (rule that [of 1])
    show "get_next_chunk_name d = chunk_name 1" using True by (simp add: get_next_chunk_name_def first_chunk_name)
    show "chunk_name 1 \<notin> fst ` set d" using none numeric_chunk_name by blast
  qed (use none in blast)
next
  case False
  let ?k = "next_free (map fst d) (chunk_number (last (numeric_chunks d)) + 1)"
  note free = next_free_fresh [of "map fst d" "chunk_number (last (numeric_chunks d)) + 1"]
  show thesis
  proof (rule that [of ?k])
    show "get_next_chunk_name d = chunk_name ?k" using False by (simp add: get_next_chunk_name_def)
    show "chunk_name ?k \<notin> fst ` set d" using free by simp
  next
    fix n assume "n \<in> fst ` set d" "is_numeric_chunk n"
    from numeric_below_last [OF this] free show "chunk_number n < ?k" by linarith
  qed
qed

text \<open>The search for the next chunk name ends.  In every directory the loop that steps over existing
  names returns, with a name no file has, above all numeric chunks of the directory: rotation never
  freezes on one file.\<close>

theorem rotation_name_fresh:
  "\<exists>k. get_next_chunk_name d = chunk_name k \<and> chunk_name k \<notin> fst ` set d \<and>
    {n \<in> fst ` set d. is_numeric_chunk n} \<subseteq> {n. chunk_number n < k}"
  by (rule next_chunk_spec [of d]) blast

section \<open>What every append keeps\<close>

definition partition_history :: "ledger_dir \<Rightarrow> string list" where
  "partition_history d =
     file_lines (content_of d current_chunk) @ concat (map (\<lambda>n. file_lines (content_of d n)) (numeric_chunks d))"

definition partition_bounded :: "ledger_dir \<Rightarrow> bool" where
  "partition_bounded d \<longleftrightarrow>
     (\<forall>n. count_non_blank (content_of d n) \<le> max_lines_per_chunk \<and>
        (utf8_length (content_of d n) \<le> max_bytes_per_chunk \<or> count_non_blank (content_of d n) \<le> 1))"

lemma content_append_file [simp]:
  "content_of (append_file n bytes d) m = (if m = n then content_of d n @ bytes else content_of d m)"
  by (simp add: append_file_def)

lemma content_absent: "n \<notin> fst ` set d \<Longrightarrow> content_of d n = []"
  unfolding content_of_def map_of_eq_None_iff [symmetric] by simp

lemma names_append_file:
  "map fst (append_file n bytes d) = (if n \<in> fst ` set d then map fst d else map fst d @ [n])"
  by (simp add: append_file_def keys_obj_set)

lemma sort_key_snoc: "\<forall>y \<in> set xs. f y \<le> f x \<Longrightarrow> sort_key f (xs @ [x]) = sort_key f xs @ [x]"
proof (induction xs)
  case (Cons y xs)
  have "insort_key f y (zs @ [x]) = insort_key f y zs @ [x]" if "\<forall>z \<in> set (y # zs). f z \<le> f x" for zs
    using that by (induction zs) auto
  from this [of "sort_key f xs"] Cons show ?case by simp
qed simp

text \<open>
  Where an append lands: the newest chunk while the line fits, or a file that does not exist yet,
  which is the chunk after all others when the newest one is full.
\<close>

lemma target_cases:
  assumes "t = resolve_jsonl_target d current_chunk line"
  obtains "t = current_chunk" and "numeric_chunks d = []"
      and "content_of d t = [] \<or> \<not> chunk_full (content_of d t) line"
  | "numeric_chunks d \<noteq> []" and "t = last (numeric_chunks d)" and "\<not> chunk_full (content_of d t) line"
  | "t \<notin> fst ` set d" and "is_numeric_chunk t"
      and "\<And>n. n \<in> fst ` set d \<Longrightarrow> is_numeric_chunk n \<Longrightarrow> chunk_number n < chunk_number t"
proof -
  obtain k where k: "get_next_chunk_name d = chunk_name k" "chunk_name k \<notin> fst ` set d"
    "\<And>n. n \<in> fst ` set d \<Longrightarrow> is_numeric_chunk n \<Longrightarrow> chunk_number n < k" using next_chunk_spec [of d] by blast
  have "last (numeric_chunks d) \<in> fst ` set d" if "numeric_chunks d \<noteq> []"
    using last_in_set [OF that] by simp
  then have "map_of d (last (numeric_chunks d)) \<noteq> None" if "numeric_chunks d \<noteq> []"
    using that by (simp add: map_of_eq_None_iff)
  then show thesis
    using assms k that unfolding resolve_jsonl_target_def active_chunk_def content_of_def
    by (auto split: if_splits)
qed

lemma target_fits:
  assumes "t = resolve_jsonl_target d name line"
  shows "content_of d t = [] \<or> \<not> chunk_full (content_of d t) line"
proof -
  have "get_next_chunk_name d \<notin> fst ` set d" using next_chunk_spec [of d] by metis
  then have "content_of d (get_next_chunk_name d) = []" by (rule content_absent)
  with assms show ?thesis by (auto simp: resolve_jsonl_target_def content_of_def split: if_splits)
qed

text \<open>
  A record format: the bytes written for a line, and the files it can extend.  What the readers
  see grows by the line, and a line that fits the byte bound still fits in this format.
\<close>

locale record_format =
  fixes bytes :: "string \<Rightarrow> string" and ok :: "string \<Rightarrow> bool"
  assumes ok_Nil: "ok []"
    and ok_append: "ok c \<Longrightarrow> record_line l \<Longrightarrow> ok (c @ bytes l)"
    and lines_append: "ok c \<Longrightarrow> record_line l \<Longrightarrow> file_lines (c @ bytes l) = file_lines c @ [l]"
    and fits: "ok c \<Longrightarrow> utf8_length c + utf8_length (l @ [newline]) \<le> max_bytes_per_chunk \<Longrightarrow>
      utf8_length (c @ bytes l) \<le> max_bytes_per_chunk"
begin

definition partition_ok :: "ledger_dir \<Rightarrow> bool" where
  "partition_ok d \<longleftrightarrow> distinct (map fst d) \<and> (\<forall>n. ok (content_of d n))"

lemma append_ok: "partition_ok d \<Longrightarrow> record_line l \<Longrightarrow> partition_ok (append_with bytes d name l)"
  by (auto simp: partition_ok_def append_with_def append_file_def distinct_obj_set ok_append)

lemma append_bounded:
  assumes "partition_ok d" and "record_line l" and "partition_bounded d"
  shows "partition_bounded (append_with bytes d name l)"
proof -
  let ?t = "resolve_jsonl_target d name l"
  have ok: "ok (content_of d ?t)" using assms(1) by (simp add: partition_ok_def)
  have n: "count_non_blank (content_of d ?t @ bytes l) = Suc (count_non_blank (content_of d ?t))"
    using lines_append [OF ok assms(2)] by (simp add: count_non_blank_def)
  from target_fits [OF refl, of d name l] have
    "count_non_blank (content_of d ?t @ bytes l) \<le> max_lines_per_chunk \<and>
     (utf8_length (content_of d ?t @ bytes l) \<le> max_bytes_per_chunk \<or> count_non_blank (content_of d ?t @ bytes l) \<le> 1)"
  proof
    assume "content_of d ?t = []"
    with n show ?thesis by (simp add: count_non_blank_def max_lines_per_chunk_def)
  next
    assume "\<not> chunk_full (content_of d ?t) l"
    with n fits [OF ok, of l] show ?thesis by (auto simp: chunk_full_def)
  qed
  with assms(3) show ?thesis by (simp add: partition_bounded_def append_with_def)
qed

lemma append_history:
  assumes "partition_ok d" and "record_line l"
  shows "partition_history (append_with bytes d current_chunk l) = partition_history d @ [l]"
proof -
  let ?t = "resolve_jsonl_target d current_chunk l"
  let ?d = "append_with bytes d current_chunk l"
  let ?v = "\<lambda>d n. file_lines (content_of d n)"
  have ok: "ok (content_of d ?t)" and dist: "distinct (map fst d)" using assms(1) by (simp_all add: partition_ok_def)
  have view: "?v ?d n = (if n = ?t then ?v d n @ [l] else ?v d n)" for n
    using lines_append [OF ok assms(2)] by (simp add: append_with_def)
  have names: "map fst ?d = (if ?t \<in> fst ` set d then map fst d else map fst d @ [?t])"
    by (simp add: append_with_def names_append_file)
  show ?thesis
  proof (rule target_cases [OF refl, of d l])
    assume "?t = current_chunk" "numeric_chunks d = []"
    moreover from this have "numeric_chunks ?d = []"
      using names by (simp add: numeric_chunks_def split: if_splits)
    ultimately show ?thesis by (simp add: partition_history_def view)
  next
    assume a: "numeric_chunks d \<noteq> []" "?t = last (numeric_chunks d)"
    then have t: "?t \<in> fst ` set d" "is_numeric_chunk ?t" using last_in_set [OF a(1)] by simp_all
    then have nc: "numeric_chunks ?d = numeric_chunks d" using names by (simp add: numeric_chunks_def)
    obtain ns where ns: "numeric_chunks d = ns @ [?t]" using a by (metis append_butlast_last_id)
    have "distinct (numeric_chunks d)" using dist by (simp add: numeric_chunks_def)
    then have "?t \<notin> set ns" by (simp add: ns)
    then have "map (?v ?d) ns = map (?v d) ns" by (auto simp: view)
    moreover have "?t \<noteq> current_chunk" using t(2) by auto
    then have "?v ?d current_chunk = ?v d current_chunk" "?v ?d ?t = ?v d ?t @ [l]" by (simp_all add: view)
    ultimately show ?thesis by (simp add: partition_history_def nc ns del: map_eq_conv)
  next
    assume a: "?t \<notin> fst ` set d" "is_numeric_chunk ?t"
      "\<And>n. n \<in> fst ` set d \<Longrightarrow> is_numeric_chunk n \<Longrightarrow> chunk_number n < chunk_number ?t"
    have nc: "numeric_chunks ?d = numeric_chunks d @ [?t]"
      unfolding numeric_chunks_sorted names using a by (simp add: sort_key_snoc less_imp_le)
    have "map (?v ?d) (numeric_chunks d) = map (?v d) (numeric_chunks d)" using a(1) by (auto simp: view)
    moreover have "?t \<noteq> current_chunk" using a(2) by auto
    then have "?v ?d current_chunk = ?v d current_chunk" "?v ?d ?t = [l]"
      using content_absent [OF a(1)] by (simp_all add: view)
    ultimately show ?thesis by (simp add: partition_history_def nc del: map_eq_conv)
  qed
qed

lemma appends:
  assumes "partition_ok d" and "\<forall>l \<in> set ls. record_line l"
  shows "partition_history (foldl (\<lambda>d. append_with bytes d current_chunk) d ls) = partition_history d @ ls \<and>
    (partition_bounded d \<longrightarrow> partition_bounded (foldl (\<lambda>d. append_with bytes d current_chunk) d ls))"
  using assms
proof (induction ls arbitrary: d)
  case (Cons l ls)
  then have ok: "partition_ok d" and l: "record_line l" by simp_all
  from Cons.IH [OF append_ok [OF ok l, of current_chunk]] Cons.prems(2)
    append_history [OF ok l] append_bounded [OF ok l, of current_chunk]
  show ?case by simp
qed simp

end

interpretation plain_format: record_format plain_record line_closed
  by unfold_locales (auto simp: plain_record_def line_closed_def file_lines_snoc utf8_length_def)

section \<open>Block-framed records\<close>

lemma utf8_append [simp]: "utf8_length (s @ t) = utf8_length s + utf8_length t"
  by (simp add: utf8_length_def)

lemma utf8_newlines [simp]: "utf8_length (replicate k newline) = k"
  by (induction k) (simp_all add: utf8_length_def newline_def)

lemma frame_blocks_bounds:
  assumes "0 < n"
  shows "n \<le> frame_blocks n * 4096" and "frame_blocks n * 4096 < n + 4096"
proof -
  have "(n + 4095) div 4096 * 4096 + (n + 4095) mod 4096 = n + 4095" "(n + 4095) mod 4096 < 4096" by simp_all
  moreover have "1 \<le> (n + 4095) div 4096" using calculation assms by linarith
  then have "frame_blocks n = (n + 4095) div 4096" by (simp add: frame_blocks_def durability_block_size_def max_def add.commute)
  ultimately show "n \<le> frame_blocks n * 4096" "frame_blocks n * 4096 < n + 4096" by linarith+
qed

lemma frame_length: "utf8_length (frame_jsonl_record l) = frame_blocks (utf8_length (l @ [newline])) * durability_block_size"
proof -
  let ?n = "utf8_length (l @ [newline])"
  have "0 < ?n" by (simp add: utf8_length_def newline_def)
  then have "?n \<le> frame_blocks ?n * durability_block_size"
    unfolding durability_block_size_def by (rule frame_blocks_bounds)
  then show ?thesis unfolding frame_jsonl_record_def Let_def utf8_append utf8_newlines by simp
qed

definition block_file :: "string \<Rightarrow> bool" where
  "block_file c \<longleftrightarrow> line_closed c \<and> durability_block_size dvd utf8_length c"

lemma file_lines_newlines [simp]: "file_lines (replicate k newline) = []"
proof (induction k)
  case (Suc k)
  then show ?case using file_lines_append_nl [of "[]" "replicate k newline"] by simp
qed simp

lemma frame_lines:
  assumes "line_closed c" and "record_line l"
  shows "file_lines (c @ frame_jsonl_record l) = file_lines c @ [l]"
proof -
  have "file_lines (c @ l @ newline # replicate k newline) = file_lines c @ [l]" for k
  proof -
    have "file_lines ((c @ l) @ newline # replicate k newline) = file_lines (c @ l) @ file_lines (replicate k newline)"
      by (rule file_lines_append_nl)
    moreover have "file_lines ((c @ l) @ newline # []) = file_lines (c @ l) @ file_lines []"
      by (rule file_lines_append_nl)
    ultimately show ?thesis using file_lines_snoc [OF assms] by simp
  qed
  then show ?thesis by (simp add: frame_jsonl_record_def Let_def)
qed

lemma frame_closed: "line_closed (c @ frame_jsonl_record l)"
  by (simp add: frame_jsonl_record_def Let_def line_closed_def)

interpretation block_format: record_format frame_jsonl_record block_file
proof
  show "block_file []" by (simp add: block_file_def line_closed_def utf8_length_def)
next
  fix c l assume "block_file c" "record_line l"
  then show "block_file (c @ frame_jsonl_record l)" "file_lines (c @ frame_jsonl_record l) = file_lines c @ [l]"
    by (simp_all add: block_file_def frame_closed frame_length frame_lines)
next
  fix c l :: string
  assume c: "block_file c" and le: "utf8_length c + utf8_length (l @ [newline]) \<le> max_bytes_per_chunk"
  then obtain b where b: "utf8_length c = 4096 * b" by (auto simp: block_file_def durability_block_size_def)
  define k where "k = frame_blocks (utf8_length (l @ [newline]))"
  have "0 < utf8_length (l @ [newline])" by (simp add: utf8_length_def newline_def)
  from frame_blocks_bounds(2) [OF this] le have "4096 * (b + k) < 4096 * 257"
    unfolding b max_bytes_per_chunk_def k_def by simp
  then have "b + k \<le> 256" by simp
  then have "b + frame_blocks (utf8_length (l @ [newline])) \<le> 256" by (simp add: k_def)
  then show "utf8_length (c @ frame_jsonl_record l) \<le> max_bytes_per_chunk"
    by (simp add: frame_length b max_bytes_per_chunk_def durability_block_size_def)
qed

section \<open>The order of the readers\<close>

text \<open>Chunks sort by number, before all other names.\<close>

lemma sort_chunks:
  "sort_by (compare_chunk_names lc) ns =
    sort_key chunk_number (filter is_numeric_chunk ns) @ sort_by lc (filter (\<lambda>n. \<not> is_numeric_chunk n) ns)"
proof (induction ns)
  case (Cons n ns)
  have num: "insert_by (compare_chunk_names lc) n (xs @ ys) = insort_key chunk_number n xs @ ys"
    if "is_numeric_chunk n" "\<forall>x \<in> set xs. is_numeric_chunk x" "\<forall>y \<in> set ys. \<not> is_numeric_chunk y" for xs ys
    using that by (induction xs) (cases ys, auto simp: compare_chunk_names_def)
  have other: "insert_by (compare_chunk_names lc) n (xs @ ys) = xs @ insert_by lc n ys"
    if "\<not> is_numeric_chunk n" "\<forall>x \<in> set xs. is_numeric_chunk x" "\<forall>y \<in> set ys. \<not> is_numeric_chunk y" for xs ys
  proof -
    have "insert_by (compare_chunk_names lc) n ys = insert_by lc n ys"
      using that(1,3) by (induction ys) (auto simp: compare_chunk_names_def)
    then show ?thesis using that by (induction xs) (auto simp: compare_chunk_names_def)
  qed
  show ?case
    by (cases "is_numeric_chunk n") (simp_all add: Cons num other)
qed simp

lemma read_lines_all:
  "\<forall>l \<in> set ls. decode l = Some (f l) \<Longrightarrow> read_lines decode 0 i ls = Inr (map f ls)"
  by (induction ls arbitrary: i) auto

lemma read_file_all:
  "\<forall>l \<in> set (file_lines (content_of d n)). decode l = Some (f l) \<Longrightarrow>
   read_from_jsonl decode 0 (map_of d n) = Inr (map f (file_lines (content_of d n)))"
  by (auto simp: read_from_jsonl_def content_of_def read_lines_all split: option.splits)

lemma read_chunks_all:
  assumes "\<forall>n \<in> set ns. \<forall>l \<in> set (file_lines (content_of d n)). decode l = Some (f l)"
    and "limit = 0 \<or> length acc < limit"
  shows "read_chunks decode limit d acc ns =
    Inr (let rs = acc @ concat (map (\<lambda>n. map f (file_lines (content_of d n))) ns)
      in if limit = 0 then rs else take limit rs)"
  using assms
proof (induction ns arbitrary: acc)
  case (Cons n ns)
  have r: "read_from_jsonl decode 0 (map_of d n) = Inr (map f (file_lines (content_of d n)))"
    using Cons.prems(1) by (intro read_file_all) simp
  show ?case
  proof (cases "limit \<noteq> 0 \<and> limit \<le> length (acc @ map f (file_lines (content_of d n)))")
    case False
    with Cons.IH [of "acc @ map f (file_lines (content_of d n))"] Cons.prems(1) r show ?thesis by auto
  qed (auto simp: r)
qed auto

section \<open>Properties\<close>


definition rotated_partition :: ledger_dir where
  "rotated_partition = [(''current.jsonl'', ''a'' @ [newline]), (''0001.jsonl'', ''b'' @ [newline])]"

lemma rotated_numeric: "numeric_chunks rotated_partition = [''0001.jsonl'']"
  by code_simp


text \<open>A partition that has rotated is read out of append order.  \<^verbatim>\<open>readPartition\<close> returns the
  numeric chunks in number order and \<^verbatim>\<open>current.jsonl\<close>, which holds the oldest records, after them; a
  limit therefore keeps the newest records of the log and drops its beginning.\<close>

theorem read_partition_order:
  assumes "distinct (map fst d)"
    and "\<forall>n \<in> fst ` set d. ends_with jsonl_ext n \<longrightarrow> is_numeric_chunk n \<or> n = current_chunk"
    and "\<forall>l \<in> set (partition_history d). decode l = Some (f l)"
  shows "read_partition lc decode limit d =
    Inr (let hist = map f (partition_history d); k = count_non_blank (content_of d current_chunk);
             rs = drop k hist @ take k hist
         in if limit = 0 then rs else take limit rs)"
proof -
  let ?ns = "filter (ends_with jsonl_ext) (map fst d)"
  let ?cur = "if current_chunk \<in> fst ` set d then [current_chunk] else []"
  have cur: "ends_with jsonl_ext current_chunk" by (simp add: current_chunk_def jsonl_ext_def ends_with_def)
  have "filter is_numeric_chunk ?ns = filter is_numeric_chunk (map fst d)"
    by (auto simp: is_numeric_chunk_def intro!: filter_cong)
  then have num: "sort_key chunk_number (filter is_numeric_chunk ?ns) = numeric_chunks d"
    by (simp add: numeric_chunks_sorted)
  have "filter (\<lambda>n. \<not> is_numeric_chunk n) ?ns = filter (\<lambda>n. n = current_chunk) (map fst d)"
    unfolding filter_filter by (rule filter_cong) (use assms(2) cur in auto)
  then have "filter (\<lambda>n. \<not> is_numeric_chunk n) ?ns = ?cur"
    using filter_eq_distinct [OF assms(1)] by simp
  then have order: "sort_by (compare_chunk_names lc) ?ns = numeric_chunks d @ ?cur"
    unfolding sort_chunks num by simp
  let ?v = "\<lambda>n. file_lines (content_of d n)"
  have cur_lines: "concat (map ?v ?cur) = ?v current_chunk" by (simp add: content_absent)
  have "\<forall>n \<in> set (numeric_chunks d @ ?cur). \<forall>l \<in> set (?v n). decode l = Some (f l)"
    using assms(3) by (auto simp: partition_history_def split: if_splits)
  from read_chunks_all [OF this, of limit "[]"]
  have "read_partition lc decode limit d =
    Inr (let rs = map f (concat (map ?v (numeric_chunks d)) @ ?v current_chunk)
      in if limit = 0 then rs else take limit rs)"
    unfolding read_partition_def order using cur_lines by (auto simp: map_concat o_def Let_def split: if_splits)
  then show ?thesis by (simp add: partition_history_def count_non_blank_def Let_def)
qed

theorem read_partition_order_witness:
  "read_partition (\<lambda>_ _. 0) Some 1 rotated_partition = Inr [''b'']"
proof -
  have h: "partition_history rotated_partition = [''a'', ''b'']"
    by code_simp
  have "count_non_blank (content_of rotated_partition current_chunk) = 1" by code_simp
  moreover have "\<forall>n \<in> fst ` set rotated_partition. ends_with jsonl_ext n \<longrightarrow> is_numeric_chunk n \<or> n = current_chunk"
    by code_simp
  ultimately show ?thesis
    using read_partition_order [of rotated_partition Some "\<lambda>l. l" "\<lambda>_ _. 0" 1]
    by (simp add: h) (simp add: rotated_partition_def)
qed

text \<open>
  A framed append of a row that is not memory-shaped goes to the requested file even when
  \<^verbatim>\<open>resolveJsonlTargetPath\<close> has moved on to another, which it leaves as it is.
\<close>

lemma direct_misses_target:
  assumes "\<not> is_memory_shaped v" and "resolve_jsonl_target d name line \<noteq> name"
  shows "content_of (append_jsonl_direct d name v line) (resolve_jsonl_target d name line) =
    content_of d (resolve_jsonl_target d name line)"
  using assms by (simp add: append_jsonl_direct_def direct_target_def)

lemma rotated_target: "resolve_jsonl_target rotated_partition current_chunk ''c'' = ''0001.jsonl''"
proof -
  have "\<not> chunk_full (content_of rotated_partition ''0001.jsonl'') ''c''"
    by (simp add: chunk_full_def rotated_partition_def content_of_def utf8_length_def newline_def count_non_blank_def
        file_lines_def max_bytes_per_chunk_def max_lines_per_chunk_def)
  then show ?thesis
    by (simp add: resolve_jsonl_target_def active_chunk_def rotated_numeric)
qed

end
