(* ===== verification/Manifest.thy ===== *)
theory Manifest
  imports Change_Record
begin

text \<open>
  The partition manifest of a namespace, \<^verbatim>\<open>src/storage/manifest.ts\<close>: \<^verbatim>\<open>manifest.json\<close> lists the active
  partition paths.  A manifest is the parsed object; \<open>None\<close> stands for the exception that a
  document without a usable \<^verbatim>\<open>partitions\<close> array raises.  \<^verbatim>\<open>new Date().toISOString()\<close> is the argument
  \<open>now\<close>; the file is replaced atomically.
\<close>

section \<open>Operations\<close>

definition default_manifest :: "string \<Rightarrow> json" where
  "default_manifest now = JObj [(''partitions'', JArr []), (''lastUpdated'', JStr now)]"

definition get_manifest :: "json_parser \<Rightarrow> string \<Rightarrow> string option \<Rightarrow> json" where
  "get_manifest parse now content =
     (case Option.bind content parse of None \<Rightarrow> default_manifest now | Some v \<Rightarrow> v)"

definition manifest_text :: "(rat \<Rightarrow> string) \<Rightarrow> json \<Rightarrow> string" where
  "manifest_text fmt m = json_pretty fmt 0 m @ [newline]"

text \<open>\<^verbatim>\<open>replace(/\\/g, "/")\<close>.\<close>

definition normalize_partition :: "string \<Rightarrow> string" where
  "normalize_partition p = map (\<lambda>c. if c = CHR 0x5C then CHR ''/'' else c) p"

text \<open>The partitions of a manifest object.\<close>

fun manifest_partitions :: "json \<Rightarrow> json list option" where
  "manifest_partitions (JObj ps) = (case map_of ps ''partitions'' of Some (JArr vs) \<Rightarrow> Some vs | _ \<Rightarrow> None)"
| "manifest_partitions _ = None"

fun with_partitions :: "string \<Rightarrow> json list \<Rightarrow> json \<Rightarrow> json" where
  "with_partitions now vs (JObj ps) = JObj (obj_set ''lastUpdated'' (JStr now) (obj_set ''partitions'' (JArr vs) ps))"
| "with_partitions now vs v = v"

text \<open>The manifest to write, if any; \<open>None\<close> is the exception.\<close>

definition add_partition :: "string \<Rightarrow> json \<Rightarrow> string \<Rightarrow> json option option" where
  "add_partition now m p =
     (case manifest_partitions m of
        None \<Rightarrow> None
      | Some vs \<Rightarrow>
          Some (if JStr (normalize_partition p) \<in> set vs then None
                else Some (with_partitions now (vs @ [JStr (normalize_partition p)]) m)))"

definition remove_partition :: "string \<Rightarrow> json \<Rightarrow> string \<Rightarrow> json option option" where
  "remove_partition now m p =
     (case manifest_partitions m of
        None \<Rightarrow> None
      | Some vs \<Rightarrow>
          Some (if JStr (normalize_partition p) \<in> set vs
                then Some (with_partitions now (remove1 (JStr (normalize_partition p)) vs) m) else None))"

text \<open>\<^verbatim>\<open>manifest.partitions.filter\<close> on the first path segment; every entry is a string.\<close>

fun in_domain :: "string \<Rightarrow> json \<Rightarrow> bool" where
  "in_domain domain (JStr p) = (hd (split_on (CHR ''/'') p) = domain)"
| "in_domain domain v = False"

definition get_partitions_for_domain :: "json \<Rightarrow> string \<Rightarrow> json list option" where
  "get_partitions_for_domain m domain = map_option (filter (in_domain domain)) (manifest_partitions m)"

section \<open>What the operations do\<close>

lemma partitions_with [simp]:
  "manifest_partitions m \<noteq> None \<Longrightarrow> manifest_partitions (with_partitions now vs m) = Some vs"
  by (cases m) (auto split: option.splits json.splits)

text \<open>The manifest that stands after an operation: the written one, or the old one.\<close>

abbreviation after_write :: "json \<Rightarrow> json option \<Rightarrow> json" where
  "after_write m written \<equiv> case written of None \<Rightarrow> m | Some m' \<Rightarrow> m'"

lemma add_partition_spec:
  assumes "manifest_partitions m = Some vs"
  shows "\<exists>w. add_partition now m p = Some w \<and>
    manifest_partitions (after_write m w) =
      Some (if JStr (normalize_partition p) \<in> set vs then vs else vs @ [JStr (normalize_partition p)])"
  using assms by (auto simp: add_partition_def)

text \<open>Adding twice writes nothing the second time, and removal undoes the addition of a new path.\<close>

lemma add_partition_idem:
  assumes "add_partition now m p = Some w"
  shows "add_partition now' (after_write m w) p = Some None"
proof -
  obtain vs where vs: "manifest_partitions m = Some vs" using assms by (auto simp: add_partition_def split: option.splits)
  with add_partition_spec [OF vs, of now p] assms
  have "manifest_partitions (after_write m w) =
      Some (if JStr (normalize_partition p) \<in> set vs then vs else vs @ [JStr (normalize_partition p)])" by auto
  then show ?thesis by (simp add: add_partition_def)
qed

lemma remove_added_partition:
  assumes "add_partition now m p = Some (Some m')"
  shows "\<exists>m''. remove_partition now' m' p = Some (Some m'') \<and> manifest_partitions m'' = manifest_partitions m"
proof -
  obtain vs where vs: "manifest_partitions m = Some vs" "JStr (normalize_partition p) \<notin> set vs"
      "m' = with_partitions now (vs @ [JStr (normalize_partition p)]) m"
    using assms by (auto simp: add_partition_def split: option.splits if_splits)
  have "remove1 x (vs @ [x]) = vs" if "x \<notin> set vs" for x using that by (simp add: remove1_append)
  with vs show ?thesis by (simp add: remove_partition_def)
qed

end
