(* ===== verification/Namespace_Writer.thy ===== *)
theory Namespace_Writer
  imports Jsonl_Store Manifest
begin

text \<open>
  The namespace writer of \<^verbatim>\<open>src/serialization/namespaceWriter.ts\<close>: admission of writes into a bounded
  queue, and the flush that, under the cross-process lock, appends the batch to its data files,
  records it in the audit ledger, registers partitions and answers every request.  The files
  below the namespace directory are a map from relative directory paths to their files.  The
  registered row schemas, the authorization hook, the JSON parser, the hash, the clock and the
  digits of numbers are arguments; messages of failures are reduced to their codes.
\<close>

section \<open>Requests\<close>

record write_input =
  wi_ns :: string
  wi_table :: string
  wi_op :: change_operation
  wi_record :: json
  wi_principal :: "string option"
  wi_target :: "string option"
  wi_partition :: "string option"

record write_request =
  wr_input :: write_input
  wr_seq :: nat

datatype write_result = Write_Ok nat | Write_Failed nat string

fun result_seq :: "write_result \<Rightarrow> nat" where
  "result_seq (Write_Ok n) = n"
| "result_seq (Write_Failed n code) = n"

text \<open>A hook that throws is a denial.\<close>

datatype auth_decision = Auth_Allowed | Auth_Denied string

type_synonym audit_entry = "(string \<times> json) list"

record pending_write =
  pw_request :: write_request
  pw_line :: string
  pw_bytes :: nat

record pending_audit =
  pa_id :: nat
  pa_entry :: audit_entry

abbreviation pw_seq :: "pending_write \<Rightarrow> nat" where
  "pw_seq p \<equiv> wr_seq (pw_request p)"

type_synonym ns_tree = "string \<Rightarrow> ledger_dir"

record writer_env =
  we_ns :: string
  we_root :: "string list"
  we_schema :: "string \<Rightarrow> string \<Rightarrow> (json \<Rightarrow> json option) option"
  we_maxRows :: nat
  we_maxBytes :: nat
  we_limits :: ledger_limits
  we_parse :: json_parser
  we_fmt :: "rat \<Rightarrow> string"
  we_sha :: "string \<Rightarrow> string"
  we_isots :: "string \<Rightarrow> bool"
  we_clock :: "nat \<Rightarrow> string"

section \<open>Paths\<close>

text \<open>\<^verbatim>\<open>path.resolve\<close> on segments; the accumulator is the path so far, reversed.\<close>

fun normalize_segments :: "string list \<Rightarrow> string list \<Rightarrow> string list" where
  "normalize_segments acc [] = rev acc"
| "normalize_segments acc (s # ss) =
     (if s = [] \<or> s = ''.'' then normalize_segments acc ss
      else if s = ''..'' then normalize_segments (tl acc) ss
      else normalize_segments (s # acc) ss)"

text \<open>
  \<^verbatim>\<open>safeTarget\<close>: the directory below the namespace and the file name, or \<open>None\<close> when the target
  escapes.  \<open>base\<close> are the segments of the namespace directory.
\<close>

definition safe_target :: "string list \<Rightarrow> string option \<Rightarrow> (string \<times> string) option" where
  "safe_target base target =
     (let t = (case target of None \<Rightarrow> current_chunk | Some t \<Rightarrow> t);
          resolved = normalize_segments (if starts_with ''/'' t then [] else rev base) (split_on (CHR ''/'') t);
          rel = drop (length base) resolved
      in if take (length base) resolved = base \<and> rel \<noteq> [] \<and> \<not> starts_with ''..'' (hd rel)
         then Some (join_with ''/'' (butlast rel), last rel) else None)"

definition join_path :: "string \<Rightarrow> string \<Rightarrow> string" where
  "join_path dir name = (if dir = [] then name else dir @ CHR ''/'' # name)"

text \<open>The files of the namespace by relative path.\<close>

definition tree_file :: "ns_tree \<Rightarrow> string \<Rightarrow> string option" where
  "tree_file fs path =
     map_of (fs (join_with ''/'' (butlast (split_on (CHR ''/'') path)))) (last (split_on (CHR ''/'') path))"

section \<open>Audit entries\<close>

definition is_str :: "json \<Rightarrow> bool" where
  "is_str v = (case v of JStr s \<Rightarrow> True | _ \<Rightarrow> False)"

text \<open>The fields of \<^verbatim>\<open>AuditEntrySchema\<close> with their checks; the flag marks a required field.\<close>

definition audit_shape :: "(string \<Rightarrow> bool) \<Rightarrow> (string \<times> bool \<times> (json \<Rightarrow> bool)) list" where
  "audit_shape isots =
     [(''ts'', True, \<lambda>v. case v of JStr s \<Rightarrow> isots s | _ \<Rightarrow> False),
      (''ns'', True, \<lambda>v. is_str v \<and> v \<noteq> JStr []),
      (''table'', False, is_str),
      (''op'', True, is_str),
      (''principal'', False, \<lambda>v. is_str v \<or> v = JNull),
      (''outcome'', True, \<lambda>v. v = JStr ''accepted'' \<or> v = JStr ''denied''),
      (''reason'', False, is_str),
      (''seq'', False, \<lambda>v. positive_int v \<noteq> None),
      (''row'', False, \<lambda>v. True),
      (''key'', False, \<lambda>v. case v of JObj ps \<Rightarrow> True | _ \<Rightarrow> False),
      (''targetPath'', False, \<lambda>v. is_str v \<and> v \<noteq> JStr []),
      (''contentHash'', False, \<lambda>v. hash_field (Some v) \<noteq> None),
      (''tombstone'', False, \<lambda>v. case v of JBool b \<Rightarrow> True | _ \<Rightarrow> False),
      (''schemaVersion'', False, \<lambda>v. positive_int v \<noteq> None)]"

text \<open>\<^verbatim>\<open>AuditEntrySchema.parse\<close>: known fields in the order of the schema, or a refusal.\<close>

definition audit_entry_schema :: "(string \<Rightarrow> bool) \<Rightarrow> audit_entry \<Rightarrow> audit_entry option" where
  "audit_entry_schema isots e =
     (if list_all (\<lambda>(f, required, check). case map_of e f of None \<Rightarrow> \<not> required | Some v \<Rightarrow> check v) (audit_shape isots)
      then Some (List.map_filter (\<lambda>(f, required, check). map_option (\<lambda>v. (f, v)) (map_of e f)) (audit_shape isots))
      else None)"

definition accepted_audit :: "writer_env \<Rightarrow> write_request \<Rightarrow> audit_entry" where
  "accepted_audit env r =
     [(''ts'', JStr (we_clock env (wr_seq r))), (''ns'', JStr (wi_ns (wr_input r))),
      (''table'', JStr (wi_table (wr_input r))), (''op'', JStr (operation_name (wi_op (wr_input r)))),
      (''principal'', optional_string (wi_principal (wr_input r))), (''outcome'', JStr ''accepted''),
      (''seq'', JNum (Fin (of_nat (wr_seq r))))]"

definition denied_audit :: "writer_env \<Rightarrow> write_request \<Rightarrow> string \<Rightarrow> audit_entry" where
  "denied_audit env r reason =
     [(''ts'', JStr (we_clock env (wr_seq r))), (''ns'', JStr (wi_ns (wr_input r))),
      (''table'', JStr (wi_table (wr_input r))), (''op'', JStr (operation_name (wi_op (wr_input r)))),
      (''principal'', optional_string (wi_principal (wr_input r))), (''outcome'', JStr ''denied''),
      (''reason'', JStr reason)]"

definition change_record_for ::
  "writer_env \<Rightarrow> namespace_files \<Rightarrow> write_request \<Rightarrow> string \<Rightarrow> string \<Rightarrow> audit_entry" where
  "change_record_for env files r target line =
     accepted_audit env r @
     [(''contentHash'', JStr (content_hash_for (we_sha env) line)),
      (''key'', JObj (key_material_for (we_parse env) files (wi_table (wr_input r)) (wi_record (wr_input r)))),
      (''targetPath'', JStr target),
      (''tombstone'', JBool (wi_op (wr_input r) = Op_Delete)),
      (''schemaVersion'', JNum (Fin (of_int (declared_schema_version (we_parse env) files (wi_table (wr_input r))))))]"

definition serialize_jsonl_line :: "writer_env \<Rightarrow> json \<Rightarrow> string option" where
  "serialize_jsonl_line env v =
     (if we_parse env (json_compact (we_fmt env) v) = None then None else Some (json_compact (we_fmt env) v))"

section \<open>The queue\<close>

record writer_state =
  nw_queue :: "pending_write list"
  nw_audits :: "pending_audit list"
  nw_nextSeq :: nat
  nw_nextAudit :: nat
  nw_rows :: int
  nw_bytes :: int
  nw_fenced :: bool
  nw_down :: bool
  nw_flight :: "(pending_write list \<times> pending_audit list) option"
  nw_settled :: "write_result list"
  nw_audited :: "(nat \<times> bool) list"

definition initial_writer :: writer_state where
  "initial_writer =
     \<lparr>nw_queue = [], nw_audits = [], nw_nextSeq = 0, nw_nextAudit = 0, nw_rows = 0, nw_bytes = 0,
      nw_fenced = False, nw_down = False, nw_flight = None, nw_settled = [], nw_audited = []\<rparr>"

text \<open>The validated record, its line and its size.\<close>

definition validate_input :: "writer_env \<Rightarrow> namespace_files \<Rightarrow> write_input \<Rightarrow> (json \<times> string \<times> nat) option" where
  "validate_input env files i =
     (if wi_ns i \<noteq> we_ns env then None
      else case we_schema env (wi_ns i) (wi_table i) of
          None \<Rightarrow> None
        | Some schema \<Rightarrow>
            (case schema (wi_record i) of
               None \<Rightarrow> None
             | Some data \<Rightarrow>
                 (case serialize_jsonl_line env data of
                    None \<Rightarrow> None
                  | Some line \<Rightarrow>
                      if safe_target (we_root env) (wi_target i) = None then None
                      else if wi_op i = Op_Delete \<and> missing_key_columns (we_parse env) files (wi_table i) data \<noteq> []
                      then None
                      else Some (data, line, utf8_length (line @ [newline])))))"

text \<open>An answer now, an answer when the write is settled, or a refusal once the audit row is written.\<close>

datatype completion = Answered string | Queued nat | After_Audit nat string

definition enqueue_audit_unsafe :: "writer_env \<Rightarrow> audit_entry \<Rightarrow> writer_state \<Rightarrow> writer_state" where
  "enqueue_audit_unsafe env e st =
     (case audit_entry_schema (we_isots env) e of
        None \<Rightarrow> st\<lparr>nw_nextAudit := nw_nextAudit st + 1, nw_audited := nw_audited st @ [(nw_nextAudit st, False)]\<rparr>
      | Some e' \<Rightarrow>
          st\<lparr>nw_nextAudit := nw_nextAudit st + 1, nw_audits := nw_audits st @ [\<lparr>pa_id = nw_nextAudit st, pa_entry = e'\<rparr>]\<rparr>)"

definition push_write :: "write_input \<Rightarrow> json \<times> string \<times> nat \<Rightarrow> writer_state \<Rightarrow> writer_state" where
  "push_write i v st =
     (case v of (data, line, bytes) \<Rightarrow>
        st\<lparr>nw_nextSeq := nw_nextSeq st + 1,
           nw_queue := nw_queue st @
             [\<lparr>pw_request = \<lparr>wr_input = i\<lparr>wi_record := data\<rparr>, wr_seq = nw_nextSeq st + 1\<rparr>, pw_line = line, pw_bytes = bytes\<rparr>],
           nw_rows := nw_rows st + 1, nw_bytes := nw_bytes st + int bytes\<rparr>)"

definition provisional :: "write_input \<Rightarrow> json \<Rightarrow> nat \<Rightarrow> write_request" where
  "provisional i data n = \<lparr>wr_input = i\<lparr>wi_record := data\<rparr>, wr_seq = n\<rparr>"

definition enqueue ::
  "writer_env \<Rightarrow> namespace_files \<Rightarrow> (write_request \<Rightarrow> auth_decision) \<Rightarrow> write_input \<Rightarrow> writer_state
     \<Rightarrow> writer_state \<times> completion" where
  "enqueue env files auth i st =
     (if nw_down st then (st, Answered ''SERVER_SHUTTING_DOWN'')
      else if nw_fenced st then (st, Answered ''SERIALIZER_FENCED'')
      else case validate_input env files i of
          None \<Rightarrow> (st, Answered ''VALIDATION_ERROR'')
        | Some (data, line, bytes) \<Rightarrow>
            (let r = provisional i data (nw_nextSeq st + 1)
             in case auth r of
                  Auth_Denied reason \<Rightarrow>
                    (enqueue_audit_unsafe env (denied_audit env r reason) st, After_Audit (nw_nextAudit st) ''FORBIDDEN'')
                | Auth_Allowed \<Rightarrow>
                    if int (we_maxRows env) \<le> nw_rows st \<or> int (we_maxBytes env) < nw_bytes st + int bytes
                    then (st, Answered ''SERIALIZER_QUEUE_FULL'')
                    else (push_write i (data, line, bytes) st, Queued (nw_nextSeq st + 1))))"

text \<open>A batch is admitted as a whole or refused as a whole.\<close>

definition enqueue_batch ::
  "writer_env \<Rightarrow> namespace_files \<Rightarrow> (write_request \<Rightarrow> auth_decision) \<Rightarrow> write_input list \<Rightarrow> writer_state
     \<Rightarrow> writer_state \<times> completion list" where
  "enqueue_batch env files auth is st =
     (if is = [] then (st, [])
      else if nw_down st then (st, map (\<lambda>_. Answered ''SERVER_SHUTTING_DOWN'') is)
      else if nw_fenced st then (st, map (\<lambda>_. Answered ''SERIALIZER_FENCED'') is)
      else if \<exists>i \<in> set is. validate_input env files i = None then (st, map (\<lambda>_. Answered ''VALIDATION_ERROR'') is)
      else let vs = map (\<lambda>i. the (validate_input env files i)) is;
               rs = map (\<lambda>(k, i, v). provisional i (fst v) (nw_nextSeq st + k + 1)) (enumerate 0 (zip is vs))
        in if int (we_maxRows env) < nw_rows st + int (length is) \<or>
              int (we_maxBytes env) < nw_bytes st + int (sum_list (map (\<lambda>v. snd (snd v)) vs))
           then (st, map (\<lambda>_. Answered ''SERIALIZER_QUEUE_FULL'') is)
           else case List.find (\<lambda>r. auth r \<noteq> Auth_Allowed) rs of
               Some r \<Rightarrow>
                 (enqueue_audit_unsafe env
                    (denied_audit env r (case auth r of Auth_Denied reason \<Rightarrow> reason | Auth_Allowed \<Rightarrow> [])) st,
                  map (\<lambda>_. After_Audit (nw_nextAudit st) ''FORBIDDEN'') is)
             | None \<Rightarrow>
                 (foldl (\<lambda>st (i, v). push_write i v st) st (zip is vs),
                  map (\<lambda>k. Queued (nw_nextSeq st + k + 1)) [0..<length is]))"

text \<open>\<open>None\<close> is the exception of \<^verbatim>\<open>enqueueAudit\<close>: shutting down, or an entry the schema refuses.\<close>

definition enqueue_audit :: "writer_env \<Rightarrow> audit_entry \<Rightarrow> writer_state \<Rightarrow> writer_state \<times> nat option" where
  "enqueue_audit env e st =
     (if nw_down st then (st, None)
      else case audit_entry_schema (we_isots env) (obj_set ''ns'' (JStr (we_ns env)) e) of
          None \<Rightarrow> (st, None)
        | Some e' \<Rightarrow> (enqueue_audit_unsafe env e' st, Some (nw_nextAudit st)))"

section \<open>The flush\<close>

datatype write_mode = Buffered | Fsync | Direct

datatype flush_abort = Lost_Lock | Durability_Failed string | Write_Failure

text \<open>
  The world during one flush: whether the lock was acquired, the write mode, the authorization at
  flush time, and which of the numbered checkpoints fails.  Checkpoint 0 follows the acquisition;
  \<open>k + 1\<close> precedes the \<open>k\<close>-th data append; the next one stands for the check and the barrier after
  all appends of fsync mode, or for the barrier of the last append of direct mode, and the last
  follows the ledger append.
\<close>

record flush_world =
  fw_locked :: bool
  fw_mode :: write_mode
  fw_auth :: "write_request \<Rightarrow> auth_decision"
  fw_abort :: "nat \<Rightarrow> flush_abort option"

definition allowed :: "flush_world \<Rightarrow> pending_write \<Rightarrow> bool" where
  "allowed w p \<longleftrightarrow> fw_auth w (pw_request p) = Auth_Allowed"

definition pending_target :: "writer_env \<Rightarrow> pending_write \<Rightarrow> (string \<times> string) option" where
  "pending_target env p = safe_target (we_root env) (wi_target (wr_input (pw_request p)))"

datatype plan_item = Plan_Entry audit_entry | Plan_Change pending_write

definition plan_item_of :: "writer_env \<Rightarrow> flush_world \<Rightarrow> pending_write \<Rightarrow> plan_item" where
  "plan_item_of env w p =
     (case fw_auth w (pw_request p) of
        Auth_Denied reason \<Rightarrow> Plan_Entry (denied_audit env (pw_request p) reason)
      | Auth_Allowed \<Rightarrow> Plan_Change p)"

text \<open>
  One data append: the file the code names as the target, and the tree after the append.  Direct
  mode resolves the target and then lets \<^verbatim>\<open>appendJsonlDirect\<close> choose a file of its own.
\<close>

definition append_entry ::
  "write_mode \<Rightarrow> ns_tree \<Rightarrow> string \<times> string \<Rightarrow> pending_write \<Rightarrow> (string \<times> string) \<times> ns_tree" where
  "append_entry mode fs path p =
     (case path of (dir, name) \<Rightarrow>
        ((dir, resolve_jsonl_target (fs dir) name (pw_line p)),
         fs(dir := (if mode = Direct
                    then append_jsonl_direct (fs dir) name (wi_record (wr_input (pw_request p))) (pw_line p)
                    else append_chunk (fs dir) name (pw_line p)))))"

text \<open>The appends of a batch, from checkpoint \<open>k\<close> on: the recorded targets and a possible abort.\<close>

fun append_batch ::
  "write_mode \<Rightarrow> (nat \<Rightarrow> flush_abort option) \<Rightarrow> nat \<Rightarrow> ns_tree \<Rightarrow> ((string \<times> string) \<times> pending_write) list
     \<Rightarrow> ns_tree \<times> (nat \<times> string \<times> string) list \<times> flush_abort option" where
  "append_batch mode abort k fs [] = (fs, [], if mode = Fsync \<or> mode = Direct \<and> 1 < k then abort k else None)"
| "append_batch mode abort k fs ((path, p) # es) =
     (case abort k of
        Some a \<Rightarrow> (fs, [], Some a)
      | None \<Rightarrow>
          (let (target, fs') = append_entry mode fs path p;
               (fs'', targets, outcome) = append_batch mode abort (k + 1) fs' es
           in (fs'', (pw_seq p, target) # targets, outcome)))"

definition plan_entry ::
  "writer_env \<Rightarrow> namespace_files \<Rightarrow> (nat \<times> string \<times> string) list \<Rightarrow> plan_item \<Rightarrow> audit_entry" where
  "plan_entry env files targets item =
     (case item of
        Plan_Entry e \<Rightarrow> e
      | Plan_Change p \<Rightarrow>
          change_record_for env files (pw_request p)
            (case the (map_of targets (pw_seq p)) of (dir, name) \<Rightarrow> join_path dir name) (pw_line p))"

definition plan_line ::
  "writer_env \<Rightarrow> namespace_files \<Rightarrow> (nat \<times> string \<times> string) list \<Rightarrow> plan_item \<Rightarrow> string option" where
  "plan_line env files targets item = serialize_jsonl_line env (JObj (plan_entry env files targets item))"

text \<open>Registering the partitions of the accepted writes; \<open>None\<close> is the exception.\<close>

fun register_partitions :: "writer_env \<Rightarrow> string list \<Rightarrow> ns_tree \<Rightarrow> ns_tree option" where
  "register_partitions env [] fs = Some fs"
| "register_partitions env (p # ps) fs =
     (let now = we_clock env 0; m = get_manifest (we_parse env) now (map_of (fs []) ''manifest.json'')
      in case add_partition now m p of
           None \<Rightarrow> None
         | Some None \<Rightarrow> register_partitions env ps fs
         | Some (Some m') \<Rightarrow>
             register_partitions env ps (fs([] := obj_set ''manifest.json'' (manifest_text (we_fmt env) m') (fs []))))"

fun abort_code :: "flush_abort \<Rightarrow> string" where
  "abort_code Lost_Lock = ''SERIALIZER_FENCED''"
| "abort_code (Durability_Failed code) = code"
| "abort_code Write_Failure = ''INTERNAL_ERROR''"

record flush_outcome =
  fo_tree :: ns_tree
  fo_results :: "write_result list"
  fo_audited :: bool
  fo_fenced :: bool
  fo_commit :: bool

text \<open>Every request of the batch answered with one code.\<close>

definition refuse_all :: "string \<Rightarrow> pending_write list \<Rightarrow> write_result list" where
  "refuse_all code ps = map (\<lambda>p. Write_Failed (pw_seq p) code) ps"

text \<open>The denied requests of \<open>ps\<close> keep their answer, all others get \<open>code\<close>; \<open>seen\<close> were authorized.\<close>

definition refuse_rest :: "flush_world \<Rightarrow> pending_write list \<Rightarrow> string \<Rightarrow> pending_write list \<Rightarrow> write_result list" where
  "refuse_rest w seen code ps =
     map (\<lambda>p. Write_Failed (pw_seq p) (if p \<in> set seen \<and> \<not> allowed w p then ''FORBIDDEN'' else code)) ps"

definition accept_allowed :: "flush_world \<Rightarrow> pending_write list \<Rightarrow> write_result list" where
  "accept_allowed w ps =
     map (\<lambda>p. if allowed w p then Write_Ok (pw_seq p) else Write_Failed (pw_seq p) ''FORBIDDEN'') ps"

text \<open>The error path of the flush: an abort, reported as fenced once the writer is fenced.\<close>

definition flush_failed ::
  "bool \<Rightarrow> flush_world \<Rightarrow> pending_write list \<Rightarrow> pending_write list \<Rightarrow> flush_abort \<Rightarrow> ns_tree \<Rightarrow> bool \<Rightarrow> flush_outcome" where
  "flush_failed fenced w seen ps a fs committed =
     \<lparr>fo_tree = fs,
      fo_results = refuse_rest w seen (if fenced \<or> a = Lost_Lock then ''SERIALIZER_FENCED'' else abort_code a) ps,
      fo_audited = False, fo_fenced = fenced \<or> a = Lost_Lock, fo_commit = committed\<rparr>"

definition audit_dir_name :: string where
  "audit_dir_name = ''_audit''"

text \<open>The data appends and the audit plan of a batch.\<close>

definition flush_entries :: "writer_env \<Rightarrow> flush_world \<Rightarrow> pending_write list \<Rightarrow> ((string \<times> string) \<times> pending_write) list" where
  "flush_entries env w ps = map (\<lambda>p. (the (pending_target env p), p)) (filter (allowed w) ps)"

definition flush_plan :: "writer_env \<Rightarrow> flush_world \<Rightarrow> pending_write list \<Rightarrow> pending_audit list \<Rightarrow> plan_item list" where
  "flush_plan env w ps audits = map (plan_item_of env w) ps @ map (\<lambda>a. Plan_Entry (pa_entry a)) audits"

definition flush_partitions :: "flush_world \<Rightarrow> pending_write list \<Rightarrow> string list" where
  "flush_partitions w ps =
     nub (filter (\<lambda>s. s \<noteq> []) (List.map_filter (\<lambda>p. wi_partition (wr_input (pw_request p))) (filter (allowed w) ps)))"

text \<open>After the data appends: the ledger, the last token check, the partitions, the answers.\<close>

definition flush_finish ::
  "writer_env \<Rightarrow> flush_world \<Rightarrow> bool \<Rightarrow> pending_write list \<Rightarrow> pending_audit list \<Rightarrow> ns_tree
     \<Rightarrow> (nat \<times> string \<times> string) list \<Rightarrow> flush_outcome" where
  "flush_finish env w fenced ps audits fs1 targets =
     (let lines = List.map_filter (plan_line env (tree_file fs1) targets) (flush_plan env w ps audits)
      in case append_audit_ledger (we_limits env) (fs1 audit_dir_name) lines of
           Inl e \<Rightarrow> flush_failed fenced w ps ps Write_Failure fs1 False
         | Inr d \<Rightarrow>
             (let fs2 = fs1(audit_dir_name := d)
              in case fw_abort w (length (filter (allowed w) ps) + 2) of
                   Some a \<Rightarrow> flush_failed fenced w ps ps a fs2 False
                 | None \<Rightarrow>
                     (case register_partitions env (flush_partitions w ps) fs2 of
                        None \<Rightarrow> flush_failed fenced w ps ps Write_Failure fs2 False
                      | Some fs3 \<Rightarrow>
                          \<lparr>fo_tree = fs3, fo_results = accept_allowed w ps, fo_audited = True, fo_fenced = fenced,
                           fo_commit = (flush_entries env w ps \<noteq> [] \<or> lines \<noteq> [])\<rparr>)))"

definition flush_locked ::
  "writer_env \<Rightarrow> flush_world \<Rightarrow> bool \<Rightarrow> pending_write list \<Rightarrow> pending_audit list \<Rightarrow> ns_tree \<Rightarrow> flush_outcome" where
  "flush_locked env w fenced ps audits fs =
     (case fw_abort w 0 of
        Some a \<Rightarrow> flush_failed fenced w [] ps a fs False
      | None \<Rightarrow>
          (let good = takeWhile (\<lambda>p. allowed w p \<longrightarrow> pending_target env p \<noteq> None) ps
           in if length good < length ps then flush_failed fenced w good ps Write_Failure fs False
              else case append_batch (fw_mode w) (fw_abort w) 1 fs (flush_entries env w ps) of
                  (fs1, targets, Some a) \<Rightarrow> flush_failed fenced w ps ps a fs1 False
                | (fs1, targets, None) \<Rightarrow> flush_finish env w fenced ps audits fs1 targets))"

text \<open>The whole of \<^verbatim>\<open>flushOnceLocked\<close> on the batch taken; \<open>None\<close> as the tree is a deleted namespace.\<close>

definition flush_batch ::
  "writer_env \<Rightarrow> flush_world \<Rightarrow> bool \<Rightarrow> pending_write list \<Rightarrow> pending_audit list \<Rightarrow> ns_tree option
     \<Rightarrow> ns_tree option \<times> flush_outcome" where
  "flush_batch env w fenced ps audits tree =
     (case tree of
        None \<Rightarrow> (None, \<lparr>fo_tree = (\<lambda>_. []), fo_results = refuse_all ''NOT_FOUND'' ps, fo_audited = False,
                       fo_fenced = fenced, fo_commit = False\<rparr>)
      | Some fs \<Rightarrow>
          if \<not> fw_locked w
          then (tree, \<lparr>fo_tree = fs, fo_results = refuse_all ''SERIALIZER_LOCKED'' ps, fo_audited = False,
                       fo_fenced = fenced, fo_commit = False\<rparr>)
          else (let o1 = flush_locked env w fenced ps audits fs in (Some (fo_tree o1), o1)))"

section \<open>The writer as a state machine\<close>

text \<open>The batch is taken under the queue mutex; at most one flush is in progress.\<close>

definition flush_begin :: "writer_state \<Rightarrow> writer_state" where
  "flush_begin st =
     (if nw_flight st \<noteq> None \<or> (nw_queue st = [] \<and> nw_audits st = []) then st
      else st\<lparr>nw_flight := Some (sort_key pw_seq (nw_queue st), nw_audits st), nw_queue := [], nw_audits := []\<rparr>)"

definition settle_batch :: "pending_write list \<Rightarrow> pending_audit list \<Rightarrow> flush_outcome \<Rightarrow> writer_state \<Rightarrow> writer_state" where
  "settle_batch ps audits o1 st =
     st\<lparr>nw_flight := None, nw_fenced := fo_fenced o1,
        nw_rows := nw_rows st - int (length ps), nw_bytes := nw_bytes st - int (sum_list (map pw_bytes ps)),
        nw_settled := nw_settled st @ fo_results o1,
        nw_audited := nw_audited st @ map (\<lambda>a. (pa_id a, fo_audited o1)) audits\<rparr>"

definition flush_end ::
  "writer_env \<Rightarrow> flush_world \<Rightarrow> writer_state \<times> ns_tree option \<Rightarrow> writer_state \<times> ns_tree option" where
  "flush_end env w s =
     (case nw_flight (fst s) of
        None \<Rightarrow> s
      | Some (ps, audits) \<Rightarrow>
          (let (tree, o1) = flush_batch env w (nw_fenced (fst s)) ps audits (snd s)
           in (settle_batch ps audits o1 (fst s), tree)))"

text \<open>
  The steps of the writer.  Between two of them other processes may change the files, and the hook,
  the parameters of a flush and the submitted requests are arbitrary.
\<close>

inductive writer_step ::
  "writer_env \<Rightarrow> writer_state \<times> ns_tree option \<Rightarrow> writer_state \<times> ns_tree option \<Rightarrow> bool" for env where
  Enqueue: "enqueue env files auth i st = (st', c) \<Longrightarrow> writer_step env (st, fs) (st', fs)"
| Enqueue_Batch: "enqueue_batch env files auth is st = (st', cs) \<Longrightarrow> writer_step env (st, fs) (st', fs)"
| Enqueue_Audit: "enqueue_audit env e st = (st', r) \<Longrightarrow> writer_step env (st, fs) (st', fs)"
| Shut_Down: "writer_step env (st, fs) (st\<lparr>nw_down := True\<rparr>, fs)"
| Begin: "writer_step env (st, fs) (flush_begin st, fs)"
| End: "writer_step env (st, fs) (flush_end env w (st, fs))"
| Files: "writer_step env (st, fs) (st, fs')"

inductive writer_reach ::
  "writer_env \<Rightarrow> ns_tree option \<Rightarrow> writer_state \<times> ns_tree option \<Rightarrow> bool" for env fs0 where
  Initial: "writer_reach env fs0 (initial_writer, fs0)"
| Step: "writer_reach env fs0 s \<Longrightarrow> writer_step env s s' \<Longrightarrow> writer_reach env fs0 s'"

text \<open>
  \<^verbatim>\<open>drain\<close> after the registrations are done: flushes until nothing is queued and no flush is in
  progress.  The \<open>n\<close>-th flush runs in the world \<open>world n\<close>; the last argument is the fuel.
\<close>

fun drain ::
  "writer_env \<Rightarrow> (nat \<Rightarrow> flush_world) \<Rightarrow> nat \<Rightarrow> writer_state \<times> ns_tree option \<Rightarrow> nat
     \<Rightarrow> (writer_state \<times> ns_tree option) option" where
  "drain env world n s 0 = None"
| "drain env world n (st, fs) (Suc fuel) =
     (if nw_queue st = [] \<and> nw_audits st = [] \<and> nw_flight st = None then Some (st, fs)
      else drain env world (n + 1) (flush_end env (world n) (flush_begin st, fs)) fuel)"

section \<open>Every request is answered once, in order\<close>

definition in_flight :: "writer_state \<Rightarrow> pending_write list" where
  "in_flight st = (case nw_flight st of None \<Rightarrow> [] | Some f \<Rightarrow> fst f)"

definition audits_in_flight :: "writer_state \<Rightarrow> pending_audit list" where
  "audits_in_flight st = (case nw_flight st of None \<Rightarrow> [] | Some f \<Rightarrow> snd f)"

definition writer_inv :: "writer_env \<Rightarrow> writer_state \<Rightarrow> bool" where
  "writer_inv env st \<longleftrightarrow>
     map result_seq (nw_settled st) @ map pw_seq (in_flight st @ nw_queue st) = [1..<nw_nextSeq st + 1] \<and>
     mset (map fst (nw_audited st) @ map pa_id (audits_in_flight st @ nw_audits st)) = mset_set {0..<nw_nextAudit st} \<and>
     nw_rows st = int (length (in_flight st @ nw_queue st)) \<and>
     nw_bytes st = int (sum_list (map pw_bytes (in_flight st @ nw_queue st))) \<and>
     nw_rows st \<le> int (we_maxRows env) \<and> nw_bytes st \<le> int (we_maxBytes env)"

lemma mset_upto_Suc: "mset_set {0..<Suc n} = add_mset n (mset_set {0..<n})"
  by (simp add: atLeast0_lessThan_Suc)

lemma writer_inv_initial: "writer_inv env initial_writer"
  by (simp add: writer_inv_def initial_writer_def in_flight_def audits_in_flight_def)

lemma audit_unsafe_inv: "writer_inv env st \<Longrightarrow> writer_inv env (enqueue_audit_unsafe env e st)"
  by (cases "audit_entry_schema (we_isots env) e")
    (simp_all add: writer_inv_def enqueue_audit_unsafe_def in_flight_def audits_in_flight_def mset_upto_Suc)

lemma push_write_inv:
  assumes "writer_inv env st" and "nw_rows st + 1 \<le> int (we_maxRows env)"
    and "nw_bytes st + int bytes \<le> int (we_maxBytes env)"
  shows "writer_inv env (push_write i (data, line, bytes) st)"
  using assms by (simp add: writer_inv_def push_write_def in_flight_def audits_in_flight_def)

lemma push_write_counters [simp]:
  "nw_rows (push_write i v st) = nw_rows st + 1"
  "nw_bytes (push_write i v st) = nw_bytes st + int (snd (snd v))"
  by (cases v; simp add: push_write_def)+

lemma push_all_inv:
  assumes "writer_inv env st" and "nw_rows st + int (length ivs) \<le> int (we_maxRows env)"
    and "nw_bytes st + int (sum_list (map (\<lambda>x. snd (snd (snd x))) ivs)) \<le> int (we_maxBytes env)"
  shows "writer_inv env (foldl (\<lambda>st (i, v). push_write i v st) st ivs)"
  using assms
proof (induction ivs arbitrary: st)
  case (Cons x ivs)
  obtain i data line bytes where x: "x = (i, data, line, bytes)" by (cases x)
  have "writer_inv env (push_write i (data, line, bytes) st)"
    using Cons.prems by (intro push_write_inv) (simp_all add: x)
  from Cons.IH [OF this] Cons.prems show ?case by (simp add: x)
qed simp

lemma enqueue_inv:
  assumes "writer_inv env st" and "enqueue env files auth i st = (st', c)"
  shows "writer_inv env st'"
  using assms audit_unsafe_inv push_write_inv
  by (auto simp: enqueue_def Let_def split: if_splits option.splits auth_decision.splits prod.splits)

lemma enqueue_batch_inv:
  assumes "writer_inv env st" and "enqueue_batch env files auth is st = (st', cs)"
  shows "writer_inv env st'"
proof -
  let ?vs = "map (\<lambda>i. the (validate_input env files i)) is"
  have b: "map (\<lambda>x. snd (snd (snd x))) (zip is ?vs) = map (\<lambda>v. snd (snd v)) ?vs"
    by (rule nth_equalityI) simp_all
  show ?thesis
    using assms audit_unsafe_inv push_all_inv [of env st "zip is ?vs"]
    unfolding b by (auto simp: enqueue_batch_def Let_def split: if_splits option.splits)
qed

lemma enqueue_audit_inv:
  "writer_inv env st \<Longrightarrow> enqueue_audit env e st = (st', r) \<Longrightarrow> writer_inv env st'"
  using audit_unsafe_inv by (auto simp: enqueue_audit_def split: if_splits option.splits)

lemma flush_begin_inv:
  assumes "writer_inv env st"
  shows "writer_inv env (flush_begin st)"
proof (cases "nw_flight st = None")
  case True
  have s: "map result_seq (nw_settled st) @ map pw_seq (nw_queue st) = [1..<nw_nextSeq st + 1]"
    using assms True by (simp add: writer_inv_def in_flight_def)
  have "sorted (map pw_seq (nw_queue st))"
    using arg_cong [OF s, of sorted] by (simp add: sorted_append del: upt_Suc)
  then have "sort_key pw_seq (nw_queue st) = nw_queue st" by (rule sort_key_id_if_sorted)
  with assms True show ?thesis
    by (auto simp: flush_begin_def writer_inv_def in_flight_def audits_in_flight_def)
qed (use assms in \<open>simp add: flush_begin_def\<close>)

lemma result_seqs [simp]:
  "map result_seq (refuse_all code ps) = map pw_seq ps"
  "map result_seq (refuse_rest w seen code ps) = map pw_seq ps"
  "map result_seq (accept_allowed w ps) = map pw_seq ps"
  by (simp_all add: refuse_all_def refuse_rest_def accept_allowed_def)

lemma flush_failed_seqs [simp]:
  "map result_seq (fo_results (flush_failed fenced w seen ps a fs c)) = map pw_seq ps"
  by (simp add: flush_failed_def)

lemma flush_locked_seqs: "map result_seq (fo_results (flush_locked env w fenced ps audits fs)) = map pw_seq ps"
  by (simp add: flush_locked_def flush_finish_def Let_def split: option.split prod.split sum.split)

lemma flush_batch_seqs: "map result_seq (fo_results (snd (flush_batch env w fenced ps audits tree))) = map pw_seq ps"
  by (simp add: flush_batch_def Let_def flush_locked_seqs split: option.split)

lemma flush_end_inv: "writer_inv env (fst s) \<Longrightarrow> writer_inv env (fst (flush_end env w s))"
proof (cases "nw_flight (fst s)")
  case (Some f)
  obtain ps audits where f: "f = (ps, audits)" by (cases f)
  assume "writer_inv env (fst s)"
  moreover note flush_batch_seqs [of env w "nw_fenced (fst s)" ps audits "snd s"]
  moreover have "0 \<le> int (sum_list (map pw_bytes ps))" by simp
  ultimately show ?thesis
    by (cases "flush_batch env w (nw_fenced (fst s)) ps audits (snd s)")
      (simp add: flush_end_def Some f settle_batch_def writer_inv_def in_flight_def audits_in_flight_def o_def union_ac)
qed (simp add: flush_end_def)

lemma writer_step_inv: "writer_step env s s' \<Longrightarrow> writer_inv env (fst s) \<Longrightarrow> writer_inv env (fst s')"
proof (induction rule: writer_step.induct)
  case Enqueue
  then show ?case by (simp add: enqueue_inv)
next
  case Enqueue_Batch
  then show ?case by (simp add: enqueue_batch_inv)
next
  case Enqueue_Audit
  then show ?case by (simp add: enqueue_audit_inv)
next
  case Begin
  then show ?case by (simp add: flush_begin_inv)
next
  case (Shut_Down st fs)
  then show ?case by (simp add: writer_inv_def in_flight_def audits_in_flight_def)
next
  case (End st fs w)
  then show ?case using flush_end_inv [of env "(st, fs)" w] by simp
qed simp

lemma writer_reach_inv: "writer_reach env fs0 s \<Longrightarrow> writer_inv env (fst s)"
  by (induction rule: writer_reach.induct) (auto simp: writer_inv_initial intro: writer_step_inv)

text \<open>C7: the queue discipline of the writer.  In every reachable state the answers given so far,
  the batch in flight and the queue, in this order, carry exactly the sequence numbers one to the
  last one issued: every admitted write is answered once and in order.  The counters are the number
  and the bytes of the writes not yet answered and never exceed the configured limits, and every
  audit row is pending or settled exactly once.\<close>

theorem writer_queue_invariant:
  assumes "writer_reach env fs0 (st, fs)"
  shows "map result_seq (nw_settled st) @ map pw_seq (in_flight st @ nw_queue st) = [1..<nw_nextSeq st + 1] \<and>
    nw_rows st = int (length (in_flight st @ nw_queue st)) \<and> nw_rows st \<le> int (we_maxRows env) \<and>
    nw_bytes st = int (sum_list (map pw_bytes (in_flight st @ nw_queue st))) \<and>
    nw_bytes st \<le> int (we_maxBytes env) \<and>
    mset (map fst (nw_audited st) @ map pa_id (audits_in_flight st @ nw_audits st)) = mset_set {0..<nw_nextAudit st}"
  using writer_reach_inv [OF assms] by (simp add: writer_inv_def)

section \<open>Draining\<close>

lemma flush_begin_idle: "nw_flight st = None \<Longrightarrow> nw_queue (flush_begin st) = [] \<and> nw_audits (flush_begin st) = []"
  by (simp add: flush_begin_def)

lemma flush_end_idle:
  "nw_flight (fst (flush_end env w s)) = None \<and>
   nw_queue (fst (flush_end env w s)) = nw_queue (fst s) \<and> nw_audits (fst (flush_end env w s)) = nw_audits (fst s) \<and>
   nw_nextSeq (fst (flush_end env w s)) = nw_nextSeq (fst s) \<and> nw_nextAudit (fst (flush_end env w s)) = nw_nextAudit (fst s)"
  by (cases "nw_flight (fst s)") (auto simp: flush_end_def settle_batch_def Let_def split: prod.split)

lemma flush_begin_counters:
  "nw_nextSeq (flush_begin st) = nw_nextSeq st" "nw_nextAudit (flush_begin st) = nw_nextAudit st"
  by (simp_all add: flush_begin_def)

text \<open>One round that starts without a flush in progress empties the queue.\<close>

lemma drain_idle:
  assumes "nw_flight st = None"
  shows "\<exists>s'. drain env world n (st, fs) (Suc (Suc fuel)) = Some s' \<and>
    nw_queue (fst s') = [] \<and> nw_audits (fst s') = [] \<and> nw_flight (fst s') = None \<and>
    (writer_inv env st \<longrightarrow> writer_inv env (fst s')) \<and>
    nw_nextSeq (fst s') = nw_nextSeq st \<and> nw_nextAudit (fst s') = nw_nextAudit st"
proof (cases "nw_queue st = [] \<and> nw_audits st = []")
  case False
  let ?s = "flush_end env (world n) (flush_begin st, fs)"
  obtain st1 fs1 where s: "?s = (st1, fs1)" by (cases ?s)
  have "nw_queue st1 = []" "nw_audits st1 = []" "nw_flight st1 = None"
    "nw_nextSeq st1 = nw_nextSeq st" "nw_nextAudit st1 = nw_nextAudit st"
    using flush_end_idle [of env "world n" "(flush_begin st, fs)"] flush_begin_idle [OF assms] flush_begin_counters [of st] s
    by simp_all
  moreover have "writer_inv env st \<longrightarrow> writer_inv env st1"
    using flush_end_inv [of env "(flush_begin st, fs)" "world n"] flush_begin_inv [of env st] s by simp
  ultimately show ?thesis using False s by simp
qed (use assms in simp)

lemma drain_total:
  shows "\<exists>s'. drain env world n (st, fs) 3 = Some s' \<and>
    nw_queue (fst s') = [] \<and> nw_audits (fst s') = [] \<and> nw_flight (fst s') = None \<and>
    (writer_inv env st \<longrightarrow> writer_inv env (fst s')) \<and>
    nw_nextSeq (fst s') = nw_nextSeq st \<and> nw_nextAudit (fst s') = nw_nextAudit st"
proof (cases "nw_flight st")
  case None
  from drain_idle [OF None, of env world n fs 1] show ?thesis by (simp add: eval_nat_numeral)
next
  case (Some f)
  then have b: "flush_begin st = st" by (simp add: flush_begin_def)
  obtain st1 fs1 where s: "flush_end env (world n) (st, fs) = (st1, fs1)" by fastforce
  note e = flush_end_idle [of env "world n" "(st, fs)", unfolded s, simplified]
  have i: "writer_inv env st \<longrightarrow> writer_inv env st1"
    using flush_end_inv [of env "(st, fs)" "world n"] s by simp
  have "drain env world n (st, fs) 3 = drain env world (n + 1) (st1, fs1) (Suc (Suc 0))"
    using Some by (simp add: eval_nat_numeral b s)
  with drain_idle [of st1 env world "n + 1" fs1 0] e i show ?thesis by auto
qed


section \<open>What a flush writes\<close>

definition closed_tree :: "ns_tree \<Rightarrow> bool" where
  "closed_tree fs \<longleftrightarrow> (\<forall>dir n. ends_with jsonl_ext n \<longrightarrow> line_closed (content_of (fs dir) n))"

text \<open>In direct mode the writer names the file it writes only for memory-shaped rows.\<close>

definition names_target :: "write_mode \<Rightarrow> pending_write \<Rightarrow> bool" where
  "names_target mode p \<longleftrightarrow> (mode = Direct \<longrightarrow> is_memory_shaped (wi_record (wr_input (pw_request p))))"

abbreviation view_at :: "ns_tree \<Rightarrow> string \<times> string \<Rightarrow> string list" where
  "view_at fs f \<equiv> file_lines (content_of (fs (fst f)) (snd f))"

lemma chunk_name_ext [simp]: "ends_with jsonl_ext (chunk_name k)"
  by (auto simp: ends_with_iff chunk_name_def)

lemma resolve_ext: "ends_with jsonl_ext name \<Longrightarrow> ends_with jsonl_ext (resolve_jsonl_target d name line)"
proof -
  assume n: "ends_with jsonl_ext name"
  have num: "ends_with jsonl_ext (last (numeric_chunks d))" if "numeric_chunks d \<noteq> []"
    using last_in_set [OF that] by (simp add: is_numeric_chunk_def)
  have "ends_with jsonl_ext (get_next_chunk_name d)" using next_chunk_spec [of d] chunk_name_ext by metis
  with n num show ?thesis by (auto simp: resolve_jsonl_target_def active_chunk_def)
qed

lemma append_entry_view:
  assumes "append_entry mode fs (dir, name) p = (t, fs')" and "closed_tree fs" and "ends_with jsonl_ext name"
    and "record_line (pw_line p)" and "names_target mode p"
  shows "closed_tree fs'" and "view_at fs' f = view_at fs f @ (if t = f then [pw_line p] else [])"
    and "fst t = dir" and "\<not> ends_with jsonl_ext n \<or> d \<noteq> dir \<Longrightarrow> map_of (fs' d) n = map_of (fs d) n"
proof -
  let ?t = "resolve_jsonl_target (fs dir) name (pw_line p)"
  define bytes where "bytes = (if mode = Direct then frame_jsonl_record (pw_line p) else pw_line p @ [newline])"
  have fs': "fs' = fs(dir := append_file ?t bytes (fs dir))" and t: "t = (dir, ?t)"
    using assms(1,5) by (auto simp: append_entry_def append_jsonl_direct_def direct_target_def append_chunk_def
        append_with_def plain_record_def bytes_def names_target_def)
  have ext: "ends_with jsonl_ext ?t" by (rule resolve_ext [OF assms(3)])
  have c: "line_closed (content_of (fs dir) ?t)" using assms(2) ext by (simp add: closed_tree_def)
  have b: "line_closed (c @ bytes)" for c by (simp add: bytes_def frame_closed)
  have l: "file_lines (content_of (fs dir) ?t @ bytes) = file_lines (content_of (fs dir) ?t) @ [pw_line p]"
    using frame_lines [OF c assms(4)] file_lines_snoc [OF c assms(4)] by (simp add: bytes_def)
  show "closed_tree fs'" using assms(2) b by (auto simp: closed_tree_def fs')
  show "view_at fs' f = view_at fs f @ (if t = f then [pw_line p] else [])"
    using l by (cases f) (auto simp: fs' t)
  show "fst t = dir" by (simp add: t)
  show "map_of (fs' d) n = map_of (fs d) n" if "\<not> ends_with jsonl_ext n \<or> d \<noteq> dir"
    using that ext by (auto simp: fs' append_file_def)
qed

definition batch_ready :: "write_mode \<Rightarrow> ((string \<times> string) \<times> pending_write) list \<Rightarrow> bool" where
  "batch_ready mode es \<longleftrightarrow>
     (\<forall>(path, p) \<in> set es. ends_with jsonl_ext (snd path) \<and> fst path \<noteq> audit_dir_name \<and>
        record_line (pw_line p) \<and> names_target mode p)"

text \<open>The lines of a batch that go to the file \<open>f\<close>, in batch order.\<close>

definition landed :: "((string \<times> string) \<times> pending_write) list \<Rightarrow> (nat \<times> string \<times> string) list \<Rightarrow> string \<times> string \<Rightarrow> string list" where
  "landed es targets f = map (\<lambda>(e, t). pw_line (snd e)) (filter (\<lambda>(e, t). snd t = f) (zip es targets))"

lemma append_batch_view:
  assumes "append_batch mode abort k fs es = (fs', targets, failure)" and "closed_tree fs" and "batch_ready mode es"
  shows "closed_tree fs' \<and> (\<forall>f. view_at fs' f = view_at fs f @ landed es targets f) \<and>
    map fst targets = map (\<lambda>e. pw_seq (snd e)) (take (length targets) es) \<and> length targets \<le> length es \<and>
    (failure = None \<longrightarrow> length targets = length es) \<and>
    (\<forall>d n. \<not> ends_with jsonl_ext n \<or> d = audit_dir_name \<longrightarrow> map_of (fs' d) n = map_of (fs d) n)"
  using assms
proof (induction mode abort k fs es arbitrary: fs' targets failure rule: append_batch.induct)
  case (1 mode abort k fs)
  then show ?case by (auto simp: landed_def)
next
  case (2 mode abort k fs path p es)
  obtain dir name where path: "path = (dir, name)" by (cases path)
  show ?case
  proof (cases "abort k")
    case (Some a)
    then have "fs' = fs" "targets = []" "failure = Some a" using 2(2) by simp_all
    with 2(3) show ?thesis by (simp add: landed_def)
  next
    case None
    obtain t fs1 where e: "append_entry mode fs path p = (t, fs1)" by fastforce
    obtain fs2 ts failure' where r: "append_batch mode abort (k + 1) fs1 es = (fs2, ts, failure')" by (metis prod_cases3)
    have out: "fs' = fs2" "targets = (pw_seq p, t) # ts" "failure = failure'" using 2(2) None e r by auto
    have ok: "ends_with jsonl_ext name" "dir \<noteq> audit_dir_name" "record_line (pw_line p)" "names_target mode p"
      and ready: "batch_ready mode es" using 2(4) by (simp_all add: batch_ready_def path)
    note v = append_entry_view [OF e [unfolded path] 2(3) ok(1,3,4)]
    from 2(1) [OF None e [symmetric] refl r v(1) ready] v(2) v(4) ok(2)
    show ?thesis unfolding out landed_def by (fastforce simp: landed_def)
  qed
qed

lemma append_batch_other:
  "append_batch mode abort k fs es = (fs', targets, failure) \<Longrightarrow> \<forall>e \<in> set es. fst (fst e) \<noteq> d \<Longrightarrow> fs' d = fs d"
proof (induction mode abort k fs es arbitrary: fs' targets rule: append_batch.induct)
  case (2 mode abort k fs path p es)
  obtain t fs1 where e: "append_entry mode fs path p = (t, fs1)" by fastforce
  have "fs1 d = fs d" using e 2(3) by (cases path) (auto simp: append_entry_def)
  with 2(1) [OF _ e [symmetric] refl] 2(2,3) e show ?case
    by (cases "abort k") (auto split: prod.splits)
qed simp

text \<open>Recorded targets lie in the directories of the batch.\<close>

lemma target_place:
  "append_batch mode abort k fs es = (fs', targets, failure) \<Longrightarrow> batch_ready mode es \<Longrightarrow> x \<in> set targets \<Longrightarrow>
   fst (snd x) \<noteq> audit_dir_name \<and> ends_with jsonl_ext (snd (snd x))"
proof (induction mode abort k fs es arbitrary: fs' targets failure rule: append_batch.induct)
  case (2 mode abort k fs path p es)
  obtain t fs1 where e: "append_entry mode fs path p = (t, fs1)" by fastforce
  obtain fs2 ts failure' where r: "append_batch mode abort (k + 1) fs1 es = (fs2, ts, failure')" by (metis prod_cases3)
  have "abort k = None" using 2(2,4) by (cases "abort k") auto
  then have "targets = (pw_seq p, t) # ts" using 2(2) e r by simp
  moreover have "fst t \<noteq> audit_dir_name \<and> ends_with jsonl_ext (snd t)"
    using e 2(3) resolve_ext by (cases path) (auto simp: append_entry_def batch_ready_def)
  moreover have "batch_ready mode es" using 2(3) by (simp add: batch_ready_def)
  ultimately show ?case
    using 2(1) [OF \<open>abort k = None\<close> e [symmetric] refl r] 2(4) by auto
qed simp

lemma landed_subset: "set (landed es targets f) \<subseteq> (\<lambda>e. pw_line (snd e)) ` set es"
  by (auto simp: landed_def dest: set_zip_leftD)

lemma landed_own:
  assumes "map fst targets = map (\<lambda>e. pw_seq (snd e)) es" and "e \<in> set es" and "map_of targets (pw_seq (snd e)) = Some f"
    and "distinct (map fst targets)"
  shows "pw_line (snd e) \<in> set (landed es targets f)"
proof -
  from assms(2) obtain i where i: "i < length es" "es ! i = e" by (auto simp: in_set_conv_nth)
  then have j: "i < length targets" using assms(1) by (metis length_map)
  have "fst (targets ! i) = pw_seq (snd e)" using arg_cong [OF assms(1), of "\<lambda>xs. xs ! i"] i j by simp
  then have "(pw_seq (snd e), snd (targets ! i)) \<in> set targets" using nth_mem [OF j] by (metis surjective_pairing)
  then have "snd (targets ! i) = f" using assms(3,4) by (metis map_of_is_SomeI option.inject)
  then have "(e, targets ! i) \<in> set (filter (\<lambda>(e, t). snd t = f) (zip es targets))"
    using i j by (auto simp: in_set_zip)
  then show ?thesis by (force simp: landed_def)
qed

section \<open>Flushes that reach the ledger\<close>

text \<open>The ledger line of an item of the plan.\<close>

definition audit_text ::
  "writer_env \<Rightarrow> namespace_files \<Rightarrow> (nat \<times> string \<times> string) list \<Rightarrow> plan_item \<Rightarrow> string" where
  "audit_text env files targets item = json_compact (we_fmt env) (JObj (plan_entry env files targets item))"

text \<open>
  A batch as the queue holds it, on well-formed files.  The last condition states that \<^verbatim>\<open>JSON.parse\<close>
  accepts what \<^verbatim>\<open>JSON.stringify\<close> prints.
\<close>

definition flush_ready :: "writer_env \<Rightarrow> flush_world \<Rightarrow> pending_write list \<Rightarrow> pending_audit list \<Rightarrow> ns_tree \<Rightarrow> bool" where
  "flush_ready env w ps audits fs \<longleftrightarrow>
     (\<forall>p \<in> set ps. record_line (pw_line p) \<and> names_target (fw_mode w) p \<and>
        (\<exists>dir name. pending_target env p = Some (dir, name) \<and> ends_with jsonl_ext name \<and> dir \<noteq> audit_dir_name)) \<and>
     distinct (map pw_seq ps) \<and> closed_tree fs \<and> ledger_valid (fs audit_dir_name) \<and>
     length ps + length audits \<le> ledger_room (fs audit_dir_name) \<and>
     digits_ok (we_fmt env) \<and> (\<forall>v. we_parse env (json_compact (we_fmt env) v) \<noteq> None)"

lemma ready_entries:
  assumes "flush_ready env w ps audits fs"
  shows "batch_ready (fw_mode w) (flush_entries env w ps)"
    and "takeWhile (\<lambda>p. allowed w p \<longrightarrow> pending_target env p \<noteq> None) ps = ps"
proof -
  have t: "\<exists>dir name. pending_target env p = Some (dir, name) \<and> ends_with jsonl_ext name \<and> dir \<noteq> audit_dir_name"
    and r: "record_line (pw_line p)" "names_target (fw_mode w) p" if "p \<in> set ps" for p
    using assms that by (auto simp: flush_ready_def)
  show "batch_ready (fw_mode w) (flush_entries env w ps)"
    unfolding batch_ready_def flush_entries_def using t r by fastforce
  show "takeWhile (\<lambda>p. allowed w p \<longrightarrow> pending_target env p \<noteq> None) ps = ps"
    using t by (fastforce simp: takeWhile_eq_all_conv)
qed

text \<open>The declarations that keys are read from are not data files, so a batch leaves them alone.\<close>

lemma last_split_suffix:
  "CHR ''/'' \<notin> set b \<Longrightarrow> \<exists>r. last (split_on (CHR ''/'') (a @ b)) = r @ b"
proof (induction a)
  case (Cons x a)
  then show ?case by (cases "split_on (CHR ''/'') (a @ b)") auto
qed (simp add: split_on_id)

definition declaration_place :: "string \<Rightarrow> bool" where
  "declaration_place path \<longleftrightarrow>
     (let name = last (split_on (CHR ''/'') path)
      in \<not> ends_with jsonl_ext name \<and> name \<noteq> ''manifest.json'' \<and>
         join_with ''/'' (butlast (split_on (CHR ''/'') path)) \<noteq> audit_dir_name)"

lemma declaration_places:
  "declaration_place ''schema.json''" "declaration_place (''tables/'' @ table @ ''.table.json'')"
proof -
  show "declaration_place ''schema.json''"
    by (simp add: declaration_place_def ends_with_def jsonl_ext_def audit_dir_name_def)
  let ?path = "''tables/'' @ table @ ''.table.json''"
  obtain r where r: "last (split_on (CHR ''/'') ((''tables/'' @ table) @ ''.table.json'')) = r @ ''.table.json''"
    using last_split_suffix [of "''.table.json''"] by fastforce
  have "\<not> ends_with jsonl_ext (r @ ''.table.json'')" by (simp add: ends_with_def jsonl_ext_def)
  moreover have "ends_with ''.table.json'' (r @ ''.table.json'')" "\<not> ends_with ''.table.json'' ''manifest.json''"
    by (simp_all add: ends_with_def)
  then have "r @ ''.table.json'' \<noteq> ''manifest.json''" by metis
  moreover have "split_on (CHR ''/'') (''tables'' @ CHR ''/'' # table @ ''.table.json'') =
      ''tables'' # split_on (CHR ''/'') (table @ ''.table.json'')" by (rule split_on_append_sep) simp
  then have "join_with ''/'' (butlast (split_on (CHR ''/'') ?path)) \<noteq> audit_dir_name"
    by (cases "butlast (split_on (CHR ''/'') (table @ ''.table.json''))") (simp_all add: audit_dir_name_def)
  ultimately show "declaration_place ?path" using r by (simp add: declaration_place_def Let_def)
qed

definition same_declarations :: "namespace_files \<Rightarrow> namespace_files \<Rightarrow> bool" where
  "same_declarations f g \<longleftrightarrow>
     f ''schema.json'' = g ''schema.json'' \<and>
     (\<forall>table. f (''tables/'' @ table @ ''.table.json'') = g (''tables/'' @ table @ ''.table.json''))"

lemma same_declarations_view:
  assumes "same_declarations f g"
  shows "read_declared_table_view parse f table = read_declared_table_view parse g table"
proof -
  have s: "read_schema_json_table_view parse f table = read_schema_json_table_view parse g table"
    using assms by (simp add: same_declarations_def read_schema_json_table_view_def)
  have t: "f (''tables/'' @ table @ ''.table.json'') = g (''tables/'' @ table @ ''.table.json'')"
    using assms by (simp add: same_declarations_def)
  show ?thesis unfolding read_declared_table_view_def s t ..
qed

lemma same_declarations_facts:
  assumes "same_declarations f g"
  shows "key_material_for parse f table row = key_material_for parse g table row"
    and "declared_schema_version parse f table = declared_schema_version parse g table"
    and "declared_key_columns parse f table = declared_key_columns parse g table"
    and "missing_key_columns parse f table row = missing_key_columns parse g table row"
proof -
  note v = same_declarations_view [OF assms]
  show k: "declared_key_columns parse f table = declared_key_columns parse g table"
    by (simp add: declared_key_columns_def v)
  have o: "column_order parse f table = column_order parse g table" by (simp add: column_order_def v)
  show "key_material_for parse f table row = key_material_for parse g table row"
    "missing_key_columns parse f table row = missing_key_columns parse g table row"
    by (simp_all add: key_material_for_def missing_key_columns_def k o)
  show "declared_schema_version parse f table = declared_schema_version parse g table"
    by (simp add: declared_schema_version_def v)
qed

lemma same_declarations_text:
  "same_declarations f g \<Longrightarrow> audit_text env f targets item = audit_text env g targets item"
  by (cases item) (simp_all add: audit_text_def plan_entry_def change_record_for_def same_declarations_facts)

lemma unchanged_declarations:
  assumes "\<And>d n. \<not> ends_with jsonl_ext n \<Longrightarrow> n \<noteq> ''manifest.json'' \<Longrightarrow> d \<noteq> audit_dir_name \<Longrightarrow>
    map_of (fs' d) n = map_of (fs d) n"
  shows "same_declarations (tree_file fs') (tree_file fs)"
proof -
  have "tree_file fs' path = tree_file fs path" if "declaration_place path" for path
    using that assms by (simp add: declaration_place_def tree_file_def Let_def)
  then show ?thesis unfolding same_declarations_def using declaration_places by blast
qed

lemma plan_lines_some:
  assumes "flush_ready env w ps audits fs"
  shows "List.map_filter (plan_line env f targets) items = map (audit_text env f targets) items"
proof -
  have parse: "we_parse env (json_compact (we_fmt env) v) \<noteq> None" for v using assms by (auto simp: flush_ready_def)
  have "plan_line env f targets item = Some (audit_text env f targets item)" for item
    using parse by (simp add: plan_line_def audit_text_def serialize_jsonl_line_def del: json_compact.simps)
  then show ?thesis by (induction items) (simp_all add: List.map_filter_simps)
qed

lemma append_batch_succeeds:
  "\<forall>j. k \<le> j \<and> j \<le> k + length es \<longrightarrow> abort j = None \<Longrightarrow> snd (snd (append_batch mode abort k fs es)) = None"
proof (induction mode abort k fs es rule: append_batch.induct)
  case (2 mode abort k fs path p es)
  obtain t fs1 where e: "append_entry mode fs path p = (t, fs1)" by fastforce
  have "abort k = None" using 2(2) by simp
  with 2(1) [OF this e [symmetric] refl] 2(2) e show ?case by (auto split: prod.splits)
qed simp

text \<open>Once the data is appended the ledger takes one line per item of the plan.\<close>

lemma flush_reaches_ledger:
  assumes "flush_ready env w ps audits fs"
    and b: "append_batch (fw_mode w) (fw_abort w) 1 fs (flush_entries env w ps) = (fs1, targets, None)"
  obtains d where
    "append_audit_ledger (we_limits env) (fs1 audit_dir_name)
        (List.map_filter (plan_line env (tree_file fs1) targets) (flush_plan env w ps audits)) = Inr d"
    and "ledger_view d = ledger_view (fs audit_dir_name) @ map (audit_text env (tree_file fs) targets) (flush_plan env w ps audits)"
    and "ledger_extends (fs audit_dir_name) d (map (audit_text env (tree_file fs) targets) (flush_plan env w ps audits))"
    and "closed_ledger d"
proof -
  have closed: "closed_tree fs" using assms(1) by (simp add: flush_ready_def)
  note v = append_batch_view [OF b closed ready_entries(1) [OF assms(1)]]
  then have same: "same_declarations (tree_file fs1) (tree_file fs)" by (intro unchanged_declarations) simp
  have fa: "map_of (fs1 audit_dir_name) n = map_of (fs audit_dir_name) n" for n using v by blast
  let ?texts = "map (audit_text env (tree_file fs) targets) (flush_plan env w ps audits)"
  have lines: "List.map_filter (plan_line env (tree_file fs1) targets) items = map (audit_text env (tree_file fs) targets) items"
    for items
    unfolding same_declarations_text [OF same, symmetric] by (rule plan_lines_some [OF assms(1)])
  have rl: "\<forall>l \<in> set ?texts. record_line l"
    using assms(1) json_record_line by (auto simp: flush_ready_def audit_text_def simp del: json_compact.simps)
  have room: "length ?texts \<le> ledger_room (fs audit_dir_name)" "ledger_valid (fs audit_dir_name)"
    using assms(1) by (simp_all add: flush_ready_def flush_plan_def)
  have "fs1 audit_dir_name = fs audit_dir_name"
    by (rule append_batch_other [OF b]) (use ready_entries(1) [OF assms(1)] in \<open>auto simp: batch_ready_def\<close>)
  with append_ledger_extends [OF room(2) rl room(1)] obtain d
    where d: "append_audit_ledger (we_limits env) (fs1 audit_dir_name) ?texts = Inr d"
      "ledger_extends (fs audit_dir_name) d ?texts" "closed_ledger d" by metis
  have "closed_ledger (fs audit_dir_name)" using room(2) by (simp add: ledger_valid_def)
  from that d lines extends_view [OF d(2) this rl] show thesis by simp
qed

lemma flush_locked_ready:
  assumes "flush_ready env w ps audits fs" and "fw_abort w 0 = None"
  shows "flush_locked env w fenced ps audits fs =
    (case append_batch (fw_mode w) (fw_abort w) 1 fs (flush_entries env w ps) of
       (fs1, targets, Some a) \<Rightarrow> flush_failed fenced w ps ps a fs1 False
     | (fs1, targets, None) \<Rightarrow> flush_finish env w fenced ps audits fs1 targets)"
  unfolding flush_locked_def assms(2) ready_entries(2) [OF assms(1)] by simp

text \<open>Registration touches \<^verbatim>\<open>manifest.json\<close> only.\<close>

lemma register_frame:
  assumes "register_partitions env parts fs = Some fs'"
  shows "n \<noteq> ''manifest.json'' \<Longrightarrow> map_of (fs' d) n = map_of (fs d) n" and "d \<noteq> [] \<Longrightarrow> fs' d = fs d"
proof -
  have "(n \<noteq> ''manifest.json'' \<longrightarrow> map_of (fs' d) n = map_of (fs d) n) \<and> (d \<noteq> [] \<longrightarrow> fs' d = fs d)"
    using assms
  proof (induction parts arbitrary: fs)
    case (Cons p ps)
    obtain w where w: "add_partition (we_clock env 0) (get_manifest (we_parse env) (we_clock env 0)
        (map_of (fs []) ''manifest.json'')) p = Some w" using Cons.prems by (auto simp: Let_def split: option.splits)
    show ?case
    proof (cases w)
      case None
      with w Cons show ?thesis by (simp add: Let_def)
    next
      case (Some m)
      with w Cons.prems have
        "register_partitions env ps (fs([] := obj_set ''manifest.json'' (manifest_text (we_fmt env) m) (fs []))) = Some fs'"
        by (simp add: Let_def)
      from Cons.IH [OF this] show ?thesis by (cases "d = []") simp_all
    qed
  qed simp
  then show "n \<noteq> ''manifest.json'' \<Longrightarrow> map_of (fs' d) n = map_of (fs d) n" "d \<noteq> [] \<Longrightarrow> fs' d = fs d" by simp_all
qed

lemma view_cong: "map_of (fs' (fst f)) (snd f) = map_of (fs (fst f)) (snd f) \<Longrightarrow> view_at fs' f = view_at fs f"
  by (simp add: content_of_def)

text \<open>What stands on disk once the flush is past the ledger append.\<close>

definition batch_on_disk ::
  "writer_env \<Rightarrow> flush_world \<Rightarrow> pending_write list \<Rightarrow> pending_audit list \<Rightarrow> ns_tree \<Rightarrow> (nat \<times> string \<times> string) list
     \<Rightarrow> ns_tree \<Rightarrow> bool" where
  "batch_on_disk env w ps audits fs targets fs' \<longleftrightarrow>
     map fst targets = map pw_seq (filter (allowed w) ps) \<and>
     ledger_view (fs' audit_dir_name) =
       ledger_view (fs audit_dir_name) @ map (audit_text env (tree_file fs) targets) (flush_plan env w ps audits) \<and>
     ledger_extends (fs audit_dir_name) (fs' audit_dir_name)
       (map (audit_text env (tree_file fs) targets) (flush_plan env w ps audits)) \<and>
     (\<forall>f. fst f \<noteq> audit_dir_name \<longrightarrow> ends_with jsonl_ext (snd f) \<longrightarrow>
        view_at fs' f = view_at fs f @ landed (flush_entries env w ps) targets f) \<and>
     (\<forall>p \<in> set ps. allowed w p \<longrightarrow> (\<exists>f. map_of targets (pw_seq p) = Some f \<and> fst f \<noteq> audit_dir_name \<and>
        pw_line p \<in> set (view_at fs' f))) \<and>
     same_declarations (tree_file fs') (tree_file fs)"

lemma batch_view:
  assumes "batch_on_disk env w ps audits fs targets fs'" and "fst f \<noteq> audit_dir_name" and "ends_with jsonl_ext (snd f)"
  shows "view_at fs' f = view_at fs f @ landed (flush_entries env w ps) targets f"
  using assms unfolding batch_on_disk_def by blast

lemma on_disk:
  assumes "flush_ready env w ps audits fs"
    and "append_batch (fw_mode w) (fw_abort w) 1 fs (flush_entries env w ps) = (fs1, targets, None)"
    and "ledger_view d = ledger_view (fs audit_dir_name) @ map (audit_text env (tree_file fs) targets) (flush_plan env w ps audits)"
    and "ledger_extends (fs audit_dir_name) d (map (audit_text env (tree_file fs) targets) (flush_plan env w ps audits))"
    and "\<forall>d' n. n \<noteq> ''manifest.json'' \<longrightarrow> map_of (fs' d') n = map_of ((fs1(audit_dir_name := d)) d') n"
    and "fs' audit_dir_name = d"
  shows "batch_on_disk env w ps audits fs targets fs'"
proof -
  let ?es = "flush_entries env w ps"
  have closed: "closed_tree fs" and dist: "distinct (map pw_seq ps)" using assms(1) by (simp_all add: flush_ready_def)
  note v = append_batch_view [OF assms(2) closed ready_entries(1) [OF assms(1)]]
  then have landed1: "view_at fs1 f = view_at fs f @ landed ?es targets f" for f by (elim conjE allE)
  have seqs: "map fst targets = map (\<lambda>e. pw_seq (snd e)) ?es" using v by simp
  then have t: "map fst targets = map pw_seq (filter (allowed w) ps)" by (simp add: flush_entries_def o_def)
  have nm: "ends_with jsonl_ext n \<Longrightarrow> n \<noteq> ''manifest.json''" for n
    by (auto simp: ends_with_def jsonl_ext_def)
  have view: "view_at fs' f = view_at fs f @ landed ?es targets f"
    if "fst f \<noteq> audit_dir_name" "ends_with jsonl_ext (snd f)" for f
  proof -
    have "view_at fs' f = view_at fs1 f" by (rule view_cong) (use assms(5) that nm in simp)
    then show ?thesis unfolding landed1 .
  qed
  have own: "\<exists>f. map_of targets (pw_seq p) = Some f \<and> fst f \<noteq> audit_dir_name \<and> pw_line p \<in> set (view_at fs' f)"
    if p: "p \<in> set ps" "allowed w p" for p
  proof -
    have "pw_seq p \<in> fst ` set targets" using arg_cong [OF t, of set] p by auto
    then obtain f where f: "map_of targets (pw_seq p) = Some f" by (metis map_of_eq_None_iff not_None_eq)
    have mem: "(the (pending_target env p), p) \<in> set ?es" using p by (simp add: flush_entries_def)
    have "distinct (map fst targets)" unfolding t using dist by (induction ps) auto
    from landed_own [OF seqs mem _ this] f have l: "pw_line p \<in> set (landed ?es targets f)" by simp
    have "(pw_seq p, f) \<in> set targets" using f by (rule map_of_SomeD)
    with target_place [OF assms(2) ready_entries(1) [OF assms(1)], of "(pw_seq p, f)"]
    have "fst f \<noteq> audit_dir_name" "ends_with jsonl_ext (snd f)" by simp_all
    with view l f show ?thesis by (intro exI [of _ f]) simp
  qed
  have "same_declarations (tree_file fs') (tree_file fs)"
    by (rule unchanged_declarations) (use assms(5) v in simp)
  with assms(3,4,6) t view own show ?thesis by (simp add: batch_on_disk_def)
qed

section \<open>Outcomes of a flush\<close>

lemma flush_failed_results:
  "\<forall>r \<in> set (fo_results (flush_failed fenced w seen ps a fs c)). \<exists>n code. r = Write_Failed n code"
  "\<not> fo_audited (flush_failed fenced w seen ps a fs c)"
  by (auto simp: flush_failed_def refuse_rest_def)

text \<open>The three ways a ready batch ends: before the ledger, after it without success, or acknowledged.\<close>

lemma flush_locked_cases:
  assumes "flush_ready env w ps audits fs" and "flush_locked env w fenced ps audits fs = out"
  obtains (Early) fs1 targets where "fo_tree out = fs1" and "\<not> fo_audited out"
      and "\<forall>r \<in> set (fo_results out). \<exists>n code. r = Write_Failed n code"
      and "fs1 = fs \<or> (\<exists>failure. append_batch (fw_mode w) (fw_abort w) 1 fs (flush_entries env w ps) = (fs1, targets, failure))"
  | (Late) targets where "batch_on_disk env w ps audits fs targets (fo_tree out)" and "\<not> fo_audited out"
      and "\<forall>r \<in> set (fo_results out). \<exists>n code. r = Write_Failed n code"
  | (Done) targets where "batch_on_disk env w ps audits fs targets (fo_tree out)" and "fo_audited out"
      and "fo_results out = accept_allowed w ps" and "fo_commit out = (ps \<noteq> [] \<or> audits \<noteq> [])"
proof (cases "fw_abort w 0")
  case (Some a)
  then have "out = flush_failed fenced w [] ps a fs False" using assms(2) by (simp add: flush_locked_def)
  then show thesis using Early [of fs] flush_failed_results by (simp add: flush_failed_def)
next
  case None
  obtain fs1 targets failure where b: "append_batch (fw_mode w) (fw_abort w) 1 fs (flush_entries env w ps) = (fs1, targets, failure)"
    by (metis prod_cases3)
  note out = assms(2) [unfolded flush_locked_ready [OF assms(1) None] b]
  show thesis
  proof (cases failure)
    case (Some a)
    with out have "out = flush_failed fenced w ps ps a fs1 False" by simp
    then show thesis using Early [of fs1 targets] b flush_failed_results by (simp add: flush_failed_def)
  next
    case None
    note b = b [unfolded None]
    obtain d where d: "append_audit_ledger (we_limits env) (fs1 audit_dir_name)
        (List.map_filter (plan_line env (tree_file fs1) targets) (flush_plan env w ps audits)) = Inr d"
      "ledger_view d = ledger_view (fs audit_dir_name) @ map (audit_text env (tree_file fs) targets) (flush_plan env w ps audits)"
      "ledger_extends (fs audit_dir_name) d (map (audit_text env (tree_file fs) targets) (flush_plan env w ps audits))"
      using flush_reaches_ledger [OF assms(1) b] by metis
    let ?fs2 = "fs1(audit_dir_name := d)"
    have out': "out = (case fw_abort w (length (filter (allowed w) ps) + 2) of
           Some a \<Rightarrow> flush_failed fenced w ps ps a ?fs2 False
         | None \<Rightarrow> (case register_partitions env (flush_partitions w ps) ?fs2 of
                None \<Rightarrow> flush_failed fenced w ps ps Write_Failure ?fs2 False
              | Some fs3 \<Rightarrow> \<lparr>fo_tree = fs3, fo_results = accept_allowed w ps, fo_audited = True, fo_fenced = fenced,
                  fo_commit = (flush_entries env w ps \<noteq> [] \<or>
                    List.map_filter (plan_line env (tree_file fs1) targets) (flush_plan env w ps audits) \<noteq> [])\<rparr>))"
      using out None by (simp add: flush_finish_def d(1) Let_def)
    have disk: "batch_on_disk env w ps audits fs targets ?fs2" by (rule on_disk [OF assms(1) b d(2,3)]) simp_all
    have late: thesis if "out = flush_failed fenced w ps ps a ?fs2 False" for a
      using Late [of targets] disk flush_failed_results that by (simp add: flush_failed_def)
    show thesis
    proof (cases "fw_abort w (length (filter (allowed w) ps) + 2)")
      case (Some a)
      with out' late show thesis by simp
    next
      case None
      show thesis
      proof (cases "register_partitions env (flush_partitions w ps) ?fs2")
        case (Some fs3)
        note r = register_frame [OF Some]
        have "fs3 audit_dir_name = d" using r(2) [of audit_dir_name] by (simp add: audit_dir_name_def)
        have frame: "\<forall>d' n. n \<noteq> ''manifest.json'' \<longrightarrow> map_of (fs3 d') n = map_of (?fs2 d') n" using r(1) by blast
        have "batch_on_disk env w ps audits fs targets fs3"
          by (rule on_disk [OF assms(1) b d(2,3) frame]) fact
        moreover have "(List.map_filter (plan_line env (tree_file fs1) targets) (flush_plan env w ps audits) \<noteq> []) =
            (ps \<noteq> [] \<or> audits \<noteq> [])"
          using plan_lines_some [OF assms(1), of "tree_file fs1" targets "flush_plan env w ps audits"]
          by (auto simp: flush_plan_def)
        moreover have "flush_entries env w ps \<noteq> [] \<Longrightarrow> ps \<noteq> []" by (auto simp: flush_entries_def)
        ultimately show thesis using Done [of targets] out' None Some by auto
      qed (use out' None late in simp)
    qed
  qed
qed


text \<open>C20: only writes authorized at flush time reach the data files.  Whatever way a flush ends, a
  data file holds, beyond the lines it had, only lines of requests of the batch that the hook allowed
  when the flush ran; a grant revoked in between keeps the row out.\<close>

theorem only_authorized_rows_written:
  assumes "flush_ready env w ps audits fs" and "fst f \<noteq> audit_dir_name" and "ends_with jsonl_ext (snd f)"
  shows "\<exists>added. view_at (fo_tree (flush_locked env w fenced ps audits fs)) f = view_at fs f @ added \<and>
    set added \<subseteq> pw_line ` {p \<in> set ps. fw_auth w (pw_request p) = Auth_Allowed}"
proof -
  let ?out = "flush_locked env w fenced ps audits fs" and ?es = "flush_entries env w ps"
  have sub: "set (landed ?es targets f) \<subseteq> pw_line ` {p \<in> set ps. fw_auth w (pw_request p) = Auth_Allowed}" for targets
    using landed_subset [of ?es targets f] by (auto simp: flush_entries_def allowed_def)
  have closed: "closed_tree fs" using assms(1) by (simp add: flush_ready_def)
  show ?thesis
  proof (rule flush_locked_cases [OF assms(1) refl, of fenced])
    fix fs1 targets
    assume t: "fo_tree ?out = fs1"
      and e: "fs1 = fs \<or> (\<exists>failure. append_batch (fw_mode w) (fw_abort w) 1 fs ?es = (fs1, targets, failure))"
    from e show ?thesis
    proof (elim disjE exE)
      fix failure assume "append_batch (fw_mode w) (fw_abort w) 1 fs ?es = (fs1, targets, failure)"
      from append_batch_view [OF this closed ready_entries(1) [OF assms(1)]]
      have "view_at fs1 f = view_at fs f @ landed ?es targets f" by (elim conjE allE)
      with t sub show ?thesis by blast
    qed (use t in simp)
  next
    fix targets assume "batch_on_disk env w ps audits fs targets (fo_tree ?out)"
    then show ?thesis using assms(2,3) sub batch_view by blast
  next
    fix targets assume "batch_on_disk env w ps audits fs targets (fo_tree ?out)"
    then show ?thesis using assms(2,3) sub batch_view by blast
  qed
qed

text \<open>A refused write can be on disk and in the changelog.  When the token is lost at the last
  check, after the ledger append, every request of the batch is answered with \<^verbatim>\<open>SERIALIZER_FENCED\<close> or
  \<^verbatim>\<open>FORBIDDEN\<close> although all authorized rows stand in their files and their accepted change records in the
  ledger, which the next commit publishes; a client that retries writes its rows twice.\<close>

theorem fenced_batch_stays_on_disk:
  assumes "flush_ready env w ps audits fs"
    and "\<forall>k \<le> length (filter (allowed w) ps) + 1. fw_abort w k = None"
    and "fw_abort w (length (filter (allowed w) ps) + 2) = Some Lost_Lock"
  shows "fo_results (flush_locked env w fenced ps audits fs) =
      map (\<lambda>p. Write_Failed (pw_seq p) (if allowed w p then ''SERIALIZER_FENCED'' else ''FORBIDDEN'')) ps \<and>
    (\<exists>targets. batch_on_disk env w ps audits fs targets (fo_tree (flush_locked env w fenced ps audits fs)))"
proof -
  let ?es = "flush_entries env w ps"
  have "length ?es = length (filter (allowed w) ps)" by (simp add: flush_entries_def)
  then have "snd (snd (append_batch (fw_mode w) (fw_abort w) 1 fs ?es)) = None"
    using assms(2) by (intro append_batch_succeeds) simp
  then obtain fs1 targets where b: "append_batch (fw_mode w) (fw_abort w) 1 fs ?es = (fs1, targets, None)"
    by (metis prod.collapse)
  obtain d where d: "append_audit_ledger (we_limits env) (fs1 audit_dir_name)
        (List.map_filter (plan_line env (tree_file fs1) targets) (flush_plan env w ps audits)) = Inr d"
      "ledger_view d = ledger_view (fs audit_dir_name) @ map (audit_text env (tree_file fs) targets) (flush_plan env w ps audits)"
      "ledger_extends (fs audit_dir_name) d (map (audit_text env (tree_file fs) targets) (flush_plan env w ps audits))"
    using flush_reaches_ledger [OF assms(1) b] by metis
  have "fw_abort w 0 = None" using assms(2) by simp
  from flush_locked_ready [OF assms(1) this] b d(1) assms(3)
  have "flush_locked env w fenced ps audits fs = flush_failed fenced w ps ps Lost_Lock (fs1(audit_dir_name := d)) False"
    by (simp add: flush_finish_def)
  moreover have "batch_on_disk env w ps audits fs targets (fs1(audit_dir_name := d))"
    by (rule on_disk [OF assms(1) b d(2,3)]) simp_all
  ultimately show ?thesis by (auto simp: flush_failed_def refuse_rest_def)
qed

text \<open>In direct mode the change record can name a file that never got the row.  When the row is
  not memory-shaped and the partition has rotated, the recorded target is the resolved chunk while
  the framed append goes to the requested file: the recorded file is left exactly as it was.\<close>

theorem direct_record_names_wrong_file:
  assumes "append_entry Direct fs (dir, name) p = (t, fs')"
    and "\<not> is_memory_shaped (wi_record (wr_input (pw_request p)))"
    and "resolve_jsonl_target (fs dir) name (pw_line p) \<noteq> name"
  shows "t = (dir, resolve_jsonl_target (fs dir) name (pw_line p)) \<and> view_at fs' t = view_at fs t"
  using assms direct_misses_target [OF assms(2,3)] by (auto simp: append_entry_def)

text \<open>A ready batch is acknowledged when nothing fails.\<close>

lemma flush_succeeds:
  assumes "flush_ready env w ps audits fs"
    and "\<forall>k \<le> length (filter (allowed w) ps) + 2. fw_abort w k = None" and "flush_partitions w ps = []"
  shows "fo_results (flush_locked env w fenced ps audits fs) = accept_allowed w ps"
proof -
  have "length (flush_entries env w ps) = length (filter (allowed w) ps)" by (simp add: flush_entries_def)
  then have "snd (snd (append_batch (fw_mode w) (fw_abort w) 1 fs (flush_entries env w ps))) = None"
    using assms(2) by (intro append_batch_succeeds) simp
  then obtain fs1 targets where b: "append_batch (fw_mode w) (fw_abort w) 1 fs (flush_entries env w ps) = (fs1, targets, None)"
    by (metis prod.collapse)
  obtain d where "append_audit_ledger (we_limits env) (fs1 audit_dir_name)
        (List.map_filter (plan_line env (tree_file fs1) targets) (flush_plan env w ps audits)) = Inr d"
    using flush_reaches_ledger [OF assms(1) b] by metis
  moreover have "fw_abort w 0 = None" "fw_abort w (length (filter (allowed w) ps) + 2) = None" using assms(2) by simp_all
  ultimately show ?thesis
    using flush_locked_ready [OF assms(1)] b assms(3) by (simp add: flush_finish_def Let_def)
qed

section \<open>A concrete batch\<close>

definition sample_env :: writer_env where
  "sample_env = \<lparr>we_ns = ''crm'', we_root = [''data'', ''crm''], we_schema = \<lambda>ns t. Some Some, we_maxRows = 2,
     we_maxBytes = 100, we_limits = \<lparr>maxLines = 1, maxBytes = 100\<rparr>, we_parse = \<lambda>s. Some JNull, we_fmt = \<lambda>q. ''1'',
     we_sha = \<lambda>s. ''0'', we_isots = \<lambda>s. True, we_clock = \<lambda>n. ''now''\<rparr>"

definition sample_input :: write_input where
  "sample_input = \<lparr>wi_ns = ''crm'', wi_table = ''t'', wi_op = Op_Insert, wi_record = JObj [(''key'', JStr ''a'')],
     wi_principal = None, wi_target = None, wi_partition = None\<rparr>"

definition sample_write :: "nat \<Rightarrow> pending_write" where
  "sample_write n = \<lparr>pw_request = \<lparr>wr_input = sample_input, wr_seq = n\<rparr>, pw_line = CHR ''r'' # replicate n (CHR ''x''), pw_bytes = 5\<rparr>"

text \<open>The first request is authorized, the second is not; the checkpoint \<open>k\<close> may lose the lock.\<close>

definition sample_world :: "nat option \<Rightarrow> flush_world" where
  "sample_world lost = \<lparr>fw_locked = True, fw_mode = Fsync,
     fw_auth = \<lambda>r. if wr_seq r = 1 then Auth_Allowed else Auth_Denied ''no grant'',
     fw_abort = \<lambda>k. if lost = Some k then Some Lost_Lock else None\<rparr>"

definition sample_batch :: "pending_write list" where
  "sample_batch = [sample_write 1, sample_write 2]"

definition sample_tree :: ns_tree where
  "sample_tree dir = (if dir = audit_dir_name then sample_ledger else [])"

lemma sample_ready: "flush_ready sample_env (sample_world lost) sample_batch [] sample_tree"
proof -
  have t: "pending_target sample_env p = Some ([], ''current.jsonl'')" if "p \<in> set sample_batch" for p
    using that by (auto simp: pending_target_def sample_batch_def sample_write_def sample_input_def sample_env_def
        safe_target_def current_chunk_def starts_with_def Let_def)
  have l: "record_line (pw_line p)" if "p \<in> set sample_batch" for p
    using that by (auto simp: sample_batch_def sample_write_def record_line_def blank_iff is_space_def newline_def)
  have n: "names_target (fw_mode (sample_world lost)) p" for p by (simp add: names_target_def sample_world_def)
  have "closed_tree sample_tree"
    by (auto simp: closed_tree_def sample_tree_def sample_ledger_def content_of_def line_closed_def ends_with_def jsonl_ext_def)
  moreover have "ledger_valid (sample_tree audit_dir_name)" "length sample_batch \<le> ledger_room (sample_tree audit_dir_name)"
    using sample_ledger_valid sample_ledger_room [of 2] by (simp_all add: sample_tree_def sample_batch_def)
  moreover have "distinct (map pw_seq sample_batch)" by (simp add: sample_batch_def sample_write_def)
  moreover have "digits_ok (we_fmt sample_env)"
    by (simp add: sample_env_def digits_ok_def record_line_def blank_iff is_space_def newline_def)
  moreover have "\<forall>v. we_parse sample_env (json_compact (we_fmt sample_env) v) \<noteq> None"
    by (simp add: sample_env_def)
  moreover have "ends_with jsonl_ext ''current.jsonl''" "[] \<noteq> audit_dir_name"
    by (simp_all add: ends_with_def jsonl_ext_def audit_dir_name_def)
  ultimately show ?thesis using t l n unfolding flush_ready_def by auto
qed

lemma sample_allowed:
  "filter (allowed (sample_world lost)) sample_batch = [sample_write 1]"
  "accept_allowed (sample_world lost) sample_batch = [Write_Ok 1, Write_Failed 2 ''FORBIDDEN'']"
  by (simp_all add: sample_batch_def sample_write_def allowed_def sample_world_def accept_allowed_def)

lemma sample_acknowledged:
  "fo_results (flush_locked sample_env (sample_world None) fenced sample_batch [] sample_tree) =
    [Write_Ok 1, Write_Failed 2 ''FORBIDDEN'']"
proof -
  have "flush_partitions (sample_world None) sample_batch = []"
    by (simp add: flush_partitions_def sample_allowed sample_write_def sample_input_def List.map_filter_simps)
  then show ?thesis
    using flush_succeeds [OF sample_ready, of None fenced] by (simp add: sample_allowed) (simp add: sample_world_def)
qed


theorem only_authorized_rows_written_witness:
  "\<exists>added. file_lines (content_of (fo_tree (flush_locked sample_env (sample_world None) False sample_batch [] sample_tree) [])
      ''current.jsonl'') = added \<and> set added \<subseteq> {''rx''}"
proof -
  have "fst ([], ''current.jsonl'') \<noteq> audit_dir_name" "ends_with jsonl_ext (snd ([], ''current.jsonl''))"
    by (simp_all add: ends_with_def jsonl_ext_def audit_dir_name_def)
  moreover have "pw_line ` {p \<in> set sample_batch. fw_auth (sample_world None) (pw_request p) = Auth_Allowed} \<subseteq> {''rx''}"
    by (auto simp: sample_batch_def sample_write_def sample_world_def)
  moreover have "file_lines (content_of (sample_tree []) ''current.jsonl'') = []"
    by (simp add: sample_tree_def content_of_def audit_dir_name_def file_lines_def)
  ultimately show ?thesis
    using only_authorized_rows_written [OF sample_ready, of "([], ''current.jsonl'')" None False] by fastforce
qed

theorem fenced_batch_stays_on_disk_witness:
  "fo_results (flush_locked sample_env (sample_world (Some 3)) False sample_batch [] sample_tree) =
     [Write_Failed 1 ''SERIALIZER_FENCED'', Write_Failed 2 ''FORBIDDEN''] \<and>
   (\<exists>targets. batch_on_disk sample_env (sample_world (Some 3)) sample_batch [] sample_tree targets
     (fo_tree (flush_locked sample_env (sample_world (Some 3)) False sample_batch [] sample_tree)))"
proof -
  have "\<forall>k \<le> length (filter (allowed (sample_world (Some 3))) sample_batch) + 1. fw_abort (sample_world (Some 3)) k = None"
    "fw_abort (sample_world (Some 3)) (length (filter (allowed (sample_world (Some 3))) sample_batch) + 2) = Some Lost_Lock"
    unfolding sample_allowed by (auto simp: sample_world_def)
  from fenced_batch_stays_on_disk [OF sample_ready this, of False] show ?thesis
    by (simp add: sample_batch_def) (simp add: sample_write_def allowed_def sample_world_def)
qed

theorem direct_record_names_wrong_file_witness:
  "\<exists>fs'. append_entry Direct (\<lambda>dir. rotated_partition) ([], ''current.jsonl'')
      (sample_write 1\<lparr>pw_request := \<lparr>wr_input = sample_input\<lparr>wi_record := JObj [(''id'', JNull)]\<rparr>, wr_seq = 1\<rparr>,
         pw_line := ''c''\<rparr>) = (([], ''0001.jsonl''), fs') \<and>
    file_lines (content_of (fs' []) ''0001.jsonl'') = [''b'']"
proof -
  let ?p = "sample_write 1\<lparr>pw_request := \<lparr>wr_input = sample_input\<lparr>wi_record := JObj [(''id'', JNull)]\<rparr>, wr_seq = 1\<rparr>,
         pw_line := ''c''\<rparr>"
  obtain t fs' where e: "append_entry Direct (\<lambda>dir. rotated_partition) ([], ''current.jsonl'') ?p = (t, fs')" by fastforce
  have r: "resolve_jsonl_target rotated_partition ''current.jsonl'' ''c'' = ''0001.jsonl''"
    using rotated_target by (simp add: current_chunk_def)
  have "file_lines (content_of rotated_partition ''0001.jsonl'') = [''b'']" by code_simp
  then show ?thesis
    using direct_record_names_wrong_file [OF e] e r by (simp add: is_memory_shaped_def) (metis fst_conv snd_conv)
qed

lemma sample_reach:
  "writer_reach sample_env None (fst (enqueue sample_env (\<lambda>f. None) (\<lambda>r. Auth_Allowed) sample_input initial_writer), None)"
proof (rule writer_reach.Step [OF writer_reach.Initial])
  show "writer_step sample_env (initial_writer, None)
      (fst (enqueue sample_env (\<lambda>f. None) (\<lambda>r. Auth_Allowed) sample_input initial_writer), None)"
    by (rule writer_step.Enqueue [where c = "snd (enqueue sample_env (\<lambda>f. None) (\<lambda>r. Auth_Allowed) sample_input initial_writer)"]) simp
qed

lemma sample_enqueued:
  "nw_nextSeq (fst (enqueue sample_env (\<lambda>f. None) (\<lambda>r. Auth_Allowed) sample_input initial_writer)) = 1"
  by code_simp

theorem writer_queue_invariant_witness:
  "map pw_seq (nw_queue (fst (enqueue sample_env (\<lambda>f. None) (\<lambda>r. Auth_Allowed) sample_input initial_writer))) = [1]"
  using writer_queue_invariant [OF sample_reach]
  by (simp add: sample_enqueued) code_simp


end
