(* ===== verification/Change_Cursor.thy ===== *)
theory Change_Cursor
  imports Replay
begin

text \<open>
  Opaque cursors and the wire format of the change feed, \<^verbatim>\<open>src/http/realtime/cursor.ts\<close> and
  \<^verbatim>\<open>src/http/realtime/wire.ts\<close>.  Bytes are characters; \<^verbatim>\<open>Buffer\<close>'s UTF-8 and base64url codecs are
  written out.  A character of a string is a code point below 256, so a byte sequence that decodes
  to a larger code point counts as malformed.  \<^verbatim>\<open>JSON.parse\<close> and the digits of numbers that are not
  integers are the arguments \<open>parse\<close> and \<open>fmt\<close>.
\<close>

section \<open>UTF-8 and base64url\<close>

fun utf8_char :: "char \<Rightarrow> string" where
  "utf8_char c =
     (let n = (of_char c :: nat) in if n < 128 then [c] else [char_of (192 + n div 64), char_of (128 + n mod 64)])"

definition utf8_encode :: "string \<Rightarrow> string" where
  "utf8_encode s = concat (map utf8_char s)"

fun utf8_decode :: "string \<Rightarrow> string option" where
  "utf8_decode [] = Some []"
| "utf8_decode (a # bs) =
     (if (of_char a :: nat) < 128 then map_option ((#) a) (utf8_decode bs)
      else case bs of
          [] \<Rightarrow> None
        | b # cs \<Rightarrow>
            if 194 \<le> (of_char a :: nat) \<and> (of_char a :: nat) < 196 \<and> 128 \<le> (of_char b :: nat) \<and> (of_char b :: nat) < 192
            then map_option ((#) (char_of ((of_char a - 192) * 64 + (of_char b - 128 :: nat)))) (utf8_decode cs) else None)"

definition b64url_char :: "nat \<Rightarrow> char" where
  "b64url_char i =
     (if i < 26 then char_of (65 + i) else if i < 52 then char_of (97 + (i - 26))
      else if i < 62 then char_of (48 + (i - 52)) else if i = 62 then CHR ''-'' else CHR ''_'')"

definition b64url_value :: "char \<Rightarrow> nat option" where
  "b64url_value c =
     (let n = (of_char c :: nat)
      in if 65 \<le> n \<and> n \<le> 90 then Some (n - 65)
         else if 97 \<le> n \<and> n \<le> 122 then Some (n - 97 + 26)
         else if 48 \<le> n \<and> n \<le> 57 then Some (n - 48 + 52)
         else if n = 45 then Some 62 else if n = 95 then Some 63 else None)"

fun b64_groups :: "nat list \<Rightarrow> nat list" where
  "b64_groups [] = []"
| "b64_groups [a] = [a div 4, a mod 4 * 16]"
| "b64_groups [a, b] = [a div 4, a mod 4 * 16 + b div 16, b mod 16 * 4]"
| "b64_groups (a # b # c # r) =
     a div 4 # (a mod 4 * 16 + b div 16) # (b mod 16 * 4 + c div 64) # c mod 64 # b64_groups r"

fun b64_bytes :: "nat list \<Rightarrow> nat list" where
  "b64_bytes [] = []"
| "b64_bytes [w] = []"
| "b64_bytes [w, x] = [w * 4 + x div 16]"
| "b64_bytes [w, x, y] = [w * 4 + x div 16, x mod 16 * 16 + y div 4]"
| "b64_bytes (w # x # y # z # r) =
     (w * 4 + x div 16) # (x mod 16 * 16 + y div 4) # (y mod 4 * 64 + z) # b64_bytes r"

definition base64url_encode :: "string \<Rightarrow> string" where
  "base64url_encode s = map b64url_char (b64_groups (map of_char s))"

definition base64url_decode :: "string \<Rightarrow> string option" where
  "base64url_decode s =
     (if list_all (\<lambda>c. b64url_value c \<noteq> None) s
      then Some (map char_of (b64_bytes (map (\<lambda>c. the (b64url_value c)) s))) else None)"

section \<open>Cursors\<close>

record decoded_cursor =
  cu_ns :: string
  cu_commit :: string
  cu_ordinal :: nat

definition cursor_prefix :: string where
  "cursor_prefix = ''dbch1.''"

definition cursor_version :: nat where
  "cursor_version = 1"

definition canonical_cursor_json :: "(rat \<Rightarrow> string) \<Rightarrow> string \<Rightarrow> string \<Rightarrow> nat \<Rightarrow> string" where
  "canonical_cursor_json fmt ns commit ordinal =
     ''{'' @ json_quote ''v'' @ '':'' @ show_nat cursor_version @ '','' @ json_quote ''ns'' @ '':'' @ json_quote ns @ '','' @
     json_quote ''commit'' @ '':'' @ [CHR 0x22] @ commit @ [CHR 0x22] @ '','' @
     json_quote ''ordinal'' @ '':'' @ jnum_text fmt (Fin (of_nat ordinal)) @ ''}''"

definition encode_cursor :: "(rat \<Rightarrow> string) \<Rightarrow> string \<Rightarrow> string \<Rightarrow> nat \<Rightarrow> string" where
  "encode_cursor fmt ns commit ordinal =
     cursor_prefix @ base64url_encode (utf8_encode (canonical_cursor_json fmt ns commit ordinal))"

definition is_commit_sha :: "string \<Rightarrow> bool" where
  "is_commit_sha s \<longleftrightarrow> length s = 40 \<and> list_all is_hex_lower s"

fun positive_ordinal :: "json option \<Rightarrow> nat option" where
  "positive_ordinal (Some (JNum (Fin q))) = (if is_integer (Fin q) \<and> 0 < q then Some (nat \<lfloor>q\<rfloor>) else None)"
| "positive_ordinal _ = None"

text \<open>The checks on the parsed payload.\<close>

definition cursor_fields :: "json \<Rightarrow> decoded_cursor option" where
  "cursor_fields v =
     (case v of
        JObj ps \<Rightarrow>
          if length ps \<noteq> 4 \<or> map_of ps ''v'' \<noteq> Some (JNum (Fin (of_nat cursor_version))) then None
          else (case (map_of ps ''ns'', map_of ps ''commit'', positive_ordinal (map_of ps ''ordinal'')) of
              (Some (JStr ns), Some (JStr commit), Some n) \<Rightarrow>
                if ns \<noteq> [] \<and> is_commit_sha commit
                then Some \<lparr>cu_ns = ns, cu_commit = commit, cu_ordinal = n\<rparr> else None
            | _ \<Rightarrow> None)
      | _ \<Rightarrow> None)"

definition decode_cursor :: "(rat \<Rightarrow> string) \<Rightarrow> json_parser \<Rightarrow> string \<Rightarrow> decoded_cursor option" where
  "decode_cursor fmt parse raw =
     (if \<not> starts_with cursor_prefix raw then None
      else let encoded = drop (length cursor_prefix) raw
        in if encoded = [] then None
           else case base64url_decode encoded of
               None \<Rightarrow> None
             | Some bytes \<Rightarrow>
                 (case utf8_decode bytes of
                    None \<Rightarrow> None
                  | Some payload \<Rightarrow>
                      if base64url_encode (utf8_encode payload) \<noteq> encoded then None
                      else case Option.bind (parse payload) cursor_fields of
                          None \<Rightarrow> None
                        | Some d \<Rightarrow>
                            if canonical_cursor_json fmt (cu_ns d) (cu_commit d) (cu_ordinal d) \<noteq> payload then None
                            else Some d))"

section \<open>Frames\<close>

definition change_event_json :: "string \<Rightarrow> string \<Rightarrow> derived_change \<Rightarrow> json" where
  "change_event_json ns cursor c =
     JObj [(''version'', JNum (Fin 1)), (''cursor'', JStr cursor), (''namespace'', JStr ns),
       (''table'', JStr (cr_table (dc_record c))), (''op'', JStr (operation_name (cr_op (dc_record c)))),
       (''row'', dc_row c),
       (''position'', JObj [(''commit'', JStr (dc_commit c)), (''ordinal'', JNum (Fin (of_nat (dc_ordinal c))))]),
       (''committedAt'', JStr (dc_committedAt c)), (''tombstone'', JBool (cr_tombstone (dc_record c))),
       (''schemaVersion'', JNum (Fin (of_int (cr_schemaVersion (dc_record c))))), (''key'', JObj (cr_key (dc_record c)))]"

definition event_cursor :: "(rat \<Rightarrow> string) \<Rightarrow> string \<Rightarrow> derived_change \<Rightarrow> string" where
  "event_cursor fmt ns c = encode_cursor fmt ns (dc_commit c) (dc_ordinal c)"

definition change_frame :: "(rat \<Rightarrow> string) \<Rightarrow> string \<Rightarrow> derived_change \<Rightarrow> string" where
  "change_frame fmt ns c =
     ''event: duckbrain.change.v1'' @ [newline] @ ''id: '' @ event_cursor fmt ns c @ [newline] @
     ''data: '' @ json_compact fmt (change_event_json ns (event_cursor fmt ns c) c) @ [newline, newline]"

definition control_frame :: "(rat \<Rightarrow> string) \<Rightarrow> string \<Rightarrow> (string \<times> json) list \<Rightarrow> string" where
  "control_frame fmt name payload =
     ''event: '' @ name @ [newline] @ ''data: '' @ json_compact fmt (JObj payload) @ [newline, newline]"

definition ready_frame :: "(rat \<Rightarrow> string) \<Rightarrow> string \<Rightarrow> string option \<Rightarrow> string" where
  "ready_frame fmt ns head =
     control_frame fmt ''duckbrain.ready.v1''
       [(''version'', JNum (Fin 1)), (''namespace'', JStr ns), (''head'', optional_string head)]"

definition overflow_frame :: "(rat \<Rightarrow> string) \<Rightarrow> string \<Rightarrow> string option \<Rightarrow> string" where
  "overflow_frame fmt ns cursor =
     control_frame fmt ''duckbrain.overflow.v1''
       [(''version'', JNum (Fin 1)), (''namespace'', JStr ns), (''cursor'', optional_string cursor)]"

definition revoked_frame :: "(rat \<Rightarrow> string) \<Rightarrow> string \<Rightarrow> string" where
  "revoked_frame fmt ns =
     control_frame fmt ''duckbrain.revoked.v1'' [(''version'', JNum (Fin 1)), (''namespace'', JStr ns)]"

definition heartbeat_frame :: string where
  "heartbeat_frame = '': heartbeat'' @ [newline, newline]"

text \<open>The expression \<^verbatim>\<open>/^id: (.+)$/m\<close> on a rendered frame; line ends are line feed and carriage return.\<close>

definition frame_cursor :: "string \<Rightarrow> string option" where
  "frame_cursor t =
     map_option (drop 4)
       (List.find (\<lambda>l. starts_with ''id: '' l \<and> 4 < length l) (concat (map (split_on (CHR 0x0D)) (split_on newline t))))"

section \<open>Codecs are inverse\<close>

lemma char_of_char: "char_of (of_char c :: nat) = c"
  by simp

lemma of_char_of: "n < 256 \<Longrightarrow> of_char (char_of n :: char) = (n :: nat)"
  by simp

lemma utf8_roundtrip [simp]: "utf8_decode (utf8_encode s) = Some s"
proof (induction s)
  case (Cons c s)
  let ?n = "of_char c :: nat"
  have n: "?n < 256" by (rule nat_of_char_less_256)
  show ?case
  proof (cases "?n < 128")
    case True
    with Cons show ?thesis by (simp add: utf8_encode_def Let_def)
  next
    case False
    define q r where "q = ?n div 64" and "r = ?n mod 64"
    then have q: "2 \<le> q" "q < 4" "r < 64" "q * 64 + r = ?n"
      using n False by (simp_all add: less_mult_imp_div_less less_eq_div_iff_mult_less_eq)
    have "utf8_encode (c # s) = char_of (192 + q) # char_of (128 + r) # utf8_encode s"
      using False by (simp add: utf8_encode_def Let_def q_def r_def)
    then show ?thesis using q Cons by simp
  qed
qed (simp add: utf8_encode_def)

lemma b64_value_char [simp]: "i < 64 \<Longrightarrow> b64url_value (b64url_char i) = Some i"
  by (auto simp: b64url_value_def b64url_char_def Let_def)

lemma b64_groups_small: "\<forall>b \<in> set bs. b < 256 \<Longrightarrow> \<forall>g \<in> set (b64_groups bs). g < 64"
  by (induction bs rule: b64_groups.induct) (auto simp: less_mult_imp_div_less)

lemma b64_roundtrip: "\<forall>b \<in> set bs. b < 256 \<Longrightarrow> b64_bytes (b64_groups bs) = bs"
proof (induction bs rule: b64_groups.induct)
  case (4 a b c r)
  then have "b div 16 < 16" "c div 64 < 4" by (simp_all add: less_mult_imp_div_less)
  then have "(a div 4) * 4 + (a mod 4 * 16 + b div 16) div 16 = a"
    "(a mod 4 * 16 + b div 16) mod 16 * 16 + (b mod 16 * 4 + c div 64) div 4 = b"
    "(b mod 16 * 4 + c div 64) mod 4 * 64 + c mod 64 = c" by simp_all
  with 4 show ?case by simp
qed auto

lemma base64url_roundtrip [simp]: "base64url_decode (base64url_encode s) = Some s"
proof -
  let ?g = "b64_groups (map of_char s :: nat list)"
  have "\<forall>b \<in> set (map of_char s :: nat list). b < 256" using nat_of_char_less_256 by auto
  note small = b64_groups_small [OF this] and inv = b64_roundtrip [OF this]
  have "list_all (\<lambda>c. b64url_value c \<noteq> None) (map b64url_char ?g)"
    unfolding list_all_iff using small by auto
  moreover have "map (\<lambda>c. the (b64url_value c)) (map b64url_char ?g) = ?g"
    using small by (simp add: map_idI)
  moreover have "map char_of (b64_bytes ?g) = s" unfolding inv by (simp add: map_idI)
  ultimately show ?thesis unfolding base64url_decode_def base64url_encode_def by simp
qed

lemma base64url_plain: "c \<in> set (base64url_encode s) \<Longrightarrow> c \<noteq> newline \<and> c \<noteq> CHR 0x0D"
proof -
  assume "c \<in> set (base64url_encode s)"
  then have "b64url_value c \<noteq> None"
    using base64url_roundtrip [of s] unfolding base64url_decode_def list_all_iff by (metis option.distinct(1))
  then show ?thesis by (auto simp: b64url_value_def newline_def)
qed

lemma base64url_not_Nil: "s \<noteq> [] \<Longrightarrow> base64url_encode s \<noteq> []"
  using base64url_roundtrip [of s] by (auto simp: base64url_decode_def)

section \<open>A cursor has one spelling\<close>

definition valid_cursor :: "decoded_cursor \<Rightarrow> bool" where
  "valid_cursor d \<longleftrightarrow> cu_ns d \<noteq> [] \<and> is_commit_sha (cu_commit d) \<and> 0 < cu_ordinal d"

definition cursor_object :: "decoded_cursor \<Rightarrow> json" where
  "cursor_object d =
     JObj [(''v'', JNum (Fin 1)), (''ns'', JStr (cu_ns d)), (''commit'', JStr (cu_commit d)),
       (''ordinal'', JNum (Fin (of_nat (cu_ordinal d))))]"

abbreviation spelled :: "(rat \<Rightarrow> string) \<Rightarrow> decoded_cursor \<Rightarrow> string" where
  "spelled fmt d \<equiv> encode_cursor fmt (cu_ns d) (cu_commit d) (cu_ordinal d)"

lemma cursor_fields_valid: "cursor_fields v = Some d \<Longrightarrow> valid_cursor d"
proof -
  assume f: "cursor_fields v = Some d"
  have "positive_ordinal x = Some n \<Longrightarrow> 0 < n" for x n
  proof (induction x rule: positive_ordinal.induct)
    case (1 q)
    then have "of_int \<lfloor>q\<rfloor> = q" "0 < q" "n = nat \<lfloor>q\<rfloor>" by (auto split: if_splits)
    then show ?case by (metis of_int_0_less_iff zero_less_nat_eq)
  qed simp_all
  with f show ?thesis
    by (auto simp: cursor_fields_def valid_cursor_def split: json.splits if_splits option.splits)
qed

lemma cursor_fields_object: "valid_cursor d \<Longrightarrow> cursor_fields (cursor_object d) = Some d"
  by (simp add: cursor_fields_def cursor_object_def valid_cursor_def cursor_version_def)

lemma canonical_not_Nil: "canonical_cursor_json fmt ns c n \<noteq> []"
  by (simp add: canonical_cursor_json_def)

lemma decode_spelled:
  assumes "valid_cursor d" and "parse (canonical_cursor_json fmt (cu_ns d) (cu_commit d) (cu_ordinal d)) = Some (cursor_object d)"
  shows "decode_cursor fmt parse (spelled fmt d) = Some d"
proof -
  have "utf8_encode (canonical_cursor_json fmt (cu_ns d) (cu_commit d) (cu_ordinal d)) \<noteq> []"
    using utf8_roundtrip [of "canonical_cursor_json fmt (cu_ns d) (cu_commit d) (cu_ordinal d)"] canonical_not_Nil
    by (metis option.inject utf8_decode.simps(1))
  then show ?thesis
    using assms cursor_fields_object [OF assms(1)]
    by (simp add: decode_cursor_def encode_cursor_def starts_with_append base64url_not_Nil Let_def)
qed

lemma decode_only_spelled:
  assumes "decode_cursor fmt parse raw = Some d"
  shows "raw = spelled fmt d" and "valid_cursor d"
proof -
  let ?e = "drop (length cursor_prefix) raw"
  obtain bytes payload v where "starts_with cursor_prefix raw" "base64url_encode (utf8_encode payload) = ?e"
      "parse payload = Some v" "cursor_fields v = Some d"
      "canonical_cursor_json fmt (cu_ns d) (cu_commit d) (cu_ordinal d) = payload"
    using assms by (auto simp: decode_cursor_def Let_def bind_eq_Some_conv split: if_splits option.splits)
  then show "raw = spelled fmt d" "valid_cursor d"
    using starts_withE [of cursor_prefix raw] cursor_fields_valid by (simp_all add: encode_cursor_def)
qed

text \<open>A cursor has exactly one spelling.  Whatever string a client sends, it decodes to the position
  \<open>d\<close> if and only if it is byte for byte the cursor the server issues for \<open>d\<close> and \<open>d\<close> is a position the
  server can issue; no re-encoding, padding or reordering of the payload is accepted.\<close>

theorem cursor_spelling_exact:
  assumes "parse (canonical_cursor_json fmt (cu_ns d) (cu_commit d) (cu_ordinal d)) = Some (cursor_object d)"
  shows "decode_cursor fmt parse raw = Some d \<longleftrightarrow>
    raw = encode_cursor fmt (cu_ns d) (cu_commit d) (cu_ordinal d) \<and>
    cu_ns d \<noteq> [] \<and> is_commit_sha (cu_commit d) \<and> 0 < cu_ordinal d"
  using decode_only_spelled [of fmt parse raw d] decode_spelled [of d parse fmt, OF _ assms] by (auto simp: valid_cursor_def)

definition sample_cursor :: decoded_cursor where
  "sample_cursor = \<lparr>cu_ns = ''crm'', cu_commit = replicate 40 (CHR ''a''), cu_ordinal = 7\<rparr>"

theorem cursor_spelling_exact_witness:
  "decode_cursor (\<lambda>q. []) (\<lambda>s. if s = canonical_cursor_json (\<lambda>q. []) ''crm'' (replicate 40 (CHR ''a'')) 7
       then Some (cursor_object sample_cursor) else None)
     (encode_cursor (\<lambda>q. []) ''crm'' (replicate 40 (CHR ''a'')) 7) = Some sample_cursor"
proof -
  let ?parse = "\<lambda>s. if s = canonical_cursor_json (\<lambda>q. []) ''crm'' (replicate 40 (CHR ''a'')) 7
       then Some (cursor_object sample_cursor) else None"
  have "?parse (canonical_cursor_json (\<lambda>q. []) (cu_ns sample_cursor) (cu_commit sample_cursor) (cu_ordinal sample_cursor)) =
      Some (cursor_object sample_cursor)"
    by (simp add: sample_cursor_def)
  note exact = cursor_spelling_exact [of ?parse, OF this]
  show ?thesis
    unfolding exact by (simp add: sample_cursor_def is_commit_sha_def is_hex_lower_def list_all_iff)
qed

section \<open>The identifier of a frame\<close>

lemma find_append_not: "\<forall>x \<in> set xs. \<not> P x \<Longrightarrow> List.find P (xs @ ys) = List.find P ys"
  by (induction xs) auto

text \<open>The hub reads the cursor of a replayed frame back from its text.\<close>

lemma frame_cursor_change: "frame_cursor (change_frame fmt ns c) = Some (event_cursor fmt ns c)"
proof -
  let ?cur = "event_cursor fmt ns c"
  let ?rest = "''data: '' @ json_compact fmt (change_event_json ns ?cur c) @ [newline, newline]"
  have plain: "x \<in> set ?cur \<Longrightarrow> x \<noteq> newline \<and> x \<noteq> CHR 0x0D" for x
    using base64url_plain by (auto simp: event_cursor_def encode_cursor_def cursor_prefix_def newline_def)
  then have nl: "newline \<notin> set (''id: '' @ ?cur)" and cr: "CHR 0x0D \<notin> set (''id: '' @ ?cur)"
    by (auto simp: newline_def)
  have head: "newline \<notin> set ''event: duckbrain.change.v1''" "CHR 0x0D \<notin> set ''event: duckbrain.change.v1''"
    by (simp_all add: newline_def)
  have "split_on newline (change_frame fmt ns c) =
      ''event: duckbrain.change.v1'' # (''id: '' @ ?cur) # split_on newline ?rest"
    using split_on_append_sep [OF head(1), of "(''id: '' @ ?cur) @ newline # ?rest"]
      split_on_append_sep [OF nl, of ?rest] by (simp add: change_frame_def)
  then have lines: "concat (map (split_on (CHR 0x0D)) (split_on newline (change_frame fmt ns c))) =
      ''event: duckbrain.change.v1'' # (''id: '' @ ?cur) # concat (map (split_on (CHR 0x0D)) (split_on newline ?rest))"
    using split_on_id [OF head(2)] split_on_id [OF cr] by simp
  have "4 < length (''id: '' @ ?cur)" by (simp add: event_cursor_def encode_cursor_def cursor_prefix_def)
  then show ?thesis unfolding frame_cursor_def lines by (simp add: starts_with_def)
qed

end
