(* ===== verification/Change_Feed.thy ===== *)
theory Change_Feed
  imports Change_Cursor Roles
begin

text \<open>
  The change-feed hub, \<^verbatim>\<open>src/http/realtime/hub.ts\<close>: the bounded queue of a subscriber and its sink
  with backpressure, the subscription that replays a cursor and joins the live feed under the feed
  lock, the check that publishes new commits in order, and revocation and shutdown.  Git is the
  record \<open>git_history\<close>: what \<^verbatim>\<open>merge-base --is-ancestor\<close>, \<^verbatim>\<open>rev-list --first-parent\<close> and
  \<^verbatim>\<open>cat-file\<close> answer; \<open>git_laws\<close> states the documented relation between these answers.  A subscriber
  object stays in the list of its feed for ever; the code's \<^verbatim>\<open>Set\<close> holds those that are \<open>sb_attached\<close>.
  Work under a feed lock runs without interruption, so each operation is one step.
\<close>

section \<open>Sinks and subscribers\<close>

datatype write_reply = Taken | Backpressure | Dead

text \<open>The reply to the \<open>n\<close>-th write is a parameter of the sink; a dead sink throws.\<close>

record sse_sink =
  sk_reply :: "nat \<Rightarrow> write_reply"
  sk_drainable :: bool
  sk_count :: nat
  sk_out :: "string list"
  sk_armed :: bool
  sk_ended :: bool

definition sink_write :: "string \<Rightarrow> sse_sink \<Rightarrow> write_reply \<times> sse_sink" where
  "sink_write chunk k =
     (sk_reply k (sk_count k),
      k\<lparr>sk_count := sk_count k + 1,
        sk_out := (if sk_reply k (sk_count k) = Dead then sk_out k else sk_out k @ [chunk])\<rparr>)"

record frame =
  fr_text :: string
  fr_bytes :: nat
  fr_cursor :: "string option"

record subscriber =
  sb_id :: nat
  sb_ns :: string
  sb_principal :: "principal option"
  sb_tables :: "string list"
  sb_ops :: "change_operation list"
  sb_row :: "(string \<Rightarrow> json \<Rightarrow> bool) option"
  sb_sink :: sse_sink
  sb_queue :: "frame list"
  sb_queueBytes :: int
  sb_blocked :: bool
  sb_closed :: bool
  sb_heartbeat :: bool
  sb_last :: "string option"
  sb_delivered :: nat
  sb_attached :: bool
  sb_notified :: bool

record hub_config =
  hc_pollIntervalMs :: nat
  hc_heartbeatMs :: nat
  hc_maxSubscribers :: nat
  hc_maxQueueEvents :: nat
  hc_maxQueueBytes :: nat
  hc_maxReplayEvents :: nat
  hc_maxReplayCommits :: nat
  hc_retentionDays :: nat

section \<open>The queue of a subscriber\<close>

definition remove_subscriber :: "subscriber \<Rightarrow> subscriber" where
  "remove_subscriber s =
     s\<lparr>sb_closed := True, sb_queue := [], sb_queueBytes := 0, sb_heartbeat := False,
       sb_notified := sb_notified s \<or> sb_attached s, sb_attached := False\<rparr>"

text \<open>The frame at the head of the queue after a write that the sink took.\<close>

definition frame_taken :: "frame \<Rightarrow> frame list \<Rightarrow> sse_sink \<Rightarrow> subscriber \<Rightarrow> subscriber" where
  "frame_taken f fs k s =
     s\<lparr>sb_sink := k, sb_queue := fs, sb_queueBytes := sb_queueBytes s - int (fr_bytes f),
       sb_delivered := sb_delivered s + 1,
       sb_last := (case fr_cursor f of None \<Rightarrow> sb_last s | Some c \<Rightarrow> Some c)\<rparr>"

fun pump_loop :: "frame list \<Rightarrow> subscriber \<Rightarrow> subscriber" where
  "pump_loop [] s = s"
| "pump_loop (f # fs) s =
     (case sink_write (fr_text f) (sb_sink s) of
        (Dead, k) \<Rightarrow> remove_subscriber (s\<lparr>sb_sink := k\<rparr>)
      | (Backpressure, k) \<Rightarrow>
          (let s' = (frame_taken f fs k s)\<lparr>sb_blocked := True\<rparr>
           in if sk_drainable k then s'\<lparr>sb_sink := k\<lparr>sk_armed := True\<rparr>\<rparr> else remove_subscriber s')
      | (Taken, k) \<Rightarrow> pump_loop fs (frame_taken f fs k s))"

definition pump :: "subscriber \<Rightarrow> subscriber" where
  "pump s = (if sb_closed s \<or> sb_blocked s then s else pump_loop (sb_queue s) s)"

text \<open>A last control frame, and the end of the stream.\<close>

definition terminate_with :: "string \<Rightarrow> subscriber \<Rightarrow> subscriber" where
  "terminate_with chunk s =
     (if sb_closed s then s
      else remove_subscriber
        (s\<lparr>sb_closed := True, sb_queue := [], sb_queueBytes := 0,
           sb_sink := (snd (sink_write chunk (sb_sink s)))\<lparr>sk_ended := True\<rparr>\<rparr>))"

definition overflow :: "(rat \<Rightarrow> string) \<Rightarrow> subscriber \<Rightarrow> subscriber" where
  "overflow fmt s = terminate_with (overflow_frame fmt (sb_ns s) (sb_last s)) s"

definition revoke :: "(rat \<Rightarrow> string) \<Rightarrow> subscriber \<Rightarrow> subscriber" where
  "revoke fmt s = terminate_with (revoked_frame fmt (sb_ns s)) s"

definition enqueue_frame :: "(rat \<Rightarrow> string) \<Rightarrow> hub_config \<Rightarrow> frame \<Rightarrow> subscriber \<Rightarrow> subscriber" where
  "enqueue_frame fmt cfg f s =
     (if sb_closed s then s
      else if hc_maxQueueEvents cfg < length (sb_queue s) + 1 \<or>
              int (hc_maxQueueBytes cfg) < sb_queueBytes s + int (fr_bytes f)
      then overflow fmt s
      else pump (s\<lparr>sb_queue := sb_queue s @ [f], sb_queueBytes := sb_queueBytes s + int (fr_bytes f)\<rparr>))"

text \<open>The drain listener of the sink, and the heartbeat timer.\<close>

definition drain_event :: "subscriber \<Rightarrow> subscriber" where
  "drain_event s =
     (if sk_armed (sb_sink s)
      then pump (s\<lparr>sb_sink := (sb_sink s)\<lparr>sk_armed := False\<rparr>, sb_blocked := False\<rparr>) else s)"

definition heartbeat :: "subscriber \<Rightarrow> subscriber" where
  "heartbeat s =
     (if sb_closed s \<or> sb_blocked s \<or> sb_queue s \<noteq> [] then s
      else case sink_write heartbeat_frame (sb_sink s) of
          (Dead, k) \<Rightarrow> remove_subscriber (s\<lparr>sb_sink := k\<rparr>)
        | (_, k) \<Rightarrow> s\<lparr>sb_sink := k\<rparr>)"

section \<open>Feeds\<close>

record git_history =
  gh_exists :: "string \<Rightarrow> bool"
  gh_ancestor :: "string \<Rightarrow> string \<Rightarrow> bool"
  gh_chain :: "string \<Rightarrow> string list"
  gh_time :: "string \<Rightarrow> int option"

definition git_laws :: "git_history \<Rightarrow> bool" where
  "git_laws g \<longleftrightarrow>
     (\<forall>h. gh_exists g h \<longrightarrow> (\<exists>r. gh_chain g h = h # r)) \<and>
     (\<forall>h. distinct (gh_chain g h) \<and> (\<forall>x \<in> set (gh_chain g h). gh_exists g x \<and> gh_ancestor g x h)) \<and>
     (\<forall>h. \<forall>a \<in> set (gh_chain g h). \<exists>pre. gh_chain g h = pre @ gh_chain g a \<and> (\<forall>x \<in> set pre. \<not> gh_ancestor g x a))"

text \<open>\<^verbatim>\<open>rev-list --first-parent\<close>, newest first, and \<^verbatim>\<open>--reverse anchor..head\<close>.\<close>

definition first_parent_window :: "git_history \<Rightarrow> string \<Rightarrow> nat \<Rightarrow> string list" where
  "first_parent_window g head limit = take limit (gh_chain g head)"

definition commits_after :: "git_history \<Rightarrow> string option \<Rightarrow> string \<Rightarrow> string list" where
  "commits_after g anchor head =
     rev (case anchor of None \<Rightarrow> gh_chain g head | Some a \<Rightarrow> filter (\<lambda>x. \<not> gh_ancestor g x a) (gh_chain g head))"

record feed =
  fd_subs :: "subscriber list"
  fd_last :: "string option"
  fd_timer :: bool

record hub_env =
  fe_config :: hub_config
  fe_replay :: replay_env
  fe_repo :: git_repo
  fe_git :: git_history

abbreviation fe_ns :: "hub_env \<Rightarrow> string" where
  "fe_ns env \<equiv> re_ns (fe_replay env)"

abbreviation fe_fmt :: "hub_env \<Rightarrow> rat \<Rightarrow> string" where
  "fe_fmt env \<equiv> re_fmt (fe_replay env)"

definition empty_feed :: feed where
  "empty_feed = \<lparr>fd_subs = [], fd_last = None, fd_timer = False\<rparr>"

definition live :: "feed \<Rightarrow> subscriber list" where
  "live fd = filter sb_attached (fd_subs fd)"

definition derive :: "hub_env \<Rightarrow> string \<Rightarrow> replay_error + derived_change list" where
  "derive env c = derive_commit_changes (fe_replay env) (fe_repo env) c None"

definition change_matches ::
  "string list \<Rightarrow> change_operation list \<Rightarrow> (string \<Rightarrow> json \<Rightarrow> bool) option \<Rightarrow> derived_change \<Rightarrow> bool" where
  "change_matches tables ops row c \<longleftrightarrow>
     cr_table (dc_record c) \<in> set tables \<and> cr_op (dc_record c) \<in> set ops \<and>
     (case row of None \<Rightarrow> True | Some p \<Rightarrow> p (cr_table (dc_record c)) (dc_row c))"

definition text_frame :: "string \<Rightarrow> string option \<Rightarrow> frame" where
  "text_frame t cursor = \<lparr>fr_text = t, fr_bytes = utf8_length t, fr_cursor = cursor\<rparr>"

definition frame_for :: "hub_env \<Rightarrow> derived_change \<Rightarrow> frame" where
  "frame_for env c = text_frame (change_frame (fe_fmt env) (fe_ns env) c) (Some (event_cursor (fe_fmt env) (fe_ns env) c))"

text \<open>An operation on the attached subscribers; the timer stops when the last one leaves.\<close>

definition update_live :: "(subscriber \<Rightarrow> subscriber) \<Rightarrow> feed \<Rightarrow> feed" where
  "update_live f fd =
     (let subs = map (\<lambda>s. if sb_attached s then f s else s) (fd_subs fd)
      in fd\<lparr>fd_subs := subs, fd_timer := fd_timer fd \<and> (filter sb_attached subs \<noteq> [] \<or> live fd = [])\<rparr>)"

definition deliver_to :: "hub_env \<Rightarrow> derived_change \<Rightarrow> subscriber \<Rightarrow> subscriber" where
  "deliver_to env c s =
     (if sb_closed s then s
      else if \<not> change_matches (sb_tables s) (sb_ops s) (sb_row s) c then s
      else case authorize_table_access (sb_principal s) (fe_ns env) (cr_table (dc_record c)) Read of
          Denied reason m \<Rightarrow> revoke (fe_fmt env) s
        | Allowed \<Rightarrow> enqueue_frame (fe_fmt env) (fe_config env) (frame_for env c) s)"

definition deliver :: "hub_env \<Rightarrow> derived_change list \<Rightarrow> feed \<Rightarrow> feed" where
  "deliver env changes fd = foldl (\<lambda>fd c. if live fd = [] then fd else update_live (deliver_to env c) fd) fd changes"

definition close_feed :: "feed \<Rightarrow> feed" where
  "close_feed fd =
     fd\<lparr>fd_subs := map (\<lambda>s. if sb_attached s
            then s\<lparr>sb_closed := True, sb_queue := [], sb_queueBytes := 0, sb_heartbeat := False,
                   sb_sink := (sb_sink s)\<lparr>sk_ended := True\<rparr>, sb_attached := False, sb_notified := True\<rparr>
            else s) (fd_subs fd),
        fd_timer := False\<rparr>"

fun deliver_commits :: "hub_env \<Rightarrow> nat \<Rightarrow> string list \<Rightarrow> feed \<Rightarrow> feed" where
  "deliver_commits env delivered [] fd = fd"
| "deliver_commits env delivered (c # cs) fd =
     (case derive env c of
        Inl e \<Rightarrow> close_feed fd
      | Inr changes \<Rightarrow>
          (let fd' = (deliver env changes fd)\<lparr>fd_last := Some c\<rparr>; n = delivered + length changes
           in if hc_maxReplayEvents (fe_config env) < n then fd' else deliver_commits env n cs fd'))"

text \<open>The delivered position is no longer below the head: history was rewritten.\<close>

definition rewritten :: "git_history \<Rightarrow> string option \<Rightarrow> string \<Rightarrow> bool" where
  "rewritten g anchor h = (case anchor of None \<Rightarrow> False | Some l \<Rightarrow> \<not> gh_ancestor g l h)"

text \<open>\<^verbatim>\<open>check\<close> under the feed lock.\<close>

definition check :: "hub_env \<Rightarrow> string option \<Rightarrow> feed \<Rightarrow> feed" where
  "check env head fd =
     (if live fd = [] then fd
      else case head of
          None \<Rightarrow> fd
        | Some h \<Rightarrow>
            if fd_last fd = Some h then fd
            else if rewritten (fe_git env) (fd_last fd) h then fd\<lparr>fd_last := Some h\<rparr>
            else deliver_commits env 0 (commits_after (fe_git env) (fd_last fd) h) fd)"

section \<open>Subscribing\<close>

datatype realtime_error = Not_Found | Subscriber_Limit | Invalid_Cursor | Cursor_Gone | Corrupt replay_error

record subscribe_request =
  rq_principal :: "principal option"
  rq_tables :: "string list"
  rq_ops :: "change_operation list"
  rq_cursor :: "string option"
  rq_row :: "(string \<Rightarrow> json \<Rightarrow> bool) option"
  rq_sink :: sse_sink

text \<open>\<open>now\<close> and commit times are in milliseconds.\<close>

definition validate_cursor :: "hub_env \<Rightarrow> int \<Rightarrow> string \<Rightarrow> string option \<Rightarrow> realtime_error + decoded_cursor" where
  "validate_cursor env now raw head =
     (case decode_cursor (fe_fmt env) (re_parse (fe_replay env)) raw of
        None \<Rightarrow> Inl Invalid_Cursor
      | Some d \<Rightarrow>
          if cu_ns d \<noteq> fe_ns env then Inl Invalid_Cursor
          else if \<not> gh_exists (fe_git env) (cu_commit d) then Inl Cursor_Gone
          else case head of
              None \<Rightarrow> Inl Cursor_Gone
            | Some h \<Rightarrow>
                if \<not> gh_ancestor (fe_git env) (cu_commit d) h then Inl Invalid_Cursor
                else if cu_commit d \<notin> set (first_parent_window (fe_git env) h (hc_maxReplayCommits (fe_config env)))
                then (if cu_commit d \<notin> set (first_parent_window (fe_git env) h js_max_safe_nat)
                      then Inl Invalid_Cursor else Inl Cursor_Gone)
                else (case gh_time (fe_git env) (cu_commit d) of
                        None \<Rightarrow> Inr d
                      | Some t \<Rightarrow>
                          if now - t > int (hc_retentionDays (fe_config env)) * 24 * 60 * 60 * 1000
                          then Inl Cursor_Gone else Inr d))"

fun lift_replay :: "replay_error + 'a \<Rightarrow> realtime_error + 'a" where
  "lift_replay (Inl e) = Inl (Corrupt e)"
| "lift_replay (Inr a) = Inr a"

text \<open>The changes a cursor has not seen yet, through the commit \<open>through\<close>.\<close>

definition replay_changes ::
  "hub_env \<Rightarrow> subscribe_request \<Rightarrow> decoded_cursor \<Rightarrow> string option \<Rightarrow> realtime_error + derived_change list" where
  "replay_changes env rq d through =
     (case through of
        None \<Rightarrow> Inl Cursor_Gone
      | Some t \<Rightarrow>
          if cu_commit d \<noteq> t \<and> \<not> gh_ancestor (fe_git env) (cu_commit d) t then Inl Invalid_Cursor
          else res_bind (lift_replay (derive env (cu_commit d))) (\<lambda>anchor.
            if length anchor < cu_ordinal d then Inl Invalid_Cursor
            else res_bind (res_map (\<lambda>c. lift_replay (derive env c)) (commits_after (fe_git env) (Some (cu_commit d)) t)) (\<lambda>rest.
              let changes = filter (change_matches (rq_tables rq) (rq_ops rq) (rq_row rq))
                    (filter (\<lambda>c. cu_ordinal d < dc_ordinal c) anchor @ concat rest)
              in if hc_maxReplayEvents (fe_config env) < length changes then Inl Cursor_Gone else Inr changes)))"

definition head_cursor :: "hub_env \<Rightarrow> string option \<Rightarrow> realtime_error + string option" where
  "head_cursor env head =
     (case head of
        None \<Rightarrow> Inr None
      | Some h \<Rightarrow> res_bind (lift_replay (derive env h)) (\<lambda>cs.
          Inr (if cs = [] then None else Some (event_cursor (fe_fmt env) (fe_ns env) (last cs)))))"

text \<open>Everything that can fail before a byte is written: the replayed changes and the ready cursor.\<close>

definition prepare_stream ::
  "hub_env \<Rightarrow> int \<Rightarrow> string option \<Rightarrow> feed \<Rightarrow> subscribe_request \<Rightarrow> realtime_error + derived_change list \<times> string option" where
  "prepare_stream env now head fd rq =
     res_bind
       (case rq_cursor rq of
          None \<Rightarrow> Inr []
        | Some raw \<Rightarrow> res_bind (validate_cursor env now raw head) (\<lambda>d.
            replay_changes env rq d (if live fd \<noteq> [] then fd_last fd else head)))
       (\<lambda>changes. res_bind (head_cursor env head) (\<lambda>cur. Inr (changes, cur)))"

definition create_subscriber :: "hub_env \<Rightarrow> nat \<Rightarrow> subscribe_request \<Rightarrow> subscriber" where
  "create_subscriber env n rq =
     \<lparr>sb_id = n, sb_ns = fe_ns env, sb_principal = rq_principal rq, sb_tables = rq_tables rq, sb_ops = rq_ops rq,
      sb_row = rq_row rq, sb_sink = rq_sink rq, sb_queue = [], sb_queueBytes = 0, sb_blocked = False,
      sb_closed = False, sb_heartbeat = (0 < hc_heartbeatMs (fe_config env)), sb_last = None, sb_delivered = 0,
      sb_attached = False, sb_notified = False\<rparr>"

definition stream_start :: "hub_env \<Rightarrow> derived_change list \<Rightarrow> string option \<Rightarrow> subscriber \<Rightarrow> subscriber" where
  "stream_start env changes cur s =
     foldl (\<lambda>s f. enqueue_frame (fe_fmt env) (fe_config env) f s) s
       (text_frame (ready_frame (fe_fmt env) (fe_ns env) cur) None #
        map (\<lambda>c. text_frame (change_frame (fe_fmt env) (fe_ns env) c) (frame_cursor (change_frame (fe_fmt env) (fe_ns env) c)))
          changes)"

text \<open>
  \<^verbatim>\<open>subscribe\<close> under the feed lock: the feed and the subscriber whose response was started, if any.
\<close>

definition subscribe_locked ::
  "hub_env \<Rightarrow> int \<Rightarrow> string option \<Rightarrow> nat \<Rightarrow> subscribe_request \<Rightarrow> feed \<Rightarrow> feed \<times> (realtime_error + subscriber)" where
  "subscribe_locked env now head n rq fd =
     (case prepare_stream env now head fd rq of
        Inl e \<Rightarrow> (fd, Inl e)
      | Inr (changes, cur) \<Rightarrow>
          (let s = stream_start env changes cur (create_subscriber env n rq);
               s' = s\<lparr>sb_attached := \<not> sb_closed s\<rparr>;
               fd' = (if live fd = []
                      then fd\<lparr>fd_last := head, fd_timer := fd_timer fd \<or> 0 < hc_pollIntervalMs (fe_config env)\<rparr> else fd)
           in (fd'\<lparr>fd_subs := fd_subs fd' @ [s']\<rparr>, Inr s')))"

section \<open>The hub\<close>

record hub =
  hb_feeds :: "(string \<times> feed) list"
  hb_nextId :: nat

definition subscriber_count :: "hub \<Rightarrow> nat" where
  "subscriber_count h = sum_list (map (\<lambda>(ns, fd). length (live fd)) (hb_feeds h))"

definition feed_for :: "string \<Rightarrow> hub \<Rightarrow> feed" where
  "feed_for ns h = (case map_of (hb_feeds h) ns of None \<Rightarrow> empty_feed | Some fd \<Rightarrow> fd)"

text \<open>
  The outcome of a request: refused, and then the subscriber whose stream was started anyway, or
  the subscription.
\<close>

datatype subscribe_outcome = Refused realtime_error "subscriber option" | Subscribed nat

definition subscribe ::
  "hub_env \<Rightarrow> bool \<Rightarrow> int \<Rightarrow> string option \<Rightarrow> subscribe_request \<Rightarrow> hub \<Rightarrow> hub \<times> subscribe_outcome" where
  "subscribe env exists now head rq h =
     (if \<not> exists then (h, Refused Not_Found None)
      else if hc_maxSubscribers (fe_config env) \<le> subscriber_count h then (h, Refused Subscriber_Limit None)
      else case subscribe_locked env now head (hb_nextId h) rq (feed_for (fe_ns env) h) of
          (fd, Inl e) \<Rightarrow> (h\<lparr>hb_feeds := obj_set (fe_ns env) fd (hb_feeds h)\<rparr>, Refused e None)
        | (fd, Inr s) \<Rightarrow>
            (\<lparr>hb_feeds = obj_set (fe_ns env) fd (hb_feeds h), hb_nextId = hb_nextId h + 1\<rparr>,
             if sb_closed s then Refused Subscriber_Limit (Some s) else Subscribed (sb_id s)))"

text \<open>An auth store that no longer resolves a principal revokes its subscribers; \<open>None\<close> always resolves.\<close>

definition revoke_missing :: "(rat \<Rightarrow> string) \<Rightarrow> (principal \<Rightarrow> bool) \<Rightarrow> hub \<Rightarrow> hub" where
  "revoke_missing fmt resolves h =
     h\<lparr>hb_feeds := map (\<lambda>(ns, fd). (ns, update_live (\<lambda>s. case sb_principal s of
           Some p \<Rightarrow> if resolves p then s else revoke fmt s | None \<Rightarrow> s) fd)) (hb_feeds h)\<rparr>"

definition check_namespace ::
  "hub_env \<Rightarrow> (principal \<Rightarrow> bool) option \<Rightarrow> string option \<Rightarrow> hub \<Rightarrow> hub" where
  "check_namespace env resolves head h =
     (case map_of (hb_feeds h) (fe_ns env) of
        None \<Rightarrow> h
      | Some fd \<Rightarrow>
          (let h' = (case resolves of None \<Rightarrow> h | Some r \<Rightarrow> revoke_missing (fe_fmt env) r h)
           in h'\<lparr>hb_feeds := obj_set (fe_ns env) (check env head (feed_for (fe_ns env) h')) (hb_feeds h')\<rparr>))"

text \<open>Shutdown: the feeds as they were closed, and the empty hub.\<close>

definition close_all :: "hub \<Rightarrow> hub \<times> (string \<times> feed) list" where
  "close_all h = (h\<lparr>hb_feeds := []\<rparr>, map (\<lambda>(ns, fd). (ns, close_feed fd)) (hb_feeds h))"

definition close_subscription :: "string \<Rightarrow> nat \<Rightarrow> hub \<Rightarrow> hub" where
  "close_subscription ns n h =
     h\<lparr>hb_feeds := map (\<lambda>(ns', fd). (ns', if ns' = ns
           then update_live (\<lambda>s. if sb_id s = n then remove_subscriber s else s) fd else fd)) (hb_feeds h)\<rparr>"

section \<open>The stream of one subscriber\<close>

definition chat_free :: "string list \<Rightarrow> string list" where
  "chat_free out = filter (\<lambda>t. t \<noteq> heartbeat_frame) out"

definition last_cursor :: "frame list \<Rightarrow> string option" where
  "last_cursor fs = foldl (\<lambda>acc f. case fr_cursor f of None \<Rightarrow> acc | Some c \<Rightarrow> Some c) None fs"

definition open_inv :: "frame list \<Rightarrow> subscriber \<Rightarrow> bool" where
  "open_inv frames s \<longleftrightarrow>
     \<not> sb_closed s \<and> sb_delivered s \<le> length frames \<and> sb_queue s = drop (sb_delivered s) frames \<and>
     chat_free (sk_out (sb_sink s)) = map fr_text (take (sb_delivered s) frames) \<and>
     sb_last s = last_cursor (take (sb_delivered s) frames) \<and>
     sb_queueBytes s = int (sum_list (map fr_bytes (sb_queue s)))"

definition bounded_queue :: "hub_config \<Rightarrow> subscriber \<Rightarrow> bool" where
  "bounded_queue cfg s \<longleftrightarrow>
     length (sb_queue s) \<le> hc_maxQueueEvents cfg \<and> sb_queueBytes s \<le> int (hc_maxQueueBytes cfg)"

text \<open>A closed stream: what was delivered, and at most one last control frame.\<close>

definition closed_inv :: "(rat \<Rightarrow> string) \<Rightarrow> frame list \<Rightarrow> subscriber \<Rightarrow> bool" where
  "closed_inv fmt frames s \<longleftrightarrow>
     sb_closed s \<and> \<not> sb_attached s \<and> sb_delivered s \<le> length frames \<and> sb_queue s = [] \<and> sb_queueBytes s = 0 \<and>
     sb_last s = last_cursor (take (sb_delivered s) frames) \<and>
     (\<exists>ctl \<in> {[], [overflow_frame fmt (sb_ns s) (sb_last s)], [revoked_frame fmt (sb_ns s)]}.
        chat_free (sk_out (sb_sink s)) = map fr_text (take (sb_delivered s) frames) @ ctl)"

definition stream_inv :: "(rat \<Rightarrow> string) \<Rightarrow> hub_config \<Rightarrow> frame list \<Rightarrow> subscriber \<Rightarrow> bool" where
  "stream_inv fmt cfg frames s \<longleftrightarrow>
     closed_inv fmt frames s \<or> open_inv frames s \<and> bounded_queue cfg s \<and> (sb_queue s \<noteq> [] \<longrightarrow> sb_blocked s)"

lemma chat_free_simps [simp]:
  "chat_free [] = []" "chat_free (xs @ ys) = chat_free xs @ chat_free ys"
  "chat_free [t] = (if t = heartbeat_frame then [] else [t])"
  by (simp_all add: chat_free_def)

lemma last_cursor_snoc [simp]:
  "last_cursor (fs @ [f]) = (case fr_cursor f of None \<Rightarrow> last_cursor fs | Some c \<Rightarrow> Some c)"
  by (cases "fr_cursor f") (simp_all add: last_cursor_def)

lemma last_cursor_Nil [simp]: "last_cursor [] = None"
  by (simp add: last_cursor_def)

lemma event_not_heartbeat [simp]:
  "change_frame fmt ns c \<noteq> heartbeat_frame" "ready_frame fmt ns cur \<noteq> heartbeat_frame"
  "overflow_frame fmt ns cur \<noteq> heartbeat_frame" "revoked_frame fmt ns \<noteq> heartbeat_frame"
  by (simp_all add: change_frame_def ready_frame_def overflow_frame_def revoked_frame_def control_frame_def heartbeat_frame_def)

lemma remove_closed:
  assumes "sb_delivered s \<le> length frames" and "sb_last s = last_cursor (take (sb_delivered s) frames)"
    and "chat_free (sk_out (sb_sink s)) = map fr_text (take (sb_delivered s) frames) @ ctl"
    and "ctl \<in> {[], [overflow_frame fmt (sb_ns s) (sb_last s)], [revoked_frame fmt (sb_ns s)]}"
  shows "closed_inv fmt frames (remove_subscriber s)"
  using assms by (auto simp: closed_inv_def remove_subscriber_def)

lemma frame_taken_inv:
  assumes "open_inv frames s" and "sb_queue s = f # fs" and "fr_text f \<noteq> heartbeat_frame"
    and "sink_write (fr_text f) (sb_sink s) = (r, k)" and "r \<noteq> Dead"
  shows "open_inv frames (frame_taken f fs k s)"
proof -
  let ?n = "sb_delivered s"
  have d: "drop ?n frames = f # fs" using assms(1,2) by (simp add: open_inv_def)
  then have n: "?n < length frames" by (metis drop_all linorder_not_less list.distinct(1))
  have "frames ! ?n = f" using d by (metis nth_via_drop)
  then have t: "take (Suc ?n) frames = take ?n frames @ [f]" using n by (simp add: take_Suc_conv_app_nth)
  have "drop (Suc ?n) frames = fs" using d by (metis drop_Suc list.sel(3) tl_drop)
  moreover have "sk_out k = sk_out (sb_sink s) @ [fr_text f]" using assms(4,5) by (auto simp: sink_write_def)
  ultimately show ?thesis using assms(1,2,3) n t
    by (cases "fr_cursor f") (simp_all add: open_inv_def frame_taken_def)
qed

lemma pump_loop_inv:
  assumes "open_inv frames s" and "bounded_queue cfg s" and "\<forall>f \<in> set frames. fr_text f \<noteq> heartbeat_frame"
  shows "stream_inv fmt cfg frames (pump_loop (sb_queue s) s)"
  using assms
proof (induction "sb_queue s" arbitrary: s)
  case Nil
  then show ?case by (simp add: stream_inv_def)
next
  case (Cons f fs)
  obtain r k where w: "sink_write (fr_text f) (sb_sink s) = (r, k)" by fastforce
  have d: "sb_queue s = drop (sb_delivered s) frames" using Cons.prems(1) by (simp add: open_inv_def)
  then have "f \<in> set frames" using Cons.hyps(2) by (metis in_set_dropD list.set_intros(1))
  then have tf: "fr_text f \<noteq> heartbeat_frame" using Cons.prems(3) by blast
  note taken = frame_taken_inv [OF Cons.prems(1) Cons.hyps(2) [symmetric] tf w]
  have b: "bounded_queue cfg (frame_taken f fs k s)"
    using Cons.prems(2) Cons.hyps(2) [symmetric] by (simp add: bounded_queue_def frame_taken_def)
  have q: "sb_queue (frame_taken f fs k s) = fs" by (simp add: frame_taken_def)
  show ?case
  proof (cases r)
    case Dead
    then have "sk_out k = sk_out (sb_sink s)" using w by (auto simp: sink_write_def)
    then have "closed_inv fmt frames (remove_subscriber (s\<lparr>sb_sink := k\<rparr>))"
      using Cons.prems(1) by (intro remove_closed [where ctl = "[]"]) (simp_all add: open_inv_def)
    with Dead w show ?thesis by (simp add: Cons.hyps(2) [symmetric] stream_inv_def)
  next
    case Backpressure
    then have o: "open_inv frames (frame_taken f fs k s)" using taken by simp
    show ?thesis
    proof (cases "sk_drainable k")
      case True
      let ?s' = "frame_taken f fs k s\<lparr>sb_blocked := True, sb_sink := k\<lparr>sk_armed := True\<rparr>\<rparr>"
      have "sb_sink (frame_taken f fs k s) = k" by (simp add: frame_taken_def)
      then have "open_inv frames ?s' \<and> bounded_queue cfg ?s'" using o b by (simp add: open_inv_def bounded_queue_def)
      with True Backpressure w show ?thesis by (simp add: Cons.hyps(2) [symmetric] stream_inv_def)
    next
      case False
      have "closed_inv fmt frames (remove_subscriber (frame_taken f fs k s\<lparr>sb_blocked := True\<rparr>))"
        using o by (intro remove_closed [where ctl = "[]"]) (simp_all add: open_inv_def)
      with False Backpressure w show ?thesis by (simp add: Cons.hyps(2) [symmetric] stream_inv_def)
    qed
  next
    case Taken
    then have "open_inv frames (frame_taken f fs k s)" using taken by simp
    from Cons.hyps(1) [OF q [symmetric] this b Cons.prems(3)] Taken w show ?thesis
      by (simp add: Cons.hyps(2) [symmetric] q)
  qed
qed

lemma terminate_inv:
  assumes "open_inv frames s" and "chunk = overflow_frame fmt (sb_ns s) (sb_last s) \<or> chunk = revoked_frame fmt (sb_ns s)"
  shows "closed_inv fmt frames (terminate_with chunk s)"
proof -
  let ?k = "(snd (sink_write chunk (sb_sink s)))\<lparr>sk_ended := True\<rparr>"
  have ne: "chunk \<noteq> heartbeat_frame" using assms(2) event_not_heartbeat by metis
  have "\<not> sb_closed s" using assms(1) by (simp add: open_inv_def)
  moreover have "closed_inv fmt frames (remove_subscriber (s\<lparr>sb_closed := True, sb_queue := [], sb_queueBytes := 0, sb_sink := ?k\<rparr>))"
    by (rule remove_closed [where ctl = "if sk_reply (sb_sink s) (sk_count (sb_sink s)) = Dead then [] else [chunk]"])
      (use assms ne in \<open>auto simp: open_inv_def sink_write_def\<close>)
  ultimately show ?thesis by (simp add: terminate_with_def)
qed

lemma closed_more: "closed_inv fmt frames s \<Longrightarrow> closed_inv fmt (frames @ fs) s"
  by (auto simp: closed_inv_def)

lemma enqueue_frame_inv:
  assumes "stream_inv fmt cfg frames s" and "\<forall>f \<in> set (frames @ [f]). fr_text f \<noteq> heartbeat_frame"
  shows "stream_inv fmt cfg (frames @ [f]) (enqueue_frame fmt cfg f s)"
proof (cases "sb_closed s")
  case True
  with assms(1) have "closed_inv fmt frames s" by (auto simp: stream_inv_def open_inv_def)
  with True closed_more show ?thesis by (simp add: stream_inv_def enqueue_frame_def)
next
  case False
  then have o: "open_inv frames s" "bounded_queue cfg s" "sb_queue s \<noteq> [] \<longrightarrow> sb_blocked s"
    using assms(1) by (auto simp: stream_inv_def closed_inv_def)
  show ?thesis
  proof (cases "hc_maxQueueEvents cfg < length (sb_queue s) + 1 \<or> int (hc_maxQueueBytes cfg) < sb_queueBytes s + int (fr_bytes f)")
    case True
    then have e: "enqueue_frame fmt cfg f s = overflow fmt s" using False by (simp add: enqueue_frame_def)
    have "closed_inv fmt frames (overflow fmt s)"
      unfolding overflow_def by (rule terminate_inv [OF o(1)]) simp
    with closed_more show ?thesis unfolding e stream_inv_def by blast
  next
    case f: False
    let ?s = "s\<lparr>sb_queue := sb_queue s @ [f], sb_queueBytes := sb_queueBytes s + int (fr_bytes f)\<rparr>"
    have e: "enqueue_frame fmt cfg f s = pump ?s" using False f by (simp add: enqueue_frame_def)
    have op: "open_inv (frames @ [f]) ?s" and b: "bounded_queue cfg ?s"
      using o f by (auto simp: open_inv_def bounded_queue_def)
    show ?thesis
    proof (cases "sb_blocked s")
      case True
      then show ?thesis unfolding e using op b by (simp add: pump_def stream_inv_def)
    next
      case nb: False
      then show ?thesis unfolding e using pump_loop_inv [OF op b assms(2)] False by (simp add: pump_def)
    qed
  qed
qed

lemma drain_inv:
  assumes "stream_inv fmt cfg frames s" and "\<forall>f \<in> set frames. fr_text f \<noteq> heartbeat_frame"
  shows "stream_inv fmt cfg frames (drain_event s)"
proof (cases "sk_armed (sb_sink s)")
  case True
  let ?s = "s\<lparr>sb_sink := (sb_sink s)\<lparr>sk_armed := False\<rparr>, sb_blocked := False\<rparr>"
  have e: "drain_event s = pump ?s" using True by (simp add: drain_event_def)
  show ?thesis
  proof (cases "sb_closed s")
    case True
    with assms(1) have "closed_inv fmt frames ?s" by (auto simp: stream_inv_def open_inv_def closed_inv_def)
    with True show ?thesis unfolding e by (simp add: pump_def stream_inv_def)
  next
    case False
    then have "open_inv frames ?s" "bounded_queue cfg ?s"
      using assms(1) by (auto simp: stream_inv_def open_inv_def closed_inv_def bounded_queue_def)
    from pump_loop_inv [OF this assms(2)] False show ?thesis unfolding e by (simp add: pump_def)
  qed
qed (use assms(1) in \<open>simp add: drain_event_def\<close>)

lemma heartbeat_inv: "stream_inv fmt cfg frames s \<Longrightarrow> stream_inv fmt cfg frames (heartbeat s)"
proof (cases "sb_closed s \<or> sb_blocked s \<or> sb_queue s \<noteq> []")
  case False
  assume inv: "stream_inv fmt cfg frames s"
  obtain r k where w: "sink_write heartbeat_frame (sb_sink s) = (r, k)" by fastforce
  then have out: "chat_free (sk_out k) = chat_free (sk_out (sb_sink s))" by (auto simp: sink_write_def)
  have o: "open_inv frames s" "bounded_queue cfg s" using inv False by (auto simp: stream_inv_def closed_inv_def)
  then have o': "open_inv frames (s\<lparr>sb_sink := k\<rparr>)" "bounded_queue cfg (s\<lparr>sb_sink := k\<rparr>)"
    using out by (simp_all add: open_inv_def bounded_queue_def)
  moreover have "closed_inv fmt frames (remove_subscriber (s\<lparr>sb_sink := k\<rparr>))"
    using o'(1) by (intro remove_closed [where ctl = "[]"]) (simp_all add: open_inv_def)
  ultimately show ?thesis using False w by (cases r) (simp_all add: heartbeat_def stream_inv_def)
qed (simp add: heartbeat_def)

lemma revoke_inv: "stream_inv fmt cfg frames s \<Longrightarrow> stream_inv fmt cfg frames (revoke fmt s)"
proof (cases "sb_closed s")
  case False
  assume "stream_inv fmt cfg frames s"
  with False have "open_inv frames s" by (auto simp: stream_inv_def closed_inv_def)
  from terminate_inv [OF this] show ?thesis by (simp add: revoke_def stream_inv_def)
qed (simp add: revoke_def terminate_with_def)

lemma remove_inv: "stream_inv fmt cfg frames s \<Longrightarrow> stream_inv fmt cfg frames (remove_subscriber s)"
  by (auto simp: stream_inv_def open_inv_def closed_inv_def remove_subscriber_def)

datatype sub_event = Enqueued frame | Drained | Beat | Revoked | Removed

fun sub_step :: "(rat \<Rightarrow> string) \<Rightarrow> hub_config \<Rightarrow> subscriber \<Rightarrow> sub_event \<Rightarrow> subscriber" where
  "sub_step fmt cfg s (Enqueued f) = enqueue_frame fmt cfg f s"
| "sub_step fmt cfg s Drained = drain_event s"
| "sub_step fmt cfg s Beat = heartbeat s"
| "sub_step fmt cfg s Revoked = revoke fmt s"
| "sub_step fmt cfg s Removed = remove_subscriber s"

fun event_frames :: "sub_event list \<Rightarrow> frame list" where
  "event_frames [] = []"
| "event_frames (Enqueued f # es) = f # event_frames es"
| "event_frames (e # es) = event_frames es"

lemma created_inv: "sk_out (rq_sink rq) = [] \<Longrightarrow> stream_inv fmt cfg [] (create_subscriber env n rq)"
  by (simp add: stream_inv_def open_inv_def bounded_queue_def create_subscriber_def)

lemma events_inv:
  assumes "stream_inv fmt cfg frames s" and "\<forall>f \<in> set (frames @ event_frames es). fr_text f \<noteq> heartbeat_frame"
  shows "stream_inv fmt cfg (frames @ event_frames es) (foldl (sub_step fmt cfg) s es)"
  using assms
proof (induction es arbitrary: s frames)
  case (Cons e es)
  show ?case
  proof (cases e)
    case (Enqueued f)
    have "stream_inv fmt cfg (frames @ [f]) (enqueue_frame fmt cfg f s)"
      using Cons.prems Enqueued by (intro enqueue_frame_inv) auto
    from Cons.IH [OF this] Cons.prems(2) Enqueued show ?thesis by simp
  qed (use Cons drain_inv heartbeat_inv revoke_inv remove_inv in auto)
qed simp

text \<open>C5: what a subscriber receives is the prefix it acknowledged of what was published to it, in
  order.  Whatever the sink answers and however frames, drains, heartbeats, revocations and closes
  interleave: apart from heartbeats the sink holds exactly the frames delivered so far, each once and
  in order, followed by at most one last control frame once the stream is closed, and an overflow frame
  names the cursor of the last delivered change; while it is open the queue holds exactly the rest,
  within its bounds, and is empty unless the sink pushes back.\<close>

theorem stream_in_order:
  assumes "sk_out (rq_sink rq) = []" and "\<forall>f \<in> set (event_frames es). fr_text f \<noteq> heartbeat_frame"
  shows "let s = foldl (sub_step fmt cfg) (create_subscriber env n rq) es;
             sent = take (sb_delivered s) (event_frames es); out = chat_free (sk_out (sb_sink s))
    in sb_last s = last_cursor sent \<and> length (sb_queue s) \<le> hc_maxQueueEvents cfg \<and>
       sb_queueBytes s \<le> int (hc_maxQueueBytes cfg) \<and>
       (if sb_closed s
        then \<exists>ctl \<in> {[], [overflow_frame fmt (sb_ns s) (last_cursor sent)], [revoked_frame fmt (sb_ns s)]}.
          out = map fr_text sent @ ctl
        else out = map fr_text sent \<and> sb_queue s = drop (sb_delivered s) (event_frames es) \<and>
          (sb_blocked s \<or> sb_queue s = []))"
proof -
  let ?s = "foldl (sub_step fmt cfg) (create_subscriber env n rq) es"
  have "stream_inv fmt cfg ([] @ event_frames es) ?s" using created_inv [OF assms(1)] assms(2) by (intro events_inv) simp_all
  then show ?thesis
    by (auto simp: stream_inv_def open_inv_def closed_inv_def bounded_queue_def Let_def)
qed

section \<open>Identity and attachment\<close>

definition identity :: "subscriber \<Rightarrow> nat \<times> string \<times> principal option \<times> string list \<times> change_operation list \<times> (string \<Rightarrow> json \<Rightarrow> bool) option" where
  "identity s = (sb_id s, sb_ns s, sb_principal s, sb_tables s, sb_ops s, sb_row s)"

lemma identity_basic [simp]:
  "identity (remove_subscriber s) = identity s" "identity (frame_taken f fs k s) = identity s"
  "identity (terminate_with c s) = identity s" "identity (s\<lparr>sb_sink := k\<rparr>) = identity s"
  "identity (s\<lparr>sb_blocked := b\<rparr>) = identity s" "identity (s\<lparr>sb_queue := q\<rparr>) = identity s"
  "identity (s\<lparr>sb_queueBytes := i\<rparr>) = identity s" "identity (s\<lparr>sb_attached := b\<rparr>) = identity s"
  by (simp_all add: identity_def remove_subscriber_def frame_taken_def terminate_with_def)

lemma identity_pump_loop [simp]: "identity (pump_loop fs s) = identity s"
  by (induction fs s rule: pump_loop.induct) (auto split: prod.split write_reply.split simp: Let_def)

lemma identity_ops [simp]:
  "identity (enqueue_frame fmt cfg f s) = identity s" "identity (drain_event s) = identity s"
  "identity (heartbeat s) = identity s" "identity (revoke fmt s) = identity s"
  by (auto simp: enqueue_frame_def overflow_def revoke_def pump_def drain_event_def heartbeat_def
      split: prod.split write_reply.split)

lemma identity_deliver [simp]: "identity (deliver_to env c s) = identity s"
  by (auto simp: deliver_to_def split: grant_decision.split)

text \<open>No operation attaches a subscriber.\<close>

lemma attached_basic [simp]:
  "\<not> sb_attached (remove_subscriber s)" "sb_attached (frame_taken f fs k s) = sb_attached s"
  by (simp_all add: remove_subscriber_def frame_taken_def)

lemma attached_pump_loop: "sb_attached (pump_loop fs s) \<Longrightarrow> sb_attached s"
  by (induction fs s rule: pump_loop.induct) (auto split: prod.splits write_reply.splits if_splits simp: Let_def)

lemma attached_ops:
  "sb_attached (enqueue_frame fmt cfg f s) \<Longrightarrow> sb_attached s" "sb_attached (drain_event s) \<Longrightarrow> sb_attached s"
  "sb_attached (heartbeat s) \<Longrightarrow> sb_attached s" "sb_attached (revoke fmt s) \<Longrightarrow> sb_attached s"
  by (auto simp: enqueue_frame_def overflow_def terminate_with_def revoke_def pump_def drain_event_def heartbeat_def
      dest: attached_pump_loop split: if_splits prod.splits write_reply.splits)

lemma attached_open: "stream_inv fmt cfg frames s \<Longrightarrow> sb_attached s \<Longrightarrow> open_inv frames s"
  by (auto simp: stream_inv_def closed_inv_def)

lemma revoke_detaches: "stream_inv fmt cfg frames s \<Longrightarrow> \<not> sb_attached (revoke fmt s)"
  using revoke_inv [of fmt cfg frames s]
  by (auto simp: stream_inv_def open_inv_def closed_inv_def revoke_def terminate_with_def split: if_splits)

section \<open>The committed history of a feed\<close>

definition published :: "hub_env \<Rightarrow> string \<Rightarrow> derived_change list" where
  "published env c = (case derive env c of Inl e \<Rightarrow> [] | Inr cs \<Rightarrow> cs)"

definition anchor_chain :: "git_history \<Rightarrow> string option \<Rightarrow> string list" where
  "anchor_chain g l = (case l of None \<Rightarrow> [] | Some a \<Rightarrow> gh_chain g a)"

text \<open>Every change of the first-parent history through the commit \<open>l\<close>, oldest first.\<close>

definition feed_history :: "hub_env \<Rightarrow> string option \<Rightarrow> derived_change list" where
  "feed_history env l = concat (map (published env) (rev (anchor_chain (fe_git env) l)))"

text \<open>How many changes of the history a cursor has seen.\<close>

definition cursor_position :: "hub_env \<Rightarrow> decoded_cursor \<Rightarrow> nat" where
  "cursor_position env d =
     length (concat (map (published env) (rev (tl (gh_chain (fe_git env) (cu_commit d)))))) + cu_ordinal d"

text \<open>The laws of git, one by one.\<close>

lemma git_head: "git_laws g \<Longrightarrow> gh_exists g h \<Longrightarrow> \<exists>r. gh_chain g h = h # r"
  and git_distinct: "git_laws g \<Longrightarrow> distinct (gh_chain g h)"
  and git_member: "git_laws g \<Longrightarrow> x \<in> set (gh_chain g h) \<Longrightarrow> gh_exists g x \<and> gh_ancestor g x h"
  and git_split: "git_laws g \<Longrightarrow> a \<in> set (gh_chain g h) \<Longrightarrow>
      \<exists>pre. gh_chain g h = pre @ gh_chain g a \<and> (\<forall>x \<in> set pre. \<not> gh_ancestor g x a)"
  unfolding git_laws_def by blast+

lemma split_unique: "distinct (xs @ c # ys) \<Longrightarrow> xs @ c # ys = xs' @ c # ys' \<Longrightarrow> xs = xs' \<and> ys = ys'"
proof -
  assume d: "distinct (xs @ c # ys)" and e: "xs @ c # ys = xs' @ c # ys'"
  from d have "c \<notin> set xs" "c \<notin> set ys" by auto
  from append_Cons_eq_iff [OF this] e show ?thesis by blast
qed

text \<open>A commit on a chain cuts it where its own chain starts.\<close>

lemma chain_cut:
  assumes "git_laws g" and "gh_chain g h = pre @ c # r"
  shows "gh_chain g c = c # r"
proof -
  have c: "c \<in> set (gh_chain g h)" using assms(2) by simp
  from git_split [OF assms(1) this] obtain pre' where p: "gh_chain g h = pre' @ gh_chain g c" by blast
  from git_head [OF assms(1)] git_member [OF assms(1) c] obtain r' where r': "gh_chain g c = c # r'" by blast
  have "distinct (pre @ c # r)" using git_distinct [OF assms(1), of h] assms(2) by simp
  from split_unique [OF this, of pre' r'] show ?thesis using p r' assms(2) by simp
qed

definition anchored :: "git_history \<Rightarrow> string option \<Rightarrow> string \<Rightarrow> bool" where
  "anchored g l h \<longleftrightarrow> (\<forall>a. l = Some a \<longrightarrow> a \<in> set (gh_chain g h))"

lemma commits_after_split:
  assumes "git_laws g" and "anchored g l h"
  shows "gh_chain g h = rev (commits_after g l h) @ anchor_chain g l"
proof (cases l)
  case (Some a)
  then have "a \<in> set (gh_chain g h)" using assms(2) by (simp add: anchored_def)
  from git_split [OF assms(1) this] obtain pre where p: "gh_chain g h = pre @ gh_chain g a"
    "\<forall>x \<in> set pre. \<not> gh_ancestor g x a" by blast
  have "filter (\<lambda>x. \<not> gh_ancestor g x a) (gh_chain g a) = []"
    using git_member [OF assms(1)] by (auto simp: filter_empty_conv)
  with p(2) have "filter (\<lambda>x. \<not> gh_ancestor g x a) (gh_chain g h) = pre" unfolding p(1) by simp
  with Some p(1) show ?thesis by (simp add: commits_after_def anchor_chain_def)
qed (simp add: commits_after_def anchor_chain_def)

lemma history_through:
  assumes "git_laws (fe_git env)" and "gh_chain (fe_git env) h = rev (p @ q) @ anchor_chain (fe_git env) l" and "p \<noteq> []"
  shows "feed_history env (Some (last p)) = feed_history env l @ concat (map (published env) p)"
    and "last p \<in> set (gh_chain (fe_git env) h)"
proof -
  obtain p' c where p: "p = p' @ [c]" using assms(3) by (cases p rule: rev_cases) auto
  then have "gh_chain (fe_git env) h = rev q @ c # rev p' @ anchor_chain (fe_git env) l" using assms(2) by simp
  from chain_cut [OF assms(1) this] show "feed_history env (Some (last p)) = feed_history env l @ concat (map (published env) p)"
    by (simp add: feed_history_def anchor_chain_def p)
  show "last p \<in> set (gh_chain (fe_git env) h)" using assms(2) p by simp
qed

section \<open>Every subscriber follows the history\<close>

definition stream_frames :: "hub_env \<Rightarrow> string option \<Rightarrow> (derived_change \<Rightarrow> bool) \<Rightarrow> derived_change list \<Rightarrow> frame list" where
  "stream_frames env cur wanted cs =
     text_frame (ready_frame (fe_fmt env) (fe_ns env) cur) None # map (frame_for env) (filter wanted cs)"

abbreviation wants :: "subscriber \<Rightarrow> derived_change \<Rightarrow> bool" where
  "wants s \<equiv> change_matches (sb_tables s) (sb_ops s) (sb_row s)"

text \<open>The subscriber at an index has been given the changes after the first \<open>k\<close>, if it is attached.\<close>

definition follows :: "hub_env \<Rightarrow> string option \<Rightarrow> nat \<Rightarrow> nat \<Rightarrow> feed \<Rightarrow> bool" where
  "follows env cur k i fd \<longleftrightarrow>
     k \<le> length (feed_history env (fd_last fd)) \<and>
     (i < length (fd_subs fd) \<longrightarrow> sb_attached (fd_subs fd ! i) \<longrightarrow>
       stream_inv (fe_fmt env) (fe_config env)
         (stream_frames env cur (wants (fd_subs fd ! i)) (drop k (feed_history env (fd_last fd)))) (fd_subs fd ! i))"

lemma wants_identity: "identity s' = identity s \<Longrightarrow> wants s' = wants s"
  by (simp add: identity_def)

lemma stream_frames_quiet: "\<forall>f \<in> set (stream_frames env cur w cs). fr_text f \<noteq> heartbeat_frame"
  by (auto simp: stream_frames_def text_frame_def frame_for_def)

lemma deliver_to_attached: "sb_attached (deliver_to env c s) \<Longrightarrow> sb_attached s"
  by (auto simp: deliver_to_def dest: attached_ops split: if_splits grant_decision.splits)

lemma deliver_to_inv:
  assumes "stream_inv (fe_fmt env) (fe_config env) (stream_frames env cur (wants s) cs) s"
    and "sb_attached (deliver_to env c s)"
  shows "stream_inv (fe_fmt env) (fe_config env) (stream_frames env cur (wants s) (cs @ [c])) (deliver_to env c s)"
proof -
  have "sb_attached s" by (rule deliver_to_attached [OF assms(2)])
  then have "\<not> sb_closed s" using attached_open [OF assms(1)] by (simp add: open_inv_def)
  show ?thesis
  proof (cases "wants s c")
    case True
    then have "authorize_table_access (sb_principal s) (fe_ns env) (cr_table (dc_record c)) Read = Allowed"
      using assms(2) revoke_detaches [OF assms(1)] \<open>\<not> sb_closed s\<close>
      by (auto simp: deliver_to_def split: grant_decision.splits)
    then have d: "deliver_to env c s = enqueue_frame (fe_fmt env) (fe_config env) (frame_for env c) s"
      using True \<open>\<not> sb_closed s\<close> by (simp add: deliver_to_def)
    have f: "stream_frames env cur (wants s) (cs @ [c]) = stream_frames env cur (wants s) cs @ [frame_for env c]"
      using True by (simp add: stream_frames_def)
    show ?thesis unfolding d f by (rule enqueue_frame_inv [OF assms(1)]) (use stream_frames_quiet [of env cur "wants s" "cs @ [c]"] f in simp)
  next
    case False
    then show ?thesis using assms(1) \<open>\<not> sb_closed s\<close> by (simp add: deliver_to_def stream_frames_def)
  qed
qed

lemma update_live_nth:
  "length (fd_subs (update_live f fd)) = length (fd_subs fd)" "fd_last (update_live f fd) = fd_last fd"
  "i < length (fd_subs fd) \<Longrightarrow> fd_subs (update_live f fd) ! i = (if sb_attached (fd_subs fd ! i) then f (fd_subs fd ! i) else fd_subs fd ! i)"
  by (simp_all add: update_live_def Let_def)

lemma live_attached: "i < length (fd_subs fd) \<Longrightarrow> sb_attached (fd_subs fd ! i) \<Longrightarrow> live fd \<noteq> []"
  using nth_mem by (fastforce simp: live_def filter_empty_conv)

lemma deliver_shape:
  "length (fd_subs (deliver env cs fd)) = length (fd_subs fd)" "fd_last (deliver env cs fd) = fd_last fd"
  by (induction cs arbitrary: fd) (simp_all add: deliver_def update_live_nth)

lemma deliver_inv:
  assumes "i < length (fd_subs fd)" and "sb_attached (fd_subs (deliver env cs fd) ! i)"
    and "sb_attached (fd_subs fd ! i) \<Longrightarrow>
      stream_inv (fe_fmt env) (fe_config env) (stream_frames env cur (wants (fd_subs fd ! i)) old) (fd_subs fd ! i)"
  shows "sb_attached (fd_subs fd ! i) \<and> identity (fd_subs (deliver env cs fd) ! i) = identity (fd_subs fd ! i) \<and>
    stream_inv (fe_fmt env) (fe_config env) (stream_frames env cur (wants (fd_subs fd ! i)) (old @ cs)) (fd_subs (deliver env cs fd) ! i)"
  using assms
proof (induction cs arbitrary: fd old)
  case (Cons c cs)
  let ?fd = "if live fd = [] then fd else update_live (deliver_to env c) fd"
  let ?s = "fd_subs fd ! i"
  have step: "deliver env (c # cs) fd = deliver env cs ?fd" by (simp add: deliver_def)
  have i: "i < length (fd_subs ?fd)" using Cons.prems(1) by (simp add: update_live_nth)
  have nth: "fd_subs ?fd ! i = (if sb_attached ?s then deliver_to env c ?s else ?s)"
    using Cons.prems(1) live_attached [of i fd] by (simp add: update_live_nth)
  note mono = deliver_to_attached [of env c ?s]
  have id: "identity (fd_subs ?fd ! i) = identity ?s" by (simp add: nth)
  then have w: "wants (fd_subs ?fd ! i) = wants ?s" by (rule wants_identity)
  have inv: "sb_attached (fd_subs ?fd ! i) \<Longrightarrow>
      stream_inv (fe_fmt env) (fe_config env) (stream_frames env cur (wants (fd_subs ?fd ! i)) (old @ [c])) (fd_subs ?fd ! i)"
    unfolding w using Cons.prems(3) deliver_to_inv mono nth by (simp split: if_splits)
  from Cons.IH [OF i Cons.prems(2) [unfolded step] inv] id mono nth show ?case
    unfolding step w by (simp split: if_splits)
qed (simp add: deliver_def)

lemma close_feed_detached: "i < length (fd_subs fd) \<Longrightarrow> \<not> sb_attached (fd_subs (close_feed fd) ! i)"
  by (simp add: close_feed_def)

lemma follows_deliver:
  assumes "follows env cur k i fd" and "derive env c = Inr cs"
    and "feed_history env (Some c) = feed_history env (fd_last fd) @ cs"
  shows "follows env cur k i ((deliver env cs fd)\<lparr>fd_last := Some c\<rparr>)"
proof -
  have k: "k \<le> length (feed_history env (fd_last fd))" using assms(1) by (simp add: follows_def)
  have "stream_inv (fe_fmt env) (fe_config env)
      (stream_frames env cur (wants (fd_subs (deliver env cs fd) ! i)) (drop k (feed_history env (Some c)))) (fd_subs (deliver env cs fd) ! i)"
    if i: "i < length (fd_subs fd)" and a: "sb_attached (fd_subs (deliver env cs fd) ! i)"
  proof -
    have "sb_attached (fd_subs fd ! i) \<Longrightarrow> stream_inv (fe_fmt env) (fe_config env)
        (stream_frames env cur (wants (fd_subs fd ! i)) (drop k (feed_history env (fd_last fd)))) (fd_subs fd ! i)"
      using assms(1) i by (simp add: follows_def)
    note d = deliver_inv [OF i a this]
    then have "wants (fd_subs (deliver env cs fd) ! i) = wants (fd_subs fd ! i)" by (intro wants_identity) simp
    then show ?thesis using d k assms(3) by simp
  qed
  then show ?thesis using k assms(3) by (simp add: follows_def deliver_shape)
qed

lemma follows_commits:
  assumes "git_laws (fe_git env)" and "gh_chain (fe_git env) h = rev cs @ anchor_chain (fe_git env) (fd_last fd)"
    and "follows env cur k i fd" and "anchored (fe_git env) (fd_last fd) h"
  shows "follows env cur k i (deliver_commits env n cs fd) \<and>
    anchored (fe_git env) (fd_last (deliver_commits env n cs fd)) h \<and>
    length (fd_subs (deliver_commits env n cs fd)) = length (fd_subs fd)"
  using assms(2-4)
proof (induction cs arbitrary: n fd)
  case (Cons c cs)
  show ?case
  proof (cases "derive env c")
    case (Inl e)
    then have "follows env cur k i (close_feed fd)" using Cons.prems(2) close_feed_detached [of i fd]
      by (auto simp: follows_def close_feed_def)
    then show ?thesis using Inl Cons.prems(3) by (simp add: close_feed_def)
  next
    case (Inr ds)
    let ?fd = "(deliver env ds fd)\<lparr>fd_last := Some c\<rparr>"
    have "gh_chain (fe_git env) h = rev ([c] @ cs) @ anchor_chain (fe_git env) (fd_last fd)" using Cons.prems(1) by simp
    from history_through [OF assms(1) this] Inr have hist: "feed_history env (Some c) = feed_history env (fd_last fd) @ ds"
      and mem: "c \<in> set (gh_chain (fe_git env) h)" by (simp_all add: published_def)
    have f: "follows env cur k i ?fd" by (rule follows_deliver [OF Cons.prems(2) Inr hist])
    have an: "anchored (fe_git env) (fd_last ?fd) h" using mem by (simp add: anchored_def)
    have "gh_chain (fe_git env) h = rev cs @ c # anchor_chain (fe_git env) (fd_last fd)" using Cons.prems(1) by simp
    from chain_cut [OF assms(1) this] Cons.prems(1) have ch: "gh_chain (fe_git env) h = rev cs @ anchor_chain (fe_git env) (fd_last ?fd)"
      by (simp add: anchor_chain_def)
    show ?thesis
    proof (cases "hc_maxReplayEvents (fe_config env) < n + length ds")
      case True
      then show ?thesis using Inr f an by (simp add: deliver_shape)
    next
      case False
      from Cons.IH [OF ch f an] show ?thesis using Inr False by (simp add: deliver_shape)
    qed
  qed
qed simp

lemma follows_check:
  assumes "git_laws (fe_git env)" and "follows env cur k i fd" and "\<forall>h. head = Some h \<longrightarrow> anchored (fe_git env) (fd_last fd) h"
  shows "follows env cur k i (check env head fd) \<and>
    (\<forall>h. head = Some h \<longrightarrow> anchored (fe_git env) (fd_last (check env head fd)) h) \<and>
    (head = None \<longrightarrow> fd_last (check env head fd) = fd_last fd) \<and>
    length (fd_subs (check env head fd)) = length (fd_subs fd)"
proof (cases "live fd = [] \<or> head = None \<or> fd_last fd = head")
  case True
  then have c: "check env head fd = fd" by (auto simp: check_def split: option.split)
  show ?thesis unfolding c using assms(2,3) by simp
next
  case False
  then obtain h where h: "head = Some h" "live fd \<noteq> []" "fd_last fd \<noteq> Some h" by auto
  have an: "anchored (fe_git env) (fd_last fd) h" using assms(3) h(1) by simp
  then have "\<not> rewritten (fe_git env) (fd_last fd) h"
    using git_member [OF assms(1)] by (auto simp: anchored_def rewritten_def split: option.split)
  then have c: "check env head fd = deliver_commits env 0 (commits_after (fe_git env) (fd_last fd) h) fd"
    using h by (auto simp: check_def)
  show ?thesis
    unfolding c using follows_commits [OF assms(1) commits_after_split [OF assms(1) an] assms(2) an] h(1) by simp
qed

lemma follows_update:
  assumes "follows env cur k i fd"
    and "\<And>s. identity (f s) = identity s" and "\<And>s. sb_attached (f s) \<Longrightarrow> sb_attached s"
    and "\<And>frames s. stream_inv (fe_fmt env) (fe_config env) frames s \<Longrightarrow> \<forall>x \<in> set frames. fr_text x \<noteq> heartbeat_frame \<Longrightarrow>
      stream_inv (fe_fmt env) (fe_config env) frames (f s)"
  shows "follows env cur k i (update_live f fd)"
proof -
  let ?s = "fd_subs fd ! i" and ?H = "feed_history env (fd_last fd)"
  have "stream_inv (fe_fmt env) (fe_config env) (stream_frames env cur (wants (f ?s)) (drop k ?H)) (f ?s)"
    if "i < length (fd_subs fd)" "sb_attached (f ?s)"
  proof -
    have w: "wants (f ?s) = wants ?s" by (rule wants_identity) (rule assms(2))
    have "sb_attached ?s" by (rule assms(3)) fact
    with assms(1) that have "stream_inv (fe_fmt env) (fe_config env) (stream_frames env cur (wants ?s) (drop k ?H)) ?s"
      by (simp add: follows_def)
    from assms(4) [OF this stream_frames_quiet] show ?thesis unfolding w .
  qed
  then show ?thesis using assms(1) by (simp add: follows_def update_live_nth)
qed

text \<open>The steps of one feed.  The head of the namespace only moves to commits that extend it.\<close>

definition extends_head :: "git_history \<Rightarrow> string option \<Rightarrow> string \<Rightarrow> bool" where
  "extends_head g h h' \<longleftrightarrow> gh_exists g h' \<and> (\<forall>x. h = Some x \<longrightarrow> x \<in> set (gh_chain g h'))"

inductive feed_step :: "hub_env \<Rightarrow> string option \<times> feed \<Rightarrow> string option \<times> feed \<Rightarrow> bool" for env where
  Commit: "extends_head (fe_git env) h h' \<Longrightarrow> feed_step env (h, fd) (Some h', fd)"
| Join: "subscribe_locked env now h n rq fd = (fd', r) \<Longrightarrow> feed_step env (h, fd) (h, fd')"
| Check: "feed_step env (h, fd) (h, check env h fd)"
| Touch: "f \<in> {drain_event, heartbeat, revoke (fe_fmt env), remove_subscriber} \<Longrightarrow>
    feed_step env (h, fd) (h, update_live (\<lambda>s. if sb_id s = n then f s else s) fd)"
| Shut: "feed_step env (h, fd) (h, close_feed fd)"

inductive feed_run :: "hub_env \<Rightarrow> string option \<times> feed \<Rightarrow> string option \<times> feed \<Rightarrow> bool" for env where
  Refl: "feed_run env x x"
| Step: "feed_run env x y \<Longrightarrow> feed_step env y z \<Longrightarrow> feed_run env x z"

inductive_cases feed_stepE: "feed_step env (h, fd) s'"

text \<open>The last delivered commit is on the first-parent history of the head.\<close>

definition feed_ok :: "hub_env \<Rightarrow> string option \<times> feed \<Rightarrow> bool" where
  "feed_ok env x \<longleftrightarrow>
     (\<forall>h. fst x = Some h \<longrightarrow> gh_exists (fe_git env) h \<and> anchored (fe_git env) (fd_last (snd x)) h) \<and>
     (fst x = None \<longrightarrow> fd_last (snd x) = None)"

lemma chain_trans:
  assumes "git_laws g" and "a \<in> set (gh_chain g x)" and "x \<in> set (gh_chain g h)"
  shows "a \<in> set (gh_chain g h)"
  using git_split [OF assms(1,3)] assms(2) by auto

lemma anchored_self: "git_laws g \<Longrightarrow> gh_exists g h \<Longrightarrow> anchored g (Some h) h"
  using git_head by (fastforce simp: anchored_def)

lemma joined:
  assumes "subscribe_locked env now h n rq fd = (fd', r)"
  shows "(fd_last fd' = fd_last fd \<or> fd_last fd' = h \<and> live fd = []) \<and>
    (fd_subs fd' = fd_subs fd \<or> (\<exists>s. fd_subs fd' = fd_subs fd @ [s] \<and> r = Inr s))"
  using assms by (auto simp: subscribe_locked_def Let_def split: sum.splits prod.splits if_splits)

lemma feed_step_ok: "git_laws (fe_git env) \<Longrightarrow> feed_step env x y \<Longrightarrow> feed_ok env x \<Longrightarrow> feed_ok env y"
proof -
  assume l: "git_laws (fe_git env)" and s: "feed_step env x y" and ok: "feed_ok env x"
  show ?thesis
    using s ok
  proof (induction rule: feed_step.induct)
    case (Commit h h' fd)
    have "anchored (fe_git env) (fd_last fd) h'"
    proof (cases h)
      case (Some x)
      then show ?thesis using Commit(1,2) chain_trans [OF l] by (auto simp: feed_ok_def anchored_def extends_head_def)
    qed (use Commit(2) in \<open>simp add: feed_ok_def anchored_def\<close>)
    with Commit show ?case by (simp add: feed_ok_def extends_head_def)
  next
    case (Join now h n rq fd fd' r)
    then show ?case using joined [OF Join(1)] anchored_self [OF l] by (auto simp: feed_ok_def)
  next
    case (Check h fd)
    let ?n = "length (fd_subs fd)"
    have "follows env None 0 ?n fd" by (simp add: follows_def)
    from follows_check [OF l this, of h] Check show ?case by (simp add: feed_ok_def)
  qed (simp_all add: feed_ok_def update_live_nth close_feed_def)
qed

lemma feed_step_follows:
  assumes "git_laws (fe_git env)" and "feed_step env x y" and "feed_ok env x" and "i < length (fd_subs (snd x))"
    and "follows env cur k i (snd x)"
  shows "i < length (fd_subs (snd y)) \<and> follows env cur k i (snd y)"
  using assms(2-)
proof (induction rule: feed_step.induct)
  case (Join now h n rq fd fd' r)
  note j = joined [OF Join(1)]
  have i: "i < length (fd_subs fd')" and same: "fd_subs fd' ! i = fd_subs fd ! i"
    using j Join(3) by (auto simp: nth_append)
  show ?case
  proof (cases "fd_last fd' = fd_last fd")
    case True
    then show ?thesis using i same Join(3,4) by (simp add: follows_def)
  next
    case False
    then have h: "fd_last fd' = h" "live fd = []" using j by auto
    then have "\<not> sb_attached (fd_subs fd ! i)" using live_attached [of i fd] Join(3) by auto
    moreover have "length (feed_history env (fd_last fd)) \<le> length (feed_history env h)"
    proof (cases h)
      case (Some x)
      then have "anchored (fe_git env) (fd_last fd) x" using Join(2) by (simp add: feed_ok_def)
      from commits_after_split [OF assms(1) this] Some show ?thesis by (simp add: feed_history_def anchor_chain_def)
    qed (use Join(2) in \<open>simp add: feed_ok_def\<close>)
    ultimately show ?thesis using i same h(1) Join(4) by (simp add: follows_def)
  qed
next
  case (Check h fd)
  have "\<forall>x. h = Some x \<longrightarrow> anchored (fe_git env) (fd_last fd) x" using Check(1) by (simp add: feed_ok_def)
  from follows_check [OF assms(1) _ this] Check show ?case by simp
next
  case (Touch f h fd n)
  let ?f = "\<lambda>s. if sb_id s = n then f s else s"
  have "follows env cur k i (update_live ?f fd)"
  proof (rule follows_update)
    show "follows env cur k i fd" using Touch(4) by simp
    show "identity (?f s) = identity s" for s using Touch(1) by auto
    show "sb_attached (?f s) \<Longrightarrow> sb_attached s" for s using Touch(1) by (auto dest: attached_ops split: if_splits)
    show "stream_inv (fe_fmt env) (fe_config env) frames (?f s)"
      if "stream_inv (fe_fmt env) (fe_config env) frames s" "\<forall>x \<in> set frames. fr_text x \<noteq> heartbeat_frame" for frames s
      using that Touch(1) drain_inv heartbeat_inv revoke_inv remove_inv by auto
  qed
  with Touch(3) show ?case by (simp add: update_live_nth)
next
  case (Shut h fd)
  then show ?case using close_feed_detached [of i fd] by (simp add: follows_def) (simp add: close_feed_def)
qed simp

lemma feed_run_follows:
  assumes "git_laws (fe_git env)" and "feed_run env x y" and "feed_ok env x" and "i < length (fd_subs (snd x))"
    and "follows env cur k i (snd x)"
  shows "feed_ok env y \<and> i < length (fd_subs (snd y)) \<and> follows env cur k i (snd y)"
  using assms(2-)
  by (induction rule: feed_run.induct) (use feed_step_follows [OF assms(1)] feed_step_ok [OF assms(1)] in blast)+

text \<open>A subscriber keeps its place in the list and its request for ever.\<close>

definition keeps_subs :: "feed \<Rightarrow> feed \<Rightarrow> bool" where
  "keeps_subs fd fd' \<longleftrightarrow>
     (\<forall>i < length (fd_subs fd). i < length (fd_subs fd') \<and> identity (fd_subs fd' ! i) = identity (fd_subs fd ! i))"

lemma keeps_refl: "keeps_subs fd fd"
  by (simp add: keeps_subs_def)

lemma keeps_trans: "keeps_subs a b \<Longrightarrow> keeps_subs b c \<Longrightarrow> keeps_subs a c"
  by (simp add: keeps_subs_def)

lemma keeps_update: "(\<And>s. identity (f s) = identity s) \<Longrightarrow> keeps_subs fd (update_live f fd)"
  by (simp add: keeps_subs_def update_live_nth)

lemma keeps_last: "keeps_subs fd (fd'\<lparr>fd_last := l\<rparr>) = keeps_subs fd fd'"
  by (simp add: keeps_subs_def)

lemma keeps_deliver: "keeps_subs fd (deliver env cs fd)"
proof (induction cs arbitrary: fd)
  case (Cons c cs)
  have "keeps_subs fd (if live fd = [] then fd else update_live (deliver_to env c) fd)"
    using keeps_update [of "deliver_to env c" fd] by (simp add: keeps_subs_def)
  from keeps_trans [OF this Cons] show ?case by (simp add: deliver_def)
qed (simp add: deliver_def keeps_subs_def)

lemma keeps_close: "keeps_subs fd (close_feed fd)"
  by (simp add: keeps_subs_def close_feed_def identity_def)

lemma keeps_commits: "keeps_subs fd (deliver_commits env n cs fd)"
proof (induction cs arbitrary: n fd)
  case (Cons c cs)
  show ?case
  proof (cases "derive env c")
    case (Inr ds)
    have "keeps_subs fd ((deliver env ds fd)\<lparr>fd_last := Some c\<rparr>)" unfolding keeps_last by (rule keeps_deliver)
    from keeps_trans [OF this Cons] this Inr show ?thesis by (simp add: Let_def)
  qed (simp add: keeps_close)
qed (simp add: keeps_subs_def)

lemma keeps_check: "keeps_subs fd (check env head fd)"
  using keeps_commits [of fd env 0] by (auto simp: check_def keeps_subs_def split: option.split)

lemma feed_run_identity:
  assumes "feed_run env x y" and "i < length (fd_subs (snd x))"
  shows "identity (fd_subs (snd y) ! i) = identity (fd_subs (snd x) ! i)"
proof -
  have "keeps_subs (snd x) (snd y)" if "feed_step env x y" for x y
    using that
  proof (induction rule: feed_step.induct)
    case (Join now h n rq fd fd' r)
    then show ?case using joined [OF Join] by (auto simp: keeps_subs_def nth_append)
  next
    case (Touch f h fd n)
    have "keeps_subs fd (update_live (\<lambda>s. if sb_id s = n then f s else s) fd)"
      by (rule keeps_update) (use Touch in auto)
    then show ?case by simp
  qed (simp_all add: keeps_check keeps_close keeps_refl)
  note step = this
  have "keeps_subs (snd x) (snd y)"
    using assms(1) by (induction rule: feed_run.induct) (use step keeps_refl keeps_trans in blast)+
  with assms(2) show ?thesis by (simp add: keeps_subs_def)
qed

section \<open>Joining the feed\<close>

lemma stream_start_inv:
  assumes "sk_out (rq_sink rq) = []"
  shows "stream_inv (fe_fmt env) (fe_config env)
      (text_frame (ready_frame (fe_fmt env) (fe_ns env) cur) None # map (frame_for env) cs)
      (stream_start env cs cur (create_subscriber env n rq))"
proof -
  let ?fs = "text_frame (ready_frame (fe_fmt env) (fe_ns env) cur) None # map (frame_for env) cs"
  have start: "stream_start env cs cur s = foldl (sub_step (fe_fmt env) (fe_config env)) s (map Enqueued ?fs)" for s
    by (simp add: stream_start_def frame_for_def frame_cursor_change foldl_map)
  have frames: "event_frames (map Enqueued xs) = xs" for xs by (induction xs) auto
  have "\<forall>f \<in> set ([] @ event_frames (map Enqueued ?fs)). fr_text f \<noteq> heartbeat_frame"
    unfolding frames by (auto simp: text_frame_def frame_for_def)
  from events_inv [OF created_inv [OF assms] this, of "fe_fmt env" "fe_config env" env n] show ?thesis
    unfolding start frames by simp
qed

lemma identity_start: "identity (stream_start env cs cur s) = identity s"
proof -
  have "identity (foldl (\<lambda>s f. enqueue_frame (fe_fmt env) (fe_config env) f s) s fs) = identity s" for fs s
    by (induction fs arbitrary: s) simp_all
  then show ?thesis by (simp add: stream_start_def)
qed

lemma published_ordinals: "derive env c = Inr cs \<Longrightarrow> map dc_ordinal cs = [1..<length cs + 1]"
proof -
  assume "derive env c = Inr cs"
  then obtain rs where "cs = number_changes c (gr_time (fe_repo env) c) 0 rs"
    by (auto simp: derive_def derive_commit_changes_def Let_def)
  then show ?thesis by (simp add: number_changes_ordinals del: upt_Suc)
qed

lemma filter_ordinals:
  assumes "map dc_ordinal cs = [m..<m + length cs]" and "m \<le> Suc n"
  shows "filter (\<lambda>c. n < dc_ordinal c) cs = drop (Suc n - m) cs"
  using assms
proof (induction cs arbitrary: m)
  case (Cons c cs)
  have c: "dc_ordinal c = m" and rest: "map dc_ordinal cs = [Suc m..<Suc m + length cs]"
    using Cons.prems(1) upt_conv_Cons [of m "m + length (c # cs)"] by (simp_all del: upt_Suc)
  show ?case
  proof (cases "m = Suc n")
    case True
    have "\<forall>x \<in> set cs. n < dc_ordinal x"
    proof
      fix x assume "x \<in> set cs"
      then have "dc_ordinal x \<in> set (map dc_ordinal cs)" by simp
      then show "n < dc_ordinal x" unfolding rest using True by (auto simp del: upt_Suc)
    qed
    then show ?thesis using True c by (simp add: filter_id_conv)
  next
    case False
    then have "Suc m \<le> Suc n" using Cons.prems(2) by simp
    from Cons.IH [OF rest this] False Cons.prems(2) c show ?thesis by (simp add: Suc_diff_le)
  qed
qed simp

lemma lift_replay_Inr [simp]: "lift_replay m = Inr x \<longleftrightarrow> m = Inr x"
  by (cases m) auto

lemma derived_all:
  "res_map (\<lambda>c. lift_replay (derive env c)) cs = Inr rest \<Longrightarrow> rest = map (published env) cs"
  by (induction cs arbitrary: rest) (auto simp: published_def)

text \<open>The changes replayed for a cursor are the history after it.\<close>

lemma replay_is_history:
  assumes "git_laws (fe_git env)" and "replay_changes env rq d through = Inr cs"
    and "\<forall>t. through = Some t \<longrightarrow> cu_commit d \<in> set (gh_chain (fe_git env) t)"
  shows "cs = filter (change_matches (rq_tables rq) (rq_ops rq) (rq_row rq)) (drop (cursor_position env d) (feed_history env through))"
    and "cursor_position env d \<le> length (feed_history env through)"
proof -
  let ?c = "cu_commit d" and ?g = "fe_git env"
  obtain t anchor rest where t: "through = Some t" and a: "derive env ?c = Inr anchor" "cu_ordinal d \<le> length anchor"
    and r: "res_map (\<lambda>c. lift_replay (derive env c)) (commits_after ?g (Some ?c) t) = Inr rest"
    and cs: "cs = filter (change_matches (rq_tables rq) (rq_ops rq) (rq_row rq))
        (filter (\<lambda>c. cu_ordinal d < dc_ordinal c) anchor @ concat rest)"
    using assms(2) by (auto simp: replay_changes_def Let_def split: option.splits if_splits)
  have mem: "?c \<in> set (gh_chain ?g t)" using assms(3) t by simp
  then have "anchored ?g (Some ?c) t" by (simp add: anchored_def)
  note split = commits_after_split [OF assms(1) this]
  from git_head [OF assms(1)] git_member [OF assms(1) mem] obtain p where p: "gh_chain ?g ?c = ?c # p" by blast
  define before where "before = concat (map (published env) (rev p))"
  have "published env ?c = anchor" using a(1) by (simp add: published_def)
  then have hist: "feed_history env through = before @ anchor @ concat rest"
    using split p by (simp add: t feed_history_def anchor_chain_def before_def derived_all [OF r])
  have pos: "cursor_position env d = length before + cu_ordinal d" by (simp add: cursor_position_def p before_def)
  have "map dc_ordinal anchor = [1..<1 + length anchor]" using published_ordinals [OF a(1)] by simp
  from filter_ordinals [OF this] have "filter (\<lambda>c. cu_ordinal d < dc_ordinal c) anchor = drop (cu_ordinal d) anchor" by simp
  then show "cs = filter (change_matches (rq_tables rq) (rq_ops rq) (rq_row rq)) (drop (cursor_position env d) (feed_history env through))"
    using a(2) by (simp add: cs hist pos)
  show "cursor_position env d \<le> length (feed_history env through)" using a(2) by (simp add: hist pos)
qed

text \<open>Where a subscriber starts: at its cursor, or after everything published so far.\<close>

definition start_position :: "hub_env \<Rightarrow> subscribe_request \<Rightarrow> feed \<Rightarrow> nat" where
  "start_position env rq fd =
     (case rq_cursor rq of
        None \<Rightarrow> length (feed_history env (fd_last fd))
      | Some raw \<Rightarrow> cursor_position env (the (decode_cursor (fe_fmt env) (re_parse (fe_replay env)) raw)))"

lemma validated_cursor:
  assumes "validate_cursor env now raw head = Inr d"
  shows "\<exists>h. head = Some h \<and> cu_commit d \<in> set (gh_chain (fe_git env) h) \<and>
    decode_cursor (fe_fmt env) (re_parse (fe_replay env)) raw = Some d"
  using assms by (auto simp: validate_cursor_def first_parent_window_def split: option.splits if_splits dest: in_set_takeD)

lemma join_follows:
  assumes "git_laws (fe_git env)" and "feed_ok env (h, fd)" and "sk_out (rq_sink rq) = []"
    and "subscribe_locked env now h n rq fd = (fd', Inr s)"
  shows "\<exists>cur. follows env cur (start_position env rq fd') (length (fd_subs fd)) fd'"
    and "length (fd_subs fd) < length (fd_subs fd')"
    and "feed_ok env (h, fd')" and "identity (fd_subs fd' ! length (fd_subs fd)) = identity (create_subscriber env n rq)"
proof -
  let ?g = "fe_git env" and ?m = "change_matches (rq_tables rq) (rq_ops rq) (rq_row rq)"
  from assms(4) obtain cs cur where prep: "prepare_stream env now h fd rq = Inr (cs, cur)"
    and s: "s = (stream_start env cs cur (create_subscriber env n rq))
        \<lparr>sb_attached := \<not> sb_closed (stream_start env cs cur (create_subscriber env n rq))\<rparr>"
    and fd': "fd_subs fd' = fd_subs fd @ [s]" "fd_last fd' = (if live fd = [] then h else fd_last fd)"
    by (auto simp: subscribe_locked_def Let_def split: sum.splits prod.splits if_splits)
  have id: "identity s = identity (create_subscriber env n rq)" by (simp add: s identity_start)
  then have w: "wants s = ?m" by (simp add: identity_def create_subscriber_def)
  have through: "\<forall>t. (if live fd \<noteq> [] then fd_last fd else h) = Some t \<longrightarrow> cu_commit d \<in> set (gh_chain ?g t)"
    if d: "\<exists>x. h = Some x \<and> cu_commit d \<in> set (gh_chain ?g x)" "replay_changes env rq d (if live fd \<noteq> [] then fd_last fd else h) = Inr cs" for d
  proof (intro allI impI)
    fix t assume t: "(if live fd \<noteq> [] then fd_last fd else h) = Some t"
    from d(1) obtain x where x: "h = Some x" "cu_commit d \<in> set (gh_chain ?g x)" by blast
    show "cu_commit d \<in> set (gh_chain ?g t)"
    proof (cases "live fd = []")
      case False
      then have "t \<in> set (gh_chain ?g x)" using assms(2) t x by (simp add: feed_ok_def anchored_def)
      from git_split [OF assms(1) this] git_head [OF assms(1)] git_member [OF assms(1) this]
      obtain pre r where pre: "gh_chain ?g x = pre @ gh_chain ?g t" "\<forall>y \<in> set pre. \<not> gh_ancestor ?g y t"
        and r: "gh_chain ?g t = t # r" by blast
      have "cu_commit d = t \<or> gh_ancestor ?g (cu_commit d) t"
        using d(2) t False by (auto simp: replay_changes_def split: if_splits)
      then show ?thesis using pre r x(2) by auto
    qed (use t x in simp)
  qed
  have position: "cs = filter ?m (drop (start_position env rq fd') (feed_history env (fd_last fd'))) \<and>
      start_position env rq fd' \<le> length (feed_history env (fd_last fd'))"
  proof (cases "rq_cursor rq")
    case None
    then show ?thesis using prep by (simp add: start_position_def prepare_stream_def)
  next
    case (Some raw)
    then obtain d where d: "validate_cursor env now raw h = Inr d"
      "replay_changes env rq d (if live fd \<noteq> [] then fd_last fd else h) = Inr cs"
      using prep by (auto simp: prepare_stream_def)
    note v = validated_cursor [OF d(1)]
    have "start_position env rq fd' = cursor_position env d" using v Some by (auto simp: start_position_def)
    moreover have "fd_last fd' = (if live fd \<noteq> [] then fd_last fd else h)" using fd'(2) by simp
    ultimately show ?thesis using replay_is_history [OF assms(1) d(2) through [OF _ d(2)]] v by auto
  qed
  have "stream_inv (fe_fmt env) (fe_config env) (stream_frames env cur ?m (drop (start_position env rq fd') (feed_history env (fd_last fd')))) s"
    if "sb_attached s"
  proof -
    have "\<not> sb_closed (stream_start env cs cur (create_subscriber env n rq))" using that by (simp add: s)
    with stream_start_inv [OF assms(3), of env cur cs n] position show ?thesis
      by (auto simp: s stream_frames_def stream_inv_def closed_inv_def open_inv_def bounded_queue_def)
  qed
  then show "\<exists>cur. follows env cur (start_position env rq fd') (length (fd_subs fd)) fd'"
    using position w by (auto simp: follows_def fd'(1))
  show "length (fd_subs fd) < length (fd_subs fd')" "identity (fd_subs fd' ! length (fd_subs fd)) = identity (create_subscriber env n rq)"
    using id by (simp_all add: fd'(1))
  show "feed_ok env (h, fd')" by (rule feed_step_ok [OF assms(1) feed_step.Join [OF assms(4)] assms(2)])
qed

lemma attached_stream:
  assumes "git_laws (fe_git env)" and "\<forall>x. h0 = Some x \<longrightarrow> gh_exists (fe_git env) x"
    and "feed_run env (h0, empty_feed) (h, fd)"
    and "subscribe_locked env now h n rq fd = (fd1, Inr s)" and "sk_out (rq_sink rq) = []"
    and "feed_run env (h, fd1) (h2, fd2)" and "sb_attached (fd_subs fd2 ! length (fd_subs fd))"
  shows "\<exists>cur. chat_free (sk_out (sb_sink (fd_subs fd2 ! length (fd_subs fd)))) @
      map fr_text (sb_queue (fd_subs fd2 ! length (fd_subs fd))) =
    ready_frame (fe_fmt env) (fe_ns env) cur #
    map (change_frame (fe_fmt env) (fe_ns env))
      (filter (change_matches (rq_tables rq) (rq_ops rq) (rq_row rq))
        (drop (start_position env rq fd1) (feed_history env (fd_last fd2))))"
proof -
  let ?i = "length (fd_subs fd)"
  have ok0: "feed_ok env (h0, empty_feed)" using assms(2) by (simp add: feed_ok_def empty_feed_def anchored_def)
  have ok: "feed_ok env (h, fd)" using assms(3) ok0
    by (induction rule: feed_run.induct) (use feed_step_ok [OF assms(1)] in blast)+
  note j = join_follows [OF assms(1) ok assms(5,4)]
  from j(1) obtain cur where f: "follows env cur (start_position env rq fd1) ?i fd1" by blast
  have r: "?i < length (fd_subs fd2) \<and> follows env cur (start_position env rq fd1) ?i fd2 \<and>
      identity (fd_subs fd2 ! ?i) = identity (fd_subs fd1 ! ?i)"
    using feed_run_follows [OF assms(1,6) j(3)] feed_run_identity [OF assms(6)] j(2) f by simp
  let ?s = "fd_subs fd2 ! ?i"
  have w: "wants ?s = change_matches (rq_tables rq) (rq_ops rq) (rq_row rq)"
    using r j(4) by (simp add: identity_def create_subscriber_def)
  have "open_inv (stream_frames env cur (wants ?s) (drop (start_position env rq fd1) (feed_history env (fd_last fd2)))) ?s"
    using r assms(7) by (intro attached_open) (auto simp: follows_def)
  then have "chat_free (sk_out (sb_sink ?s)) @ map fr_text (sb_queue ?s) =
      map fr_text (stream_frames env cur (wants ?s) (drop (start_position env rq fd1) (feed_history env (fd_last fd2))))"
    by (simp add: open_inv_def map_append [symmetric])
  then show ?thesis unfolding w by (auto simp: stream_frames_def text_frame_def frame_for_def)
qed

text \<open>Where a change stands in the history.\<close>

lemma concat_split:
  "concat (map f cs) = pre @ x # post \<Longrightarrow>
   \<exists>as c bs u v. cs = as @ c # bs \<and> f c = u @ x # v \<and> pre = concat (map f as) @ u"
proof (induction cs arbitrary: pre)
  case (Cons c cs)
  have later: ?case if p: "f c @ us = pre" "concat (map f cs) = us @ x # post" for us
  proof -
    from Cons.IH [OF p(2)] obtain as c' bs u v where "cs = as @ c' # bs" "f c' = u @ x # v" "us = concat (map f as) @ u" by blast
    with p(1) show ?thesis by (intro exI [of _ "c # as"] exI [of _ c'] exI [of _ bs] exI [of _ u] exI [of _ v]) simp
  qed
  have "f c @ concat (map f cs) = pre @ x # post" using Cons.prems by simp
  then consider us where "f c = pre @ us" "us @ concat (map f cs) = x # post"
    | us where "f c @ us = pre" "concat (map f cs) = us @ x # post"
    unfolding append_eq_append_conv2 by blast
  then show ?case
  proof cases
    case (1 us)
    show ?thesis
    proof (cases us)
      case Nil
      with 1 show ?thesis by (intro later [of "[]"]) simp_all
    next
      case (Cons y ys)
      with 1 show ?thesis by (intro exI [of _ "[]"] exI [of _ c] exI [of _ cs] exI [of _ pre] exI [of _ ys]) simp
    qed
  qed (rule later)
qed simp

lemma published_shape:
  assumes "published env c = u @ ch # v"
  shows "dc_commit ch = c \<and> dc_ordinal ch = Suc (length u)"
proof -
  obtain cs where d: "derive env c = Inr cs" "published env c = cs"
    using assms by (cases "derive env c") (auto simp: published_def)
  from d(1) obtain rs where rs: "cs = number_changes c (gr_time (fe_repo env) c) 0 rs"
    by (auto simp: derive_def derive_commit_changes_def Let_def)
  have "\<forall>x \<in> set (number_changes c t n rs). dc_commit x = c" for t n
    by (induction c t n rs rule: number_changes.induct) auto
  moreover have "ch \<in> set cs" using assms d(2) by simp
  ultimately have "dc_commit ch = c" unfolding rs by blast
  moreover have "map dc_ordinal cs ! length u = dc_ordinal ch" using assms d(2) by (simp add: nth_append)
  then have "dc_ordinal ch = Suc (length u)"
    using published_ordinals [OF d(1)] assms d(2) by (simp add: nth_upt del: upt_Suc)
  ultimately show ?thesis ..
qed

lemma change_position:
  assumes "git_laws (fe_git env)" and "feed_history env (Some l) = pre @ ch # post"
  shows "cursor_position env \<lparr>cu_ns = ns, cu_commit = dc_commit ch, cu_ordinal = dc_ordinal ch\<rparr> = Suc (length pre)"
proof -
  let ?chain = "gh_chain (fe_git env) l"
  have "concat (map (published env) (rev ?chain)) = pre @ ch # post"
    using assms(2) by (simp add: feed_history_def anchor_chain_def)
  from concat_split [OF this] obtain as c bs u v where s: "rev ?chain = as @ c # bs" "published env c = u @ ch # v"
    "pre = concat (map (published env) as) @ u" by blast
  note ch = published_shape [OF s(2)]
  have "?chain = rev bs @ c # rev as" using arg_cong [OF s(1), of rev] by simp
  from chain_cut [OF assms(1) this] have "gh_chain (fe_git env) c = c # rev as" .
  then show ?thesis using ch s(3) by (simp add: cursor_position_def)
qed

text \<open>A sink that pushes back at once takes the ready frame only.\<close>

lemma blocked_enqueue:
  assumes "sb_blocked s" and "\<not> sb_closed s"
  shows "enqueue_frame fmt cfg f s = overflow fmt s \<or>
    length (sb_queue s) < hc_maxQueueEvents cfg \<and>
    enqueue_frame fmt cfg f s = s\<lparr>sb_queue := sb_queue s @ [f], sb_queueBytes := sb_queueBytes s + int (fr_bytes f)\<rparr>"
  using assms by (auto simp: enqueue_frame_def pump_def)

lemma closed_enqueue: "sb_closed s \<Longrightarrow> foldl (\<lambda>s f. enqueue_frame fmt cfg f s) s fs = s"
  by (induction fs) (simp_all add: enqueue_frame_def)

lemma overflow_closed [simp]: "sb_closed (overflow fmt s)"
  by (simp add: overflow_def terminate_with_def remove_subscriber_def)

lemma blocked_overflows:
  assumes "sb_blocked s" and "\<not> sb_closed s" and "hc_maxQueueEvents cfg < length (sb_queue s) + length fs"
  shows "\<exists>q b. foldl (\<lambda>s f. enqueue_frame fmt cfg f s) s fs = overflow fmt (s\<lparr>sb_queue := q, sb_queueBytes := b\<rparr>)
    \<or> hc_maxQueueEvents cfg < length (sb_queue s)"
  using assms
proof (induction fs arbitrary: s)
  case (Cons f fs)
  from blocked_enqueue [OF Cons.prems(1,2), of fmt cfg f] show ?case
  proof
    assume o: "enqueue_frame fmt cfg f s = overflow fmt s"
    show ?thesis
      by (rule exI [of _ "sb_queue s"], rule exI [of _ "sb_queueBytes s"]) (simp add: o closed_enqueue)
  next
    assume q: "length (sb_queue s) < hc_maxQueueEvents cfg \<and>
      enqueue_frame fmt cfg f s = s\<lparr>sb_queue := sb_queue s @ [f], sb_queueBytes := sb_queueBytes s + int (fr_bytes f)\<rparr>"
    let ?s = "s\<lparr>sb_queue := sb_queue s @ [f], sb_queueBytes := sb_queueBytes s + int (fr_bytes f)\<rparr>"
    have "hc_maxQueueEvents cfg < length (sb_queue ?s) + length fs" using Cons.prems(3) by simp
    from Cons.IH [OF _ _ this] Cons.prems(1,2) obtain a b where
      "foldl (\<lambda>s f. enqueue_frame fmt cfg f s) ?s fs = overflow fmt (?s\<lparr>sb_queue := a, sb_queueBytes := b\<rparr>)"
      using q by auto
    then show ?thesis using q by auto
  qed
qed simp

lemma blocked_start:
  assumes "sk_reply (rq_sink rq) = (\<lambda>n. Backpressure)" and "sk_drainable (rq_sink rq)" and "sk_out (rq_sink rq) = []"
    and "0 < hc_maxQueueEvents (fe_config env)" and "hc_maxQueueEvents (fe_config env) < length cs"
    and "utf8_length (ready_frame (fe_fmt env) (fe_ns env) cur) \<le> hc_maxQueueBytes (fe_config env)"
  shows "sb_closed (stream_start env cs cur (create_subscriber env n rq)) \<and>
    sk_out (sb_sink (stream_start env cs cur (create_subscriber env n rq))) =
      [ready_frame (fe_fmt env) (fe_ns env) cur, overflow_frame (fe_fmt env) (fe_ns env) None]"
proof -
  let ?t = "ready_frame (fe_fmt env) (fe_ns env) cur"
  let ?fs = "map (\<lambda>c. text_frame (change_frame (fe_fmt env) (fe_ns env) c) (frame_cursor (change_frame (fe_fmt env) (fe_ns env) c))) cs"
  define s1 where "s1 = enqueue_frame (fe_fmt env) (fe_config env) (text_frame ?t None) (create_subscriber env n rq)"
  have s1: "sb_blocked s1 \<and> \<not> sb_closed s1 \<and> sb_queue s1 = [] \<and> sk_out (sb_sink s1) = [?t] \<and>
      sk_reply (sb_sink s1) = (\<lambda>n. Backpressure) \<and> sb_last s1 = None \<and> sb_ns s1 = fe_ns env"
    using assms by (simp add: s1_def enqueue_frame_def create_subscriber_def pump_def sink_write_def text_frame_def frame_taken_def Let_def)
  have "hc_maxQueueEvents (fe_config env) < length (sb_queue s1) + length ?fs" using assms(5) s1 by simp
  from blocked_overflows [OF _ _ this, of "fe_fmt env"] s1 obtain q b where
    "foldl (\<lambda>s f. enqueue_frame (fe_fmt env) (fe_config env) f s) s1 ?fs = overflow (fe_fmt env) (s1\<lparr>sb_queue := q, sb_queueBytes := b\<rparr>)"
    by auto
  then have "stream_start env cs cur (create_subscriber env n rq) = overflow (fe_fmt env) (s1\<lparr>sb_queue := q, sb_queueBytes := b\<rparr>)"
    by (simp add: stream_start_def s1_def)
  then show ?thesis using s1 by (simp add: overflow_def terminate_with_def remove_subscriber_def sink_write_def)
qed

section \<open>Properties of the feed\<close>

text \<open>C3: no gap and no duplicate.  In any run of a feed whose namespace history is only extended, however
  commits, joins, polls, drains, heartbeats, revocations and shutdowns interleave: a subscriber that is
  still attached has been given, on its sink and in its queue, the ready frame and then the frame of every
  change it asked for from its start position through the commit the feed has reached, each exactly
  once and in committed order.  The start is its cursor, or without one the end of the history
  at the time it joined.\<close>

theorem feed_no_gap:
  assumes "git_laws (fe_git env)" and "\<forall>x. h0 = Some x \<longrightarrow> gh_exists (fe_git env) x"
    and "feed_run env (h0, empty_feed) (h, fd)"
    and "subscribe_locked env now h n rq fd = (fd1, Inr s)" and "sk_out (rq_sink rq) = []"
    and "feed_run env (h, fd1) (h2, fd2)" and "sb_attached (fd_subs fd2 ! length (fd_subs fd))"
  shows "\<exists>cur. chat_free (sk_out (sb_sink (fd_subs fd2 ! length (fd_subs fd)))) @
      map fr_text (sb_queue (fd_subs fd2 ! length (fd_subs fd))) =
    ready_frame (fe_fmt env) (fe_ns env) cur #
    map (change_frame (fe_fmt env) (fe_ns env))
      (filter (change_matches (rq_tables rq) (rq_ops rq) (rq_row rq))
        (drop (start_position env rq fd1) (feed_history env (fd_last fd2))))"
  by (rule attached_stream [OF assms])


text \<open>Authorization is not re-checked in effect.  A live delivery decides with the principal captured at
  subscription; as the route admits only tables that principal may read, the revocation branch of the
  delivery is dead, and a grant withdrawn later does not end the stream.\<close>

theorem delivery_never_revokes:
  assumes "\<forall>t \<in> set (sb_tables s). authorize_table_access (sb_principal s) (fe_ns env) t Read = Allowed"
  shows "deliver_to env c s =
    (if sb_closed s \<or> \<not> change_matches (sb_tables s) (sb_ops s) (sb_row s) c then s
     else enqueue_frame (fe_fmt env) (fe_config env) (frame_for env c) s)"
  using assms by (auto simp: deliver_to_def change_matches_def)

text \<open>A valid cursor beyond the live feed is refused for good.  The ready frame hands out the cursor of
  the head; while another subscriber keeps the feed at an older commit, a request with that cursor is
  answered \<^verbatim>\<open>INVALID_CURSOR\<close>, or \<^verbatim>\<open>CHANGE_CURSOR_GONE\<close> when nothing was delivered yet, although the
  position is on the committed history.\<close>

theorem head_cursor_refused:
  assumes "rq_cursor rq = Some raw" and "validate_cursor env now raw h = Inr d" and "live fd \<noteq> []"
    and "\<forall>l. fd_last fd = Some l \<longrightarrow> cu_commit d \<noteq> l \<and> \<not> gh_ancestor (fe_git env) (cu_commit d) l"
  shows "subscribe_locked env now h n rq fd =
    (fd, Inl (case fd_last fd of None \<Rightarrow> Cursor_Gone | Some l \<Rightarrow> Invalid_Cursor))"
  using assms by (auto simp: subscribe_locked_def prepare_stream_def replay_changes_def split: option.split)

text \<open>A refused request can have received a partial stream.  When the sink pushes back and the replay
  is longer than the queue, the response is started and the ready frame is written, and then the request is
  answered with \<^verbatim>\<open>SUBSCRIBER_LIMIT\<close>.\<close>

theorem refused_after_start:
  assumes "prepare_stream env now h (feed_for (fe_ns env) hb) rq = Inr (cs, cur)"
    and "subscriber_count hb < hc_maxSubscribers (fe_config env)"
    and "sk_reply (rq_sink rq) = (\<lambda>n. Backpressure)" and "sk_drainable (rq_sink rq)" and "sk_out (rq_sink rq) = []"
    and "0 < hc_maxQueueEvents (fe_config env)" and "hc_maxQueueEvents (fe_config env) < length cs"
    and "utf8_length (ready_frame (fe_fmt env) (fe_ns env) cur) \<le> hc_maxQueueBytes (fe_config env)"
  shows "\<exists>s. snd (subscribe env True now h rq hb) = Refused Subscriber_Limit (Some s) \<and>
    sk_out (sb_sink s) = [ready_frame (fe_fmt env) (fe_ns env) cur, overflow_frame (fe_fmt env) (fe_ns env) None]"
  using blocked_start [OF assms(3-8)] assms(1,2)
  by (auto simp: subscribe_def subscribe_locked_def Let_def split: prod.split)

end
