(* ===== verification/Feed_Example.thy ===== *)
theory Feed_Example
  imports Change_Feed
begin

text \<open>
  A repository of two commits and the feed that follows it: the instances at which the properties of the
  change-feed hub are applied.  The first commit publishes one change, the second one two.
\<close>

section \<open>A concrete feed\<close>

definition first_sha :: string where
  "first_sha = replicate 40 (CHR ''a'')"

definition second_sha :: string where
  "second_sha = replicate 40 (CHR ''b'')"

definition two_commits :: git_repo where
  "two_commits =
     \<lparr>gr_tree = (\<lambda>c. [(''_audit/current.jsonl'', if c = second_sha then ''two'' else ''one'')]),
      gr_blob = (\<lambda>b. lines_text (if b = ''two'' then [''u'', ''v'', ''u''] else [''u''])),
      gr_path = (\<lambda>ref path. Some (lines_text [''new''])),
      gr_parent = (\<lambda>c. if c = second_sha then Some first_sha else None), gr_time = (\<lambda>c. ''t'')\<rparr>"

definition two_history :: git_history where
  "two_history =
     \<lparr>gh_exists = (\<lambda>c. c = first_sha \<or> c = second_sha),
      gh_ancestor = (\<lambda>a d. a = first_sha \<and> (d = first_sha \<or> d = second_sha) \<or> a = second_sha \<and> d = second_sha),
      gh_chain = (\<lambda>c. if c = second_sha then [second_sha, first_sha] else if c = first_sha then [first_sha] else []),
      gh_time = (\<lambda>c. None)\<rparr>"

definition sample_change :: "string \<Rightarrow> change_operation \<Rightarrow> nat \<Rightarrow> derived_change" where
  "sample_change c op n =
     \<lparr>dc_commit = c, dc_ordinal = n, dc_record = record_of feed_env (feed_mutation op ''new'' feed_new_row),
      dc_row = feed_new_row, dc_committedAt = ''t''\<rparr>"

abbreviation first_change :: derived_change where
  "first_change \<equiv> sample_change first_sha Op_Update 1"

abbreviation second_changes :: "derived_change list" where
  "second_changes \<equiv> [sample_change second_sha Op_Delete 1, sample_change second_sha Op_Update 2]"

abbreviation first_cursor :: string where
  "first_cursor \<equiv> event_cursor (\<lambda>q. []) ''app'' first_change"

text \<open>Room for a ready frame and for every change frame of the sample.\<close>

definition sample_bytes :: nat where
  "sample_bytes = utf8_length (ready_frame (\<lambda>q. []) ''app'' (Some first_cursor)) +
     utf8_length (ready_frame (\<lambda>q. []) ''app'' (Some (event_cursor (\<lambda>q. []) ''app'' (last second_changes)))) +
     sum_list (map (\<lambda>c. utf8_length (change_frame (\<lambda>q. []) ''app'' c)) second_changes)"

definition sample_config :: "nat \<Rightarrow> nat \<Rightarrow> hub_config" where
  "sample_config n b =
     \<lparr>hc_pollIntervalMs = 10, hc_heartbeatMs = 10, hc_maxSubscribers = 2, hc_maxQueueEvents = n, hc_maxQueueBytes = b,
      hc_maxReplayEvents = 10, hc_maxReplayCommits = 10, hc_retentionDays = 1\<rparr>"

text \<open>The parser of the sample also reads the payloads of two cursors.\<close>

definition cursor_env :: replay_env where
  "cursor_env = feed_env\<lparr>re_parse := \<lambda>l.
     if l = canonical_cursor_json (\<lambda>q. []) ''app'' first_sha 1
     then Some (cursor_object \<lparr>cu_ns = ''app'', cu_commit = first_sha, cu_ordinal = 1\<rparr>)
     else if l = canonical_cursor_json (\<lambda>q. []) ''app'' second_sha 1
     then Some (cursor_object \<lparr>cu_ns = ''app'', cu_commit = second_sha, cu_ordinal = 1\<rparr>)
     else re_parse feed_env l\<rparr>"

definition sample_hub_env :: "nat \<Rightarrow> hub_env" where
  "sample_hub_env n =
     \<lparr>fe_config = sample_config n sample_bytes, fe_replay = cursor_env, fe_repo = two_commits, fe_git = two_history\<rparr>"

definition sample_sink :: "write_reply \<Rightarrow> sse_sink" where
  "sample_sink r =
     \<lparr>sk_reply = (\<lambda>n. r), sk_drainable = True, sk_count = 0, sk_out = [], sk_armed = False, sk_ended = False\<rparr>"

definition sample_request :: "write_reply \<Rightarrow> subscribe_request" where
  "sample_request r =
     \<lparr>rq_principal = None, rq_tables = [''memories''], rq_ops = [Op_Insert, Op_Update, Op_Delete], rq_cursor = None,
      rq_row = None, rq_sink = sample_sink r\<rparr>"

lemma shas_differ: "first_sha \<noteq> second_sha"
  by (simp add: first_sha_def second_sha_def)

lemma two_laws: "git_laws (fe_git (sample_hub_env n))"
  using shas_differ by (auto simp: git_laws_def sample_hub_env_def two_history_def split: if_splits)

lemma sample_chains:
  "gh_chain (fe_git (sample_hub_env n)) second_sha = [second_sha, first_sha]"
  "gh_chain (fe_git (sample_hub_env n)) first_sha = [first_sha]"
  using shas_differ by (simp_all add: sample_hub_env_def two_history_def)

lemma sample_derived:
  "derive_commit_changes cursor_env two_commits first_sha None = Inr [first_change]"
  "derive_commit_changes cursor_env two_commits second_sha None = Inr second_changes"
  by code_simp+

lemma sample_derive [simp]:
  "derive (sample_hub_env n) first_sha = Inr [first_change]" "derive (sample_hub_env n) second_sha = Inr second_changes"
  using sample_derived by (simp_all add: derive_def sample_hub_env_def)

lemma empty_feed_facts [simp]:
  "fd_subs empty_feed = []" "fd_last empty_feed = None" "fd_timer empty_feed = False" "live empty_feed = []"
  by (simp_all add: empty_feed_def live_def)

lemma sample_matches:
  "change_matches [''memories''] [Op_Insert, Op_Update, Op_Delete] None (sample_change c op n)"
  by (cases op) (simp_all add: change_matches_def sample_change_def record_of_def feed_mutation_def
      mutation_change_record_def)

lemma sample_env_parts:
  "fe_fmt (sample_hub_env n) = (\<lambda>q. [])" "fe_ns (sample_hub_env n) = ''app''"
  "fe_config (sample_hub_env n) = sample_config n sample_bytes"
  by (simp_all add: sample_hub_env_def cursor_env_def feed_env_def)

lemma canonical_differs: "canonical_cursor_json fmt ns second_sha n \<noteq> canonical_cursor_json fmt ns first_sha n"
  by (simp add: canonical_cursor_json_def shas_differ [symmetric])

lemma sample_decoded:
  assumes "c = first_sha \<or> c = second_sha"
  shows "decode_cursor (\<lambda>q. []) (re_parse (fe_replay (sample_hub_env n))) (event_cursor (\<lambda>q. []) ''app'' (sample_change c op 1)) =
     Some \<lparr>cu_ns = ''app'', cu_commit = c, cu_ordinal = 1\<rparr>"
proof -
  let ?d = "\<lparr>cu_ns = ''app'', cu_commit = c, cu_ordinal = 1\<rparr>"
  have "valid_cursor ?d"
    using assms by (auto simp: valid_cursor_def first_sha_def second_sha_def is_commit_sha_def is_hex_lower_def list_all_iff)
  from decode_spelled [OF this, of "re_parse cursor_env" "\<lambda>q. []"] show ?thesis
    using assms canonical_differs by (auto simp: cursor_env_def sample_hub_env_def event_cursor_def sample_change_def)
qed

theorem stream_in_order_witness:
  "let f = \<lambda>t. \<lparr>fr_text = t, fr_bytes = 1, fr_cursor = Some t\<rparr>;
       s = foldl (sub_step (\<lambda>q. []) (sample_config 1 9)) (create_subscriber (sample_hub_env 1) 1 (sample_request Backpressure))
         [Enqueued (f ''a''), Enqueued (f ''b''), Beat, Drained, Enqueued (f ''c'')]
   in sb_delivered s = 2 \<and> sb_last s = Some ''b'' \<and> sk_out (sb_sink s) = [''a'', ''b''] \<and>
     chat_free (sk_out (sb_sink s)) = [''a'', ''b'']"
proof -
  let ?f = "\<lambda>t. \<lparr>fr_text = t, fr_bytes = 1, fr_cursor = Some t\<rparr>"
  let ?es = "[Enqueued (?f ''a''), Enqueued (?f ''b''), Beat, Drained, Enqueued (?f ''c'')]"
  let ?s = "foldl (sub_step (\<lambda>q. []) (sample_config 1 9)) (create_subscriber (sample_hub_env 1) 1 (sample_request Backpressure)) ?es"
  have "sk_out (rq_sink (sample_request Backpressure)) = []" by (simp add: sample_request_def sample_sink_def)
  moreover have "\<forall>f \<in> set (event_frames ?es). fr_text f \<noteq> heartbeat_frame" by (simp add: heartbeat_frame_def)
  moreover have "sb_delivered ?s = 2 \<and> \<not> sb_closed ?s \<and> sk_out (sb_sink ?s) = [''a'', ''b'']"
    by (simp add: create_subscriber_def sample_request_def sample_sink_def sample_config_def enqueue_frame_def pump_def
        sink_write_def frame_taken_def heartbeat_def drain_event_def Let_def)
  ultimately show ?thesis
    using stream_in_order [of "sample_request Backpressure" ?es "\<lambda>q. []" "sample_config 1 9" "sample_hub_env 1" 1]
    by (simp add: Let_def last_cursor_def)
qed

text \<open>One subscriber joins at the first commit and sees the second.\<close>

definition joined_feed :: feed where
  "joined_feed = fst (subscribe_locked (sample_hub_env 5) 0 (Some first_sha) 1 (sample_request Taken) empty_feed)"

lemma joined_feed_eq:
  "subscribe_locked (sample_hub_env 5) 0 (Some first_sha) 1 (sample_request Taken) empty_feed =
     (joined_feed, Inr (fd_subs joined_feed ! 0))"
  "fd_last joined_feed = Some first_sha" "length (fd_subs joined_feed) = 1" "sb_attached (fd_subs joined_feed ! 0)"
  "sb_queue (fd_subs joined_feed ! 0) = []" "sb_queueBytes (fd_subs joined_feed ! 0) = 0"
  "sk_reply (sb_sink (fd_subs joined_feed ! 0)) = (\<lambda>n. Taken)" "\<not> sb_closed (fd_subs joined_feed ! 0)"
  "\<not> sb_blocked (fd_subs joined_feed ! 0)"
  "identity (fd_subs joined_feed ! 0) = identity (create_subscriber (sample_hub_env 5) 1 (sample_request Taken))"
proof -
  have prep: "prepare_stream (sample_hub_env 5) 0 (Some first_sha) empty_feed (sample_request Taken) = Inr ([], Some first_cursor)"
    by (simp add: prepare_stream_def sample_request_def head_cursor_def sample_env_parts)
  let ?s = "stream_start (sample_hub_env 5) [] (Some first_cursor) (create_subscriber (sample_hub_env 5) 1 (sample_request Taken))"
  have "utf8_length (ready_frame (\<lambda>q. []) ''app'' (Some first_cursor)) \<le> sample_bytes" by (simp add: sample_bytes_def)
  then have s: "\<not> sb_closed ?s" "sb_queue ?s = []" "sb_queueBytes ?s = 0" "sk_reply (sb_sink ?s) = (\<lambda>n. Taken)" "\<not> sb_blocked ?s"
    by (simp_all add: stream_start_def sample_env_parts sample_config_def enqueue_frame_def create_subscriber_def
        text_frame_def pump_def sink_write_def sample_request_def sample_sink_def frame_taken_def)
  have j: "subscribe_locked (sample_hub_env 5) 0 (Some first_sha) 1 (sample_request Taken) empty_feed =
      (joined_feed, Inr (?s\<lparr>sb_attached := True\<rparr>))"
    "fd_subs joined_feed = [?s\<lparr>sb_attached := True\<rparr>]" "fd_last joined_feed = Some first_sha"
    unfolding joined_feed_def using s(1) prep by (simp_all add: subscribe_locked_def Let_def)
  then show "subscribe_locked (sample_hub_env 5) 0 (Some first_sha) 1 (sample_request Taken) empty_feed =
     (joined_feed, Inr (fd_subs joined_feed ! 0))" by simp
  show "fd_last joined_feed = Some first_sha" "length (fd_subs joined_feed) = 1" "sb_attached (fd_subs joined_feed ! 0)"
    "sb_queue (fd_subs joined_feed ! 0) = []" "sb_queueBytes (fd_subs joined_feed ! 0) = 0"
    "sk_reply (sb_sink (fd_subs joined_feed ! 0)) = (\<lambda>n. Taken)" "\<not> sb_closed (fd_subs joined_feed ! 0)"
    "\<not> sb_blocked (fd_subs joined_feed ! 0)"
    "identity (fd_subs joined_feed ! 0) = identity (create_subscriber (sample_hub_env 5) 1 (sample_request Taken))"
    using s j(3) by (simp_all add: j(2) identity_start)
qed

lemma joined_feed_run:
  "feed_run (sample_hub_env 5) (Some first_sha, joined_feed) (Some second_sha, check (sample_hub_env 5) (Some second_sha) joined_feed)"
proof -
  have "extends_head (fe_git (sample_hub_env 5)) (Some first_sha) second_sha"
    by (simp add: extends_head_def sample_hub_env_def two_history_def)
  then show ?thesis by (meson feed_run.intros feed_step.Check feed_step.Commit)
qed

text \<open>A subscriber with nothing queued, whose sink takes what it is given, for the table and operations of
  the sample.\<close>

definition idle_sub :: "subscriber \<Rightarrow> bool" where
  "idle_sub s \<longleftrightarrow> sb_attached s \<and> \<not> sb_closed s \<and> \<not> sb_blocked s \<and> sb_queue s = [] \<and> sb_queueBytes s = 0 \<and>
     sk_reply (sb_sink s) = (\<lambda>n. Taken) \<and> identity s = identity (create_subscriber (sample_hub_env 5) 1 (sample_request Taken))"

lemma idle_delivered:
  assumes "idle_sub s" and "c \<in> set second_changes"
  shows "idle_sub (deliver_to (sample_hub_env 5) c s)"
proof -
  let ?env = "sample_hub_env 5"
  have i: "sb_tables s = [''memories'']" "sb_ops s = [Op_Insert, Op_Update, Op_Delete]" "sb_row s = None" "sb_principal s = None"
    using assms(1) by (simp_all add: idle_sub_def identity_def create_subscriber_def sample_request_def)
  have "change_matches (sb_tables s) (sb_ops s) (sb_row s) c" using assms(2) sample_matches i by auto
  then have d: "deliver_to ?env c s = enqueue_frame (fe_fmt ?env) (fe_config ?env) (frame_for ?env c) s"
    using assms(1) i(4) by (simp add: deliver_to_def authorize_table_access_def idle_sub_def)
  have "utf8_length (change_frame (\<lambda>q. []) ''app'' c) \<le> sample_bytes" using assms(2) by (auto simp: sample_bytes_def)
  then have "\<not> sb_closed (enqueue_frame (fe_fmt ?env) (fe_config ?env) (frame_for ?env c) s) \<and>
      idle_sub (enqueue_frame (fe_fmt ?env) (fe_config ?env) (frame_for ?env c) s)"
    using assms(1) by (simp add: idle_sub_def enqueue_frame_def sample_env_parts sample_config_def frame_for_def text_frame_def
        pump_def sink_write_def frame_taken_def identity_def)
  then show ?thesis by (simp add: d)
qed

lemma joined_checked:
  "fd_last (check (sample_hub_env 5) (Some second_sha) joined_feed) = Some second_sha"
  "sb_attached (fd_subs (check (sample_hub_env 5) (Some second_sha) joined_feed) ! 0)"
proof -
  let ?env = "sample_hub_env 5" and ?s = "fd_subs joined_feed ! 0"
  let ?c = "sample_change second_sha Op_Delete 1" and ?d = "sample_change second_sha Op_Update 2"
  note j = joined_feed_eq
  have l: "live joined_feed \<noteq> []" using live_attached [of 0 joined_feed] j(3,4) by simp
  have i: "idle_sub ?s" using j by (simp add: idle_sub_def)
  have i1: "idle_sub (deliver_to ?env ?c ?s)" by (rule idle_delivered [OF i]) simp
  have i2: "idle_sub (deliver_to ?env ?d (deliver_to ?env ?c ?s))" by (rule idle_delivered [OF i1]) simp
  let ?f = "update_live (deliver_to ?env ?c) joined_feed"
  have f: "fd_subs ?f ! 0 = deliver_to ?env ?c ?s" "length (fd_subs ?f) = 1"
    using update_live_nth(1,3) [of _ joined_feed] j(3,4) by simp_all
  then have l1: "live ?f \<noteq> []" using live_attached [of 0 ?f] i1 by (simp add: idle_sub_def)
  have "gh_ancestor (fe_git ?env) first_sha second_sha" by (simp add: sample_hub_env_def two_history_def)
  moreover have "commits_after (fe_git ?env) (Some first_sha) second_sha = [second_sha]"
    using shas_differ by (simp add: commits_after_def sample_chains) (simp add: sample_hub_env_def two_history_def)
  moreover have "deliver ?env second_changes joined_feed = update_live (deliver_to ?env ?d) ?f"
    using l l1 by (simp add: deliver_def)
  ultimately have c: "check ?env (Some second_sha) joined_feed = (update_live (deliver_to ?env ?d) ?f)\<lparr>fd_last := Some second_sha\<rparr>"
    using shas_differ l by (simp add: check_def j(2) rewritten_def Let_def)
  have a: "sb_attached (fd_subs ?f ! 0)" "0 < length (fd_subs ?f)" using i1 f by (simp_all add: idle_sub_def)
  have "fd_subs (update_live (deliver_to ?env ?d) ?f) ! 0 = deliver_to ?env ?d (deliver_to ?env ?c ?s)"
    unfolding update_live_nth(3) [OF a(2)] using a(1) f(1) by simp
  then show "sb_attached (fd_subs (check ?env (Some second_sha) joined_feed) ! 0)"
    using i2 unfolding c by (simp add: idle_sub_def)
  show "fd_last (check ?env (Some second_sha) joined_feed) = Some second_sha" by (simp add: c)
qed

lemma sample_histories:
  "feed_history (sample_hub_env n) (Some second_sha) = [first_change] @ second_changes"
  "feed_history (sample_hub_env n) (Some first_sha) = [first_change]"
  by (simp_all add: feed_history_def anchor_chain_def published_def sample_chains)

theorem feed_no_gap_witness:
  "\<exists>cur. let s = fd_subs (check (sample_hub_env 5) (Some second_sha) joined_feed) ! 0
    in chat_free (sk_out (sb_sink s)) @ map fr_text (sb_queue s) =
      ready_frame (\<lambda>q. []) ''app'' cur # map (change_frame (\<lambda>q. []) ''app'') second_changes"
proof -
  let ?env = "sample_hub_env 5"
  have "gh_exists (fe_git ?env) first_sha" by (simp add: sample_hub_env_def two_history_def)
  then show ?thesis
    using feed_no_gap [OF two_laws _ feed_run.Refl joined_feed_eq(1) _ joined_feed_run] joined_checked joined_feed_eq(2) sample_matches
    by (simp add: sample_env_parts start_position_def sample_request_def sample_sink_def Let_def sample_histories)
qed


theorem delivery_never_revokes_witness:
  "deliver_to (sample_hub_env 5) (sample_change second_sha Op_Update 2) ((create_subscriber (sample_hub_env 5) 1 (sample_request Taken))
      \<lparr>sb_principal := Some \<lparr>pr_name = ''ann'', pr_authenticated = True, pr_namespaces = None, pr_roles = Some [Analyst],
         pr_tableGrants = None, pr_sql = None\<rparr>\<rparr>) =
   enqueue_frame (\<lambda>q. []) (sample_config 5 sample_bytes) (frame_for (sample_hub_env 5) (sample_change second_sha Op_Update 2))
     ((create_subscriber (sample_hub_env 5) 1 (sample_request Taken))
      \<lparr>sb_principal := Some \<lparr>pr_name = ''ann'', pr_authenticated = True, pr_namespaces = None, pr_roles = Some [Analyst],
         pr_tableGrants = None, pr_sql = None\<rparr>\<rparr>)"
proof -
  let ?s = "(create_subscriber (sample_hub_env 5) 1 (sample_request Taken))
      \<lparr>sb_principal := Some \<lparr>pr_name = ''ann'', pr_authenticated = True, pr_namespaces = None, pr_roles = Some [Analyst],
         pr_tableGrants = None, pr_sql = None\<rparr>\<rparr>"
  have "authorize_table_access (Some \<lparr>pr_name = ''ann'', pr_authenticated = True, pr_namespaces = None, pr_roles = Some [Analyst],
         pr_tableGrants = None, pr_sql = None\<rparr>) ''app'' ''memories'' Read = Allowed" by code_simp
  then have "\<forall>t \<in> set (sb_tables ?s). authorize_table_access (sb_principal ?s) (fe_ns (sample_hub_env 5)) t Read = Allowed"
    by (simp add: create_subscriber_def sample_request_def sample_env_parts)
  moreover have "\<not> sb_closed ?s" "change_matches (sb_tables ?s) (sb_ops ?s) (sb_row ?s) (sample_change second_sha Op_Update 2)"
    using sample_matches by (simp_all add: create_subscriber_def sample_request_def)
  ultimately show ?thesis using delivery_never_revokes [of ?s "sample_hub_env 5" "sample_change second_sha Op_Update 2"]
    by (simp add: sample_env_parts)
qed

theorem head_cursor_refused_witness:
  "snd (subscribe_locked (sample_hub_env 5) 0 (Some second_sha) 2
     ((sample_request Taken)\<lparr>rq_cursor := Some (event_cursor (\<lambda>q. []) ''app'' (sample_change second_sha Op_Delete 1))\<rparr>) joined_feed) = Inl Invalid_Cursor"
proof -
  let ?env = "sample_hub_env 5" and ?raw = "event_cursor (\<lambda>q. []) ''app'' (sample_change second_sha Op_Delete 1)"
  have "validate_cursor ?env 0 ?raw (Some second_sha) = Inr \<lparr>cu_ns = ''app'', cu_commit = second_sha, cu_ordinal = 1\<rparr>"
    using sample_decoded [of second_sha 5 Op_Delete] unfolding validate_cursor_def
    by (simp add: sample_env_parts first_parent_window_def sample_chains) (simp add: sample_hub_env_def two_history_def sample_config_def)
  moreover have "live joined_feed \<noteq> []" using live_attached [of 0 joined_feed] joined_feed_eq(3,4) by simp
  moreover note joined_feed_eq(2)
  moreover have "\<not> gh_ancestor (fe_git ?env) second_sha first_sha" using shas_differ by (simp add: sample_hub_env_def two_history_def)
  ultimately show ?thesis
    using head_cursor_refused [of "(sample_request Taken)\<lparr>rq_cursor := Some ?raw\<rparr>" ?raw ?env 0 "Some second_sha"
        "\<lparr>cu_ns = ''app'', cu_commit = second_sha, cu_ordinal = 1\<rparr>" joined_feed 2] shas_differ by auto
qed

theorem refused_after_start_witness:
  "\<exists>s cur. snd (subscribe (sample_hub_env 1) True 0 (Some second_sha)
      ((sample_request Backpressure)\<lparr>rq_cursor := Some first_cursor\<rparr>) \<lparr>hb_feeds = [], hb_nextId = 1\<rparr>) =
      Refused Subscriber_Limit (Some s) \<and>
    sk_out (sb_sink s) = [ready_frame (\<lambda>q. []) ''app'' cur, overflow_frame (\<lambda>q. []) ''app'' None]"
proof -
  let ?env = "sample_hub_env 1" and ?rq = "(sample_request Backpressure)\<lparr>rq_cursor := Some first_cursor\<rparr>"
  let ?hub = "\<lparr>hb_feeds = [], hb_nextId = 1\<rparr>"
  let ?d = "\<lparr>cu_ns = ''app'', cu_commit = first_sha, cu_ordinal = 1\<rparr>"
  let ?cur = "event_cursor (\<lambda>q. []) ''app'' (last second_changes)"
  have v: "validate_cursor ?env 0 first_cursor (Some second_sha) = Inr ?d"
    using sample_decoded [of first_sha 1 Op_Update] unfolding validate_cursor_def
    by (simp add: sample_env_parts first_parent_window_def sample_chains) (simp add: sample_hub_env_def two_history_def sample_config_def)
  have r: "replay_changes ?env ?rq ?d (Some second_sha) = Inr second_changes"
    using shas_differ sample_matches by (simp add: replay_changes_def commits_after_def sample_chains sample_env_parts)
      (simp add: sample_hub_env_def two_history_def sample_config_def sample_change_def sample_request_def)
  have p: "prepare_stream ?env 0 (Some second_sha) (feed_for (fe_ns ?env) ?hub) ?rq = Inr (second_changes, Some ?cur)"
    using v r by (simp add: prepare_stream_def feed_for_def head_cursor_def sample_env_parts)
  show ?thesis
    using refused_after_start [OF p]
    by (simp add: subscriber_count_def sample_env_parts sample_config_def sample_request_def sample_sink_def sample_bytes_def) blast
qed

end
