(* ===== verification/Segment_Consolidation.thy ===== *)
theory Segment_Consolidation
  imports Jsonl_Store
begin

text \<open>
  Segment consolidation, \<^verbatim>\<open>src/storage/segment-consolidation.ts\<close>: the plan that packs small numeric
  segments together and cuts oversize ones, the layout check of the planner, and the execution with
  its checks.  A partition directory is the list of its files, as in the chunked store; the writes are
  a list of file operations in the order the code issues them, so a crash is a prefix of that list.
  The key-list cache is not modelled; a line is a list of characters with its UTF-8 length.
\<close>

section \<open>Segments\<close>

definition segment_max_lines :: nat where
  "segment_max_lines = 1000"

definition segment_max_bytes :: nat where
  "segment_max_bytes = 1024 * 1024"

record seg_content =
  sg_name :: string
  sg_number :: nat
  sg_sizeBytes :: nat
  sg_lines :: "string list"
  sg_lineBytes :: "nat list"

definition list_numeric_segments :: "ledger_dir \<Rightarrow> string list" where
  "list_numeric_segments d = sort_by (compare_chunk_names (\<lambda>_ _. 0)) (filter is_numeric_chunk (map fst d))"

definition read_records :: "ledger_dir \<Rightarrow> string \<Rightarrow> string list" where
  "read_records d n = file_lines (content_of d n)"

text \<open>\<^verbatim>\<open>name.replace(/\.jsonl$/, "")\<close> and \<^verbatim>\<open>parseInt\<close>; and the name of a number.\<close>

definition segment_number :: "string \<Rightarrow> nat" where
  "segment_number n = parse_nat (takeWhile is_digit (if ends_with jsonl_ext n then take (length n - 6) n else n))"

definition segment_name :: "nat \<Rightarrow> string" where
  "segment_name n = pad_zero 4 (show_nat n) @ jsonl_ext"

definition read_segment :: "ledger_dir \<Rightarrow> string \<Rightarrow> seg_content" where
  "read_segment d n =
     (let ls = file_lines (content_of d n)
      in \<lparr>sg_name = n, sg_number = segment_number n, sg_sizeBytes = utf8_length (content_of d n), sg_lines = ls,
          sg_lineBytes = map (\<lambda>l. utf8_length l + 1) ls\<rparr>)"

definition segment_bytes :: "seg_content \<Rightarrow> nat" where
  "segment_bytes s = foldl (+) 0 (sg_lineBytes s)"

definition is_oversize :: "seg_content \<Rightarrow> bool" where
  "is_oversize s \<longleftrightarrow> segment_max_lines < length (sg_lines s) \<or> segment_max_bytes < segment_bytes s"

section \<open>Packing\<close>

record pack_unit =
  pu_lines :: nat
  pu_bytes :: nat

text \<open>The loop of \<^verbatim>\<open>packUnits\<close>: \<open>start\<close> and \<open>i\<close> are its indices, \<open>lines\<close> and \<open>bytes\<close> the open group.\<close>

fun pack_from :: "nat \<Rightarrow> nat \<Rightarrow> nat \<Rightarrow> nat \<Rightarrow> pack_unit list \<Rightarrow> (nat \<times> nat) list" where
  "pack_from start i lines bytes [] = [(start, i)]"
| "pack_from start i lines bytes (u # us) =
     (if start < i \<and> (segment_max_lines < lines + pu_lines u \<or> segment_max_bytes < bytes + pu_bytes u)
      then (start, i) # pack_from i (i + 1) (pu_lines u) (pu_bytes u) us
      else pack_from start (i + 1) (lines + pu_lines u) (bytes + pu_bytes u) us)"

definition pack_units :: "pack_unit list \<Rightarrow> (nat \<times> nat) list" where
  "pack_units us = (if us = [] then [] else pack_from 0 0 0 0 us)"

section \<open>Merges\<close>

record segment_merge =
  mg_inputs :: "string list"
  mg_output :: string
  mg_lines :: nat
  mg_bytes :: nat

text \<open>The groups handed to \<^verbatim>\<open>flush\<close>, in order, with their running totals; an oversize segment is a barrier.\<close>

fun flushed_groups :: "seg_content list \<Rightarrow> nat \<Rightarrow> nat \<Rightarrow> seg_content list \<Rightarrow> (seg_content list \<times> nat \<times> nat) list" where
  "flushed_groups grp lines bytes [] = [(grp, lines, bytes)]"
| "flushed_groups grp lines bytes (s # ss) =
     (if is_oversize s then (grp, lines, bytes) # flushed_groups [] 0 0 ss
      else if grp \<noteq> [] \<and>
          (segment_max_lines < lines + length (sg_lines s) \<or> segment_max_bytes < bytes + segment_bytes s)
      then (grp, lines, bytes) # flushed_groups [s] (length (sg_lines s)) (segment_bytes s) ss
      else flushed_groups (grp @ [s]) (lines + length (sg_lines s)) (bytes + segment_bytes s) ss)"

definition merged_groups :: "seg_content list \<Rightarrow> (seg_content list \<times> nat \<times> nat) list" where
  "merged_groups segs = filter (\<lambda>(g, _). 2 \<le> length g) (flushed_groups [] 0 0 segs)"

definition plan_merges :: "seg_content list \<Rightarrow> segment_merge list" where
  "plan_merges segs =
     map (\<lambda>(g, l, b). \<lparr>mg_inputs = map sg_name g, mg_output = sg_name (hd g), mg_lines = l, mg_bytes = b\<rparr>)
       (merged_groups segs)"

definition merged_away :: "seg_content list \<Rightarrow> nat list" where
  "merged_away segs = concat (map (\<lambda>(g, _). map sg_number (tl g)) (merged_groups segs))"

definition surviving_numbers :: "seg_content list \<Rightarrow> nat list" where
  "surviving_numbers segs = filter (\<lambda>n. n \<notin> set (merged_away segs)) (map sg_number segs)"

section \<open>Splits\<close>

record split_chunk =
  ch_name :: string
  ch_from :: nat
  ch_to :: nat
  ch_lines :: nat
  ch_bytes :: nat

record segment_split =
  sl_input :: string
  sl_inputLines :: nat
  sl_inputBytes :: nat
  sl_chunks :: "split_chunk list"

datatype split_blocker = Single_Record | No_Free_Name nat nat

definition greatest_below :: "nat list \<Rightarrow> nat \<Rightarrow> nat" where
  "greatest_below numbers n = foldl (\<lambda>best c. if c < n \<and> best < c then c else best) 0 numbers"

definition least_above :: "nat list \<Rightarrow> nat \<Rightarrow> nat option" where
  "least_above numbers n =
     foldl (\<lambda>best c. if n < c \<and> (case best of None \<Rightarrow> True | Some b \<Rightarrow> c < b) then Some c else best) None numbers"

text \<open>Free names below, closest first; and names above, from a first candidate.\<close>

fun choose_below :: "nat list \<Rightarrow> nat \<Rightarrow> nat \<Rightarrow> nat \<Rightarrow> nat list" where
  "choose_below taken prev need 0 = []"
| "choose_below taken prev need (Suc c) =
     (if Suc c \<le> prev \<or> need = 0 then []
      else if Suc c \<in> set taken then choose_below taken prev need c
      else Suc c # choose_below taken prev (need - 1) c)"

function choose_above :: "nat list \<Rightarrow> nat \<Rightarrow> nat \<Rightarrow> nat list" where
  "choose_above taken need c =
     (if need = 0 then []
      else if c \<in> set taken then choose_above taken need (c + 1)
      else c # choose_above taken (need - 1) (c + 1))"
  by pat_completeness auto

termination
proof (relation "measures [\<lambda>(taken, need, c). need, \<lambda>(taken, need, c). card {m \<in> set taken. c \<le> m}]")
  fix taken :: "nat list" and need c
  assume "c \<in> set taken"
  then have "c \<in> {m \<in> set taken. c \<le> m} - {m \<in> set taken. c + 1 \<le> m}" by simp
  then have "{m \<in> set taken. c + 1 \<le> m} \<subset> {m \<in> set taken. c \<le> m}" by fastforce
  then show "((taken, need, c + 1), (taken, need, c)) \<in>
      measures [\<lambda>(taken, need, c). need, \<lambda>(taken, need, c). card {m \<in> set taken. c \<le> m}]"
    by (simp add: psubset_card_mono)
qed simp_all

declare choose_above.simps [simp del]

definition split_names :: "ledger_dir \<Rightarrow> nat \<Rightarrow> nat list \<Rightarrow> nat list \<Rightarrow> nat \<Rightarrow> nat \<Rightarrow> nat list" where
  "split_names d maxOnDisk survivors claimed need n =
     (let taken = n # survivors @ claimed;
          below = choose_below taken (greatest_below survivors n) need (n - 1)
      in if length below < need \<and> least_above survivors n = None
         then below @ choose_above taken (need - length below)
           (max (if maxOnDisk = 0 then segment_number (get_next_chunk_name d) else maxOnDisk + 1) (n + 1))
         else below)"

definition split_chunks :: "seg_content \<Rightarrow> (nat \<times> nat) list \<Rightarrow> string list \<Rightarrow> split_chunk list" where
  "split_chunks s ranges names =
     map (\<lambda>((a, b), n). \<lparr>ch_name = n, ch_from = a, ch_to = b, ch_lines = b - a,
         ch_bytes = foldl (+) 0 (take (b - a) (drop a (sg_lineBytes s)))\<rparr>) (zip ranges names)"

definition split_segment ::
  "ledger_dir \<Rightarrow> nat \<Rightarrow> nat list \<Rightarrow> nat list \<Rightarrow> seg_content \<Rightarrow> split_blocker + nat list \<times> segment_split" where
  "split_segment d maxOnDisk survivors claimed s =
     (let ranges = pack_units (map (\<lambda>b. \<lparr>pu_lines = 1, pu_bytes = b\<rparr>) (sg_lineBytes s));
          need = length ranges - 1;
          chosen = split_names d maxOnDisk survivors claimed need (sg_number s)
      in if length ranges \<le> 1 then Inl Single_Record
         else if length chosen < need then Inl (No_Free_Name need (length chosen))
         else Inr (chosen,
           \<lparr>sl_input = sg_name s, sl_inputLines = length (sg_lines s), sl_inputBytes = segment_bytes s,
            sl_chunks = split_chunks s ranges
              (sort_by (compare_chunk_names (\<lambda>_ _. 0)) (map segment_name (chosen @ [sg_number s])))\<rparr>))"

fun plan_splits ::
  "ledger_dir \<Rightarrow> nat \<Rightarrow> nat list \<Rightarrow> nat list \<Rightarrow> seg_content list \<Rightarrow> segment_split list \<times> (string \<times> split_blocker) list" where
  "plan_splits d maxOnDisk survivors claimed [] = ([], [])"
| "plan_splits d maxOnDisk survivors claimed (s # ss) =
     (if \<not> is_oversize s then plan_splits d maxOnDisk survivors claimed ss
      else case split_segment d maxOnDisk survivors claimed s of
          Inl r \<Rightarrow> (let (sps, un) = plan_splits d maxOnDisk survivors claimed ss in (sps, (sg_name s, r) # un))
        | Inr (chosen, sp) \<Rightarrow>
            (let (sps, un) = plan_splits d maxOnDisk survivors (claimed @ chosen) ss in (sp # sps, un)))"

section \<open>The plan and its layout\<close>

record consolidation_plan =
  pl_merges :: "segment_merge list"
  pl_splits :: "segment_split list"
  pl_unplaceable :: "(string \<times> split_blocker) list"
  pl_writtenFiles :: "string list"
  pl_addedFiles :: "string list"
  pl_removedFiles :: "string list"
  pl_segmentsBefore :: nat
  pl_segmentsAfter :: int
  pl_recordsBefore :: nat
  pl_recordsAfter :: nat
  pl_bytesBefore :: nat
  pl_bytesAfter :: nat

datatype consolidation_error =
    Partition_Not_Found | Written_Twice | Would_Reorder string | Loses_Records | Not_Preserving
  | Writes_And_Deletes | Not_Accounted | Count_Changed | Record_Changed

text \<open>A planned file is runs \<open>(segment, from, to)\<close> of the original segments.\<close>

type_synonym layout_file = "string \<times> (nat \<times> nat \<times> nat) list"

definition segment_index :: "seg_content list \<Rightarrow> string \<Rightarrow> nat" where
  "segment_index segs n = length (takeWhile (\<lambda>s. sg_name s \<noteq> n) segs)"

definition whole_run :: "seg_content list \<Rightarrow> string \<Rightarrow> nat \<times> nat \<times> nat" where
  "whole_run segs n = (segment_index segs n, 0, length (sg_lines (segs ! segment_index segs n)))"

definition layout_files :: "segment_merge list \<Rightarrow> segment_split list \<Rightarrow> seg_content list \<Rightarrow> layout_file list" where
  "layout_files merges splits segs =
     concat (map (\<lambda>i. let s = segs ! i
         in if sg_name s \<in> set (concat (map mg_inputs merges)) then []
            else case List.find (\<lambda>sp. sl_input sp = sg_name s) splits of
                Some sp \<Rightarrow> map (\<lambda>c. (ch_name c, [(i, ch_from c, ch_to c)])) (sl_chunks sp)
              | None \<Rightarrow> [(sg_name s, [(i, 0, length (sg_lines s))])]) [0..<length segs]) @
     map (\<lambda>m. (mg_output m, map (whole_run segs) (mg_inputs m))) merges"

definition run_base :: "seg_content list \<Rightarrow> nat \<Rightarrow> nat" where
  "run_base segs i = sum_list (map (\<lambda>s. length (sg_lines s)) (take i segs))"

fun walk_runs :: "seg_content list \<Rightarrow> string \<Rightarrow> nat \<Rightarrow> (nat \<times> nat \<times> nat) list \<Rightarrow> consolidation_error + nat" where
  "walk_runs segs n cursor [] = Inr cursor"
| "walk_runs segs n cursor ((i, a, b) # rs) =
     (if run_base segs i + a \<noteq> cursor then Inl (Would_Reorder n) else walk_runs segs n (run_base segs i + b) rs)"

fun walk_files :: "seg_content list \<Rightarrow> nat \<Rightarrow> layout_file list \<Rightarrow> consolidation_error + nat" where
  "walk_files segs cursor [] = Inr cursor"
| "walk_files segs cursor ((n, rs) # fs) = res_bind (walk_runs segs n cursor rs) (\<lambda>c. walk_files segs c fs)"

definition assert_plan_layout ::
  "segment_merge list \<Rightarrow> segment_split list \<Rightarrow> seg_content list \<Rightarrow> consolidation_error + unit" where
  "assert_plan_layout merges splits segs =
     (let files = layout_files merges splits segs
      in if \<not> distinct (map fst files) then Inl Written_Twice
         else res_bind (walk_files segs 0 (sort_by (\<lambda>f g. compare_chunk_names (\<lambda>_ _. 0) (fst f) (fst g)) files))
           (\<lambda>cursor. if cursor \<noteq> run_base segs (length segs) then Inl Loses_Records else Inr ()))"

definition written_files :: "segment_merge list \<Rightarrow> segment_split list \<Rightarrow> string list" where
  "written_files merges splits = map mg_output merges @ concat (map (\<lambda>sp. map ch_name (sl_chunks sp)) splits)"

definition removed_files :: "segment_merge list \<Rightarrow> segment_split list \<Rightarrow> string list" where
  "removed_files merges splits =
     nub (filter (\<lambda>n. n \<notin> set (written_files merges splits))
       (concat (map (\<lambda>m. tl (mg_inputs m)) merges) @ map sl_input splits))"

definition plan_segment_consolidation :: "ledger_dir option \<Rightarrow> consolidation_error + consolidation_plan" where
  "plan_segment_consolidation dir =
     (case dir of None \<Rightarrow> Inl Partition_Not_Found
      | Some d \<Rightarrow>
          (let segs = map (read_segment d) (list_numeric_segments d);
               merges = plan_merges segs;
               (splits, unplaceable) = plan_splits d (foldl max 0 (map sg_number segs)) (surviving_numbers segs) [] segs;
               written = written_files merges splits;
               removed = removed_files merges splits;
               added = filter (\<lambda>n. n \<notin> fst ` set d) written;
               recordsBefore = foldl (+) 0 (map (\<lambda>s. length (sg_lines s)) segs);
               bytesBefore = foldl (+) 0 (map segment_bytes segs);
               plan = \<lparr>pl_merges = merges, pl_splits = splits, pl_unplaceable = unplaceable,
                 pl_writtenFiles = written, pl_addedFiles = added, pl_removedFiles = removed,
                 pl_segmentsBefore = length segs,
                 pl_segmentsAfter = int (length segs) - int (length removed) + int (length added),
                 pl_recordsBefore = recordsBefore, pl_recordsAfter = recordsBefore,
                 pl_bytesBefore = bytesBefore, pl_bytesAfter = bytesBefore\<rparr>
           in res_bind (assert_plan_layout merges splits segs) (\<lambda>_.
                if pl_recordsAfter plan \<noteq> pl_recordsBefore plan then Inl Not_Preserving else Inr plan)))"

section \<open>Execution\<close>

text \<open>File operations; \<^verbatim>\<open>writeSegmentAtomic\<close> writes a temporary sibling and renames it.\<close>

datatype file_op = Write_Temp string string | Rename_Temp string | Unlink string

definition temp_name :: "string \<Rightarrow> string" where
  "temp_name n = ''.'' @ n @ ''.tmp''"

fun apply_op :: "ledger_dir \<Rightarrow> file_op \<Rightarrow> ledger_dir" where
  "apply_op d (Write_Temp n body) = obj_set (temp_name n) body d"
| "apply_op d (Rename_Temp n) =
     (case map_of d (temp_name n) of None \<Rightarrow> d | Some body \<Rightarrow> obj_set n body (obj_del (temp_name n) d))"
| "apply_op d (Unlink n) = obj_del n d"

definition write_segment_atomic :: "string \<Rightarrow> string list \<Rightarrow> file_op list" where
  "write_segment_atomic n ls =
     [Write_Temp n (if ls = [] then [] else join_with [newline] ls @ [newline]), Rename_Temp n]"

definition replacement_writes :: "ledger_dir \<Rightarrow> segment_merge list \<Rightarrow> segment_split list \<Rightarrow> file_op list" where
  "replacement_writes d merges splits =
     concat (map (\<lambda>m. write_segment_atomic (mg_output m)
       (concat (map (\<lambda>n. sg_lines (read_segment d n)) (mg_inputs m)))) merges) @
     concat (map (\<lambda>sp. concat (map (\<lambda>c. write_segment_atomic (ch_name c)
       (take (ch_to c - ch_from c) (drop (ch_from c) (sg_lines (read_segment d (sl_input sp)))))) (sl_chunks sp))) splits)"

definition count_records_in :: "ledger_dir \<Rightarrow> string list \<Rightarrow> nat" where
  "count_records_in d names = sum_list (map (\<lambda>n. length (read_records d n)) names)"

definition count_partition_records :: "ledger_dir \<Rightarrow> nat" where
  "count_partition_records d = sum_list (map (\<lambda>n. length (read_records d n)) (list_numeric_segments d))"

definition read_ordered_lines :: "ledger_dir \<Rightarrow> string list" where
  "read_ordered_lines d = concat (map (read_records d) (list_numeric_segments d))"

definition assert_order_preserved :: "ledger_dir \<Rightarrow> string list \<Rightarrow> consolidation_error + unit" where
  "assert_order_preserved d before = (if read_ordered_lines d \<noteq> before then Inl Record_Changed else Inr ())"

text \<open>The directory afterwards, and the plan with the files written and removed, or the error.\<close>

definition execute_segment_consolidation ::
  "bool \<Rightarrow> ledger_dir \<Rightarrow> ledger_dir \<times> (consolidation_error + consolidation_plan \<times> string list \<times> string list)" where
  "execute_segment_consolidation dryRun d =
     (case plan_segment_consolidation (Some d) of
        Inl e \<Rightarrow> (d, Inl e)
      | Inr p \<Rightarrow>
          if dryRun then (d, Inr (p, [], []))
          else if \<exists>n \<in> set (pl_removedFiles p). n \<in> set (pl_writtenFiles p) then (d, Inl Writes_And_Deletes)
          else (let d1 = foldl apply_op d (replacement_writes d (pl_merges p) (pl_splits p));
                    untouched = filter (\<lambda>n. n \<notin> set (pl_writtenFiles p @ pl_removedFiles p)) (list_numeric_segments d1)
                in if count_records_in d1 (pl_writtenFiles p) + count_records_in d1 untouched \<noteq> pl_recordsBefore p
                   then (d1, Inl Not_Accounted)
                   else (let d2 = foldl apply_op d1 (map Unlink (pl_removedFiles p))
                         in if count_partition_records d2 \<noteq> pl_recordsBefore p then (d2, Inl Count_Changed)
                            else case assert_order_preserved d2 (read_ordered_lines d) of
                                Inl e \<Rightarrow> (d2, Inl e)
                              | Inr _ \<Rightarrow>
                                  (d2, Inr (p\<lparr>pl_segmentsAfter := int (length (list_numeric_segments d2))\<rparr>,
                                     pl_writtenFiles p, pl_removedFiles p)))))"

section \<open>Packing covers its units\<close>

text \<open>Consecutive ranges from \<open>a\<close> to \<open>b\<close>.\<close>

fun chain_ranges :: "nat \<Rightarrow> (nat \<times> nat) list \<Rightarrow> nat \<Rightarrow> bool" where
  "chain_ranges a [] b = (a = b)"
| "chain_ranges a ((x, y) # rs) b = (x = a \<and> x \<le> y \<and> chain_ranges y rs b)"

lemma pack_from_chain: "start \<le> i \<Longrightarrow> chain_ranges start (pack_from start i ls bs us) (i + length us)"
  by (induction start i ls bs us rule: pack_from.induct) auto

lemma pack_units_chain: "chain_ranges 0 (pack_units us) (length us)"
  using pack_from_chain [of 0 0 0 0 us] by (simp add: pack_units_def)

lemma slices_concat:
  "chain_ranges a rs b \<Longrightarrow> b \<le> length xs \<Longrightarrow>
    concat (map (\<lambda>(x, y). take (y - x) (drop x xs)) rs) = take (b - a) (drop a xs) \<and> a \<le> b"
proof (induction a rs b rule: chain_ranges.induct)
  case (2 a x y rs b)
  then have h: "x = a" "a \<le> y" "y \<le> b"
    "concat (map (\<lambda>(x, y). take (y - x) (drop x xs)) rs) = take (b - y) (drop y xs)" by auto
  have "take (b - a) (drop a xs) = take (y - a) (drop a xs) @ take (b - y) (drop y xs)"
    using h(2,3) take_add [of "y - a" "b - y" "drop a xs"] by simp
  with h show ?case by simp
qed simp

section \<open>Free names\<close>

lemma foldl_max_ge: "m = b \<or> m \<in> set ns \<Longrightarrow> m \<le> foldl max b (ns :: nat list)"
proof (induction ns arbitrary: m b)
  case (Cons c ns)
  from Cons.IH [of "max b c" "max b c"] have "max b c \<le> foldl max (max b c) ns" by simp
  then have "b \<le> foldl max (max b c) ns \<and> c \<le> foldl max (max b c) ns" by simp
  moreover have "m \<in> set ns \<Longrightarrow> m \<le> foldl max (max b c) ns" using Cons.IH [of m "max b c"] by blast
  ultimately show ?case using Cons.prems by auto
qed simp

lemma greatest_below_max: "greatest_below ns n = foldl max 0 (filter (\<lambda>m. m < n) ns)"
proof -
  have "foldl (\<lambda>best c. if c < n \<and> best < c then c else best) b ns = foldl max b (filter (\<lambda>m. m < n) ns)" for b
  proof (induction ns arbitrary: b)
    case (Cons c ns)
    have "(if c < n \<and> b < c then c else b) = (if c < n then max b c else b)" by (simp add: max_def)
    with Cons show ?case by simp
  qed simp
  then show ?thesis by (simp add: greatest_below_def)
qed

lemma greatest_below_spec: "m \<in> set ns \<Longrightarrow> m < n \<Longrightarrow> m \<le> greatest_below ns n"
  using foldl_max_ge [of m 0 "filter (\<lambda>m. m < n) ns"] by (simp add: greatest_below_max)

lemma least_above_some:
  "foldl (\<lambda>best c. if n < c \<and> (case best of None \<Rightarrow> True | Some b \<Rightarrow> c < b) then Some c else best) (Some b) ns \<noteq> None"
proof (induction ns arbitrary: b)
  case (Cons c ns)
  then show ?case by (cases "n < c \<and> c < b") simp_all
qed simp

lemma least_above_none: "least_above ns n = None \<Longrightarrow> m \<in> set ns \<Longrightarrow> m \<le> n"
proof -
  assume "least_above ns n = None" and "m \<in> set ns"
  then show "m \<le> n"
  proof (induction ns)
    case (Cons c ns)
    then show ?case using least_above_some [of n c ns] by (cases "n < c") (auto simp: least_above_def)
  qed simp
qed

lemma choose_below_set: "k \<in> set (choose_below taken prev need c) \<Longrightarrow> prev < k \<and> k \<le> c \<and> k \<notin> set taken"
  by (induction taken prev need c rule: choose_below.induct) (auto split: if_splits)

lemma choose_below_distinct: "distinct (choose_below taken prev need c)"
proof (induction taken prev need c rule: choose_below.induct)
  case (2 taken prev need c)
  then show ?case using choose_below_set [of "Suc c" taken prev _ c] by auto
qed simp

lemma choose_below_length: "length (choose_below taken prev need c) \<le> need"
proof (induction taken prev need c rule: choose_below.induct)
  case (2 taken prev need c)
  then show ?case by (cases need) auto
qed simp

lemma choose_above_cases:
  "choose_above taken 0 c = []"
  "c \<in> set taken \<Longrightarrow> choose_above taken need c = choose_above taken need (Suc c)"
  "c \<notin> set taken \<Longrightarrow> choose_above taken (Suc need) c = c # choose_above taken need (Suc c)"
  by (subst choose_above.simps; simp add: choose_above.simps [of _ 0])+

lemma choose_above_spec:
  "\<forall>k \<in> set (choose_above taken need c). c \<le> k \<and> k \<notin> set taken" (is ?A)
  "distinct (choose_above taken need c)" (is ?B)
  "length (choose_above taken need c) = need" (is ?C)
proof -
  have "?A \<and> ?B \<and> ?C"
  proof (induction taken need c rule: choose_above.induct)
    case (1 taken need c)
    show ?case
    proof (cases need)
      case 0
      then show ?thesis by (simp add: choose_above_cases(1))
    next
      case (Suc m)
      show ?thesis
      proof (cases "c \<in> set taken")
        case True
        with 1(1) Suc show ?thesis by (fastforce simp: choose_above_cases(2))
      next
        case False
        with 1(2) Suc show ?thesis by (fastforce simp: choose_above_cases(3))
      qed
    qed
  qed
  then show ?A ?B ?C by simp_all
qed

section \<open>Blocks\<close>

text \<open>Segments of pairwise different numbers, in order, as they were read.\<close>

definition proper_segments :: "seg_content list \<Rightarrow> bool" where
  "proper_segments segs \<longleftrightarrow> sorted_wrt (<) (map sg_number segs) \<and>
     (\<forall>s \<in> set segs. is_numeric_chunk (sg_name s) \<and> segment_number (sg_name s) = sg_number s \<and>
        sg_lineBytes s = map (\<lambda>l. utf8_length l + 1) (sg_lines s) \<and> (\<forall>l \<in> set (sg_lines s). record_line l))"

lemma proper_names: "proper_segments segs \<Longrightarrow> distinct (map sg_name segs)"
proof -
  assume p: "proper_segments segs"
  then have "map segment_number (map sg_name segs) = map sg_number segs" by (simp add: proper_segments_def)
  moreover have "distinct (map sg_number segs)" using p strict_sorted_iff proper_segments_def by blast
  ultimately show ?thesis by (metis distinct_map)
qed

text \<open>The positional blocks of the plan: a packed group, or an oversize segment alone.\<close>

fun plan_blocks :: "seg_content list \<Rightarrow> nat \<Rightarrow> nat \<Rightarrow> seg_content list \<Rightarrow> seg_content list list" where
  "plan_blocks grp lines bytes [] = (if grp = [] then [] else [grp])"
| "plan_blocks grp lines bytes (s # ss) =
     (if is_oversize s then (if grp = [] then [] else [grp]) @ [s] # plan_blocks [] 0 0 ss
      else if grp \<noteq> [] \<and>
          (segment_max_lines < lines + length (sg_lines s) \<or> segment_max_bytes < bytes + segment_bytes s)
      then grp # plan_blocks [s] (length (sg_lines s)) (segment_bytes s) ss
      else plan_blocks (grp @ [s]) (lines + length (sg_lines s)) (bytes + segment_bytes s) ss)"

lemma blocks_concat: "concat (plan_blocks grp ls bs ss) = grp @ ss"
  by (induction grp ls bs ss rule: plan_blocks.induct) auto

lemma blocks_nonempty: "[] \<notin> set (plan_blocks grp ls bs ss)"
  by (induction grp ls bs ss rule: plan_blocks.induct) auto

lemma blocks_flushed:
  "map fst (filter (\<lambda>(g, _). 2 \<le> length g) (flushed_groups grp ls bs ss)) = filter (\<lambda>g. 2 \<le> length g) (plan_blocks grp ls bs ss)"
  by (induction grp ls bs ss rule: plan_blocks.induct) auto

lemma blocks_small:
  "\<forall>s \<in> set grp. \<not> is_oversize s \<Longrightarrow> b \<in> set (plan_blocks grp ls bs ss) \<Longrightarrow> 2 \<le> length b \<Longrightarrow> s \<in> set b \<Longrightarrow> \<not> is_oversize s"
  by (induction grp ls bs ss rule: plan_blocks.induct) (auto split: if_splits)

abbreviation blocks_of :: "seg_content list \<Rightarrow> seg_content list list" where
  "blocks_of segs \<equiv> plan_blocks [] 0 0 segs"

lemma merges_blocks:
  "map fst (merged_groups segs) = filter (\<lambda>g. 2 \<le> length g) (blocks_of segs)"
  by (simp add: merged_groups_def blocks_flushed)

lemma merged_away_blocks: "merged_away segs = concat (map (\<lambda>b. map sg_number (tl b)) (blocks_of segs))"
proof -
  have "merged_away segs = concat (map (\<lambda>b. map sg_number (tl b)) (map fst (merged_groups segs)))"
    by (simp add: merged_away_def o_def case_prod_unfold)
  also have "\<dots> = concat (map (\<lambda>b. map sg_number (tl b)) (blocks_of segs))"
    unfolding merges_blocks
  proof -
    have "concat (map (\<lambda>b. map sg_number (tl b)) (filter (\<lambda>g. 2 \<le> length g) Bs)) = concat (map (\<lambda>b. map sg_number (tl b)) Bs)" for Bs
    proof (induction Bs)
      case (Cons b Bs)
      then show ?case by (cases b) (auto simp: Suc_le_eq)
    qed simp
    then show "concat (map (\<lambda>b. map sg_number (tl b)) (filter (\<lambda>g. 2 \<le> length g) (blocks_of segs))) =
      concat (map (\<lambda>b. map sg_number (tl b)) (blocks_of segs))" .
  qed
  finally show ?thesis .
qed

lemma heads_survive:
  assumes "[] \<notin> set B" and "distinct (map f (concat B))" and "X \<inter> f ` set (concat B) = {}"
  shows "filter (\<lambda>n. n \<notin> X \<union> set (concat (map (\<lambda>b. map f (tl b)) B))) (map f (concat B)) = map (\<lambda>b. f (hd b)) B"
  using assms
proof (induction B arbitrary: X)
  case (Cons b B)
  let ?T = "\<lambda>B. set (concat (map (\<lambda>b. map f (tl b)) B))"
  obtain s r where b: "b = s # r" using Cons.prems(1) by (cases b) auto
  have "set (tl b) \<subseteq> set b" if "b \<in> set B" for b by (cases b) auto
  then have T: "?T B \<subseteq> f ` set (concat B)" by auto
  have d: "f s \<notin> f ` set r" "f s \<notin> f ` set (concat B)" "f ` set r \<inter> f ` set (concat B) = {}"
    using Cons.prems(2) b by auto
  have "filter (\<lambda>n. n \<notin> (X \<union> f ` set r) \<union> ?T B) (map f (concat B)) = map (\<lambda>b. f (hd b)) B"
  proof (rule Cons.IH)
    show "(X \<union> f ` set r) \<inter> f ` set (concat B) = {}"
      using Cons.prems(3) d(3) unfolding b by (simp add: image_Un Int_Un_distrib Int_Un_distrib2)
  qed (use Cons.prems b in auto)
  moreover have "filter (\<lambda>n. n \<notin> X \<union> ?T (b # B)) (map f r) = []" by (auto simp: b filter_empty_conv)
  moreover have "f s \<notin> X \<union> ?T (b # B)"
  proof -
    have "?T (b # B) = f ` set r \<union> ?T B" by (simp add: b)
    moreover have "f s \<notin> ?T B" using T d(2) by blast
    moreover have "f s \<notin> X" using Cons.prems(3) by (auto simp: b)
    ultimately show ?thesis using d(1) by simp
  qed
  moreover have "X \<union> ?T (b # B) = (X \<union> f ` set r) \<union> ?T B" by (auto simp: b)
  ultimately show ?case by (simp add: b)
qed simp

lemma surviving_heads:
  assumes "proper_segments segs"
  shows "surviving_numbers segs = map (\<lambda>b. sg_number (hd b)) (blocks_of segs)"
proof -
  have "distinct (map sg_number segs)" using assms strict_sorted_iff proper_segments_def by blast
  then show ?thesis using heads_survive [of "blocks_of segs" sg_number "{}"] blocks_nonempty [of "[]" 0 0 segs] blocks_concat [of "[]" 0 0 segs]
    by (simp add: surviving_numbers_def merged_away_blocks)
qed

section \<open>Names and numbers\<close>

lemma segment_name_chunk: "segment_name n = chunk_name n"
  by (simp add: segment_name_def chunk_name_def)

lemma numeric_segments_chunks: "list_numeric_segments d = numeric_chunks d"
  by (simp add: list_numeric_segments_def numeric_chunks_def)

lemma segment_number_chunk: "is_numeric_chunk n \<Longrightarrow> segment_number n = chunk_number n"
proof -
  assume n: "is_numeric_chunk n"
  then have d: "\<forall>c \<in> set (take (length n - 6) n). is_digit c" and e: "ends_with jsonl_ext n"
    by (auto simp: is_numeric_chunk_def list_all_iff Let_def)
  from e obtain r where r: "n = r @ jsonl_ext" by (auto simp: ends_with_iff)
  have "length jsonl_ext = 6" by (simp add: jsonl_ext_def)
  with d r have "\<forall>c \<in> set r. is_digit c" by simp
  then have "takeWhile is_digit n = r" "takeWhile is_digit r = r" by (auto simp: r takeWhile_append jsonl_ext_def is_digit_def)
  moreover have "take (length n - 6) n = r" using r \<open>length jsonl_ext = 6\<close> by simp
  ultimately show ?thesis unfolding segment_number_def chunk_number_def using e by metis
qed

lemma segment_name_facts [simp]: "is_numeric_chunk (segment_name n)" "segment_number (segment_name n) = n"
  "segment_name a = segment_name b \<longleftrightarrow> a = b"
  by (simp_all add: segment_name_chunk segment_number_chunk)

lemma sort_names:
  assumes "\<forall>x \<in> set xs. is_numeric_chunk (f x)" and "mset xs = mset ys" and "sorted_wrt (<) (map (segment_number \<circ> f) ys)"
  shows "sort_by (\<lambda>x y. compare_chunk_names (\<lambda>_ _. 0) (f x) (f y)) xs = ys"
proof -
  have "sort_by (\<lambda>x y. compare_chunk_names (\<lambda>_ _. 0) (f x) (f y)) xs = sort_key (segment_number \<circ> f) xs"
    using assms(1) by (intro sort_by_key) (auto simp: compare_chunk_names_def segment_number_chunk)
  moreover have "inj_on (segment_number \<circ> f) (set xs)"
    using assms(2,3) by (metis distinct_map mset_eq_setD strict_sorted_iff)
  ultimately show ?thesis using assms(2,3) sort_key_inj_key_eq strict_sorted_iff by metis
qed

section \<open>Splits keep to their slot\<close>

abbreviation split_ranges :: "seg_content \<Rightarrow> (nat \<times> nat) list" where
  "split_ranges s \<equiv> pack_units (map (\<lambda>b. \<lparr>pu_lines = 1, pu_bytes = b\<rparr>) (sg_lineBytes s))"

definition in_slot :: "nat list \<Rightarrow> nat \<Rightarrow> nat \<Rightarrow> bool" where
  "in_slot surv n k \<longleftrightarrow> (\<forall>m \<in> set surv. m < n \<longrightarrow> m < k) \<and> (k \<le> n \<or> (\<forall>m \<in> set surv. m \<le> n))"

definition good_split :: "nat list \<Rightarrow> seg_content \<Rightarrow> segment_split \<Rightarrow> bool" where
  "good_split surv s sp \<longleftrightarrow> sl_input sp = sg_name s \<and> 1 < length (split_ranges s) \<and>
     (\<exists>ns. sl_chunks sp = split_chunks s (split_ranges s) (map segment_name ns) \<and>
        length ns = length (split_ranges s) \<and> sorted_wrt (<) ns \<and> sg_number s \<in> set ns \<and>
        (\<forall>k \<in> set ns. in_slot surv (sg_number s) k \<and> (k = sg_number s \<or> k \<notin> set surv)))"

lemma split_names_spec:
  "distinct (split_names d mx surv claimed need n)" "n \<notin> set (split_names d mx surv claimed need n)"
  "k \<in> set (split_names d mx surv claimed need n) \<Longrightarrow> in_slot surv n k \<and> k \<notin> set surv"
  "length (split_names d mx surv claimed need n) \<le> need"
proof -
  let ?taken = "n # surv @ claimed" and ?prev = "greatest_below surv n"
  let ?below = "choose_below ?taken ?prev need (n - 1)"
  let ?c = "max (if mx = 0 then segment_number (get_next_chunk_name d) else mx + 1) (n + 1)"
  let ?above = "choose_above ?taken (need - length ?below) ?c"
  have below: "\<forall>k \<in> set ?below. ?prev < k \<and> k \<le> n - 1 \<and> k \<notin> set ?taken" using choose_below_set by blast
  have above: "\<forall>k \<in> set ?above. ?c \<le> k \<and> k \<notin> set ?taken" by (rule choose_above_spec(1))
  have cases: "split_names d mx surv claimed need n = ?below \<or>
      least_above surv n = None \<and> split_names d mx surv claimed need n = ?below @ ?above \<and> length ?below < need"
    by (simp add: split_names_def Let_def)
  have "set ?below \<inter> set ?above = {}" using below above by fastforce
  with cases show "distinct (split_names d mx surv claimed need n)"
    using choose_below_distinct [of ?taken ?prev need "n - 1"] choose_above_spec(2) [of ?taken "need - length ?below" ?c]
    by (elim disjE conjE) (simp_all only: distinct_append simp_thms)
  have "n \<notin> set ?below" "n \<notin> set ?above" using below above by (metis list.set_intros(1))+
  with cases show "n \<notin> set (split_names d mx surv claimed need n)" by (elim disjE conjE) simp_all
  show "length (split_names d mx surv claimed need n) \<le> need"
    using cases choose_below_length [of ?taken ?prev need "n - 1"]
    by (elim disjE conjE) (simp_all only: choose_above_spec(3) length_append)
  have "\<forall>k \<in> set ?below. in_slot surv n k"
  proof
    fix k assume "k \<in> set ?below"
    then have "?prev < k" "k \<le> n" using below by fastforce+
    then show "in_slot surv n k" using greatest_below_spec [of _ surv n] le_less_trans unfolding in_slot_def by blast
  qed
  moreover have "least_above surv n = None \<Longrightarrow> \<forall>k \<in> set ?above. in_slot surv n k"
  proof
    fix k assume "k \<in> set ?above" and none: "least_above surv n = None"
    then have "n < k" using above by fastforce
    then show "in_slot surv n k" using least_above_none [OF none] less_trans unfolding in_slot_def by blast
  qed
  ultimately have slot: "k \<in> set (split_names d mx surv claimed need n) \<Longrightarrow> in_slot surv n k"
    using cases by (elim disjE conjE) (simp_all only: set_append Un_iff, blast+)
  have "k \<in> set (split_names d mx surv claimed need n) \<Longrightarrow> k \<in> set ?below \<or> k \<in> set ?above"
    using cases by (elim disjE conjE) (simp_all only: set_append Un_iff simp_thms)
  then have "k \<in> set (split_names d mx surv claimed need n) \<Longrightarrow> k \<notin> set ?taken" using below above by blast
  then have "k \<in> set (split_names d mx surv claimed need n) \<Longrightarrow> k \<notin> set surv" by simp
  with slot show "k \<in> set (split_names d mx surv claimed need n) \<Longrightarrow> in_slot surv n k \<and> k \<notin> set surv" by blast
qed

lemma split_segment_good:
  assumes "split_segment d mx surv claimed s = Inr (chosen, sp)"
  shows "good_split surv s sp"
proof -
  let ?need = "length (split_ranges s) - 1"
  have c: "chosen = split_names d mx surv claimed ?need (sg_number s)" "1 < length (split_ranges s)" "?need \<le> length chosen"
    "sl_input sp = sg_name s"
    "sl_chunks sp = split_chunks s (split_ranges s)
       (sort_by (compare_chunk_names (\<lambda>_ _. 0)) (map segment_name (chosen @ [sg_number s])))"
    using assms by (auto simp: split_segment_def Let_def split: if_splits)
  note spec = split_names_spec [where d = d and mx = mx and surv = surv and claimed = claimed and need = ?need and n = "sg_number s", folded c(1)]
  let ?ns = "sort (chosen @ [sg_number s])"
  have srt: "sorted_wrt (<) ?ns" using spec(1,2) by (simp add: strict_sorted_iff)
  have "sort_by (compare_chunk_names (\<lambda>_ _. 0)) (map segment_name (chosen @ [sg_number s])) = map segment_name ?ns"
    using sort_names [of "map segment_name (chosen @ [sg_number s])" id "map segment_name ?ns"] srt
    by (simp add: comp_def)
  moreover have "in_slot surv (sg_number s) (sg_number s)" by (simp add: in_slot_def)
  ultimately show ?thesis unfolding good_split_def
    using c(2-5) spec(3,4) srt by (intro conjI exI [of _ ?ns]) auto
qed

lemma fst_plan_splits:
  "fst (plan_splits d mx surv claimed (s # ss)) =
     (if is_oversize s
      then case split_segment d mx surv claimed s of
          Inl r \<Rightarrow> fst (plan_splits d mx surv claimed ss)
        | Inr (chosen, sp) \<Rightarrow> sp # fst (plan_splits d mx surv (claimed @ chosen) ss)
      else fst (plan_splits d mx surv claimed ss))"
  by (simp add: case_prod_unfold Let_def split: sum.split)

lemma plan_splits_good:
  assumes "distinct (map sg_name segs)"
  shows "(\<forall>sp \<in> set (fst (plan_splits d mx surv claimed segs)). \<exists>s \<in> set segs. is_oversize s \<and> good_split surv s sp) \<and>
    distinct (map sl_input (fst (plan_splits d mx surv claimed segs)))"
  using assms
proof (induction segs arbitrary: claimed)
  case (Cons s ss)
  let ?r = "split_segment d mx surv claimed s"
  have ih: "\<forall>sp \<in> set (fst (plan_splits d mx surv claimed' ss)). \<exists>s \<in> set ss. is_oversize s \<and> good_split surv s sp"
    "distinct (map sl_input (fst (plan_splits d mx surv claimed' ss)))" for claimed'
    using Cons by simp_all
  show ?case
  proof (cases "is_oversize s \<and> (\<exists>c sp. ?r = Inr (c, sp))")
    case True
    then obtain c sp where r: "is_oversize s" "?r = Inr (c, sp)" by blast
    have g: "good_split surv s sp" by (rule split_segment_good [OF r(2)])
    have "sl_input ` set (fst (plan_splits d mx surv (claimed @ c) ss)) \<subseteq> sg_name ` set ss"
      using ih(1) [of "claimed @ c"] by (auto simp: good_split_def)
    moreover have "sl_input sp = sg_name s" "sg_name s \<notin> sg_name ` set ss" using g Cons.prems by (simp_all add: good_split_def)
    ultimately have "sl_input sp \<notin> sl_input ` set (fst (plan_splits d mx surv (claimed @ c) ss))" by auto
    then show ?thesis using ih [of "claimed @ c"] r g by (simp add: fst_plan_splits del: plan_splits.simps)
  next
    case False
    then show ?thesis using ih [of claimed]
      by (cases ?r) (auto simp: fst_plan_splits simp del: plan_splits.simps)
  qed
qed simp

section \<open>The positional layout\<close>

definition splits_ok :: "seg_content list \<Rightarrow> segment_split list \<Rightarrow> bool" where
  "splits_ok segs splits \<longleftrightarrow>
     (\<forall>sp \<in> set splits. \<exists>s \<in> set segs. is_oversize s \<and> good_split (surviving_numbers segs) s sp) \<and>
     distinct (map sl_input splits)"

definition segment_layout :: "seg_content list \<Rightarrow> segment_split list \<Rightarrow> seg_content \<Rightarrow> layout_file list" where
  "segment_layout segs splits s =
     (case List.find (\<lambda>sp. sl_input sp = sg_name s) splits of
        Some sp \<Rightarrow> map (\<lambda>c. (ch_name c, [(segment_index segs (sg_name s), ch_from c, ch_to c)])) (sl_chunks sp)
      | None \<Rightarrow> [(sg_name s, [whole_run segs (sg_name s)])])"

definition block_layout :: "seg_content list \<Rightarrow> segment_split list \<Rightarrow> seg_content list \<Rightarrow> layout_file list" where
  "block_layout segs splits b =
     (if 2 \<le> length b then [(sg_name (hd b), map (\<lambda>s. whole_run segs (sg_name s)) b)]
      else segment_layout segs splits (hd b))"

definition full_layout :: "seg_content list \<Rightarrow> segment_split list \<Rightarrow> layout_file list" where
  "full_layout segs splits = concat (map (block_layout segs splits) (blocks_of segs))"

lemma segment_index_at:
  assumes "proper_segments segs" and "segs = pre @ s # post"
  shows "segment_index segs (sg_name s) = length pre"
proof -
  have "sg_name s \<notin> sg_name ` set pre" using proper_names [OF assms(1)] by (simp add: assms(2))
  then have "\<forall>x \<in> set pre. sg_name x \<noteq> sg_name s" by (metis imageI)
  then have "takeWhile (\<lambda>x. sg_name x \<noteq> sg_name s) segs = pre"
    by (simp add: assms(2) takeWhile_append)
  then show ?thesis by (simp add: segment_index_def)
qed

lemma segment_index_nth:
  "proper_segments segs \<Longrightarrow> i < length segs \<Longrightarrow> segment_index segs (sg_name (segs ! i)) = i"
  using segment_index_at [of segs "take i segs" "segs ! i" "drop (Suc i) segs"] by (simp add: id_take_nth_drop [symmetric])

lemma same_name: "proper_segments segs \<Longrightarrow> s \<in> set segs \<Longrightarrow> t \<in> set segs \<Longrightarrow> sg_name s = sg_name t \<Longrightarrow> s = t"
  using proper_names by (metis distinct_map inj_onD)

lemma blocks_members: "\<Union> (set ` set (blocks_of segs)) = set segs"
  using blocks_concat [of "[]" 0 0 segs] by (metis append_Nil set_concat)

lemma absorbed_iff:
  assumes "proper_segments segs" and "b \<in> set (blocks_of segs)" and "s \<in> set b"
  shows "sg_name s \<in> set (concat (map mg_inputs (plan_merges segs))) \<longleftrightarrow> 2 \<le> length b"
proof -
  have inputs: "map mg_inputs (plan_merges segs) = map (map sg_name) (filter (\<lambda>g. 2 \<le> length g) (blocks_of segs))"
    unfolding merges_blocks [symmetric] by (simp add: plan_merges_def case_prod_unfold)
  have d: "distinct (concat (blocks_of segs))"
    using proper_names [OF assms(1)] by (simp add: blocks_concat distinct_map)
  have "b = c" if c: "c \<in> set (blocks_of segs)" "t \<in> set c" "sg_name s = sg_name t" for c t
  proof -
    have "s = t" using same_name [OF assms(1)] c assms(2,3) blocks_members [of segs] by blast
    then show ?thesis using d c(1,2) assms(2,3) unfolding distinct_concat_iff by blast
  qed
  moreover have "sg_name s \<in> set (concat (map mg_inputs (plan_merges segs))) \<longleftrightarrow>
      (\<exists>c \<in> set (blocks_of segs). 2 \<le> length c \<and> (\<exists>t \<in> set c. sg_name s = sg_name t))"
    unfolding inputs by auto
  ultimately show ?thesis using assms(2,3) by metis
qed

lemma mset_blocks:
  assumes "[] \<notin> set B" and "\<forall>b \<in> set B. \<forall>s \<in> set b. Q s \<longleftrightarrow> 2 \<le> length b"
  shows "mset (concat (map (\<lambda>s. if Q s then [] else h s) (concat B))) + mset (map g (filter (\<lambda>b. 2 \<le> length b) B)) =
    mset (concat (map (\<lambda>b. if 2 \<le> length b then [g b] else h (hd b)) B))"
  using assms
proof (induction B)
  case (Cons b B)
  have "concat (map (\<lambda>s. if Q s then [] else h s) b) = (if 2 \<le> length b then [] else h (hd b))"
  proof (cases "2 \<le> length b")
    case True
    then have "\<forall>s \<in> set b. Q s" using Cons.prems(2) by simp
    then show ?thesis using True by (simp add: concat_eq_Nil_conv)
  next
    case False
    then obtain s where "b = [s]" using Cons.prems(1) by (cases b) (auto simp: Suc_le_eq not_less_eq)
    then show ?thesis using Cons.prems(2) False by simp
  qed
  then show ?case using Cons by simp
qed simp

lemma layout_files_eq:
  assumes "proper_segments segs"
  shows "layout_files (plan_merges segs) splits segs =
    concat (map (\<lambda>s. if sg_name s \<in> set (concat (map mg_inputs (plan_merges segs))) then [] else segment_layout segs splits s) segs) @
    map (\<lambda>b. (sg_name (hd b), map (\<lambda>s. whole_run segs (sg_name s)) b)) (filter (\<lambda>g. 2 \<le> length g) (blocks_of segs))"
proof -
  let ?Q = "\<lambda>s. sg_name s \<in> set (concat (map mg_inputs (plan_merges segs)))"
  have part: "map (\<lambda>i. let s = segs ! i in if ?Q s then [] else case List.find (\<lambda>sp. sl_input sp = sg_name s) splits of
        Some sp \<Rightarrow> map (\<lambda>c. (ch_name c, [(i, ch_from c, ch_to c)])) (sl_chunks sp)
      | None \<Rightarrow> [(sg_name s, [(i, 0, length (sg_lines s))])]) [0..<length segs] =
    map (\<lambda>s. if ?Q s then [] else segment_layout segs splits s) segs"
    using segment_index_nth [OF assms]
    by (intro nth_equalityI) (auto simp: segment_layout_def whole_run_def Let_def split: option.split)
  have groups: "map (\<lambda>m. (mg_output m, map (whole_run segs) (mg_inputs m))) (plan_merges segs) =
      map (\<lambda>b. (sg_name (hd b), map (\<lambda>s. whole_run segs (sg_name s)) b)) (filter (\<lambda>g. 2 \<le> length g) (blocks_of segs))"
    unfolding merges_blocks [symmetric] by (simp add: plan_merges_def case_prod_unfold comp_def)
  show ?thesis unfolding layout_files_def part groups ..
qed

lemma layout_mset:
  assumes "proper_segments segs"
  shows "mset (layout_files (plan_merges segs) splits segs) = mset (full_layout segs splits)"
proof -
  let ?Q = "\<lambda>s. sg_name s \<in> set (concat (map mg_inputs (plan_merges segs)))"
  let ?h = "segment_layout segs splits" and ?g = "\<lambda>b. (sg_name (hd b), map (\<lambda>s. whole_run segs (sg_name s)) b)"
  have "mset (layout_files (plan_merges segs) splits segs) =
      mset (concat (map (\<lambda>s. if ?Q s then [] else ?h s) segs)) + mset (map ?g (filter (\<lambda>g. 2 \<le> length g) (blocks_of segs)))"
    unfolding layout_files_eq [OF assms] by simp
  also have "\<dots> = mset (concat (map (\<lambda>b. if 2 \<le> length b then [?g b] else ?h (hd b)) (blocks_of segs)))"
    using mset_blocks [of "blocks_of segs" ?Q ?h ?g] blocks_nonempty absorbed_iff [OF assms] by (simp add: blocks_concat)
  also have "\<dots> = mset (full_layout segs splits)"
    by (simp add: full_layout_def block_layout_def [abs_def])
  finally show ?thesis .
qed

section \<open>The layout keeps the order\<close>

lemma find_split:
  assumes "proper_segments segs" and "splits_ok segs splits" and "s \<in> set segs"
    and "List.find (\<lambda>sp. sl_input sp = sg_name s) splits = Some sp"
  shows "good_split (surviving_numbers segs) s sp"
proof -
  have sp: "sp \<in> set splits" "sl_input sp = sg_name s" using find_Some_set [OF assms(4)] by auto
  then obtain t where t: "t \<in> set segs" "good_split (surviving_numbers segs) t sp" using assms(2) by (auto simp: splits_ok_def)
  then have "t = s" using sp(2) same_name [OF assms(1) t(1) assms(3)] by (simp add: good_split_def)
  with t(2) show ?thesis by simp
qed

lemma chunk_names: "length names = length ranges \<Longrightarrow> map ch_name (split_chunks s ranges names) = names"
proof -
  assume "length names = length ranges"
  then have "map snd (zip ranges names) = names" by simp
  moreover have "map ch_name (split_chunks s ranges names) = map snd (zip ranges names)"
    by (simp add: split_chunks_def case_prod_unfold)
  ultimately show ?thesis by simp
qed

definition block_numbers :: "seg_content list \<Rightarrow> segment_split list \<Rightarrow> seg_content list \<Rightarrow> nat list" where
  "block_numbers segs splits b = map (segment_number \<circ> fst) (block_layout segs splits b)"

lemma block_facts:
  assumes "proper_segments segs" and "splits_ok segs splits" and "b \<in> set (blocks_of segs)"
  shows "sorted_wrt (<) (block_numbers segs splits b)"
    and "\<forall>k \<in> set (block_numbers segs splits b). in_slot (surviving_numbers segs) (sg_number (hd b)) k"
    and "\<forall>f \<in> set (block_layout segs splits b). is_numeric_chunk (fst f)"
proof -
  have "b \<noteq> []" using blocks_nonempty assms(3) by metis
  then have s: "hd b \<in> set segs" using blocks_members [of segs] assms(3) by (metis UN_I hd_in_set)
  have n: "is_numeric_chunk (sg_name (hd b))" "segment_number (sg_name (hd b)) = sg_number (hd b)"
    using assms(1) s by (simp_all add: proper_segments_def)
  have one: "in_slot (surviving_numbers segs) (sg_number (hd b)) (sg_number (hd b))" by (simp add: in_slot_def)
  show "sorted_wrt (<) (block_numbers segs splits b)"
    "\<forall>k \<in> set (block_numbers segs splits b). in_slot (surviving_numbers segs) (sg_number (hd b)) k"
    "\<forall>f \<in> set (block_layout segs splits b). is_numeric_chunk (fst f)"
  proof (atomize (full), cases "2 \<le> length b \<or> List.find (\<lambda>sp. sl_input sp = sg_name (hd b)) splits = None")
    case True
    then show "sorted_wrt (<) (block_numbers segs splits b) \<and>
      (\<forall>k \<in> set (block_numbers segs splits b). in_slot (surviving_numbers segs) (sg_number (hd b)) k) \<and>
      (\<forall>f \<in> set (block_layout segs splits b). is_numeric_chunk (fst f))"
      using n one by (auto simp: block_numbers_def block_layout_def segment_layout_def)
  next
    case False
    then obtain sp where sp: "List.find (\<lambda>sp. sl_input sp = sg_name (hd b)) splits = Some sp" "\<not> 2 \<le> length b" by blast
    obtain ns where ns: "sl_chunks sp = split_chunks (hd b) (split_ranges (hd b)) (map segment_name ns)"
      "length ns = length (split_ranges (hd b))" "sorted_wrt (<) ns"
      "\<forall>k \<in> set ns. in_slot (surviving_numbers segs) (sg_number (hd b)) k"
      using find_split [OF assms(1,2) s sp(1)] by (auto simp: good_split_def)
    have "map fst (block_layout segs splits b) = map ch_name (sl_chunks sp)"
      using sp by (simp add: block_layout_def segment_layout_def)
    also have "\<dots> = map segment_name ns" using chunk_names [of "map segment_name ns"] ns(1,2) by simp
    finally have names: "map fst (block_layout segs splits b) = map segment_name ns" .
    then have "block_numbers segs splits b = ns" by (simp add: block_numbers_def flip: map_map) (simp add: comp_def)
    moreover have "\<forall>f \<in> set (block_layout segs splits b). is_numeric_chunk (fst f)"
      using names by (metis (no_types, lifting) image_iff image_set segment_name_facts(1))
    ultimately show "sorted_wrt (<) (block_numbers segs splits b) \<and>
      (\<forall>k \<in> set (block_numbers segs splits b). in_slot (surviving_numbers segs) (sg_number (hd b)) k) \<and>
      (\<forall>f \<in> set (block_layout segs splits b). is_numeric_chunk (fst f))"
      using ns(3,4) by simp
  qed
qed

text \<open>Slots of ascending heads give ascending numbers.\<close>

lemma slots_sorted:
  assumes "sorted_wrt (<) (map h B)" and "h ` set B \<subseteq> set surv"
    and "\<forall>b \<in> set B. sorted_wrt (<) (K b) \<and> (\<forall>k \<in> set (K b). in_slot surv (h b) k)"
  shows "sorted_wrt (<) (concat (map K B))"
  using assms
proof (induction B)
  case (Cons b B)
  have "k < l" if k: "k \<in> set (K b)" and l: "c \<in> set B" "l \<in> set (K c)" for k l c
  proof -
    have bc: "h b < h c" using Cons.prems(1) l(1) by simp
    have "h b \<in> set surv" "h c \<in> set surv" using Cons.prems(2) l(1) by auto
    moreover have "in_slot surv (h b) k" "in_slot surv (h c) l" using Cons.prems(3) k l by auto
    ultimately have "k \<le> h b" "h b < l" using bc by (auto simp: in_slot_def dest: leD)
    then show "k < l" by simp
  qed
  then show ?case using Cons by (simp add: sorted_wrt_append)
qed simp

lemma block_heads:
  assumes "proper_segments segs"
  shows "sorted_wrt (<) (map (\<lambda>b. sg_number (hd b)) (blocks_of segs))"
  using surviving_heads [OF assms] assms
  by (metis proper_segments_def sorted_wrt_filter surviving_numbers_def)

lemma layout_sorted:
  assumes "proper_segments segs" and "splits_ok segs splits"
  shows "sorted_wrt (<) (map (segment_number \<circ> fst) (full_layout segs splits))"
    and "\<forall>f \<in> set (full_layout segs splits). is_numeric_chunk (fst f)"
proof -
  have "sorted_wrt (<) (concat (map (block_numbers segs splits) (blocks_of segs)))"
    using block_facts [OF assms] block_heads [OF assms(1)] surviving_heads [OF assms(1)]
    by (intro slots_sorted [where h = "\<lambda>b. sg_number (hd b)"]) auto
  then show "sorted_wrt (<) (map (segment_number \<circ> fst) (full_layout segs splits))"
    by (simp add: full_layout_def map_concat block_numbers_def [abs_def] comp_def)
  show "\<forall>f \<in> set (full_layout segs splits). is_numeric_chunk (fst f)"
    using block_facts(3) [OF assms] by (auto simp: full_layout_def)
qed

section \<open>The layout covers every record once\<close>

definition run_lines :: "seg_content list \<Rightarrow> (nat \<times> nat \<times> nat) list \<Rightarrow> string list" where
  "run_lines segs rs = concat (map (\<lambda>(i, a, b). take (b - a) (drop a (sg_lines (segs ! i)))) rs)"

abbreviation record_count :: "seg_content list \<Rightarrow> nat" where
  "record_count segs \<equiv> sum_list (map (\<lambda>s. length (sg_lines s)) segs)"

lemma walk_files_append:
  "walk_files segs c (fs @ gs) = res_bind (walk_files segs c fs) (\<lambda>c'. walk_files segs c' gs)"
proof (induction fs arbitrary: c)
  case (Cons f fs)
  then show ?case by (cases f) (cases "walk_runs segs (fst f) c (snd f)", auto)
qed simp

lemma run_base_at: "run_base (pre @ post) (length pre) = record_count pre"
  by (simp add: run_base_def)

lemma whole_run_at:
  assumes "proper_segments segs" and "segs = pre @ s # post"
  shows "whole_run segs (sg_name s) = (length pre, 0, length (sg_lines s))"
  using segment_index_at [OF assms] by (simp add: whole_run_def assms(2))

lemma walk_group:
  assumes "proper_segments segs" and "segs = pre @ b @ post"
  shows "walk_runs segs n (record_count pre) (map (\<lambda>s. whole_run segs (sg_name s)) b) = Inr (record_count (pre @ b)) \<and>
    run_lines segs (map (\<lambda>s. whole_run segs (sg_name s)) b) = concat (map sg_lines b)"
  using assms(2)
proof (induction b arbitrary: pre)
  case (Cons s b)
  have w: "whole_run segs (sg_name s) = (length pre, 0, length (sg_lines s))"
    using whole_run_at [OF assms(1)] Cons.prems by simp
  have "run_base segs (length pre) = record_count pre" using run_base_at [of pre] by (simp add: Cons.prems)
  then show ?case using Cons.IH [of "pre @ [s]"] w [unfolded Cons.prems] Cons.prems by (simp add: run_lines_def)
qed (simp add: run_lines_def)

lemma walk_chunks:
  assumes "run_base segs i = base" and "chain_ranges a ranges b" and "length names = length ranges"
  shows "walk_files segs (base + a) (map (\<lambda>c. (ch_name c, [(i, ch_from c, ch_to c)])) (split_chunks s ranges names)) = Inr (base + b)"
  using assms(2,3)
proof (induction a ranges b arbitrary: names rule: chain_ranges.induct)
  case (2 a x y rs b)
  then obtain n ns where "names = n # ns" by (cases names) auto
  with 2 show ?case by (simp add: split_chunks_def assms(1))
qed (simp add: split_chunks_def)

lemma chunk_lines:
  assumes "segs ! i = s" and "length names = length ranges"
  shows "map (\<lambda>f. run_lines segs (snd f)) (map (\<lambda>c. (ch_name c, [(i, ch_from c, ch_to c)])) (split_chunks s ranges names)) =
    map (\<lambda>(x, y). take (y - x) (drop x (sg_lines s))) ranges"
proof -
  have "map (\<lambda>f. run_lines segs (snd f)) (map (\<lambda>c. (ch_name c, [(i, ch_from c, ch_to c)])) (split_chunks s ranges names)) =
      map (\<lambda>(x, y). take (y - x) (drop x (sg_lines s))) (map fst (zip ranges names))"
    by (simp add: split_chunks_def run_lines_def assms(1) case_prod_unfold)
  then show ?thesis using assms(2) by simp
qed

lemma block_walk:
  assumes "proper_segments segs" and "splits_ok segs splits" and "segs = pre @ b @ post" and "b \<in> set (blocks_of segs)"
  shows "walk_files segs (record_count pre) (block_layout segs splits b) = Inr (record_count (pre @ b))"
    and "concat (map (\<lambda>f. run_lines segs (snd f)) (block_layout segs splits b)) = concat (map sg_lines b)"
proof -
  have "walk_files segs (record_count pre) (block_layout segs splits b) = Inr (record_count (pre @ b)) \<and>
    concat (map (\<lambda>f. run_lines segs (snd f)) (block_layout segs splits b)) = concat (map sg_lines b)"
  proof (cases "2 \<le> length b")
    case True
    then show ?thesis using walk_group [OF assms(1,3)] by (simp add: block_layout_def)
  next
    case False
    then obtain s where s: "b = [s]" using blocks_nonempty assms(4) by (cases b) (auto simp: Suc_le_eq)
    have i: "segment_index segs (sg_name s) = length pre" using segment_index_at [OF assms(1)] assms(3) s by simp
    have base: "run_base segs (length pre) = record_count pre" using run_base_at [of pre "b @ post"] assms(3) by simp
    show ?thesis
    proof (cases "List.find (\<lambda>sp. sl_input sp = sg_name s) splits")
      case None
      then show ?thesis using walk_group [OF assms(1,3)] s by (simp add: block_layout_def segment_layout_def)
    next
      case (Some sp)
      have "s \<in> set segs" using assms(3) s by simp
      then obtain ns where ns: "sl_chunks sp = split_chunks s (split_ranges s) (map segment_name ns)"
        "length ns = length (split_ranges s)"
        using find_split [OF assms(1,2) _ Some] by (auto simp: good_split_def)
      have c: "chain_ranges 0 (split_ranges s) (length (sg_lines s))"
        using pack_units_chain [of "map (\<lambda>b. \<lparr>pu_lines = 1, pu_bytes = b\<rparr>) (sg_lineBytes s)"] assms(1) \<open>s \<in> set segs\<close>
        by (simp add: proper_segments_def)
      have l: "block_layout segs splits b =
          map (\<lambda>c. (ch_name c, [(length pre, ch_from c, ch_to c)])) (split_chunks s (split_ranges s) (map segment_name ns))"
        using False s Some i ns(1) by (simp add: block_layout_def segment_layout_def)
      have "segs ! length pre = s" using assms(3) s by simp
      then have "concat (map (\<lambda>f. run_lines segs (snd f)) (block_layout segs splits b)) = sg_lines s"
        unfolding l using chunk_lines [of segs "length pre" s "map segment_name ns" "split_ranges s"] ns(2) slices_concat [OF c, of "sg_lines s"]
        by simp
      then show ?thesis using walk_chunks [OF base c, of "map segment_name ns" s] ns(2) s by (simp add: l [unfolded s])
    qed
  qed
  then show "walk_files segs (record_count pre) (block_layout segs splits b) = Inr (record_count (pre @ b))"
    "concat (map (\<lambda>f. run_lines segs (snd f)) (block_layout segs splits b)) = concat (map sg_lines b)" by simp_all
qed

lemma layout_walk:
  assumes "proper_segments segs" and "splits_ok segs splits"
  shows "walk_files segs 0 (full_layout segs splits) = Inr (record_count segs)"
    and "concat (map (\<lambda>f. run_lines segs (snd f)) (full_layout segs splits)) = concat (map sg_lines segs)"
proof -
  have "walk_files segs (record_count (concat P)) (concat (map (block_layout segs splits) B)) = Inr (record_count (concat (P @ B))) \<and>
      concat (map (\<lambda>f. run_lines segs (snd f)) (concat (map (block_layout segs splits) B))) = concat (map sg_lines (concat B))"
    if "blocks_of segs = P @ B" for P B
    using that
  proof (induction B arbitrary: P)
    case (Cons b B)
    have "segs = concat P @ b @ concat B" using blocks_concat [of "[]" 0 0 segs] Cons.prems by simp
    then have "walk_files segs (record_count (concat P)) (block_layout segs splits b) = Inr (record_count (concat P @ b))"
      "concat (map (\<lambda>f. run_lines segs (snd f)) (block_layout segs splits b)) = concat (map sg_lines b)"
      using block_walk [OF assms, of "concat P" b "concat B"] Cons.prems by simp_all
    then show ?case using Cons.IH [of "P @ [b]"] Cons.prems by (simp add: walk_files_append)
  qed simp
  from this [of "[]" "blocks_of segs"] show "walk_files segs 0 (full_layout segs splits) = Inr (record_count segs)"
    "concat (map (\<lambda>f. run_lines segs (snd f)) (full_layout segs splits)) = concat (map sg_lines segs)"
    by (simp_all add: full_layout_def blocks_concat)
qed

lemma layout_accepted:
  assumes "proper_segments segs" and "splits_ok segs splits"
  shows "assert_plan_layout (plan_merges segs) splits segs = Inr ()"
    and "distinct (map fst (layout_files (plan_merges segs) splits segs))"
proof -
  let ?L = "full_layout segs splits" and ?F = "layout_files (plan_merges segs) splits segs"
  note m = layout_mset [OF assms(1), of splits] and srt = layout_sorted [OF assms]
  have "distinct (map segment_number (map fst ?L))" using srt(1) by (simp add: strict_sorted_iff)
  then have "distinct (map fst ?L)" by (rule distinct_map [THEN iffD1, THEN conjunct1])
  then show d: "distinct (map fst ?F)" using m by (metis mset_eq_imp_distinct_iff mset_map)
  have "set ?F = set ?L" using m by (rule mset_eq_setD)
  then have "sort_by (\<lambda>f g. compare_chunk_names (\<lambda>_ _. 0) (fst f) (fst g)) ?F = ?L"
    using srt m by (intro sort_names) auto
  moreover have "run_base segs (length segs) = record_count segs" by (simp add: run_base_def)
  ultimately show "assert_plan_layout (plan_merges segs) splits segs = Inr ()"
    using d layout_walk(1) [OF assms] by (simp add: assert_plan_layout_def Let_def)
qed

section \<open>The plan of a partition\<close>

definition segments_of :: "ledger_dir \<Rightarrow> seg_content list" where
  "segments_of d = map (read_segment d) (list_numeric_segments d)"

text \<open>No two segments of the same number, and no file twice.\<close>

definition partition_wf :: "ledger_dir \<Rightarrow> bool" where
  "partition_wf d \<longleftrightarrow> distinct (map fst d) \<and> distinct (map segment_number (filter is_numeric_chunk (map fst d)))"

lemma segment_fields [simp]:
  "sg_name (read_segment d n) = n" "sg_number (read_segment d n) = segment_number n"
  "sg_lines (read_segment d n) = read_records d n"
  by (simp_all add: read_segment_def read_records_def Let_def)

lemma numeric_segments_set [simp]: "set (list_numeric_segments d) = {n \<in> fst ` set d. is_numeric_chunk n}"
  by (simp add: numeric_segments_chunks)

lemma sorted_segments:
  assumes "partition_wf d"
  shows "sorted_wrt (<) (map segment_number (list_numeric_segments d))"
proof -
  let ?xs = "filter is_numeric_chunk (map fst d)"
  have "list_numeric_segments d = sort_key segment_number ?xs"
    unfolding list_numeric_segments_def
    by (rule sort_by_key) (auto simp: compare_chunk_names_def segment_number_chunk)
  moreover have "sorted (map segment_number (sort_key segment_number ?xs))" by simp
  moreover have "distinct (map segment_number (sort_key segment_number ?xs))"
  proof -
    have "mset (map segment_number (sort_key segment_number ?xs)) = mset (map segment_number ?xs)" by simp
    then show ?thesis using assms by (metis mset_eq_imp_distinct_iff partition_wf_def)
  qed
  ultimately show ?thesis by (simp add: strict_sorted_iff)
qed

lemma listing_unique:
  assumes "distinct (map fst d)" and "{n \<in> fst ` set d. is_numeric_chunk n} = set ns"
    and "sorted_wrt (<) (map segment_number ns)"
  shows "list_numeric_segments d = ns"
proof -
  have "distinct ns" using assms(3) by (metis distinct_map strict_sorted_iff)
  moreover have "set (filter is_numeric_chunk (map fst d)) = set ns" using assms(2) by simp
  ultimately have "mset (filter is_numeric_chunk (map fst d)) = mset ns"
    using assms(1) by (metis distinct_filter set_eq_iff_mset_eq_distinct)
  then show ?thesis unfolding list_numeric_segments_def
    using sort_names [of "filter is_numeric_chunk (map fst d)" id ns] assms(3) by (simp add: comp_def)
qed

lemma segments_proper: "partition_wf d \<Longrightarrow> proper_segments (segments_of d)"
  using sorted_segments [of d] file_lines_are_records
  by (auto simp: proper_segments_def segments_of_def comp_def read_segment_def read_records_def Let_def)

definition planned_splits :: "ledger_dir \<Rightarrow> segment_split list" where
  "planned_splits d =
     fst (plan_splits d (foldl max 0 (map sg_number (segments_of d))) (surviving_numbers (segments_of d)) [] (segments_of d))"

lemma planned_splits_ok: "partition_wf d \<Longrightarrow> splits_ok (segments_of d) (planned_splits d)"
  using plan_splits_good [OF proper_names [OF segments_proper], of d]
  by (simp add: splits_ok_def planned_splits_def)

lemma foldl_plus_sum: "foldl (+) 0 xs = (sum_list xs :: nat)"
proof -
  have "foldl (+) a xs = a + sum_list xs" for a by (induction xs arbitrary: a) simp_all
  then show ?thesis by simp
qed

lemma plan_exists:
  assumes "partition_wf d"
  obtains p where "plan_segment_consolidation (Some d) = Inr p" "pl_merges p = plan_merges (segments_of d)"
    "pl_splits p = planned_splits d" "pl_writtenFiles p = written_files (pl_merges p) (pl_splits p)"
    "pl_removedFiles p = removed_files (pl_merges p) (pl_splits p)" "pl_recordsBefore p = record_count (segments_of d)"
proof -
  obtain sps un where ps: "plan_splits d (foldl max 0 (map sg_number (segments_of d))) (surviving_numbers (segments_of d)) []
      (segments_of d) = (sps, un)" by fastforce
  then have "sps = planned_splits d" by (simp add: planned_splits_def)
  then have "assert_plan_layout (plan_merges (segments_of d)) sps (segments_of d) = Inr ()"
    using layout_accepted(1) [OF segments_proper planned_splits_ok] assms by simp
  then show ?thesis using that ps \<open>sps = planned_splits d\<close>
    by (simp add: plan_segment_consolidation_def Let_def segments_of_def [symmetric] foldl_plus_sum)
qed

section \<open>The writes\<close>

lemma body_text: "(if ls = [] then [] else join_with [newline] ls @ [newline]) = lines_text ls"
proof (induction ls)
  case (Cons l ls)
  then show ?case by (cases ls) auto
qed simp

lemma temp_not_numeric [simp]: "\<not> is_numeric_chunk (temp_name n)"
  by (auto simp: is_numeric_chunk_def temp_name_def Let_def is_digit_def take_Cons' split: if_splits)

lemma temp_differs [simp]: "temp_name n \<noteq> n" "n \<noteq> temp_name n"
  by (auto simp: temp_name_def dest: arg_cong [of _ _ length])

definition after_writes :: "ledger_dir \<Rightarrow> (string \<times> string list) list \<Rightarrow> ledger_dir" where
  "after_writes d ws = foldl (\<lambda>d (n, ls). foldl apply_op d (write_segment_atomic n ls)) d ws"

lemma one_write:
  "map_of (foldl apply_op d (write_segment_atomic n ls)) k =
     (if k = n then Some (lines_text ls) else if k = temp_name n then None else map_of d k)"
  "distinct (map fst d) \<Longrightarrow> distinct (map fst (foldl apply_op d (write_segment_atomic n ls)))"
  by (simp_all add: write_segment_atomic_def body_text distinct_obj_set distinct_obj_del)

lemma writes_effect:
  assumes "\<forall>w \<in> set ws. is_numeric_chunk (fst w)" and "distinct (map fst ws)"
  shows "is_numeric_chunk k \<Longrightarrow>
      map_of (after_writes d ws) k = (case map_of ws k of Some ls \<Rightarrow> Some (lines_text ls) | None \<Rightarrow> map_of d k)"
    and "distinct (map fst d) \<Longrightarrow> distinct (map fst (after_writes d ws))"
proof -
  have "(is_numeric_chunk k \<longrightarrow>
      map_of (after_writes d ws) k = (case map_of ws k of Some ls \<Rightarrow> Some (lines_text ls) | None \<Rightarrow> map_of d k)) \<and>
    (distinct (map fst d) \<longrightarrow> distinct (map fst (after_writes d ws)))"
    using assms
  proof (induction ws arbitrary: d)
    case (Cons w ws)
    obtain n ls where w: "w = (n, ls)" by (cases w)
    have "map_of ws n = None" using Cons.prems(2) by (simp add: w map_of_eq_None_iff)
    moreover have "is_numeric_chunk k \<Longrightarrow> k \<noteq> temp_name n" by auto
    ultimately show ?case
      using Cons.IH [of "foldl apply_op d (write_segment_atomic n ls)"] Cons.prems
      by (auto simp: w after_writes_def one_write split: option.split)
  qed (simp add: after_writes_def)
  then show "is_numeric_chunk k \<Longrightarrow>
      map_of (after_writes d ws) k = (case map_of ws k of Some ls \<Rightarrow> Some (lines_text ls) | None \<Rightarrow> map_of d k)"
    "distinct (map fst d) \<Longrightarrow> distinct (map fst (after_writes d ws))" by blast+
qed

definition outputs_of :: "ledger_dir \<Rightarrow> segment_merge list \<Rightarrow> segment_split list \<Rightarrow> (string \<times> string list) list" where
  "outputs_of d merges splits =
     map (\<lambda>m. (mg_output m, concat (map (read_records d) (mg_inputs m)))) merges @
     concat (map (\<lambda>sp. map (\<lambda>c. (ch_name c, take (ch_to c - ch_from c) (drop (ch_from c) (read_records d (sl_input sp)))))
       (sl_chunks sp)) splits)"

lemma outputs_written: "map fst (outputs_of d merges splits) = written_files merges splits"
  by (simp add: outputs_of_def written_files_def map_concat comp_def)

lemma concat_twice: "concat (concat xss) = concat (map concat xss)"
  by (induction xss) simp_all

lemma replacement_outputs:
  "replacement_writes d merges splits = concat (map (\<lambda>(n, ls). write_segment_atomic n ls) (outputs_of d merges splits))"
  by (simp add: replacement_writes_def outputs_of_def map_concat comp_def concat_twice)

lemma foldl_writes:
  "foldl apply_op d (concat (map (\<lambda>(n, ls). write_segment_atomic n ls) ws)) = after_writes d ws"
  by (induction ws arbitrary: d) (auto simp: after_writes_def)

lemma unlink_effect:
  "map_of (foldl apply_op d (map Unlink ns)) k = (if k \<in> set ns then None else map_of d k)"
  "distinct (map fst d) \<Longrightarrow> distinct (map fst (foldl apply_op d (map Unlink ns)))"
  by (induction ns arbitrary: d) (simp_all add: distinct_obj_del)

section \<open>What the writes leave behind\<close>

lemma in_concat_map: "x \<in> set xs \<Longrightarrow> y \<in> set (Q x) \<Longrightarrow> y \<in> set (concat (map Q xs))"
  by auto

lemma concat_parts_disjoint:
  "distinct (concat (map Q xs)) \<Longrightarrow> distinct xs \<Longrightarrow> x \<in> set xs \<Longrightarrow> y \<in> set xs \<Longrightarrow> x \<noteq> y \<Longrightarrow> set (Q x) \<inter> set (Q y) = {}"
proof (induction xs)
  case (Cons z zs)
  then show ?case by (cases "x = z"; cases "y = z") auto
qed simp

lemma distinct_concat_parts:
  "distinct xs \<Longrightarrow> (\<And>x. x \<in> set xs \<Longrightarrow> distinct (Q x)) \<Longrightarrow>
    (\<And>x y. x \<in> set xs \<Longrightarrow> y \<in> set xs \<Longrightarrow> x \<noteq> y \<Longrightarrow> set (Q x) \<inter> set (Q y) = {}) \<Longrightarrow> distinct (concat (map Q xs))"
proof (induction xs)
  case (Cons z zs)
  have "set (Q z) \<inter> set (Q y) = {}" if "y \<in> set zs" for y using Cons.prems(3) [of z y] Cons.prems(1) that by auto
  moreover have "distinct (concat (map Q zs))" using Cons.prems by (intro Cons.IH) simp_all
  ultimately show ?case using Cons.prems(2) [of z] by auto
qed simp

lemma find_distinct: "distinct (map f xs) \<Longrightarrow> x \<in> set xs \<Longrightarrow> List.find (\<lambda>y. f y = f x) xs = Some x"
  by (induction xs) auto

text \<open>The segment a split belongs to.\<close>

lemma split_owner:
  assumes "proper_segments segs" and "splits_ok segs splits" and "sp \<in> set splits"
  obtains s where "s \<in> set segs" "sl_input sp = sg_name s" "good_split (surviving_numbers segs) s sp"
    "sg_name s \<notin> set (concat (map mg_inputs (plan_merges segs)))" "List.find (\<lambda>x. sl_input x = sg_name s) splits = Some sp"
proof -
  obtain s where s: "s \<in> set segs" "is_oversize s" "good_split (surviving_numbers segs) s sp"
    using assms(2,3) by (auto simp: splits_ok_def)
  then have i: "sl_input sp = sg_name s" by (simp add: good_split_def)
  obtain b where b: "b \<in> set (blocks_of segs)" "s \<in> set b" using s(1) blocks_members [of segs] by blast
  then have "\<not> 2 \<le> length b" using blocks_small [of "[]" b 0 0 segs s] s(2) by auto
  then have "sg_name s \<notin> set (concat (map mg_inputs (plan_merges segs)))" using absorbed_iff [OF assms(1) b] by simp
  moreover have "List.find (\<lambda>x. sl_input x = sg_name s) splits = Some sp"
    using find_distinct [of sl_input splits sp] assms(2,3) i by (simp add: splits_ok_def)
  ultimately show ?thesis using that s i by blast
qed

lemma split_entries:
  assumes "List.find (\<lambda>x. sl_input x = sg_name s) splits = Some sp" and "good_split surv s sp"
  shows "map fst (segment_layout segs splits s) = map ch_name (sl_chunks sp)"
    and "distinct (map ch_name (sl_chunks sp))"
proof -
  show "map fst (segment_layout segs splits s) = map ch_name (sl_chunks sp)"
    using assms(1) by (simp add: segment_layout_def)
  obtain ns where "sl_chunks sp = split_chunks s (split_ranges s) (map segment_name ns)"
    "length ns = length (split_ranges s)" "sorted_wrt (<) ns" using assms(2) by (auto simp: good_split_def)
  then show "distinct (map ch_name (sl_chunks sp))"
    using chunk_names [of "map segment_name ns"] by (simp add: distinct_map strict_sorted_iff inj_on_def)
qed

lemma written_distinct:
  assumes "proper_segments segs" and "splits_ok segs splits"
  shows "distinct (written_files (plan_merges segs) splits)"
    and "set (written_files (plan_merges segs) splits) \<subseteq> fst ` set (full_layout segs splits)"
proof -
  let ?Q = "\<lambda>s. sg_name s \<in> set (concat (map mg_inputs (plan_merges segs)))"
  let ?P = "\<lambda>s. if ?Q s then [] else segment_layout segs splits s"
  let ?M = "map (\<lambda>b. (sg_name (hd b), map (\<lambda>s. whole_run segs (sg_name s)) b)) (filter (\<lambda>g. 2 \<le> length g) (blocks_of segs))"
  have F: "layout_files (plan_merges segs) splits segs = concat (map ?P segs) @ ?M" by (rule layout_files_eq [OF assms(1)])
  have d0: "distinct (map fst (concat (map ?P segs)))" "distinct (map fst ?M)"
    "set (map fst (concat (map ?P segs))) \<inter> set (map fst ?M) = {}"
    using layout_accepted(2) [OF assms] unfolding F map_append distinct_append by blast+
  have d: "distinct (concat (map (\<lambda>s. map fst (?P s)) segs))"
    using d0(1) by (simp only: map_concat map_map comp_def)
  have out: "map mg_output (plan_merges segs) = map fst ?M"
    unfolding merges_blocks [symmetric] by (simp add: plan_merges_def case_prod_unfold comp_def)
  have ds: "distinct segs" using proper_names [OF assms(1)] by (simp add: distinct_map)
  have own: "\<exists>s \<in> set segs. sl_input sp = sg_name s \<and> map fst (?P s) = map ch_name (sl_chunks sp) \<and> distinct (map ch_name (sl_chunks sp))"
    if sp: "sp \<in> set splits" for sp
  proof -
    obtain s where s: "s \<in> set segs" "sl_input sp = sg_name s" "good_split (surviving_numbers segs) s sp"
      "\<not> ?Q s" "List.find (\<lambda>x. sl_input x = sg_name s) splits = Some sp"
      using split_owner [OF assms sp] by metis
    then have "map fst (?P s) = map ch_name (sl_chunks sp)" using split_entries(1) [OF s(5,3)] by (simp only: if_False)
    then show ?thesis using s(1,2) split_entries(2) [OF s(5,3)] by blast
  qed
  have "distinct (concat (map (\<lambda>sp. map ch_name (sl_chunks sp)) splits))"
  proof (rule distinct_concat_parts)
    show "distinct splits" using assms(2) by (simp add: splits_ok_def distinct_map)
    show "distinct (map ch_name (sl_chunks sp))" if "sp \<in> set splits" for sp using own [OF that] by blast
    show "set (map ch_name (sl_chunks sp)) \<inter> set (map ch_name (sl_chunks sq)) = {}"
      if sps: "sp \<in> set splits" "sq \<in> set splits" "sp \<noteq> sq" for sp sq
    proof -
      obtain s t where s: "s \<in> set segs" "sl_input sp = sg_name s" "map fst (?P s) = map ch_name (sl_chunks sp)"
        and t: "t \<in> set segs" "sl_input sq = sg_name t" "map fst (?P t) = map ch_name (sl_chunks sq)"
        using own [OF sps(1)] own [OF sps(2)] by blast
      have "inj_on sl_input (set splits)" using assms(2) by (simp add: splits_ok_def distinct_map)
      then have "sl_input sp \<noteq> sl_input sq" using sps by (meson inj_onD)
      then have "s \<noteq> t" using s(2) t(2) by metis
      then show ?thesis using concat_parts_disjoint [OF d ds s(1) t(1)] s(3) t(3) by metis
    qed
  qed
  moreover have sub: "set (concat (map (\<lambda>sp. map ch_name (sl_chunks sp)) splits)) \<subseteq> fst ` set (concat (map ?P segs))"
  proof
    fix n assume "n \<in> set (concat (map (\<lambda>sp. map ch_name (sl_chunks sp)) splits))"
    then obtain sp where sp: "sp \<in> set splits" "n \<in> set (map ch_name (sl_chunks sp))" by auto
    then obtain s where "s \<in> set segs" "n \<in> set (map fst (?P s))" using own [OF sp(1)] by metis
    then have "n \<in> set (concat (map (\<lambda>s. map fst (?P s)) segs))" by (rule in_concat_map)
    then show "n \<in> fst ` set (concat (map ?P segs))"
      by (simp only: set_map [symmetric] map_concat map_map comp_def)
  qed
  ultimately show "distinct (written_files (plan_merges segs) splits)"
    unfolding written_files_def out using d0(2,3) by (simp only: distinct_append set_map) blast
  have "set (written_files (plan_merges segs) splits) \<subseteq> fst ` set (concat (map ?P segs) @ ?M)"
    unfolding written_files_def out using sub by (simp only: set_append set_map image_Un) blast
  then show "set (written_files (plan_merges segs) splits) \<subseteq> fst ` set (full_layout segs splits)"
    using mset_eq_setD [OF layout_mset [OF assms(1), of splits]] unfolding F by simp
qed

lemma whole_run_lines:
  assumes "proper_segments segs" and "s \<in> set segs"
  shows "run_lines segs (whole_run segs (sg_name s) # rs) = sg_lines s @ run_lines segs rs"
    and "segs ! segment_index segs (sg_name s) = s"
proof -
  obtain i where i: "i < length segs" "segs ! i = s" using assms(2) by (metis in_set_conv_nth)
  then show *: "segs ! segment_index segs (sg_name s) = s" using segment_index_nth [OF assms(1)] by metis
  show "run_lines segs (whole_run segs (sg_name s) # rs) = sg_lines s @ run_lines segs rs"
    by (simp add: run_lines_def whole_run_def *)
qed

lemma segment_lines: "s \<in> set (segments_of d) \<Longrightarrow> sg_lines s = read_records d (sg_name s)"
  by (auto simp: segments_of_def)

lemma merge_inputs: "map mg_inputs (plan_merges segs) = map (map sg_name) (filter (\<lambda>g. 2 \<le> length g) (blocks_of segs))"
  "map mg_output (plan_merges segs) = map (\<lambda>g. sg_name (hd g)) (filter (\<lambda>g. 2 \<le> length g) (blocks_of segs))"
  unfolding merges_blocks [symmetric] by (simp_all add: plan_merges_def case_prod_unfold comp_def)

lemma output_entry:
  assumes "partition_wf d" and "w \<in> set (outputs_of d (plan_merges (segments_of d)) (planned_splits d))"
  shows "\<exists>rs. (fst w, rs) \<in> set (full_layout (segments_of d) (planned_splits d)) \<and> snd w = run_lines (segments_of d) rs"
proof -
  let ?segs = "segments_of d" and ?splits = "planned_splits d"
  note p = segments_proper [OF assms(1)] and ok = planned_splits_ok [OF assms(1)]
  have F: "set (full_layout ?segs ?splits) = set (layout_files (plan_merges ?segs) ?splits ?segs)"
    using mset_eq_setD [OF layout_mset [OF p]] by metis
  consider (m) m where "m \<in> set (plan_merges ?segs)" "w = (mg_output m, concat (map (read_records d) (mg_inputs m)))"
    | (c) sp c where "sp \<in> set ?splits" "c \<in> set (sl_chunks sp)"
      "w = (ch_name c, take (ch_to c - ch_from c) (drop (ch_from c) (read_records d (sl_input sp))))"
    using assms(2) by (auto simp: outputs_of_def)
  then show ?thesis
  proof cases
    case m
    have "mg_inputs m \<in> set (map mg_inputs (plan_merges ?segs))" using m(1) by simp
    then obtain b where b: "b \<in> set (blocks_of ?segs)" "mg_inputs m = map sg_name b" unfolding merge_inputs by auto
    then have "set b \<subseteq> set ?segs" using blocks_members [of ?segs] by blast
    then have "run_lines ?segs (map (whole_run ?segs) (map sg_name b)) = concat (map (read_records d) (map sg_name b))"
      by (induction b) (simp_all add: whole_run_lines(1) [OF p] segment_lines, simp add: run_lines_def)
    then show ?thesis using m b(2) unfolding F layout_files_def by (force intro!: exI [of _ "map (whole_run ?segs) (mg_inputs m)"])
  next
    case c
    obtain s where s: "s \<in> set ?segs" "sl_input sp = sg_name s"
      "sg_name s \<notin> set (concat (map mg_inputs (plan_merges ?segs)))" "List.find (\<lambda>x. sl_input x = sg_name s) ?splits = Some sp"
      using split_owner [OF p ok c(1)] by metis
    let ?rs = "[(segment_index ?segs (sg_name s), ch_from c, ch_to c)]"
    have "(ch_name c, ?rs) \<in> set (segment_layout ?segs ?splits s)"
      using c(2) s(4) by (auto simp: segment_layout_def)
    then have "(ch_name c, ?rs) \<in> set (full_layout ?segs ?splits)"
      unfolding F layout_files_eq [OF p] set_append using s(1,3) by (intro UnI1, intro in_concat_map [OF s(1)]) simp
    moreover have "run_lines ?segs ?rs = snd w"
      using c(3) s(2) segment_lines [OF s(1)] whole_run_lines(2) [OF p s(1)] by (simp add: run_lines_def)
    ultimately show ?thesis using c(3) by auto
  qed
qed

lemma kept_entry:
  assumes "proper_segments segs" and "splits_ok segs splits" and "(n, rs) \<in> set (full_layout segs splits)"
    and "n \<notin> set (written_files (plan_merges segs) splits)"
  shows "\<exists>s \<in> set segs. n = sg_name s \<and> rs = [whole_run segs n] \<and>
    n \<notin> set (concat (map mg_inputs (plan_merges segs))) \<and> n \<notin> sl_input ` set splits"
proof -
  let ?Q = "\<lambda>s. sg_name s \<in> set (concat (map mg_inputs (plan_merges segs)))"
  have "(n, rs) \<in> set (layout_files (plan_merges segs) splits segs)"
    using assms(3) mset_eq_setD [OF layout_mset [OF assms(1)]] by metis
  moreover have "n \<notin> set (map mg_output (plan_merges segs))" using assms(4) by (simp add: written_files_def)
  then have "(n, rs) \<notin> set (map (\<lambda>b. (sg_name (hd b), map (\<lambda>s. whole_run segs (sg_name s)) b)) (filter (\<lambda>g. 2 \<le> length g) (blocks_of segs)))"
    unfolding merge_inputs by auto
  ultimately have "(n, rs) \<in> set (concat (map (\<lambda>s. if ?Q s then [] else segment_layout segs splits s) segs))"
    unfolding layout_files_eq [OF assms(1)] set_append by blast
  then obtain s where s: "s \<in> set segs" "\<not> ?Q s" "(n, rs) \<in> set (segment_layout segs splits s)" by (auto split: if_splits)
  show ?thesis
  proof (cases "List.find (\<lambda>x. sl_input x = sg_name s) splits")
    case None
    then have "n = sg_name s" "rs = [whole_run segs n]" using s(3) by (simp_all add: segment_layout_def)
    moreover have "sg_name s \<notin> sl_input ` set splits" using None by (auto simp: find_None_all)
    ultimately show ?thesis using s(1,2) by blast
  next
    case (Some sp)
    then have "sp \<in> set splits" "n \<in> set (map ch_name (sl_chunks sp))"
      using s(3) find_Some_set [OF Some] by (auto simp: segment_layout_def)
    then have "n \<in> set (written_files (plan_merges segs) splits)" by (auto simp: written_files_def)
    then show ?thesis using assms(4) by blast
  qed
qed

lemma removed_iff:
  "n \<in> set (removed_files merges splits) \<longleftrightarrow> n \<notin> set (written_files merges splits) \<and>
    ((\<exists>m \<in> set merges. n \<in> set (tl (mg_inputs m))) \<or> n \<in> sl_input ` set splits)"
  by (auto simp: removed_files_def set_nub_from)

lemma layout_names:
  assumes "proper_segments segs" and "splits_ok segs splits"
  shows "fst ` set (full_layout segs splits) =
    (sg_name ` set segs \<union> set (written_files (plan_merges segs) splits)) - set (removed_files (plan_merges segs) splits)"
proof (intro equalityI subsetI)
  fix n assume "n \<in> fst ` set (full_layout segs splits)"
  then obtain rs where e: "(n, rs) \<in> set (full_layout segs splits)" by auto
  show "n \<in> (sg_name ` set segs \<union> set (written_files (plan_merges segs) splits)) - set (removed_files (plan_merges segs) splits)"
  proof (cases "n \<in> set (written_files (plan_merges segs) splits)")
    case False
    have "set (tl xs) \<subseteq> set xs" for xs :: "string list" by (cases xs) auto
    then have "n \<notin> set (removed_files (plan_merges segs) splits)"
      using kept_entry [OF assms e False] by (auto simp: removed_iff)
    then show ?thesis using kept_entry [OF assms e False] by blast
  qed (simp add: removed_iff)
next
  fix n assume "n \<in> (sg_name ` set segs \<union> set (written_files (plan_merges segs) splits)) - set (removed_files (plan_merges segs) splits)"
  then have nr: "n \<notin> set (removed_files (plan_merges segs) splits)"
    and n: "n \<in> sg_name ` set segs \<or> n \<in> set (written_files (plan_merges segs) splits)" by blast+
  show "n \<in> fst ` set (full_layout segs splits)"
  proof (cases "n \<in> set (written_files (plan_merges segs) splits)")
    case True
    then show ?thesis using written_distinct(2) [OF assms] by blast
  next
    case False
    then obtain s where s: "s \<in> set segs" "n = sg_name s" using n by blast
    then obtain b where b: "b \<in> set (blocks_of segs)" "s \<in> set b" using blocks_members [of segs] by blast
    have "\<not> 2 \<le> length b"
    proof
      assume l: "2 \<le> length b"
      then have "map sg_name b \<in> set (map mg_inputs (plan_merges segs))" "sg_name (hd b) \<in> set (map mg_output (plan_merges segs))"
        unfolding merge_inputs using b(1) by auto
      then obtain m where m: "m \<in> set (plan_merges segs)" "mg_inputs m = map sg_name b" by auto
      have "n \<noteq> sg_name (hd b)" using False \<open>sg_name (hd b) \<in> set (map mg_output (plan_merges segs))\<close> by (auto simp: written_files_def)
      then have "n \<in> set (tl (mg_inputs m))" using b(2) s(2) m(2) by (cases b) auto
      then show False using nr False m(1) by (auto simp: removed_iff)
    qed
    then have "sg_name s \<notin> set (concat (map mg_inputs (plan_merges segs)))" using absorbed_iff [OF assms(1) b] by simp
    moreover have "List.find (\<lambda>x. sl_input x = sg_name s) splits = None"
      using nr False s(2) unfolding removed_iff find_None_all by (metis imageI)
    then have "(n, [whole_run segs n]) \<in> set (segment_layout segs splits s)" using s(2) by (simp add: segment_layout_def)
    ultimately have "(n, [whole_run segs n]) \<in> set (layout_files (plan_merges segs) splits segs)"
      unfolding layout_files_eq [OF assms(1)] set_append by (intro UnI1, intro in_concat_map [OF s(1)]) simp
    then show ?thesis using mset_eq_setD [OF layout_mset [OF assms(1), of splits]] by force
  qed
qed

section \<open>Execution\<close>

definition written_dir :: "ledger_dir \<Rightarrow> ledger_dir" where
  "written_dir d = foldl apply_op d (replacement_writes d (plan_merges (segments_of d)) (planned_splits d))"

definition final_dir :: "ledger_dir \<Rightarrow> ledger_dir" where
  "final_dir d = foldl apply_op (written_dir d) (map Unlink (removed_files (plan_merges (segments_of d)) (planned_splits d)))"

lemma written_content:
  assumes "partition_wf d"
  defines "ws \<equiv> outputs_of d (plan_merges (segments_of d)) (planned_splits d)"
  shows "is_numeric_chunk k \<Longrightarrow>
      map_of (written_dir d) k = (case map_of ws k of Some ls \<Rightarrow> Some (lines_text ls) | None \<Rightarrow> map_of d k)"
    and "distinct (map fst (written_dir d))" and "distinct (map fst ws)" and "\<forall>w \<in> set ws. is_numeric_chunk (fst w)"
proof -
  note p = segments_proper [OF assms(1)] and ok = planned_splits_ok [OF assms(1)]
  show d: "distinct (map fst ws)" unfolding ws_def outputs_written by (rule written_distinct(1) [OF p ok])
  show n: "\<forall>w \<in> set ws. is_numeric_chunk (fst w)"
    using output_entry [OF assms(1)] layout_sorted(2) [OF p ok] unfolding ws_def by fastforce
  have w: "written_dir d = after_writes d ws"
    unfolding written_dir_def replacement_outputs foldl_writes ws_def ..
  show "is_numeric_chunk k \<Longrightarrow>
      map_of (written_dir d) k = (case map_of ws k of Some ls \<Rightarrow> Some (lines_text ls) | None \<Rightarrow> map_of d k)"
    unfolding w by (rule writes_effect(1) [OF n d])
  show "distinct (map fst (written_dir d))"
    unfolding w using assms(1) by (intro writes_effect(2) [OF n d]) (simp add: partition_wf_def)
qed

lemma written_records:
  assumes "partition_wf d" and "(n, rs) \<in> set (full_layout (segments_of d) (planned_splits d))"
  shows "read_records (written_dir d) n = run_lines (segments_of d) rs"
proof -
  let ?segs = "segments_of d" and ?splits = "planned_splits d"
  let ?ws = "outputs_of d (plan_merges ?segs) ?splits" and ?L = "full_layout ?segs ?splits"
  note p = segments_proper [OF assms(1)] and ok = planned_splits_ok [OF assms(1)] and wc = written_content [OF assms(1)]
  have num: "is_numeric_chunk n" using layout_sorted(2) [OF p ok] assms(2) by auto
  show ?thesis
  proof (cases "n \<in> set (written_files (plan_merges ?segs) ?splits)")
    case True
    then obtain ls where ls: "(n, ls) \<in> set ?ws" unfolding outputs_written [where d = d, symmetric] by auto
    then obtain rs' where rs: "(n, rs') \<in> set ?L" "ls = run_lines ?segs rs'" using output_entry [OF assms(1) ls] by auto
    have "distinct (map fst ?L)" using layout_sorted(1) [OF p ok] by (metis distinct_map list.map_comp strict_sorted_iff)
    then have "rs' = rs" using rs(1) assms(2) by (metis eq_key_imp_eq_value)
    moreover have "map_of ?ws n = Some ls" using ls wc(3) by simp
    moreover have "\<forall>l \<in> set ls. record_line l"
    proof
      fix l assume "l \<in> set ls"
      then have "l \<in> set (concat (map (\<lambda>f. run_lines ?segs (snd f)) ?L))" using rs by force
      then have "l \<in> set (concat (map sg_lines ?segs))" unfolding layout_walk(2) [OF p ok] .
      then show "record_line l" using p by (auto simp: proper_segments_def)
    qed
    ultimately show ?thesis using wc(1) [OF num] rs(2)
      by (simp add: read_records_def content_of_def file_lines_text)
  next
    case False
    then obtain s where s: "s \<in> set ?segs" "n = sg_name s" "rs = [whole_run ?segs n]"
      using kept_entry [OF p ok assms(2)] by blast
    have "map_of ?ws n = None" using False unfolding outputs_written [where d = d, symmetric] by (simp add: map_of_eq_None_iff)
    then have "read_records (written_dir d) n = read_records d n"
      using wc(1) [OF num] by (simp add: read_records_def content_of_def)
    then show ?thesis using s whole_run_lines(1) [OF p s(1), of "[]"] segment_lines [OF s(1)] by (simp add: run_lines_def)
  qed
qed

lemma segment_names: "sg_name ` set (segments_of d) = {n \<in> fst ` set d. is_numeric_chunk n}"
  by (simp add: segments_of_def image_image)

lemma dir_names: "fst ` set d = {k. map_of d k \<noteq> None}"
  by (auto simp: map_of_eq_None_iff)

lemma written_names:
  assumes "partition_wf d"
  shows "{n \<in> fst ` set (written_dir d). is_numeric_chunk n} =
    sg_name ` set (segments_of d) \<union> set (written_files (plan_merges (segments_of d)) (planned_splits d))"
proof -
  note wc = written_content [OF assms]
  let ?W = "written_files (plan_merges (segments_of d)) (planned_splits d)"
  have "is_numeric_chunk n" if "n \<in> set ?W" for n
    using wc(4) that unfolding outputs_written [where d = d, symmetric] by auto
  moreover have "map_of (written_dir d) n \<noteq> None \<longleftrightarrow> n \<in> set ?W \<or> map_of d n \<noteq> None" if "is_numeric_chunk n" for n
    using wc(1) [OF that] unfolding outputs_written [where d = d, symmetric] set_map dir_names
    by (cases "map_of (outputs_of d (plan_merges (segments_of d)) (planned_splits d)) n") simp_all
  ultimately show ?thesis unfolding segment_names dir_names by blast
qed

lemma final_names:
  assumes "partition_wf d"
  shows "list_numeric_segments (final_dir d) = map fst (full_layout (segments_of d) (planned_splits d))"
    and "distinct (map fst (final_dir d))"
proof -
  note p = segments_proper [OF assms] and ok = planned_splits_ok [OF assms]
  let ?R = "removed_files (plan_merges (segments_of d)) (planned_splits d)"
  show d: "distinct (map fst (final_dir d))"
    unfolding final_dir_def by (rule unlink_effect(2) [OF written_content(2) [OF assms]])
  have "{n \<in> fst ` set (final_dir d). is_numeric_chunk n} = {n \<in> fst ` set (written_dir d). is_numeric_chunk n} - set ?R"
    unfolding dir_names final_dir_def by (auto simp: unlink_effect)
  also have "\<dots> = set (map fst (full_layout (segments_of d) (planned_splits d)))"
    unfolding written_names [OF assms] set_map layout_names [OF p ok] ..
  finally show "list_numeric_segments (final_dir d) = map fst (full_layout (segments_of d) (planned_splits d))"
    using layout_sorted(1) [OF p ok] by (intro listing_unique [OF d]) simp_all
qed

lemma final_records:
  assumes "partition_wf d" and "(n, rs) \<in> set (full_layout (segments_of d) (planned_splits d))"
  shows "read_records (final_dir d) n = run_lines (segments_of d) rs"
proof -
  note p = segments_proper [OF assms(1)] and ok = planned_splits_ok [OF assms(1)]
  have "n \<notin> set (removed_files (plan_merges (segments_of d)) (planned_splits d))"
    using layout_names [OF p ok] assms(2) by force
  then have "read_records (final_dir d) n = read_records (written_dir d) n"
    by (simp add: read_records_def content_of_def final_dir_def unlink_effect)
  then show ?thesis using written_records [OF assms] by simp
qed

lemma final_order:
  assumes "partition_wf d"
  shows "read_ordered_lines (final_dir d) = read_ordered_lines d"
    and "count_partition_records (final_dir d) = record_count (segments_of d)"
proof -
  note p = segments_proper [OF assms(1)] and ok = planned_splits_ok [OF assms(1)]
  let ?L = "full_layout (segments_of d) (planned_splits d)"
  have "map (read_records (final_dir d)) (list_numeric_segments (final_dir d)) = map (\<lambda>f. run_lines (segments_of d) (snd f)) ?L"
    unfolding final_names [OF assms] map_map comp_def using final_records [OF assms] by (intro map_cong) auto
  then have o: "read_ordered_lines (final_dir d) = concat (map sg_lines (segments_of d))"
    using layout_walk(2) [OF p ok] by (simp add: read_ordered_lines_def)
  then show "read_ordered_lines (final_dir d) = read_ordered_lines d"
    by (simp add: read_ordered_lines_def segments_of_def comp_def)
  have "count_partition_records d' = length (read_ordered_lines d')" for d'
    by (simp add: count_partition_records_def read_ordered_lines_def length_concat comp_def)
  then show "count_partition_records (final_dir d) = record_count (segments_of d)"
    by (simp add: o length_concat comp_def)
qed

lemma accounted:
  assumes "partition_wf d"
  defines "W \<equiv> written_files (plan_merges (segments_of d)) (planned_splits d)"
    and "R \<equiv> removed_files (plan_merges (segments_of d)) (planned_splits d)"
  shows "count_records_in (written_dir d) W +
      count_records_in (written_dir d) (filter (\<lambda>n. n \<notin> set (W @ R)) (list_numeric_segments (written_dir d))) =
    record_count (segments_of d)"
proof -
  note p = segments_proper [OF assms(1)] and ok = planned_splits_ok [OF assms(1)]
  let ?L = "full_layout (segments_of d) (planned_splits d)" and ?d = "written_dir d"
  let ?U = "filter (\<lambda>n. n \<notin> set (W @ R)) (list_numeric_segments ?d)" and ?len = "\<lambda>n. length (read_records ?d n)"
  have "distinct (list_numeric_segments ?d)"
    using written_content(2) [OF assms(1)] by (simp add: list_numeric_segments_def)
  then have dst: "distinct (W @ ?U)" using written_distinct(1) [OF p ok] by (auto simp: W_def)
  have "distinct (map segment_number (map fst ?L))" using layout_sorted(1) [OF p ok] by (simp add: strict_sorted_iff)
  then have dL: "distinct (map fst ?L)" by (rule distinct_map [THEN iffD1, THEN conjunct1])
  have "set W \<inter> set R = {}" by (auto simp: W_def R_def removed_iff)
  then have "set (W @ ?U) = set (map fst ?L)"
    unfolding set_append set_filter numeric_segments_set written_names [OF assms(1)] set_map layout_names [OF p ok]
    by (auto simp: W_def R_def)
  then have "(\<Sum>n\<leftarrow>W @ ?U. ?len n) = (\<Sum>n\<leftarrow>map fst ?L. ?len n)"
    using dst dL by (simp only: sum_list_distinct_conv_sum_set)
  also have "\<dots> = (\<Sum>f\<leftarrow>?L. length (run_lines (segments_of d) (snd f)))"
    unfolding map_map comp_def using written_records [OF assms(1)] by (intro arg_cong [of _ _ sum_list] map_cong) auto
  also have "\<dots> = length (concat (map sg_lines (segments_of d)))"
    unfolding layout_walk(2) [OF p ok, symmetric] by (simp add: length_concat comp_def)
  finally show ?thesis by (simp add: count_records_in_def length_concat comp_def)
qed

lemma executes:
  assumes "partition_wf d" and "plan_segment_consolidation (Some d) = Inr p"
  shows "execute_segment_consolidation False d =
    (final_dir d, Inr (p\<lparr>pl_segmentsAfter := int (length (list_numeric_segments (final_dir d)))\<rparr>, pl_writtenFiles p, pl_removedFiles p))"
proof -
  obtain q where q: "plan_segment_consolidation (Some d) = Inr q" "pl_merges q = plan_merges (segments_of d)"
    "pl_splits q = planned_splits d" "pl_writtenFiles q = written_files (pl_merges q) (pl_splits q)"
    "pl_removedFiles q = removed_files (pl_merges q) (pl_splits q)" "pl_recordsBefore q = record_count (segments_of d)"
    using plan_exists [OF assms(1)] by metis
  then have p: "p = q" using assms(2) by simp
  have c: "\<not> (\<exists>n \<in> set (pl_removedFiles p). n \<in> set (pl_writtenFiles p))"
    unfolding p q(4,5) by (auto simp: removed_iff)
  have dirs: "foldl apply_op d (replacement_writes d (pl_merges p) (pl_splits p)) = written_dir d"
    "foldl apply_op (written_dir d) (map Unlink (pl_removedFiles p)) = final_dir d"
    unfolding p q(2,3,5) by (simp_all add: written_dir_def final_dir_def)
  note acc = accounted [OF assms(1), folded q(2,3), folded q(4,5,6), folded p]
  show ?thesis
    using c acc final_order [OF assms(1)]
    by (simp add: execute_segment_consolidation_def assms(2) dirs [unfolded p] assert_order_preserved_def Let_def q(6) p)
qed

section \<open>Bounds\<close>

definition line_bytes :: "string list \<Rightarrow> nat" where
  "line_bytes ls = sum_list (map (\<lambda>l. utf8_length l + 1) ls)"

definition within_bounds :: "string list \<Rightarrow> bool" where
  "within_bounds ls \<longleftrightarrow> length ls \<le> segment_max_lines \<and> line_bytes ls \<le> segment_max_bytes"

lemma oversize_iff: "proper_segments segs \<Longrightarrow> s \<in> set segs \<Longrightarrow> is_oversize s \<longleftrightarrow> \<not> within_bounds (sg_lines s)"
  by (auto simp: is_oversize_def within_bounds_def segment_bytes_def foldl_plus_sum proper_segments_def line_bytes_def)

lemma blocks_bounded:
  assumes "ls = length (concat (map sg_lines grp))" and "bs = sum_list (map segment_bytes grp)"
    and "ls \<le> segment_max_lines" and "bs \<le> segment_max_bytes" and "b \<in> set (plan_blocks grp ls bs ss)"
  shows "(\<exists>s. b = [s] \<and> is_oversize s) \<or>
    length (concat (map sg_lines b)) \<le> segment_max_lines \<and> sum_list (map segment_bytes b) \<le> segment_max_bytes"
  using assms
proof (induction grp ls bs ss rule: plan_blocks.induct)
  case (2 grp ls bs s ss)
  show ?case
  proof (cases "is_oversize s")
    case True
    then have "b = grp \<or> b = [s] \<or> b \<in> set (plan_blocks [] 0 0 ss)" using "2.prems"(5) by (auto split: if_splits)
    moreover have "b \<in> set (plan_blocks [] 0 0 ss) \<Longrightarrow> ?thesis" by (rule "2.IH"(1) [OF True]) simp_all
    moreover have "b = grp \<Longrightarrow> ?thesis" using "2.prems"(1-4) by simp
    ultimately show ?thesis using True by blast
  next
    case False
    then have s: "length (sg_lines s) \<le> segment_max_lines" "segment_bytes s \<le> segment_max_bytes" by (simp_all add: is_oversize_def)
    show ?thesis
    proof (cases "grp \<noteq> [] \<and> (segment_max_lines < ls + length (sg_lines s) \<or> segment_max_bytes < bs + segment_bytes s)")
      case True
      then have "b = grp \<or> b \<in> set (plan_blocks [s] (length (sg_lines s)) (segment_bytes s) ss)"
        using False "2.prems"(5) by simp
      moreover have "b \<in> set (plan_blocks [s] (length (sg_lines s)) (segment_bytes s) ss) \<Longrightarrow> ?thesis"
        by (rule "2.IH"(2) [OF False True]) (simp_all add: s)
      moreover have "b = grp \<Longrightarrow> ?thesis" using "2.prems"(1-4) by simp
      ultimately show ?thesis by blast
    next
      case open_group: False
      then have "ls + length (sg_lines s) \<le> segment_max_lines" "bs + segment_bytes s \<le> segment_max_bytes"
        using s "2.prems"(1,2) by (cases "grp = []"; auto)+
      then show ?thesis using False open_group "2.IH"(3) "2.prems" by simp
    qed
  qed
qed (auto split: if_splits)

definition range_fits :: "nat list \<Rightarrow> nat \<times> nat \<Rightarrow> bool" where
  "range_fits bl r \<longleftrightarrow> snd r - fst r \<le> 1 \<or>
     (snd r - fst r \<le> segment_max_lines \<and> sum_list (take (snd r - fst r) (drop (fst r) bl)) \<le> segment_max_bytes)"

lemma pack_fits:
  assumes "start \<le> i" and "i \<le> length bl" and "range_fits bl (start, i)" and "r \<in> set
    (pack_from start i (i - start) (sum_list (take (i - start) (drop start bl))) (map (\<lambda>b. \<lparr>pu_lines = 1, pu_bytes = b\<rparr>) (drop i bl)))"
  shows "range_fits bl r"
  using assms
proof (induction "drop i bl" arbitrary: start i)
  case (Cons b rest)
  let ?u = "\<lambda>b. \<lparr>pu_lines = 1, pu_bytes = b :: nat\<rparr>"
  have i: "i < length bl" "b = bl ! i" "rest = drop (Suc i) bl"
    using Cons.hyps(2) by (metis drop_all list.distinct(1) not_less, metis drop_all hd_drop_conv_nth list.distinct(1) list.sel(1) not_less,
        metis list.sel(3) tl_drop drop_Suc)
  have upd: "drop i bl = bl ! i # drop (Suc i) bl" using i Cons.hyps(2) by simp
  have more: "take (Suc (i - start)) (drop start bl) = take (i - start) (drop start bl) @ [bl ! i]"
    using i(1) Cons.prems(1) by (simp add: take_Suc_conv_app_nth)
  show ?case
  proof (cases "start < i \<and> (segment_max_lines < i - start + 1 \<or> segment_max_bytes < sum_list (take (i - start) (drop start bl)) + bl ! i)")
    case True
    then have "r = (start, i) \<or> r \<in> set (pack_from i (Suc i) (Suc i - i) (sum_list (take (Suc i - i) (drop i bl))) (map ?u (drop (Suc i) bl)))"
      using Cons.prems(4) by (simp add: upd take_Suc)
    moreover have "range_fits bl (i, Suc i)" by (simp add: range_fits_def)
    ultimately show ?thesis using Cons.hyps(1) [OF i(3), of i] Cons.prems(3) i(1) by auto
  next
    case False
    then have "r \<in> set (pack_from start (Suc i) (Suc i - start) (sum_list (take (Suc i - start) (drop start bl))) (map ?u (drop (Suc i) bl)))"
      using Cons.prems(1,4) by (simp add: upd more Suc_diff_le split: if_splits)
    moreover have "range_fits bl (start, Suc i)"
      using False Cons.prems(1) more by (cases "start = i") (auto simp: range_fits_def Suc_diff_le)
    ultimately show ?thesis using Cons.hyps(1) [OF i(3), of start] Cons.prems(1) i(1) by auto
  qed
qed auto

lemma ranges_fit:
  assumes "r \<in> set (split_ranges s)"
  shows "range_fits (sg_lineBytes s) r"
proof -
  have "range_fits (sg_lineBytes s) (0, 0)" by (simp add: range_fits_def)
  then show ?thesis using pack_fits [of 0 0 "sg_lineBytes s" r] assms by (auto simp: pack_units_def split: if_splits)
qed

lemma unsplit_unplaceable:
  assumes "distinct (map sg_name segs)" and "s \<in> set segs" and "is_oversize s"
    and "sg_name s \<notin> sl_input ` set (fst (plan_splits d mx surv claimed segs))"
  shows "sg_name s \<in> fst ` set (snd (plan_splits d mx surv claimed segs))"
  using assms
proof (induction segs arbitrary: claimed)
  case (Cons t ss)
  show ?case
  proof (cases "split_segment d mx surv claimed t")
    case (Inl r)
    then show ?thesis using Cons by (auto simp: case_prod_unfold Let_def split: if_splits)
  next
    case (Inr cs)
    then obtain c sp where r: "split_segment d mx surv claimed t = Inr (c, sp)" by (cases cs) auto
    then have "sl_input sp = sg_name t" using split_segment_good [OF r] by (simp add: good_split_def)
    then show ?thesis using Cons r by (auto simp: case_prod_unfold Let_def split: if_splits)
  qed
qed simp

lemma line_bytes_concat: "line_bytes (concat xss) = sum_list (map line_bytes xss)"
  by (induction xss) (simp_all add: line_bytes_def)

lemma segment_bytes_lines: "proper_segments segs \<Longrightarrow> s \<in> set segs \<Longrightarrow> segment_bytes s = line_bytes (sg_lines s)"
  by (simp add: segment_bytes_def foldl_plus_sum line_bytes_def proper_segments_def)

definition planned_blockers :: "ledger_dir \<Rightarrow> (string \<times> split_blocker) list" where
  "planned_blockers d =
     snd (plan_splits d (foldl max 0 (map sg_number (segments_of d))) (surviving_numbers (segments_of d)) [] (segments_of d))"

lemma layout_bounded:
  assumes "partition_wf d" and "(n, rs) \<in> set (full_layout (segments_of d) (planned_splits d))"
  shows "within_bounds (run_lines (segments_of d) rs) \<or> length (run_lines (segments_of d) rs) \<le> 1 \<or> n \<in> fst ` set (planned_blockers d)"
proof -
  let ?segs = "segments_of d" and ?splits = "planned_splits d"
  note p = segments_proper [OF assms(1)] and ok = planned_splits_ok [OF assms(1)]
  obtain b where b: "b \<in> set (blocks_of ?segs)" "(n, rs) \<in> set (block_layout ?segs ?splits b)"
    using assms(2) by (auto simp: full_layout_def)
  have sub: "set b \<subseteq> set ?segs" using b(1) blocks_members [of ?segs] by blast
  have small: "(\<exists>s. b = [s] \<and> is_oversize s) \<or>
      length (concat (map sg_lines b)) \<le> segment_max_lines \<and> sum_list (map segment_bytes b) \<le> segment_max_bytes"
    using blocks_bounded [of 0 "[]" 0 b ?segs] b(1) by simp
  show ?thesis
  proof (cases "2 \<le> length b")
    case True
    then have "rs = map (\<lambda>s. whole_run ?segs (sg_name s)) b" using b(2) by (simp add: block_layout_def)
    moreover have "run_lines ?segs (map (\<lambda>s. whole_run ?segs (sg_name s)) b) = concat (map sg_lines b)"
      using sub by (induction b) (simp_all add: whole_run_lines(1) [OF p], simp add: run_lines_def)
    moreover have "sum_list (map segment_bytes b) = line_bytes (concat (map sg_lines b))"
      unfolding line_bytes_concat map_map comp_def using sub segment_bytes_lines [OF p] by (intro arg_cong [of _ _ sum_list] map_cong) auto
    moreover have "\<not> (\<exists>s. b = [s])" using True by auto
    ultimately show ?thesis using small by (auto simp: within_bounds_def)
  next
    case False
    then obtain s where s: "b = [s]" using blocks_nonempty b(1) by (cases b) (auto simp: Suc_le_eq)
    then have ss: "s \<in> set ?segs" using sub by simp
    show ?thesis
    proof (cases "List.find (\<lambda>x. sl_input x = sg_name s) ?splits")
      case None
      then have nr: "n = sg_name s" "run_lines ?segs rs = sg_lines s"
        using b(2) s whole_run_lines(1) [OF p ss, of "[]"] by (simp_all add: block_layout_def segment_layout_def run_lines_def)
      have "is_oversize s \<Longrightarrow> sg_name s \<in> fst ` set (planned_blockers d)"
        unfolding planned_blockers_def using None
        by (intro unsplit_unplaceable [OF proper_names [OF p] ss]) (auto simp: planned_splits_def find_None_all)
      then show ?thesis using nr oversize_iff [OF p ss] by auto
    next
      case (Some sp)
      obtain ns where ns: "sl_chunks sp = split_chunks s (split_ranges s) (map segment_name ns)" "length ns = length (split_ranges s)"
        using find_split [OF p ok ss Some] by (auto simp: good_split_def)
      have "run_lines ?segs rs \<in> set (map (\<lambda>f. run_lines ?segs (snd f)) (block_layout ?segs ?splits b))" using b(2) by force
      also have "\<dots> = set (map (\<lambda>(x, y). take (y - x) (drop x (sg_lines s))) (split_ranges s))"
        using chunk_lines [of ?segs "segment_index ?segs (sg_name s)" s "map segment_name ns" "split_ranges s"]
          whole_run_lines(2) [OF p ss] ns False s Some
        by (simp add: block_layout_def segment_layout_def)
      finally obtain x y where r: "(x, y) \<in> set (split_ranges s)" "run_lines ?segs rs = take (y - x) (drop x (sg_lines s))" by auto
      have "line_bytes (run_lines ?segs rs) = sum_list (take (y - x) (drop x (sg_lineBytes s)))"
        using p ss r(2) by (simp add: line_bytes_def proper_segments_def take_map drop_map)
      then show ?thesis using ranges_fit [OF r(1)] r(2) by (auto simp: range_fits_def within_bounds_def)
    qed
  qed
qed

section \<open>Crashes\<close>

definition stored_lines :: "ledger_dir \<Rightarrow> string set" where
  "stored_lines d = {l. \<exists>n t. is_numeric_chunk n \<and> map_of d n = Some t \<and> l \<in> set (file_lines t)}"

lemma ordered_stored: "set (read_ordered_lines d) = stored_lines d"
proof -
  have "set (read_ordered_lines d) = {l. \<exists>n \<in> fst ` set d. is_numeric_chunk n \<and> l \<in> set (read_records d n)}"
    by (auto simp: read_ordered_lines_def)
  then show ?thesis unfolding dir_names by (auto simp: stored_lines_def read_records_def content_of_def)
qed

text \<open>What a crash in the middle of the writes leaves differs from whole writes in a temporary file at most.\<close>

lemma partial_writes:
  "\<exists>j. stored_lines (foldl apply_op d (take k (concat (map (\<lambda>(n, ls). write_segment_atomic n ls) ws)))) = stored_lines (after_writes d (take j ws))"
proof (induction ws arbitrary: d k)
  case Nil
  then show ?case by (simp add: after_writes_def)
next
  case (Cons w ws)
  obtain n ls where w: "w = (n, ls)" by (cases w)
  have len: "length (write_segment_atomic n ls) = 2" by (simp add: write_segment_atomic_def)
  consider "k = 0" | "k = 1" | i where "k = 2 + i" by (metis One_nat_def Suc_1 add_Suc_shift less_2_cases_iff le_add_diff_inverse not_less plus_1_eq_Suc)
  then show ?case
  proof cases
    case 1
    then show ?thesis by (intro exI [of _ 0]) (simp add: after_writes_def)
  next
    case 2
    have "is_numeric_chunk m \<Longrightarrow> map_of (apply_op d (Write_Temp n body)) m = map_of d m" for m body
      using temp_not_numeric [of n] by auto
    then have "stored_lines (apply_op d (Write_Temp n body)) = stored_lines d" for body
      unfolding stored_lines_def by (metis (no_types, opaque_lifting))
    then show ?thesis using 2 by (intro exI [of _ 0]) (simp add: after_writes_def w write_segment_atomic_def)
  next
    case 3
    obtain j where "stored_lines (foldl apply_op (foldl apply_op d (write_segment_atomic n ls))
        (take i (concat (map (\<lambda>(n, ls). write_segment_atomic n ls) ws)))) =
      stored_lines (after_writes (foldl apply_op d (write_segment_atomic n ls)) (take j ws))"
      using Cons.IH by blast
    then show ?thesis using 3 len by (intro exI [of _ "Suc j"]) (simp add: after_writes_def w)
  qed
qed

definition merge_outputs :: "ledger_dir \<Rightarrow> (string \<times> string list) list" where
  "merge_outputs d = map (\<lambda>m. (mg_output m, concat (map (read_records d) (mg_inputs m)))) (plan_merges (segments_of d))"

definition chunk_outputs :: "ledger_dir \<Rightarrow> segment_split \<Rightarrow> (string \<times> string list) list" where
  "chunk_outputs d sp =
     map (\<lambda>c. (ch_name c, take (ch_to c - ch_from c) (drop (ch_from c) (read_records d (sl_input sp))))) (sl_chunks sp)"

lemma outputs_parts:
  "outputs_of d (plan_merges (segments_of d)) (planned_splits d) = merge_outputs d @ concat (map (chunk_outputs d) (planned_splits d))"
  by (simp add: outputs_of_def merge_outputs_def chunk_outputs_def [abs_def])

lemma in_written:
  assumes "partition_wf d" and "w \<in> set (take j (outputs_of d (plan_merges (segments_of d)) (planned_splits d)))" and "l \<in> set (snd w)"
  shows "l \<in> stored_lines (after_writes d (take j (outputs_of d (plan_merges (segments_of d)) (planned_splits d))))"
proof -
  let ?ws = "outputs_of d (plan_merges (segments_of d)) (planned_splits d)"
  note p = segments_proper [OF assms(1)] and ok = planned_splits_ok [OF assms(1)] and wc = written_content [OF assms(1)]
  have w: "w \<in> set ?ws" using assms(2) by (rule in_set_takeD)
  then obtain rs where "snd w = run_lines (segments_of d) rs" "(fst w, rs) \<in> set (full_layout (segments_of d) (planned_splits d))"
    using output_entry [OF assms(1)] by blast
  then have "set (snd w) \<subseteq> set (concat (map sg_lines (segments_of d)))" unfolding layout_walk(2) [OF p ok, symmetric] by force
  then have recs: "\<forall>l \<in> set (snd w). record_line l" using p by (auto simp: proper_segments_def)
  have d: "distinct (map fst (take j ?ws))" using wc(3) by (simp add: take_map [symmetric])
  have n: "\<forall>w \<in> set (take j ?ws). is_numeric_chunk (fst w)" using wc(4) in_set_takeD by metis
  have "map_of (take j ?ws) (fst w) = Some (snd w)" using assms(2) d by simp
  then have "map_of (after_writes d (take j ?ws)) (fst w) = Some (lines_text (snd w))"
    using writes_effect(1) [OF n d] n assms(2) by simp
  then show ?thesis using n assms(2,3) file_lines_text [OF recs] unfolding stored_lines_def by auto
qed

lemma take_includes:
  assumes "distinct (xs @ y # ys)" and "y \<in> set (take j (xs @ y # ys))"
  shows "set (xs @ [y]) \<subseteq> set (take j (xs @ y # ys))"
proof -
  have "\<not> j \<le> length xs"
  proof
    assume "j \<le> length xs"
    then have "y \<in> set xs" using assms(2) in_set_takeD by (metis append_Nil2 diff_is_0_eq take0 take_append)
    then show False using assms(1) by simp
  qed
  then obtain i where "j = Suc (length xs + i)" by (metis Suc_leI le_iff_add not_le add_Suc)
  then show ?thesis by auto
qed

lemma take_concat_part:
  assumes "distinct (concat (map E xs))" and "x \<in> set xs" and "E x \<noteq> []" and "last (E x) \<in> set (take j (concat (map E xs)))"
  shows "set (E x) \<subseteq> set (take j (concat (map E xs)))"
proof -
  obtain as bs where "xs = as @ x # bs" using assms(2) by (meson split_list)
  then have c: "concat (map E xs) = (concat (map E as) @ butlast (E x)) @ last (E x) # concat (map E bs)"
    using assms(3) by simp
  have "set ((concat (map E as) @ butlast (E x)) @ [last (E x)]) \<subseteq> set (take j (concat (map E xs)))"
    using take_includes [of "concat (map E as) @ butlast (E x)" "last (E x)" "concat (map E bs)" j] assms(1,4) unfolding c by blast
  moreover have "set (E x) = set (butlast (E x) @ [last (E x)])" using assms(3) by simp
  ultimately show ?thesis by auto
qed

lemma merged_output:
  assumes "b \<in> set (blocks_of (segments_of d))" and "2 \<le> length b" and "s \<in> set b" and "l \<in> set (sg_lines s)"
  shows "\<exists>w \<in> set (merge_outputs d). l \<in> set (snd w)"
proof -
  have "map sg_name b \<in> set (map mg_inputs (plan_merges (segments_of d)))" unfolding merge_inputs using assms(1,2) by auto
  then obtain m where m: "m \<in> set (plan_merges (segments_of d))" "mg_inputs m = map sg_name b" by auto
  have "s \<in> set (segments_of d)" using assms(1,3) blocks_members [of "segments_of d"] by blast
  then have "l \<in> set (concat (map (read_records d) (mg_inputs m)))" using m(2) assms(3,4) by (auto simp: segment_lines)
  then show ?thesis using m(1) by (auto simp: merge_outputs_def)
qed

lemma split_output:
  assumes "partition_wf d" and "sp \<in> set (planned_splits d)" and "s \<in> set (segments_of d)" and "sl_input sp = sg_name s"
    and "l \<in> set (sg_lines s)"
  shows "\<exists>w \<in> set (chunk_outputs d sp). l \<in> set (snd w)"
proof -
  note p = segments_proper [OF assms(1)] and ok = planned_splits_ok [OF assms(1)]
  obtain t where t: "t \<in> set (segments_of d)" "sl_input sp = sg_name t" "good_split (surviving_numbers (segments_of d)) t sp"
    using split_owner [OF p ok assms(2)] by metis
  have "t = s" using same_name [OF p t(1) assms(3)] t(2) assms(4) by simp
  then obtain ns where ns: "sl_chunks sp = split_chunks s (split_ranges s) (map segment_name ns)" "length ns = length (split_ranges s)"
    using t(3) by (auto simp: good_split_def)
  have "map snd (chunk_outputs d sp) = map (\<lambda>((x, y), n). take (y - x) (drop x (sg_lines s))) (zip (split_ranges s) (map segment_name ns))"
    by (simp add: chunk_outputs_def ns(1) split_chunks_def assms(4) segment_lines [OF assms(3)] case_prod_unfold)
  also have "\<dots> = map (\<lambda>(x, y). take (y - x) (drop x (sg_lines s))) (map fst (zip (split_ranges s) (map segment_name ns)))"
    by (simp add: case_prod_unfold)
  also have "\<dots> = map (\<lambda>(x, y). take (y - x) (drop x (sg_lines s))) (split_ranges s)" using ns(2) by simp
  finally have "concat (map snd (chunk_outputs d sp)) = concat (map (\<lambda>(x, y). take (y - x) (drop x (sg_lines s))) (split_ranges s))"
    by simp
  also have "\<dots> = sg_lines s"
    using slices_concat [OF pack_units_chain [of "map (\<lambda>b. \<lparr>pu_lines = 1, pu_bytes = b\<rparr>) (sg_lineBytes s)"], of "sg_lines s"] p assms(3)
    by (simp add: proper_segments_def)
  finally have "l \<in> set (concat (map snd (chunk_outputs d sp)))" using assms(5) by simp
  then show ?thesis by auto
qed

text \<open>Splits that write their own input last.\<close>

definition splits_downwards :: "segment_split list \<Rightarrow> bool" where
  "splits_downwards splits \<longleftrightarrow> (\<forall>sp \<in> set splits. sl_input sp \<notin> set (butlast (map ch_name (sl_chunks sp))))"

lemma prefix_keeps:
  assumes "partition_wf d" and "splits_downwards (planned_splits d)"
  shows "stored_lines d \<subseteq> stored_lines (after_writes d (take j (outputs_of d (plan_merges (segments_of d)) (planned_splits d))))"
proof
  let ?segs = "segments_of d" and ?splits = "planned_splits d"
  let ?ws = "outputs_of d (plan_merges ?segs) ?splits" and ?B = "concat (map (chunk_outputs d) ?splits)"
  note p = segments_proper [OF assms(1)] and ok = planned_splits_ok [OF assms(1)] and wc = written_content [OF assms(1)]
  fix l assume "l \<in> stored_lines d"
  then obtain n t where n: "is_numeric_chunk n" "map_of d n = Some t" "l \<in> set (file_lines t)" by (auto simp: stored_lines_def)
  then have "n \<in> sg_name ` set ?segs" unfolding segment_names dir_names by simp
  then obtain s where s: "s \<in> set ?segs" "n = sg_name s" by blast
  then have l: "l \<in> set (sg_lines s)" using n(2,3) segment_lines [OF s(1)] by (simp add: read_records_def content_of_def)
  have d: "distinct (map fst (take j ?ws))" using wc(3) by (simp add: take_map [symmetric])
  have nums: "\<forall>w \<in> set (take j ?ws). is_numeric_chunk (fst w)" using wc(4) in_set_takeD by metis
  have tk: "take j ?ws = take j (merge_outputs d) @ take (j - length (merge_outputs d)) ?B" by (simp add: outputs_parts)
  have "\<exists>w \<in> set (take j ?ws). l \<in> set (snd w)" if some: "map_of (take j ?ws) n = Some ls" for ls
  proof -
    have "(n, ls) \<in> set (take j ?ws)" using some by (rule map_of_SomeD)
    then consider (m) "(n, ls) \<in> set (take j (merge_outputs d))" | (c) "(n, ls) \<in> set (take (j - length (merge_outputs d)) ?B)"
      unfolding tk by auto
    then show ?thesis
    proof cases
      case m
      then have w: "(n, ls) \<in> set (merge_outputs d)" by (rule in_set_takeD)
      then obtain m where mm: "m \<in> set (plan_merges ?segs)" "n = mg_output m" "ls = concat (map (read_records d) (mg_inputs m))"
        by (auto simp: merge_outputs_def)
      then have "mg_output m \<in> set (mg_inputs m)"
      proof -
        obtain g where "g \<in> set (merged_groups ?segs)" "mg_inputs m = map sg_name (fst g)" "mg_output m = sg_name (hd (fst g))" "2 \<le> length (fst g)"
          using mm(1) by (auto simp: plan_merges_def merged_groups_def)
        then show ?thesis by (cases "fst g") auto
      qed
      then have "set (read_records d n) \<subseteq> set ls" using mm by auto
      then have "l \<in> set (snd (n, ls))" using l s segment_lines [OF s(1)] by auto
      then show ?thesis using m unfolding tk by (metis UnI1 set_append)
    next
      case c
      then have "\<not> j \<le> length (merge_outputs d)" by (cases "j \<le> length (merge_outputs d)") simp_all
      then have all: "set (merge_outputs d) \<subseteq> set (take j ?ws)" unfolding tk by simp
      obtain sp where sp: "sp \<in> set ?splits" "(n, ls) \<in> set (chunk_outputs d sp)" using in_set_takeD [OF c] by auto
      obtain t where t: "t \<in> set ?segs" "sl_input sp = sg_name t" "good_split (surviving_numbers ?segs) t sp"
        using split_owner [OF p ok sp(1)] by metis
      obtain ns where ns: "sl_chunks sp = split_chunks t (split_ranges t) (map segment_name ns)" "length ns = length (split_ranges t)"
        "\<forall>k \<in> set ns. k = sg_number t \<or> k \<notin> set (surviving_numbers ?segs)"
        using t(3) by (auto simp: good_split_def)
      have names: "map fst (chunk_outputs d sp) = map ch_name (sl_chunks sp)" "map ch_name (sl_chunks sp) = map segment_name ns"
        using chunk_names [of "map segment_name ns" "split_ranges t" t] ns(1,2) by (simp_all add: chunk_outputs_def comp_def)
      have "n \<in> set (map fst (chunk_outputs d sp))" using sp(2) by force
      then obtain k where k: "k \<in> set ns" "n = segment_name k" unfolding names by auto
      then have ks: "k = sg_number s" using p s by (auto simp: proper_segments_def)
      show ?thesis
      proof (cases "k = sg_number t")
        case True
        have "distinct (map sg_number ?segs)" using p strict_sorted_iff proper_segments_def by blast
        then have "t = s" using True ks t(1) s(1) by (simp add: distinct_map inj_on_def)
        then have own: "sl_input sp = n" using t(2) s(2) by simp
        have ne: "chunk_outputs d sp \<noteq> []" using sp(2) by auto
        have "n \<notin> set (butlast (map fst (chunk_outputs d sp)))" using assms(2) sp(1) own unfolding splits_downwards_def names(1) by metis
        then have "n = last (map fst (chunk_outputs d sp))"
          using \<open>n \<in> set (map fst (chunk_outputs d sp))\<close> ne by (metis append_butlast_last_id in_set_conv_decomp list.map_disc_iff rotate1.simps(2) set_ConsD set_rotate1)
        then have last: "fst (last (chunk_outputs d sp)) = n" using ne by (simp add: last_map)
        have dB: "distinct (map fst ?B)" using wc(3) by (simp add: outputs_parts)
        obtain ls' where ls': "last (chunk_outputs d sp) = (n, ls')" using last by (cases "last (chunk_outputs d sp)") simp
        have "(n, ls) \<in> set ?B" using sp by auto
        moreover have "last (chunk_outputs d sp) \<in> set (chunk_outputs d sp)" using ne by simp
        then have "(n, ls') \<in> set ?B" using sp(1) unfolding ls' by auto
        ultimately have "ls = ls'" by (rule eq_key_imp_eq_value [OF dB])
        then have "(n, ls) = last (chunk_outputs d sp)" by (simp add: ls')
        then have "set (chunk_outputs d sp) \<subseteq> set (take (j - length (merge_outputs d)) ?B)"
          using take_concat_part [of "chunk_outputs d" ?splits sp] c sp(1) ne dB by (metis distinct_map)
        then show ?thesis using split_output [OF assms(1) sp(1) s(1) _ l] own s(2) unfolding tk by auto
      next
        case False
        then have "sg_number s \<in> set (merged_away ?segs)" using ns(3) k(1) ks s(1) by (auto simp: surviving_numbers_def)
        then obtain b u where b: "b \<in> set (blocks_of ?segs)" "u \<in> set (tl b)" "sg_number u = sg_number s"
          unfolding merged_away_blocks by auto
        obtain x xs where xs: "b = x # xs" using b(2) by (cases b) auto
        have ub: "u \<in> set b" "2 \<le> length b" using b(2) unfolding xs by (simp, cases xs, simp_all)
        have "distinct (map sg_number ?segs)" using p strict_sorted_iff proper_segments_def by blast
        moreover have "u \<in> set ?segs" using b(1) ub(1) blocks_members [of ?segs] by blast
        ultimately have "u = s" using b(3) s(1) by (simp add: distinct_map inj_on_def)
        then show ?thesis using merged_output [OF b(1) ub(2,1)] l all by blast
      qed
    qed
  qed
  then show "l \<in> stored_lines (after_writes d (take j ?ws))"
    using in_written [OF assms(1)] writes_effect(1) [OF nums d n(1)] n
    by (cases "map_of (take j ?ws) n") (auto simp: stored_lines_def)
qed

lemma crash_prefix:
  assumes "partition_wf d" and "splits_downwards (planned_splits d)"
  shows "stored_lines d \<subseteq> stored_lines (foldl apply_op d (take k
    (replacement_writes d (plan_merges (segments_of d)) (planned_splits d) @
     map Unlink (removed_files (plan_merges (segments_of d)) (planned_splits d)))))"
proof -
  let ?W = "replacement_writes d (plan_merges (segments_of d)) (planned_splits d)"
  let ?R = "removed_files (plan_merges (segments_of d)) (planned_splits d)"
  show ?thesis
  proof (cases "k \<le> length ?W")
    case True
    then show ?thesis using partial_writes [of d k "outputs_of d (plan_merges (segments_of d)) (planned_splits d)"] prefix_keeps [OF assms]
      unfolding replacement_outputs by (metis append_Nil2 diff_is_0_eq take0 take_append)
  next
    case False
    let ?i = "k - length ?W"
    have "foldl apply_op d (take k (?W @ map Unlink ?R)) = foldl apply_op (written_dir d) (map Unlink (take ?i ?R))"
      using False by (simp add: written_dir_def take_map)
    moreover have "stored_lines (final_dir d) \<subseteq> stored_lines (foldl apply_op (written_dir d) (map Unlink (take ?i ?R)))"
      unfolding stored_lines_def final_dir_def unlink_effect using set_take_subset [of ?i ?R] by (auto split: if_splits)
    moreover have "stored_lines (final_dir d) = stored_lines d"
      using final_order(1) [OF assms(1)] by (metis ordered_stored)
    ultimately show ?thesis by simp
  qed
qed

lemma final_wf: "partition_wf d \<Longrightarrow> partition_wf (final_dir d)"
proof -
  assume wf: "partition_wf d"
  have "mset (list_numeric_segments (final_dir d)) = mset (filter is_numeric_chunk (map fst (final_dir d)))"
    using final_names(2) [OF wf] set_sort_by [of _ "filter is_numeric_chunk (map fst (final_dir d))"]
    by (intro set_eq_iff_mset_eq_distinct [THEN iffD1]) (simp_all add: list_numeric_segments_def)
  moreover have "distinct (map segment_number (list_numeric_segments (final_dir d)))"
    using layout_sorted(1) [OF segments_proper [OF wf] planned_splits_ok [OF wf]]
    by (simp add: final_names(1) [OF wf] comp_def strict_sorted_iff)
  ultimately have "distinct (map segment_number (filter is_numeric_chunk (map fst (final_dir d))))"
    by (metis mset_eq_imp_distinct_iff mset_map)
  then show ?thesis using final_names(2) [OF wf] by (simp add: partition_wf_def)
qed

lemma other_file:
  assumes "partition_wf d" and "\<not> is_numeric_chunk k" and "\<forall>n. k \<noteq> temp_name n"
  shows "map_of (final_dir d) k = map_of d k"
proof -
  note p = segments_proper [OF assms(1)] and ok = planned_splits_ok [OF assms(1)]
  let ?ws = "outputs_of d (plan_merges (segments_of d)) (planned_splits d)"
  have "\<forall>w \<in> set ws. fst w \<noteq> k \<Longrightarrow> map_of (after_writes d0 ws) k = map_of d0 k" for ws d0
    using assms(3) by (induction ws arbitrary: d0) (auto simp: after_writes_def one_write)
  then have "map_of (after_writes d ?ws) k = map_of d k" using written_content(4) [OF assms(1)] assms(2) by metis
  then have "map_of (written_dir d) k = map_of d k" by (simp add: written_dir_def replacement_outputs foldl_writes)
  moreover have "is_numeric_chunk n" if "n \<in> set (removed_files (plan_merges (segments_of d)) (planned_splits d))" for n
  proof -
    have "set (tl xs) \<subseteq> set xs" for xs :: "string list" by (cases xs) auto
    then have "n \<in> set (concat (map mg_inputs (plan_merges (segments_of d)))) \<or> n \<in> sl_input ` set (planned_splits d)"
      using that by (auto simp: removed_iff)
    then have "n \<in> sg_name ` set (segments_of d)"
    proof
      assume "n \<in> set (concat (map mg_inputs (plan_merges (segments_of d))))"
      then obtain b where b: "b \<in> set (blocks_of (segments_of d))" "n \<in> set (map sg_name b)" unfolding merge_inputs by auto
      then show ?thesis using blocks_members [of "segments_of d"] by auto
    next
      assume "n \<in> sl_input ` set (planned_splits d)"
      then show ?thesis using split_owner [OF p ok] by blast
    qed
    then show ?thesis unfolding segment_names by simp
  qed
  ultimately show ?thesis unfolding final_dir_def unlink_effect using assms(2) by auto
qed

section \<open>Properties\<close>

text \<open>C14: consolidation is the identity on what a reader sees.  On every partition without two segments of
  one number the planner returns a plan, the execution never trips one of its own checks, and the
  directory it leaves reads back as the same records in the same order; it is again such a partition, and
  the active file is untouched.\<close>

theorem consolidation_preserves:
  assumes "partition_wf d"
  shows "\<exists>d' p. execute_segment_consolidation False d = (d', Inr (p, pl_writtenFiles p, pl_removedFiles p)) \<and>
    read_ordered_lines d' = read_ordered_lines d \<and> partition_wf d' \<and> map_of d' current_chunk = map_of d current_chunk"
proof -
  obtain q where q: "plan_segment_consolidation (Some d) = Inr q" using plan_exists [OF assms] by metis
  let ?q = "q\<lparr>pl_segmentsAfter := int (length (list_numeric_segments (final_dir d)))\<rparr>"
  have "map_of (final_dir d) current_chunk = map_of d current_chunk"
    by (rule other_file [OF assms current_not_numeric]) (simp add: temp_name_def current_chunk_def)
  then show ?thesis using executes [OF assms q] final_order(1) [OF assms] final_wf [OF assms]
    by (intro exI [of _ "final_dir d"] exI [of _ ?q]) simp
qed

text \<open>Afterwards every segment is within the bounds, or holds one record, or is reported as unplaceable.\<close>

theorem consolidation_bounds:
  assumes "partition_wf d" and "execute_segment_consolidation False d = (d', Inr (p, written, removed))"
    and "n \<in> set (list_numeric_segments d')"
  shows "length (read_records d' n) \<le> segment_max_lines \<and> line_bytes (read_records d' n) \<le> segment_max_bytes \<or>
    length (read_records d' n) \<le> 1 \<or> n \<in> fst ` set (pl_unplaceable p)"
proof -
  obtain q where q: "plan_segment_consolidation (Some d) = Inr q" using plan_exists [OF assms(1)] by metis
  have d': "d' = final_dir d" "pl_unplaceable p = pl_unplaceable q" using executes [OF assms(1) q] assms(2) by auto
  have "pl_unplaceable q = planned_blockers d"
    using q by (auto simp: plan_segment_consolidation_def planned_blockers_def segments_of_def Let_def split: prod.splits)
  moreover obtain rs where "(n, rs) \<in> set (full_layout (segments_of d) (planned_splits d))"
    using assms(3) unfolding d' final_names(1) [OF assms(1)] by auto
  ultimately show ?thesis
    using layout_bounded [OF assms(1)] final_records [OF assms(1)] by (fastforce simp: d' within_bounds_def)
qed

text \<open>C27: a crash keeps every record, if each split writes the file it reads last.  After any prefix of the
  file operations every line of the partition is still in one of its segments.\<close>

theorem consolidation_crash_keeps_records:
  assumes "partition_wf d" and "plan_segment_consolidation (Some d) = Inr p"
    and "\<forall>sp \<in> set (pl_splits p). sl_input sp \<notin> set (butlast (map ch_name (sl_chunks sp)))"
  shows "set (read_ordered_lines d) \<subseteq>
    set (read_ordered_lines (foldl apply_op d (take k
      (replacement_writes d (pl_merges p) (pl_splits p) @ map Unlink (pl_removedFiles p)))))"
proof -
  obtain q where q: "plan_segment_consolidation (Some d) = Inr q" "pl_merges q = plan_merges (segments_of d)"
    "pl_splits q = planned_splits d" "pl_removedFiles q = removed_files (pl_merges q) (pl_splits q)"
    using plan_exists [OF assms(1)] by metis
  have p: "p = q" using assms(2) q(1) by simp
  then have "splits_downwards (planned_splits d)" using assms(3) by (simp add: splits_downwards_def q(3))
  then show ?thesis unfolding ordered_stored p q(2-4) by (rule crash_prefix [OF assms(1)])
qed

end
