(* ===== verification/Consolidation_Cases.thy ===== *)
theory Consolidation_Cases
  imports Segment_Consolidation
begin

text \<open>
  Two behaviours of segment consolidation its comments deny, \<^verbatim>\<open>src/storage/segment-consolidation.ts\<close>: a crash
  while an oversize last segment is split loses records, and a second plan need not be empty.  Then the
  instances at which the properties of the consolidation are applied.
\<close>

section \<open>A segment of more than a thousand short lines\<close>

lemma full_range:
  assumes "i \<le> segment_max_lines" and "segment_max_lines < length bl" and "sum_list bl \<le> segment_max_bytes"
  shows "pack_from 0 i i (sum_list (take i bl)) (map (\<lambda>b. \<lparr>pu_lines = 1, pu_bytes = b\<rparr>) (drop i bl)) =
    (0, segment_max_lines) # pack_from segment_max_lines (segment_max_lines + 1) 1 (bl ! segment_max_lines)
      (map (\<lambda>b. \<lparr>pu_lines = 1, pu_bytes = b\<rparr>) (drop (segment_max_lines + 1) bl))"
  using assms(1)
proof (induction i rule: inc_induct)
  case base
  then show ?case using assms(2)
    by (simp add: Cons_nth_drop_Suc [symmetric] segment_max_lines_def)
next
  case (step i)
  have "sum_list (take (Suc i) bl) \<le> sum_list bl" by (metis append_take_drop_id le_add1 sum_list_append)
  then have "sum_list (take i bl) + bl ! i \<le> segment_max_bytes"
    using assms(2,3) step.hyps by (simp add: take_Suc_conv_app_nth)
  then have "pack_from 0 i i (sum_list (take i bl)) (map (\<lambda>b. \<lparr>pu_lines = 1, pu_bytes = b\<rparr>) (drop i bl)) =
      pack_from 0 (Suc i) (Suc i) (sum_list (take (Suc i) bl)) (map (\<lambda>b. \<lparr>pu_lines = 1, pu_bytes = b\<rparr>) (drop (Suc i) bl))"
    using step.hyps assms(2) by (simp add: Cons_nth_drop_Suc [symmetric] take_Suc_conv_app_nth)
  then show ?case using step.IH by simp
qed

lemma full_split:
  assumes "segment_max_lines < length bl" and "sum_list bl \<le> segment_max_bytes"
  shows "pack_units (map (\<lambda>b. \<lparr>pu_lines = 1, pu_bytes = b\<rparr>) bl) =
    (0, segment_max_lines) # pack_from segment_max_lines (segment_max_lines + 1) 1 (bl ! segment_max_lines)
      (map (\<lambda>b. \<lparr>pu_lines = 1, pu_bytes = b\<rparr>) (drop (segment_max_lines + 1) bl))"
proof -
  have "bl \<noteq> []" using assms(1) by auto
  then show ?thesis using full_range [of 0 bl, OF _ assms] by (simp add: pack_units_def)
qed

lemma pack_from_nonempty: "pack_from a i l b us \<noteq> []"
  by (induction a i l b us rule: pack_from.induct) auto

lemma read_text:
  assumes "\<forall>l \<in> set ls. record_line l" and "map_of d n = Some (lines_text ls)"
  shows "read_segment d n = \<lparr>sg_name = n, sg_number = segment_number n, sg_sizeBytes = utf8_length (lines_text ls),
    sg_lines = ls, sg_lineBytes = map (\<lambda>l. utf8_length l + 1) ls\<rparr>"
  using assms by (simp add: read_segment_def content_of_def file_lines_text Let_def)

section \<open>A crash loses records\<close>

text \<open>The single segment of a partition, one line too long at least.\<close>

definition lone_segment :: "string list \<Rightarrow> ledger_dir" where
  "lone_segment ls = [(segment_name 1, lines_text ls)]"

lemma lone_wf: "partition_wf (lone_segment ls)"
  by (simp add: partition_wf_def lone_segment_def)

lemma lone_segments:
  assumes "\<forall>l \<in> set ls. record_line l"
  shows "segments_of (lone_segment ls) = [\<lparr>sg_name = segment_name 1, sg_number = 1, sg_sizeBytes = utf8_length (lines_text ls),
    sg_lines = ls, sg_lineBytes = map (\<lambda>l. utf8_length l + 1) ls\<rparr>]"
  using read_text [OF assms, of "lone_segment ls" "segment_name 1"]
  by (simp add: segments_of_def list_numeric_segments_def lone_segment_def)

lemma choose_below_none: "choose_below taken prev 0 c = []"
  by (cases c) simp_all

lemma lone_split:
  assumes "\<forall>l \<in> set ls. record_line l" and "segment_max_lines < length ls" and "line_bytes ls \<le> segment_max_bytes"
  shows "\<exists>sp cs. planned_splits (lone_segment ls) = [sp] \<and> sl_input sp = segment_name 1 \<and>
      sl_chunks sp = \<lparr>ch_name = segment_name 1, ch_from = 0, ch_to = segment_max_lines, ch_lines = segment_max_lines,
        ch_bytes = foldl (+) 0 (take segment_max_lines (map (\<lambda>l. utf8_length l + 1) ls))\<rparr> # cs"
    and "plan_merges (segments_of (lone_segment ls)) = []"
proof -
  let ?d = "lone_segment ls"
  obtain s where s: "segments_of ?d = [s]" "sg_number s = 1" "sg_name s = segment_name 1" "sg_lines s = ls"
    "sg_lineBytes s = map (\<lambda>l. utf8_length l + 1) ls" using lone_segments [OF assms(1)] by simp
  have over: "is_oversize s" using assms(2) s(4) by (simp add: is_oversize_def)
  then show "plan_merges (segments_of ?d) = []"
    unfolding s(1) by (simp add: plan_merges_def merged_groups_def)
  have surv: "surviving_numbers [s] = [1]" using over s(2) by (simp add: surviving_numbers_def merged_away_def merged_groups_def)
  obtain rest where ranges: "split_ranges s = (0, segment_max_lines) # rest" "rest \<noteq> []"
    using full_split [of "sg_lineBytes s"] assms(2,3) pack_from_nonempty unfolding s(5) line_bytes_def by simp
  let ?need = "length rest"
  have "split_names ?d 1 [1] [] ?need 1 = choose_above [1, 1] ?need 2"
    using ranges(2) by (simp add: split_names_def least_above_def Let_def numeral_2_eq_2)
  moreover have "\<forall>k \<in> set (choose_above [1, 1] ?need 2). 2 \<le> k" using choose_above_spec(1) [of "[1, 1]" ?need 2] by blast
  ultimately obtain ks where ks: "split_names ?d 1 [1] [] ?need 1 = ks" "\<forall>k \<in> set ks. 2 \<le> k" "length ks = ?need" "distinct ks"
    using choose_above_spec(2,3) by metis
  have "sort_by (compare_chunk_names (\<lambda>_ _. 0)) (map segment_name (ks @ [1])) = map segment_name (1 # sort ks)"
  proof -
    have "sorted_wrt (<) (map (segment_number \<circ> id) (map segment_name (1 # sort ks)))"
      using ks(2,4) by (auto simp: comp_def strict_sorted_iff)
    then show ?thesis using sort_names [of "map segment_name (ks @ [1])" id "map segment_name (1 # sort ks)"] by simp
  qed
  then obtain sp cs where sp: "split_segment ?d 1 [1] [] s = Inr (ks, sp)" "sl_input sp = segment_name 1"
    "sl_chunks sp = \<lparr>ch_name = segment_name 1, ch_from = 0, ch_to = segment_max_lines, ch_lines = segment_max_lines,
        ch_bytes = foldl (+) 0 (take segment_max_lines (map (\<lambda>l. utf8_length l + 1) ls))\<rparr> # cs"
    using ranges ks(1,3) s by (simp add: split_segment_def split_chunks_def Let_def)
  have "planned_splits ?d = [sp]"
    unfolding planned_splits_def s(1) surv using over s(2) sp(1) by (simp add: fst_plan_splits del: plan_splits.simps) (simp add: max_def)
  then show "\<exists>sp cs. planned_splits ?d = [sp] \<and> sl_input sp = segment_name 1 \<and>
      sl_chunks sp = \<lparr>ch_name = segment_name 1, ch_from = 0, ch_to = segment_max_lines, ch_lines = segment_max_lines,
        ch_bytes = foldl (+) 0 (take segment_max_lines (map (\<lambda>l. utf8_length l + 1) ls))\<rparr> # cs"
    using sp(2,3) by blast
qed

text \<open>C25: a crash can lose records.  When the only segment of a partition is too long, its first chunk is
  written over the segment itself; a crash right after that rename leaves the first thousand records, and
  the others were only in memory.\<close>

theorem consolidation_crash_loses_records:
  assumes "\<forall>l \<in> set ls. record_line l" and "segment_max_lines < length ls" and "line_bytes ls \<le> segment_max_bytes"
  shows "\<exists>p. plan_segment_consolidation (Some (lone_segment ls)) = Inr p \<and>
    read_ordered_lines (lone_segment ls) = ls \<and>
    read_ordered_lines (foldl apply_op (lone_segment ls)
      (take 2 (replacement_writes (lone_segment ls) (pl_merges p) (pl_splits p)))) = take segment_max_lines ls"
proof -
  let ?d = "lone_segment ls"
  obtain p where p: "plan_segment_consolidation (Some ?d) = Inr p" "pl_merges p = plan_merges (segments_of ?d)"
    "pl_splits p = planned_splits ?d"
    using plan_exists [OF lone_wf] by metis
  have before: "read_ordered_lines ?d = ls"
    using assms(1) by (simp add: read_ordered_lines_def list_numeric_segments_def lone_segment_def read_records_def content_of_def file_lines_text)
  have recs: "\<forall>l \<in> set (take segment_max_lines ls). record_line l" using assms(1) in_set_takeD by metis
  obtain sp cs where sp: "planned_splits ?d = [sp]" "sl_input sp = segment_name 1"
    "sl_chunks sp = \<lparr>ch_name = segment_name 1, ch_from = 0, ch_to = segment_max_lines, ch_lines = segment_max_lines,
        ch_bytes = foldl (+) 0 (take segment_max_lines (map (\<lambda>l. utf8_length l + 1) ls))\<rparr> # cs"
    using lone_split(1) [OF assms] by blast
  have lines: "read_records ?d (segment_name 1) = ls"
    using assms(1) by (simp add: read_records_def content_of_def lone_segment_def file_lines_text)
  have "take 2 (replacement_writes ?d (pl_merges p) (pl_splits p)) =
      write_segment_atomic (segment_name 1) (take segment_max_lines ls)"
    unfolding p(2,3) sp(1) lone_split(2) [OF assms] replacement_writes_def
    by (simp add: sp(2,3) lines [simplified] write_segment_atomic_def)
  then have "take 2 (replacement_writes ?d (pl_merges p) (pl_splits p)) =
      [Write_Temp (segment_name 1) (lines_text (take segment_max_lines ls)), Rename_Temp (segment_name 1)]"
    unfolding write_segment_atomic_def body_text .
  moreover have "foldl apply_op ?d [Write_Temp (segment_name 1) t, Rename_Temp (segment_name 1)] = [(segment_name 1, t)]" for t
    by (simp add: lone_segment_def obj_del_def)
  ultimately have "foldl apply_op ?d (take 2 (replacement_writes ?d (pl_merges p) (pl_splits p))) =
      [(segment_name 1, lines_text (take segment_max_lines ls))]"
    by (simp only:)
  then have "read_ordered_lines (foldl apply_op ?d (take 2 (replacement_writes ?d (pl_merges p) (pl_splits p)))) = take segment_max_lines ls"
    using recs by (simp add: read_ordered_lines_def list_numeric_segments_def read_records_def content_of_def file_lines_text)
  then show ?thesis using p(1) before by blast
qed

theorem consolidation_crash_loses_records_witness:
  "\<exists>p. plan_segment_consolidation (Some (lone_segment (replicate 1001 ''a''))) = Inr p \<and>
    read_ordered_lines (lone_segment (replicate 1001 ''a'')) = replicate 1001 ''a'' \<and>
    read_ordered_lines (foldl apply_op (lone_segment (replicate 1001 ''a''))
      (take 2 (replacement_writes (lone_segment (replicate 1001 ''a'')) (pl_merges p) (pl_splits p)))) = replicate 1000 ''a''"
proof -
  have "record_line ''a''" by code_simp
  moreover have "utf8_length ''a'' = 1" by code_simp
  ultimately show ?thesis using consolidation_crash_loses_records [of "replicate 1001 ''a''"]
    by (simp add: segment_max_lines_def segment_max_bytes_def line_bytes_def sum_list_replicate)
qed

section \<open>A second plan that is not empty\<close>

text \<open>A segment one line too long and a short one after it.\<close>

definition long_and_short :: "string list \<Rightarrow> string \<Rightarrow> ledger_dir" where
  "long_and_short ls m = [(segment_name 2, lines_text ls), (segment_name 3, lines_text [m])]"

lemma long_wf: "partition_wf (long_and_short ls m)"
  by (simp add: partition_wf_def long_and_short_def)

lemma two_listing: "list_numeric_segments (long_and_short ls m) = [segment_name 2, segment_name 3]"
  by (rule listing_unique) (auto simp: long_and_short_def)

lemma long_segments:
  assumes "\<forall>l \<in> set ls. record_line l" and "record_line m"
  obtains s t where "segments_of (long_and_short ls m) = [s, t]" "sg_number s = 2" "sg_name s = segment_name 2" "sg_lines s = ls"
    "sg_lineBytes s = map (\<lambda>l. utf8_length l + 1) ls" "sg_number t = 3" "sg_name t = segment_name 3" "sg_lines t = [m]"
    "sg_lineBytes t = [utf8_length m + 1]"
proof -
  have files: "map_of (long_and_short ls m) (segment_name 2) = Some (lines_text ls)"
    "map_of (long_and_short ls m) (segment_name 3) = Some (lines_text [m])" by (simp_all add: long_and_short_def)
  have "\<forall>l \<in> set [m]. record_line l" using assms(2) by simp
  then show ?thesis using that read_text [OF assms(1) files(1)] read_text [OF _ files(2)]
    by (simp add: segments_of_def two_listing)
qed

lemma long_layout:
  assumes "\<forall>l \<in> set ls. record_line l" and "record_line m" and "length ls = segment_max_lines + 1"
    and "line_bytes ls + line_bytes [m] \<le> segment_max_bytes"
  shows "map fst (full_layout (segments_of (long_and_short ls m)) (planned_splits (long_and_short ls m))) =
      [segment_name 1, segment_name 2, segment_name 3]"
    and "map (\<lambda>f. run_lines (segments_of (long_and_short ls m)) (snd f))
        (full_layout (segments_of (long_and_short ls m)) (planned_splits (long_and_short ls m))) =
      [take segment_max_lines ls, [ls ! segment_max_lines], [m]]"
proof -
  let ?d = "long_and_short ls m"
  obtain s t where st: "segments_of ?d = [s, t]" "sg_number s = 2" "sg_name s = segment_name 2" "sg_lines s = ls"
    "sg_lineBytes s = map (\<lambda>l. utf8_length l + 1) ls" "sg_number t = 3" "sg_name t = segment_name 3" "sg_lines t = [m]"
    "sg_lineBytes t = [utf8_length m + 1]" using long_segments [OF assms(1,2)] .
  have over: "is_oversize s" "\<not> is_oversize t"
    using assms(3,4) st(4,8,9) by (simp_all add: is_oversize_def segment_bytes_def line_bytes_def segment_max_lines_def)
  have surv: "surviving_numbers [s, t] = [2, 3]"
    using over st by (simp add: surviving_numbers_def merged_away_def merged_groups_def)
  have ranges: "split_ranges s = [(0, segment_max_lines), (segment_max_lines, segment_max_lines + 1)]"
    using full_split [of "sg_lineBytes s"] assms(3,4) unfolding st(5) by (simp add: line_bytes_def)
  have names: "split_names ?d 3 [2, 3] [] 1 2 = [1]"
    by (simp add: split_names_def greatest_below_def numeral_2_eq_2 Let_def)
  have srt: "sort_by (compare_chunk_names (\<lambda>_ _. 0)) (map segment_name ([1] @ [2])) = map segment_name [1, 2]"
    using sort_names [of "map segment_name [1, 2]" id "map segment_name [1, 2]"] by simp
  obtain sp where sp: "split_segment ?d 3 [2, 3] [] s = Inr ([1], sp)" "sl_input sp = segment_name 2"
    "sl_chunks sp = split_chunks s [(0, segment_max_lines), (segment_max_lines, segment_max_lines + 1)] (map segment_name [1, 2])"
    unfolding split_segment_def ranges st(2) using names srt st(3) by (simp add: Let_def)
  have ps: "planned_splits ?d = [sp]"
    unfolding planned_splits_def st(1) surv using over st(2,6) sp(1) by (simp add: fst_plan_splits del: plan_splits.simps) (simp add: max_def)
  have blocks: "blocks_of [s, t] = [[s], [t]]" using over by simp
  have lay: "full_layout [s, t] [sp] = [(segment_name 1, [(0, 0, segment_max_lines)]),
      (segment_name 2, [(0, segment_max_lines, segment_max_lines + 1)]), (segment_name 3, [(1, 0, 1)])]"
    using st(3,7,8) sp(2,3)
    by (simp add: over full_layout_def block_layout_def segment_layout_def split_chunks_def segment_index_def whole_run_def)
  have dr: "drop segment_max_lines ls = [ls ! segment_max_lines]"
    using assms(3) Cons_nth_drop_Suc [of segment_max_lines ls] by simp
  show "map fst (full_layout (segments_of ?d) (planned_splits ?d)) = [segment_name 1, segment_name 2, segment_name 3]"
    "map (\<lambda>f. run_lines (segments_of ?d) (snd f)) (full_layout (segments_of ?d) (planned_splits ?d)) =
      [take segment_max_lines ls, [ls ! segment_max_lines], [m]]"
    unfolding ps st(1) lay using st(4,8) dr by (simp_all add: run_lines_def)
qed

text \<open>Consolidation is not idempotent.  The last chunk of a split is not packed with the segment after
  it, so a second run, right after the first, finds work to do.\<close>

theorem consolidation_not_idempotent:
  assumes "\<forall>l \<in> set ls. record_line l" and "record_line m" and "length ls = segment_max_lines + 1"
    and "line_bytes ls + line_bytes [m] \<le> segment_max_bytes"
  shows "\<exists>d' r p. execute_segment_consolidation False (long_and_short ls m) = (d', Inr r) \<and>
    plan_segment_consolidation (Some d') = Inr p \<and> pl_merges p \<noteq> []"
proof -
  let ?d = "long_and_short ls m"
  obtain q where q: "plan_segment_consolidation (Some ?d) = Inr q" using plan_exists [OF long_wf] by metis
  obtain p where p: "plan_segment_consolidation (Some (final_dir ?d)) = Inr p" "pl_merges p = plan_merges (segments_of (final_dir ?d))"
    using plan_exists [OF final_wf [OF long_wf]] by metis
  have names: "list_numeric_segments (final_dir ?d) = [segment_name 1, segment_name 2, segment_name 3]"
    unfolding final_names(1) [OF long_wf] by (rule long_layout(1) [OF assms])
  have "map (read_records (final_dir ?d)) (list_numeric_segments (final_dir ?d)) =
      map (\<lambda>f. run_lines (segments_of ?d) (snd f)) (full_layout (segments_of ?d) (planned_splits ?d))"
    unfolding final_names(1) [OF long_wf] map_map comp_def using final_records [OF long_wf] by (intro map_cong) auto
  then have recs: "read_records (final_dir ?d) (segment_name 1) = take segment_max_lines ls"
    "read_records (final_dir ?d) (segment_name 2) = [ls ! segment_max_lines]" "read_records (final_dir ?d) (segment_name 3) = [m]"
    unfolding names long_layout(2) [OF assms] by simp_all
  obtain a b c where abc: "segments_of (final_dir ?d) = [a, b, c]" "sg_lines a = take segment_max_lines ls"
    "sg_lines b = [ls ! segment_max_lines]" "sg_lines c = [m]"
    using names recs by (simp add: segments_of_def)
  have pr: "proper_segments [a, b, c]" using segments_proper [OF final_wf [OF long_wf [of ls m]]] abc(1) by simp
  have bytes: "line_bytes (take segment_max_lines ls) \<le> segment_max_bytes" "line_bytes [ls ! segment_max_lines] + line_bytes [m] \<le> segment_max_bytes"
  proof -
    have "ls = take segment_max_lines ls @ [ls ! segment_max_lines]"
      using assms(3) by (metis Suc_eq_plus1 lessI take_Suc_conv_app_nth take_all_iff order_refl)
    then have "line_bytes ls = line_bytes (take segment_max_lines ls) + line_bytes [ls ! segment_max_lines]"
      by (metis (no_types) line_bytes_def map_append sum_list_append)
    then show "line_bytes (take segment_max_lines ls) \<le> segment_max_bytes" "line_bytes [ls ! segment_max_lines] + line_bytes [m] \<le> segment_max_bytes"
      using assms(4) by simp_all
  qed
  have sb: "segment_bytes a = line_bytes (sg_lines a)" "segment_bytes b = line_bytes (sg_lines b)" "segment_bytes c = line_bytes (sg_lines c)"
    using segment_bytes_lines [OF pr] by simp_all
  have small: "\<not> is_oversize a" "\<not> is_oversize b" "\<not> is_oversize c"
    using bytes abc(2-4) assms(3) by (simp_all add: is_oversize_def sb segment_max_lines_def)
  have "plan_merges [a, b, c] \<noteq> []"
    using small bytes abc(2-4) assms(3) by (simp add: plan_merges_def merged_groups_def sb segment_max_lines_def)
  then show ?thesis using executes [OF long_wf q] p abc(1) by auto
qed

theorem consolidation_not_idempotent_witness:
  "\<exists>d' r p. execute_segment_consolidation False (long_and_short (replicate 1001 ''a'') ''b'') = (d', Inr r) \<and>
    plan_segment_consolidation (Some d') = Inr p \<and> pl_merges p \<noteq> []"
proof -
  have "record_line ''a''" "record_line ''b''" by code_simp+
  moreover have "utf8_length ''a'' = 1" "utf8_length ''b'' = 1" by code_simp+
  ultimately show ?thesis using consolidation_not_idempotent [of "replicate 1001 ''a''" "''b''"]
    by (simp add: segment_max_lines_def segment_max_bytes_def line_bytes_def sum_list_replicate)
qed

section \<open>Instances\<close>

text \<open>Two segments of one line each, packed into one.\<close>

definition two_short :: ledger_dir where
  "two_short = [(''0001.jsonl'', ''a'' @ [newline]), (''current.jsonl'', ''c'' @ [newline]), (''0002.jsonl'', ''b'')]"

lemma two_short_wf: "partition_wf two_short"
  by code_simp

lemma two_short_segments:
  "segments_of two_short =
    [\<lparr>sg_name = ''0001.jsonl'', sg_number = 1, sg_sizeBytes = 2, sg_lines = [''a''], sg_lineBytes = [2]\<rparr>,
     \<lparr>sg_name = ''0002.jsonl'', sg_number = 2, sg_sizeBytes = 1, sg_lines = [''b''], sg_lineBytes = [2]\<rparr>]"
  by code_simp

lemma two_short_plan:
  "planned_splits two_short = []" "removed_files (plan_merges (segments_of two_short)) [] = [''0002.jsonl'']"
  by (simp_all add: two_short_segments planned_splits_def is_oversize_def segment_bytes_def plan_merges_def merged_groups_def
      removed_files_def written_files_def segment_max_lines_def segment_max_bytes_def)

theorem consolidation_preserves_witness:
  "\<exists>d' p. execute_segment_consolidation False two_short = (d', Inr (p, pl_writtenFiles p, pl_removedFiles p)) \<and>
    read_ordered_lines d' = [''a'', ''b'']"
proof -
  have "read_ordered_lines two_short = [''a'', ''b'']" by code_simp
  then show ?thesis using consolidation_preserves [OF two_short_wf] by metis
qed

theorem consolidation_bounds_witness:
  "\<exists>d' p. execute_segment_consolidation False two_short = (d', Inr (p, pl_writtenFiles p, pl_removedFiles p)) \<and>
    (\<forall>n \<in> set (list_numeric_segments d'). length (read_records d' n) \<le> 1000 \<or> n \<in> fst ` set (pl_unplaceable p))"
proof -
  obtain q where q: "plan_segment_consolidation (Some two_short) = Inr q" using plan_exists [OF two_short_wf] by metis
  let ?p = "q\<lparr>pl_segmentsAfter := int (length (list_numeric_segments (final_dir two_short)))\<rparr>"
  note x = executes [OF two_short_wf q]
  have "length (read_records (final_dir two_short) n) \<le> 1000 \<or> n \<in> fst ` set (pl_unplaceable ?p)"
    if "n \<in> set (list_numeric_segments (final_dir two_short))" for n
    using consolidation_bounds [OF two_short_wf x that] by (auto simp: segment_max_lines_def)
  then show ?thesis using x by (intro exI [of _ "final_dir two_short"] exI [of _ ?p]) simp
qed

theorem consolidation_crash_keeps_records_witness:
  "\<exists>p. plan_segment_consolidation (Some two_short) = Inr p \<and> pl_removedFiles p = [''0002.jsonl''] \<and>
    {''a'', ''b''} \<subseteq> set (read_ordered_lines (foldl apply_op two_short (take 2
      (replacement_writes two_short (pl_merges p) (pl_splits p) @ map Unlink (pl_removedFiles p)))))"
proof -
  obtain p where p: "plan_segment_consolidation (Some two_short) = Inr p" "pl_merges p = plan_merges (segments_of two_short)"
    "pl_splits p = planned_splits two_short" "pl_removedFiles p = removed_files (pl_merges p) (pl_splits p)"
    using plan_exists [OF two_short_wf] by metis
  have "read_ordered_lines two_short = [''a'', ''b'']" by code_simp
  then show ?thesis using consolidation_crash_keeps_records [OF two_short_wf p(1), of 2] p two_short_plan by simp
qed

end
