(* ===== verification/Table_Registry.thy ===== *)
theory Table_Registry
  imports Schema_Json
begin

text \<open>
  The table registries: the declarations a namespace registers from \<^verbatim>\<open>schema.json\<close>
  (\<^verbatim>\<open>src/serialization/registry.ts\<close> and the loader of \<^verbatim>\<open>src/serialization/schemaRegistry.ts\<close>), and the
  registry of \<^verbatim>\<open>src/schema/table-registry.ts\<close> that joins them with the \<^verbatim>\<open>tables/<table>.table.json\<close>
  files.  The process-wide maps are modelled for one namespace and one root.  A file is its stat
  identity and its text; an unreadable text is \<open>None\<close>.
\<close>

section \<open>Durable declarations\<close>

record registered_table =
  rg_table :: string
  rg_path :: string
  rg_shape :: string
  rg_keys :: "string list"
  rg_columns :: "declared_column list"
  rg_policy :: "table_policy option"
  rg_version :: jsnum
  rg_hash :: string

type_synonym declaration_map = "(string \<times> registered_table) list"

definition register_declaration :: "registered_table \<Rightarrow> declaration_map \<Rightarrow> declaration_map" where
  "register_declaration d m = obj_set (rg_table d) d m"

definition get_declaration :: "declaration_map \<Rightarrow> string \<Rightarrow> registered_table option" where
  "get_declaration m table = map_of m table"

definition list_declarations :: "declaration_map \<Rightarrow> registered_table list" where
  "list_declarations m = map snd m"

definition clear_declarations :: "declaration_map \<Rightarrow> declaration_map" where
  "clear_declarations m = []"

definition registered_of :: "string \<Rightarrow> string \<times> schema_table \<Rightarrow> registered_table" where
  "registered_of hash e =
     (case e of (name, t) \<Rightarrow>
        \<lparr>rg_table = name, rg_path = st_path t, rg_shape = st_shape t, rg_keys = st_keys t,
         rg_columns = st_columns t, rg_policy = st_policy t, rg_version = st_version t, rg_hash = hash\<rparr>)"

definition register_document :: "schema_document \<Rightarrow> string \<Rightarrow> declaration_map \<Rightarrow> declaration_map" where
  "register_document doc hash m =
     foldl (\<lambda>m e. register_declaration (registered_of hash e) m) (clear_declarations m) (sd_tables doc)"

section \<open>Loading \<^verbatim>\<open>schema.json\<close>\<close>

datatype schema_failure = Unreadable | Not_Json | Bad_Document "schema_problem list"

record namespace_schema =
  ns_present :: bool
  ns_document :: schema_document
  ns_hash :: string
  ns_fresh :: bool
  ns_error :: "schema_failure option"

text \<open>The cached schema with the identity it was read at, and the registered declarations.\<close>

record registry_state =
  rs_cache :: "(string option \<times> namespace_schema) option"
  rs_declarations :: declaration_map

record registry_env =
  ge_parse :: json_parser
  ge_fmt :: "rat \<Rightarrow> string"
  ge_date :: "string \<Rightarrow> int option"
  ge_sha :: "string \<Rightarrow> string"

definition failed_schema :: "schema_failure \<Rightarrow> namespace_schema option \<Rightarrow> namespace_schema" where
  "failed_schema e fallback =
     (case fallback of
        Some s \<Rightarrow>
          if ns_present s then s\<lparr>ns_fresh := False, ns_error := Some e\<rparr>
          else \<lparr>ns_present = False, ns_document = empty_schema_document, ns_hash = [], ns_fresh = False,
                ns_error = Some e\<rparr>
      | None \<Rightarrow>
          \<lparr>ns_present = False, ns_document = empty_schema_document, ns_hash = [], ns_fresh = False,
           ns_error = Some e\<rparr>)"

definition store_schema ::
  "string option \<Rightarrow> namespace_schema \<Rightarrow> registry_state \<Rightarrow> registry_state \<times> namespace_schema" where
  "store_schema identity s st = (st\<lparr>rs_cache := Some (identity, s)\<rparr>, s)"

text \<open>Reading the file: the failure, or the document with its hash and whether it has a \<^verbatim>\<open>tables\<close> property.\<close>

definition has_tables :: "json \<Rightarrow> bool" where
  "has_tables raw \<longleftrightarrow> (case raw of JObj ps \<Rightarrow> map_of ps ''tables'' \<noteq> None | _ \<Rightarrow> False)"

definition read_schema_text ::
  "registry_env \<Rightarrow> string option \<Rightarrow> schema_failure + bool \<times> schema_document \<times> string" where
  "read_schema_text env t =
     (case t of
        None \<Rightarrow> Inl Unreadable
      | Some text \<Rightarrow>
          (case ge_parse env text of
             None \<Rightarrow> Inl Not_Json
           | Some raw \<Rightarrow>
               let problems = schema_document_problems (ge_fmt env) (ge_date env) raw
               in (case (problems, parse_document raw) of
                     ([], Some doc) \<Rightarrow> Inr (has_tables raw, doc, ge_sha env text)
                   | _ \<Rightarrow> Inl (Bad_Document problems))))"

text \<open>
  One load.  \<open>file\<close> is \<open>None\<close> when the file is missing.  A document without \<^verbatim>\<open>tables\<close> passes the
  checks and then stops the loader with a type error (\<open>Inl\<close>) after the old declarations were
  cleared: the document is used raw.
\<close>

definition load_uncached ::
  "registry_env \<Rightarrow> (string \<times> string option) option \<Rightarrow> string option \<Rightarrow> registry_state \<Rightarrow> registry_state
     \<Rightarrow> registry_state \<times> (unit + namespace_schema)" where
  "load_uncached env file identity cleared st =
     (case file of
        None \<Rightarrow>
          apsnd Inr (store_schema identity
            \<lparr>ns_present = False, ns_document = empty_schema_document, ns_hash = [], ns_fresh = True,
             ns_error = None\<rparr> cleared)
      | Some (i, t) \<Rightarrow>
          (case read_schema_text env t of
             Inl e \<Rightarrow> apsnd Inr (store_schema identity (failed_schema e (map_option snd (rs_cache st))) st)
           | Inr (tables, doc, hash) \<Rightarrow>
               if \<not> tables then (cleared, Inl ())
               else apsnd Inr (store_schema identity
                 \<lparr>ns_present = True, ns_document = doc, ns_hash = hash, ns_fresh = True, ns_error = None\<rparr>
                 (st\<lparr>rs_declarations := register_document doc hash (rs_declarations st)\<rparr>))))"

definition load_namespace_schema ::
  "registry_env \<Rightarrow> (string \<times> string option) option \<Rightarrow> bool \<Rightarrow> registry_state
     \<Rightarrow> registry_state \<times> (unit + namespace_schema)" where
  "load_namespace_schema env file force st =
     (let identity = map_option fst file;
          cleared = st\<lparr>rs_declarations := clear_declarations (rs_declarations st)\<rparr>
      in case (force, rs_cache st) of
           (False, Some (i, s)) \<Rightarrow>
             if i = identity then (st, Inr s) else load_uncached env file identity cleared st
         | _ \<Rightarrow> load_uncached env file identity cleared st)"

definition invalidate_namespace_schema :: "registry_state \<Rightarrow> registry_state" where
  "invalidate_namespace_schema st = st\<lparr>rs_cache := None\<rparr>"

definition assert_namespace_schema_usable ::
  "registry_env \<Rightarrow> (string \<times> string option) option \<Rightarrow> registry_state
     \<Rightarrow> registry_state \<times> (string + namespace_schema)" where
  "assert_namespace_schema_usable env file st =
     (case load_namespace_schema env file False st of
        (st', Inl ()) \<Rightarrow> (st', Inl ''TypeError'')
      | (st', Inr s) \<Rightarrow>
          (st', if ns_error s \<noteq> None \<and> \<not> ns_fresh s then Inl ''SCHEMA_INVALID'' else Inr s))"

definition get_declared_table ::
  "registry_env \<Rightarrow> (string \<times> string option) option \<Rightarrow> registry_state \<Rightarrow> string
     \<Rightarrow> registry_state \<times> (unit + registered_table option)" where
  "get_declared_table env file st table =
     (case load_namespace_schema env file False st of
        (st', Inl u) \<Rightarrow> (st', Inl u)
      | (st', Inr s) \<Rightarrow> (st', Inr (get_declaration (rs_declarations st') table)))"

text \<open>\<open>lc\<close> is \<^verbatim>\<open>localeCompare\<close>.\<close>

definition list_declared_tables ::
  "(string \<Rightarrow> string \<Rightarrow> int) \<Rightarrow> registry_env \<Rightarrow> (string \<times> string option) option \<Rightarrow> registry_state
     \<Rightarrow> registry_state \<times> (unit + registered_table list)" where
  "list_declared_tables lc env file st =
     (case load_namespace_schema env file False st of
        (st', Inl u) \<Rightarrow> (st', Inl u)
      | (st', Inr s) \<Rightarrow>
          (st', Inr (sort_by (\<lambda>a b. lc (rg_table a) (rg_table b)) (list_declarations (rs_declarations st')))))"

section \<open>Table declarations\<close>

definition table_column_types :: "string list" where
  "table_column_types = [''varchar'', ''integer'', ''bigint'', ''double'', ''boolean'', ''timestamp'', ''json'']"

datatype table_format = Objects_Format | Positional_Format

definition format_of_text :: "string \<Rightarrow> table_format option" where
  "format_of_text s =
     (if s = ''jsonl-objects'' then Some Objects_Format
      else if s = ''jsonl-positional'' then Some Positional_Format else None)"

datatype table_source = From_Schema | Legacy_Source

text \<open>\<open>tc_default\<close> is \<open>Some\<close> exactly when \<^verbatim>\<open>hasDefault\<close> holds.\<close>

record table_column =
  tc_name :: string
  tc_type :: string
  tc_declared :: "declared_type option"
  tc_nullable :: "bool option"
  tc_default :: "json option"
  tc_references :: "column_reference option"

record table_declaration =
  td_name :: string
  td_format :: table_format
  td_columns :: "table_column list"
  td_primary :: "string option"
  td_glob :: string
  td_keys :: "string list option"
  td_policy :: "table_policy option"
  td_version :: "jsnum option"
  td_source :: table_source

datatype declaration_error =
    Not_Declaration_Object | Declaration_Name | Declaration_File_Name | Declaration_Format
  | Declaration_Columns | Column_Not_Object | Column_Identifier | Column_Twice string
  | Column_Type string | Declaration_Primary | Declaration_Glob | Glob_Escapes
  | Declaration_Policy policy_error | Unparseable_Declaration

definition declaration_name_ok :: "string \<Rightarrow> bool" where
  "declaration_name_ok s \<longleftrightarrow>
     s \<noteq> [] \<and> list_all (\<lambda>c. is_lower c \<or> is_digit c \<or> c = CHR ''_'' \<or> c = CHR ''-'') s"

definition table_ext :: string where
  "table_ext = ''.table.json''"

definition declaration_base :: "string \<Rightarrow> string" where
  "declaration_base f = (if ends_with table_ext f then take (length f - length table_ext) f else f)"

definition legacy_column :: "string list \<Rightarrow> json \<Rightarrow> declaration_error + table_column" where
  "legacy_column seen col =
     (case as_record col of
        None \<Rightarrow> Inl Column_Not_Object
      | Some ps \<Rightarrow>
          (case map_of ps ''name'' of
             Some (JStr n) \<Rightarrow>
               if \<not> column_name_ok n then Inl Column_Identifier
               else if n \<in> set seen then Inl (Column_Twice n)
               else (case map_of ps ''type'' of
                       Some (JStr t) \<Rightarrow>
                         if t \<in> set table_column_types
                         then Inr \<lparr>tc_name = n, tc_type = t, tc_declared = None, tc_nullable = None,
                                   tc_default = None, tc_references = None\<rparr>
                         else Inl (Column_Type n)
                     | _ \<Rightarrow> Inl (Column_Type n))
           | _ \<Rightarrow> Inl Column_Identifier))"

fun legacy_columns :: "string list \<Rightarrow> json list \<Rightarrow> declaration_error + table_column list" where
  "legacy_columns seen [] = Inr []"
| "legacy_columns seen (v # vs) =
     res_bind (legacy_column seen v) (\<lambda>c.
     res_bind (legacy_columns (tc_name c # seen) vs) (\<lambda>cs. Inr (c # cs)))"

definition legacy_primary :: "json option \<Rightarrow> table_column list \<Rightarrow> declaration_error + string option" where
  "legacy_primary v cols =
     (case v of
        None \<Rightarrow> Inr None
      | Some JNull \<Rightarrow> Inr None
      | Some (JStr p) \<Rightarrow> if p \<in> tc_name ` set cols then Inr (Some p) else Inl Declaration_Primary
      | _ \<Rightarrow> Inl Declaration_Primary)"

definition legacy_glob :: "json option \<Rightarrow> declaration_error + string" where
  "legacy_glob v =
     (case v of
        Some (JStr g) \<Rightarrow>
          if g = [] then Inl Declaration_Glob
          else if starts_with ''/'' g \<or> str_includes ''..'' g then Inl Glob_Escapes
          else Inr g
      | _ \<Rightarrow> Inl Declaration_Glob)"

definition policy_or_error ::
  "json option \<Rightarrow> string \<Rightarrow> string list \<Rightarrow> declaration_error + table_policy option" where
  "policy_or_error raw table columns =
     (case parse_table_policy raw table columns of Inl e \<Rightarrow> Inl (Declaration_Policy e) | Inr p \<Rightarrow> Inr p)"

definition validate_table_declaration :: "string \<Rightarrow> json \<Rightarrow> declaration_error + table_declaration" where
  "validate_table_declaration f raw =
     (case as_record raw of
        None \<Rightarrow> Inl Not_Declaration_Object
      | Some ps \<Rightarrow>
          (case map_of ps ''name'' of
             Some (JStr name) \<Rightarrow>
               if \<not> declaration_name_ok name then Inl Declaration_Name
               else if name \<noteq> declaration_base f then Inl Declaration_File_Name
               else (case Option.bind (Option.bind (map_of ps ''format'') string_of) format_of_text of
                  None \<Rightarrow> Inl Declaration_Format
                | Some fmt \<Rightarrow>
                    if array_items (map_of ps ''columns'') = [] then Inl Declaration_Columns
                    else res_bind (legacy_columns [] (array_items (map_of ps ''columns''))) (\<lambda>cols.
                      res_bind (legacy_primary (map_of ps ''primary'') cols) (\<lambda>primary.
                      res_bind (legacy_glob (map_of ps ''glob'')) (\<lambda>glob.
                      res_bind (policy_or_error (map_of ps ''policy'') name (map tc_name cols)) (\<lambda>policy.
                        Inr \<lparr>td_name = name, td_format = fmt, td_columns = cols, td_primary = primary,
                             td_glob = glob, td_keys = None, td_policy = policy, td_version = None,
                             td_source = Legacy_Source\<rparr>)))))
           | _ \<Rightarrow> Inl Declaration_Name))"

section \<open>The files under \<^verbatim>\<open>tables/\<close>\<close>

text \<open>A file with its stamp (\<^verbatim>\<open>mtimeMs\<close>, \<^verbatim>\<open>size\<close>); the directory is \<open>None\<close> when it cannot be listed.\<close>

record table_file =
  tf_name :: string
  tf_stamp :: "rat \<times> nat"
  tf_text :: "string option"

type_synonym tables_dir = "table_file list option"
type_synonym dir_snapshot = "(string \<times> rat \<times> nat) list"

definition declaration_files :: "table_file list \<Rightarrow> table_file list" where
  "declaration_files fs = filter (\<lambda>f. ends_with table_ext (tf_name f)) fs"

definition read_declaration_file :: "json_parser \<Rightarrow> table_file \<Rightarrow> declaration_error + table_declaration" where
  "read_declaration_file parse f =
     (case Option.bind (tf_text f) parse of
        None \<Rightarrow> Inl Unparseable_Declaration
      | Some raw \<Rightarrow> validate_table_declaration (tf_name f) raw)"

definition read_namespace_declarations ::
  "json_parser \<Rightarrow> tables_dir \<Rightarrow> declaration_error + table_declaration list" where
  "read_namespace_declarations parse dir =
     (case dir of
        None \<Rightarrow> Inr []
      | Some fs \<Rightarrow> res_map (read_declaration_file parse) (declaration_files (sort_key tf_name fs)))"

definition tables_dir_snapshot :: "tables_dir \<Rightarrow> dir_snapshot option" where
  "tables_dir_snapshot dir = map_option (\<lambda>fs. map (\<lambda>f. (tf_name f, tf_stamp f)) (declaration_files fs)) dir"

definition snapshots_differ :: "dir_snapshot \<Rightarrow> dir_snapshot \<Rightarrow> bool" where
  "snapshots_differ l r \<longleftrightarrow>
     length l \<noteq> length r \<or> list_ex (\<lambda>(name, stamp). map_of r name \<noteq> Some stamp) l"

type_synonym registry_cache = "(table_declaration list \<times> dir_snapshot) option"

definition legacy_declarations ::
  "json_parser \<Rightarrow> tables_dir \<Rightarrow> registry_cache \<Rightarrow> registry_cache \<times> (declaration_error + table_declaration list)" where
  "legacy_declarations parse dir cache =
     (case tables_dir_snapshot dir of
        None \<Rightarrow> (None, read_namespace_declarations parse dir)
      | Some fresh \<Rightarrow>
          (case cache of
             Some (decls, snap) \<Rightarrow>
               if (0 < length snap \<or> dir \<noteq> None) \<and> \<not> snapshots_differ snap fresh then (cache, Inr decls)
               else (case read_namespace_declarations parse dir of
                       Inl e \<Rightarrow> (cache, Inl e)
                     | Inr ds \<Rightarrow> (Some (ds, fresh), Inr ds))
           | None \<Rightarrow>
               (case read_namespace_declarations parse dir of
                  Inl e \<Rightarrow> (None, Inl e)
                | Inr ds \<Rightarrow> (Some (ds, fresh), Inr ds))))"

section \<open>One view of both registries\<close>

definition rule_json :: "row_policy_rule \<Rightarrow> json" where
  "rule_json r = JObj [(''column'', JStr (rule_column r)), (''equals'', JStr (rule_equals r))]"

definition policy_json :: "table_policy \<Rightarrow> json" where
  "policy_json p =
     JObj ((case tp_read p of None \<Rightarrow> [] | Some r \<Rightarrow> [(''read'', rule_json r)]) @
           (case tp_write p of None \<Rightarrow> [] | Some r \<Rightarrow> [(''write'', rule_json r)]))"

definition duck_type :: "declared_type \<Rightarrow> string" where
  "duck_type t = (case duck_column_type_for_declared t of None \<Rightarrow> [] | Some s \<Rightarrow> s)"

definition table_column_of :: "declared_column \<Rightarrow> table_column" where
  "table_column_of c =
     \<lparr>tc_name = dc_name c, tc_type = duck_type (dc_type c), tc_declared = Some (dc_type c),
      tc_nullable = Some (dc_nullable c), tc_default = dc_default c, tc_references = dc_references c\<rparr>"

definition table_declaration_from_schema :: "registered_table \<Rightarrow> declaration_error + table_declaration" where
  "table_declaration_from_schema d =
     res_bind (policy_or_error (map_option policy_json (rg_policy d)) (rg_table d) (map dc_name (rg_columns d)))
       (\<lambda>policy.
         Inr \<lparr>td_name = rg_table d,
              td_format = (if rg_shape d = shape_text Positional_Rows then Positional_Format else Objects_Format),
              td_columns = map table_column_of (rg_columns d),
              td_primary = single_key_column (rg_keys d), td_glob = rg_path d,
              td_keys = Some (rg_keys d), td_policy = policy, td_version = Some (rg_version d),
              td_source = From_Schema\<rparr>)"

definition list_tables ::
  "declaration_error + table_declaration list \<Rightarrow> registered_table list
     \<Rightarrow> declaration_error + table_declaration list" where
  "list_tables legacy registered =
     res_bind legacy (\<lambda>ls.
     res_bind (res_map table_declaration_from_schema registered) (\<lambda>ds.
       Inr (ls @ filter (\<lambda>d. td_name d \<notin> td_name ` set ls) ds)))"

datatype registry_error = Registry_Broken declaration_error | Table_Not_Found

definition get_table ::
  "declaration_error + table_declaration list \<Rightarrow> string \<Rightarrow> registry_error + table_declaration" where
  "get_table tables table =
     (case tables of
        Inl e \<Rightarrow> Inl (Registry_Broken e)
      | Inr ds \<Rightarrow>
          (case List.find (\<lambda>d. td_name d = table) ds of None \<Rightarrow> Inl Table_Not_Found | Some d \<Rightarrow> Inr d))"

section \<open>The last valid document\<close>

lemma register_document_fresh: "register_document doc h m = register_document doc h []"
  by (simp add: register_document_def clear_declarations_def)

text \<open>What a process should serve: the last valid document since the file last was missing.\<close>

definition next_good ::
  "registry_env \<Rightarrow> (schema_document \<times> string) option \<Rightarrow> (string \<times> string option) option
     \<Rightarrow> (schema_document \<times> string) option" where
  "next_good env g file =
     (case file of
        None \<Rightarrow> None
      | Some (i, t) \<Rightarrow> (case read_schema_text env t of Inl e \<Rightarrow> g | Inr (tables, doc, hash) \<Rightarrow> Some (doc, hash)))"

definition file_failure :: "registry_env \<Rightarrow> (string \<times> string option) option \<Rightarrow> schema_failure option" where
  "file_failure env file =
     (case file of
        None \<Rightarrow> None
      | Some (i, t) \<Rightarrow> (case read_schema_text env t of Inl e \<Rightarrow> Some e | Inr r \<Rightarrow> None))"

definition expected_schema ::
  "(schema_document \<times> string) option \<Rightarrow> schema_failure option \<Rightarrow> namespace_schema" where
  "expected_schema g e =
     \<lparr>ns_present = (g \<noteq> None),
      ns_document = (case g of None \<Rightarrow> empty_schema_document | Some (doc, h) \<Rightarrow> doc),
      ns_hash = (case g of None \<Rightarrow> [] | Some (doc, h) \<Rightarrow> h), ns_fresh = (e = None), ns_error = e\<rparr>"

definition served :: "(schema_document \<times> string) option \<Rightarrow> declaration_map" where
  "served g = (case g of None \<Rightarrow> [] | Some (doc, h) \<Rightarrow> register_document doc h [])"

fun load_run ::
  "registry_env \<Rightarrow> (string \<times> string option) option list \<Rightarrow> registry_state
     \<Rightarrow> registry_state \<times> (unit + namespace_schema) list" where
  "load_run env [] st = (st, [])"
| "load_run env (f # fs) st =
     (case load_namespace_schema env f False st of
        (st1, a) \<Rightarrow> (case load_run env fs st1 of (st2, as) \<Rightarrow> (st2, a # as)))"

fun good_run ::
  "registry_env \<Rightarrow> (schema_document \<times> string) option \<Rightarrow> (string \<times> string option) option list
     \<Rightarrow> (schema_document \<times> string) option list" where
  "good_run env g [] = []"
| "good_run env g (f # fs) = next_good env g f # good_run env (next_good env g f) fs"

definition registry_matches ::
  "registry_env \<Rightarrow> (schema_document \<times> string) option \<Rightarrow> (string \<times> string option) option list
     \<Rightarrow> registry_state \<Rightarrow> bool" where
  "registry_matches env g past st \<longleftrightarrow>
     rs_declarations st = served g \<and>
     (case rs_cache st of
        None \<Rightarrow> g = None
      | Some (i, s) \<Rightarrow> (\<exists>f \<in> set past. i = map_option fst f \<and> s = expected_schema g (file_failure env f) \<and>
          next_good env g f = g))"

definition loadable :: "registry_env \<Rightarrow> (string \<times> string option) option \<Rightarrow> bool" where
  "loadable env f \<longleftrightarrow>
     (case f of None \<Rightarrow> True
      | Some (i, t) \<Rightarrow> (case read_schema_text env t of Inr (tables, r) \<Rightarrow> tables | Inl e \<Rightarrow> True))"

lemma load_uncached_matches:
  assumes "registry_matches env g past st" and "loadable env f"
  shows "load_uncached env f (map_option fst f) (st\<lparr>rs_declarations := clear_declarations (rs_declarations st)\<rparr>) st =
      (\<lparr>rs_cache = Some (map_option fst f, expected_schema (next_good env g f) (file_failure env f)),
        rs_declarations = served (next_good env g f)\<rparr>,
       Inr (expected_schema (next_good env g f) (file_failure env f)))"
proof (cases f)
  case None
  then show ?thesis
    by (simp add: load_uncached_def store_schema_def expected_schema_def next_good_def file_failure_def served_def
        clear_declarations_def)
next
  case (Some it)
  obtain i t where it: "it = (i, t)" by (cases it)
  show ?thesis
  proof (cases "read_schema_text env t")
    case (Inl e)
    have "failed_schema e (map_option snd (rs_cache st)) = expected_schema g (Some e)"
    proof (cases "rs_cache st")
      case None
      then show ?thesis using assms(1) by (simp add: registry_matches_def failed_schema_def expected_schema_def)
    next
      case (Some c)
      then obtain h where "snd c = expected_schema g h"
        using assms(1) by (cases c) (auto simp: registry_matches_def)
      then show ?thesis
        by (cases g) (simp_all add: Some failed_schema_def expected_schema_def)
    qed
    then show ?thesis using assms(1)
      by (simp add: Some it Inl load_uncached_def store_schema_def next_good_def file_failure_def registry_matches_def)
  next
    case (Inr r)
    obtain tables doc h where r: "r = (tables, doc, h)" by (cases r) auto
    then have "tables" using assms(2) by (simp add: Some it Inr loadable_def)
    then show ?thesis
      by (simp add: Some it Inr r load_uncached_def store_schema_def next_good_def file_failure_def expected_schema_def
          served_def register_document_fresh [of doc h "rs_declarations st"])
  qed
qed

lemma load_matches:
  assumes m: "registry_matches env g past st" and l: "loadable env f"
    and same: "\<And>p. p \<in> set past \<Longrightarrow> map_option fst p = map_option fst f \<Longrightarrow> p = f"
    and r: "load_namespace_schema env f False st = (st', a)"
  shows "registry_matches env (next_good env g f) (f # past) st' \<and>
    a = Inr (expected_schema (next_good env g f) (file_failure env f))"
proof (cases "\<exists>s. rs_cache st = Some (map_option fst f, s)")
  case True
  then obtain s where s: "rs_cache st = Some (map_option fst f, s)" by blast
  then obtain p where p: "p \<in> set past" "map_option fst p = map_option fst f"
      "s = expected_schema g (file_failure env p)" "next_good env g p = g"
    using m by (auto simp: registry_matches_def)
  then have "p = f" using same by blast
  moreover have "st' = st" "a = Inr s" using r s by (simp_all add: load_namespace_schema_def)
  ultimately show ?thesis using m p s by (auto simp: registry_matches_def)
next
  case False
  then have u: "load_namespace_schema env f False st =
      load_uncached env f (map_option fst f) (st\<lparr>rs_declarations := clear_declarations (rs_declarations st)\<rparr>) st"
    by (cases "rs_cache st") (auto simp: load_namespace_schema_def)
  have "next_good env (next_good env g f) f = next_good env g f"
    by (simp add: next_good_def split: option.splits prod.splits sum.splits)
  then show ?thesis
    using r u load_uncached_matches [OF m l] by (auto simp: registry_matches_def)
qed


section \<open>The cache is a fresh scan\<close>

definition dir_names_distinct :: "table_file list \<Rightarrow> bool" where
  "dir_names_distinct fs \<longleftrightarrow> distinct (map tf_name fs)"

text \<open>A rewrite of a file moves its stamp.\<close>

definition stamps_identify :: "table_file list \<Rightarrow> table_file list \<Rightarrow> bool" where
  "stamps_identify old new \<longleftrightarrow>
     (\<forall>f \<in> set old. \<forall>g \<in> set new. tf_name f = tf_name g \<longrightarrow> tf_stamp f = tf_stamp g \<longrightarrow> tf_text f = tf_text g)"

lemma sort_key_determined:
  assumes "set xs = set ys" and "distinct (map f xs)" and "distinct (map f ys)"
  shows "sort_key f xs = sort_key (f :: 'a \<Rightarrow> 'k :: linorder) ys"
proof (rule map_sorted_distinct_set_unique)
  show "inj_on f (set (sort_key f xs) \<union> set (sort_key f ys))"
    using assms by (simp add: distinct_map)
  show "distinct (map f (sort_key f xs))" "distinct (map f (sort_key f ys))"
    using assms(2,3) by (simp_all add: distinct_map)
qed (use assms(1) in simp_all)

lemma declaration_files_sort:
  "declaration_files (sort_key tf_name fs) = sort_key tf_name (declaration_files fs)"
  by (simp add: declaration_files_def filter_sort)

lemma snapshot_dom: "map fst (map (\<lambda>f. (tf_name f, tf_stamp f)) fs) = map tf_name fs"
  by simp

lemma equal_snapshots:
  assumes same: "\<not> snapshots_differ (map (\<lambda>f. (tf_name f, tf_stamp f)) old) (map (\<lambda>f. (tf_name f, tf_stamp f)) new)"
    and d: "distinct (map tf_name old)" "distinct (map tf_name new)"
    and stamps: "stamps_identify old new"
  shows "set old = set new"
proof -
  let ?s = "\<lambda>fs. map (\<lambda>f. (tf_name f, tf_stamp f)) fs"
  have len: "length old = length new" using same by (simp add: snapshots_differ_def)
  have sub: "f \<in> set new" if f: "f \<in> set old" for f
  proof -
    have "map_of (?s new) (tf_name f) = Some (tf_stamp f)"
      using same f by (auto simp: snapshots_differ_def list_ex_iff)
    then obtain g where g: "g \<in> set new" "tf_name g = tf_name f" "tf_stamp g = tf_stamp f"
      by (auto dest!: map_of_SomeD)
    moreover from this f stamps have "tf_text f = tf_text g" by (auto simp: stamps_identify_def)
    ultimately have "f = g" by (intro table_file.equality) auto
    with g show ?thesis by simp
  qed
  have "card (set old) = card (set new)"
    using len d by (simp add: distinct_card distinct_map)
  with sub show ?thesis by (intro card_subset_eq) auto
qed

lemma snapshot_determines_scan:
  assumes "tables_dir_snapshot (Some old) = Some l" and "tables_dir_snapshot (Some new) = Some r"
    and "\<not> snapshots_differ l r" and "dir_names_distinct old" and "dir_names_distinct new"
    and "stamps_identify old new"
  shows "read_namespace_declarations parse (Some old) = read_namespace_declarations parse (Some new)"
proof -
  have dd: "distinct (map tf_name (declaration_files old))" "distinct (map tf_name (declaration_files new))"
    using assms(4,5) by (auto simp: dir_names_distinct_def declaration_files_def intro: distinct_map_filter)
  have "stamps_identify (declaration_files old) (declaration_files new)"
    using assms(6) by (auto simp: stamps_identify_def declaration_files_def)
  then have "set (declaration_files old) = set (declaration_files new)"
    using assms(1-3) dd by (intro equal_snapshots) (simp_all add: tables_dir_snapshot_def)
  then show ?thesis
    using sort_key_determined [OF _ dd] by (simp add: read_namespace_declarations_def declaration_files_sort)
qed

text \<open>The requests of a process: each sees the directory as it is then, and the cache the previous one left.\<close>

fun registry_answers :: "json_parser \<Rightarrow> registry_cache \<Rightarrow> tables_dir list
     \<Rightarrow> (declaration_error + table_declaration list) list" where
  "registry_answers parse cache [] = []"
| "registry_answers parse cache (d # ds) =
     (case legacy_declarations parse d cache of (cache', answer) \<Rightarrow> answer # registry_answers parse cache' ds)"

definition cache_from :: "json_parser \<Rightarrow> table_file list set \<Rightarrow> registry_cache \<Rightarrow> bool" where
  "cache_from parse seen cache \<longleftrightarrow>
     (case cache of
        None \<Rightarrow> True
      | Some (decls, snap) \<Rightarrow>
          (\<exists>old \<in> seen. tables_dir_snapshot (Some old) = Some snap \<and>
             read_namespace_declarations parse (Some old) = Inr decls))"

lemma legacy_declarations_step:
  assumes c: "cache_from parse seen cache" and "finite seen"
    and ok: "\<And>old new. old \<in> seen \<Longrightarrow> d = Some new \<Longrightarrow>
      dir_names_distinct old \<and> dir_names_distinct new \<and> stamps_identify old new"
    and l: "legacy_declarations parse d cache = (cache', answer)"
  shows "answer = read_namespace_declarations parse d \<and> cache_from parse (seen \<union> set_option d) cache'"
proof (cases d)
  case None
  then show ?thesis using l by (simp add: legacy_declarations_def tables_dir_snapshot_def cache_from_def)
next
  case (Some new)
  let ?fresh = "map (\<lambda>f. (tf_name f, tf_stamp f)) (declaration_files new)"
  have snap: "tables_dir_snapshot (Some new) = Some ?fresh" by (simp add: tables_dir_snapshot_def)
  show ?thesis
  proof (cases "\<exists>decls old. cache = Some (decls, old) \<and> \<not> snapshots_differ old ?fresh")
    case True
    then obtain decls os old where h: "cache = Some (decls, os)" "\<not> snapshots_differ os ?fresh" "old \<in> seen"
        "tables_dir_snapshot (Some old) = Some os" "read_namespace_declarations parse (Some old) = Inr decls"
      using c by (auto simp: cache_from_def)
    have "read_namespace_declarations parse (Some old) = read_namespace_declarations parse d"
      using snapshot_determines_scan [OF h(4) _ h(2)] ok [OF h(3) Some] snap by (simp add: Some)
    moreover have "cache' = cache" "answer = Inr decls"
      using l h(1,2) by (auto simp: legacy_declarations_def snap Some)
    ultimately show ?thesis using h(3,4,5) by (auto simp: cache_from_def h(1))
  next
    case False
    then show ?thesis using l c snap
      by (auto simp: legacy_declarations_def cache_from_def Some split: option.splits if_splits sum.splits)
  qed
qed

text \<open>C37: the registry cache is invisible.  When a rewritten declaration file gets a new stamp, every request
  of a process is answered exactly as a fresh scan of the directory at that moment would answer it, whatever
  files were added, removed or rewritten in between and whatever scans failed.\<close>

theorem registry_cache_transparent:
  assumes "\<forall>d \<in> set dirs. \<forall>new. d = Some new \<longrightarrow> dir_names_distinct new"
    and "\<forall>d \<in> set dirs. \<forall>e \<in> set dirs. \<forall>old new. d = Some old \<longrightarrow> e = Some new \<longrightarrow> stamps_identify old new"
  shows "registry_answers parse None dirs = map (read_namespace_declarations parse) dirs"
proof -
  let ?ok = "\<lambda>old new. dir_names_distinct old \<and> dir_names_distinct new \<and> stamps_identify old new"
  have "registry_answers parse cache ds = map (read_namespace_declarations parse) ds"
    if "set ds \<subseteq> set dirs" and "cache_from parse seen cache" and "Some ` seen \<subseteq> set dirs" and "finite seen"
    for ds cache seen
    using that
  proof (induction ds arbitrary: cache seen)
    case (Cons d ds)
    obtain cache' answer where l: "legacy_declarations parse d cache = (cache', answer)" by fastforce
    have "?ok old new" if "old \<in> seen" and "d = Some new" for old new
      using assms that Cons.prems(1,3) by (auto simp: image_subset_iff)
    then have s: "answer = read_namespace_declarations parse d"
        "cache_from parse (seen \<union> set_option d) cache'"
      using legacy_declarations_step [OF Cons.prems(2,4) _ l] by blast+
    have "registry_answers parse cache' ds = map (read_namespace_declarations parse) ds"
      using Cons.IH [OF _ s(2)] Cons.prems by (cases d) auto
    then show ?case by (simp add: l s(1))
  qed simp
  from this [where ds = dirs and cache = None and seen = "{}"] show ?thesis by (simp add: cache_from_def)
qed

section \<open>Instances\<close>

definition small_schema :: json where
  "small_schema = JObj [(''schemaVersion'', JNum (Fin 1)), (''tables'', JObj [])]"

definition small_env :: registry_env where
  "small_env = \<lparr>ge_parse = (\<lambda>t. if t = ''ok'' then Some small_schema else None), ge_fmt = (\<lambda>q. []),
     ge_date = (\<lambda>s. None), ge_sha = (\<lambda>t. t)\<rparr>"

lemma small_schema_read: "read_schema_text small_env (Some ''ok'') = Inr (True, empty_schema_document, ''ok'')"
  by (simp add: read_schema_text_def small_env_def small_schema_def parse_document_def strict_object_def
      default_empty_def optional_def as_dictionary_def schema_document_problems_def document_problems_def
      validate_references_def validate_view_cycles_def empty_schema_document_def has_tables_def)

lemma small_schema_bad: "read_schema_text small_env (Some ''bad'') = Inl Not_Json"
  by (simp add: read_schema_text_def small_env_def)


definition sample_file :: "rat \<Rightarrow> table_file" where
  "sample_file t = \<lparr>tf_name = ''a.table.json'', tf_stamp = (t, 2), tf_text = (if t = 1 then None else Some [])\<rparr>"

theorem registry_cache_transparent_witness:
  "registry_answers (\<lambda>t. None) None [Some [sample_file 1], None, Some [sample_file 2], Some []] =
     map (read_namespace_declarations (\<lambda>t. None)) [Some [sample_file 1], None, Some [sample_file 2], Some []]"
  by (rule registry_cache_transparent)
    (simp_all add: dir_names_distinct_def stamps_identify_def sample_file_def)

end
