(* ===== verification/Table_Store.thy ===== *)
theory Table_Store
  imports Table_Registry Namespace_Writer
begin

text \<open>
  The file layer of a declared table, \<^verbatim>\<open>src/duckdb/table-store.ts\<close>: which files a glob names, coercion of a
  row, the append, the search for a key and the rewrite behind PATCH and DELETE.  The data files of a
  namespace are an association list from relative paths to texts; directories are implied by the paths, a
  file name has no line break, and the temporary file of a rewrite is not visible.  \<^verbatim>\<open>JSON.parse\<close>,
  \<^verbatim>\<open>Date.parse\<close>, \<^verbatim>\<open>localeCompare\<close> and the digits of numbers are fields of \<open>store_env\<close>.
\<close>

type_synonym data_files = "(string \<times> string) list"
type_synonym table_row = "(string \<times> json) list"

datatype api_error = Api_Error nat string

record store_env =
  se_parse :: json_parser
  se_date :: "string \<Rightarrow> int option"
  se_lc :: "string \<Rightarrow> string \<Rightarrow> int"
  se_fmt :: "rat \<Rightarrow> string"

section \<open>Globs\<close>

text \<open>One segment of a glob against one name: \<^verbatim>\<open>*\<close> is any string, \<^verbatim>\<open>?\<close> any character.\<close>

fun wildcard_match :: "string \<Rightarrow> string \<Rightarrow> bool" where
  "wildcard_match [] s = (s = [])"
| "wildcard_match (p # ps) [] = (p = CHR ''*'' \<and> wildcard_match ps [])"
| "wildcard_match (p # ps) (c # s) =
     (if p = CHR ''*'' then wildcard_match ps (c # s) \<or> wildcard_match (p # ps) s
      else (p = CHR ''?'' \<or> p = c) \<and> wildcard_match ps s)"

definition has_wildcard :: "string \<Rightarrow> bool" where
  "has_wildcard part \<longleftrightarrow> CHR ''*'' \<in> set part \<or> CHR ''?'' \<in> set part"

definition glob_parts :: "string \<Rightarrow> string list" where
  "glob_parts g = filter (\<lambda>p. p \<noteq> []) (split_on (CHR ''/'') g)"

text \<open>
  The walk: whether it reaches the file with these path segments.  \<^verbatim>\<open>**\<close> descends into a directory with the
  pattern kept and with it consumed; it never matches in the directory itself.
\<close>

fun walk_reaches :: "string list \<Rightarrow> string list \<Rightarrow> bool" where
  "walk_reaches [] segs = False"
| "walk_reaches (p # ps) [] = False"
| "walk_reaches (p # ps) (n # segs) =
     (\<not> starts_with ''.'' n \<and>
      (if p = ''**'' then segs \<noteq> [] \<and> (walk_reaches (p # ps) segs \<or> walk_reaches ps segs)
       else wildcard_match p n \<and> (if ps = [] then segs = [] else walk_reaches ps segs)))"

definition resolve_path :: "string \<Rightarrow> string" where
  "resolve_path p = join_with ''/'' (normalize_segments [] (split_on (CHR ''/'') p))"

definition resolve_table_files :: "store_env \<Rightarrow> data_files \<Rightarrow> table_declaration \<Rightarrow> string list" where
  "resolve_table_files env files d =
     (let parts = glob_parts (td_glob d)
      in if \<not> list_ex has_wildcard parts
         then (if map_of files (resolve_path (td_glob d)) \<noteq> None then [resolve_path (td_glob d)] else [])
         else sort_by (se_lc env) (filter (\<lambda>p. walk_reaches parts (split_on (CHR ''/'') p)) (map fst files)))"

definition derive_synthetic_file_path :: "table_declaration \<Rightarrow> string" where
  "derive_synthetic_file_path d =
     resolve_path (join_with ''/''
       (map (\<lambda>p. if has_wildcard p then td_name d @ ''.jsonl'' else p) (glob_parts (td_glob d))))"

section \<open>Coercion\<close>

definition declared_columns_of :: "table_declaration \<Rightarrow> declared_column list option" where
  "declared_columns_of d =
     (if td_source d \<noteq> From_Schema \<or> list_ex (\<lambda>c. tc_declared c = None) (td_columns d) then None
      else Some (map (\<lambda>c.
        \<lparr>dc_name = tc_name c, dc_type = the (tc_declared c),
         dc_nullable = (case tc_nullable c of None \<Rightarrow> True | Some b \<Rightarrow> b),
         dc_default = tc_default c, dc_references = None\<rparr>) (td_columns d)))"

definition is_column :: "table_declaration \<Rightarrow> string \<Rightarrow> bool" where
  "is_column d k \<longleftrightarrow> k \<in> tc_name ` set (td_columns d)"

text \<open>A cell of a legacy table is stored as it came, or refused.\<close>

definition coerce_cell :: "(string \<Rightarrow> int option) \<Rightarrow> table_column \<Rightarrow> json \<Rightarrow> api_error + json" where
  "coerce_cell date_parse c v =
     (let t = tc_type c;
          ok = (if t = ''varchar'' then (case v of JStr _ \<Rightarrow> True | _ \<Rightarrow> False)
                else if t = ''integer'' \<or> t = ''bigint'' then (case v of JNum x \<Rightarrow> is_integer x | _ \<Rightarrow> False)
                else if t = ''double'' then (case v of JNum x \<Rightarrow> x \<noteq> Not_A_Number | _ \<Rightarrow> False)
                else if t = ''boolean'' then (case v of JBool _ \<Rightarrow> True | _ \<Rightarrow> False)
                else if t = ''timestamp'' then (case v of JStr s \<Rightarrow> date_parse s \<noteq> None | _ \<Rightarrow> False)
                else True)
      in if ok then Inr v else Inl (Api_Error 422 ''UNPROCESSABLE_ENTITY''))"

fun coerce_cells ::
  "(string \<Rightarrow> int option) \<Rightarrow> table_row \<Rightarrow> table_column list \<Rightarrow> table_row \<Rightarrow> api_error + table_row" where
  "coerce_cells date_parse raw [] out = Inr out"
| "coerce_cells date_parse raw (c # cs) out =
     (case map_of raw (tc_name c) of
        None \<Rightarrow> coerce_cells date_parse raw cs (obj_set (tc_name c) JNull out)
      | Some v \<Rightarrow> res_bind (coerce_cell date_parse c v)
                   (\<lambda>w. coerce_cells date_parse raw cs (obj_set (tc_name c) w out)))"

definition issue_code :: "row_issues \<Rightarrow> string" where
  "issue_code i = (if ri_status i = 422 then ''UNPROCESSABLE_ENTITY'' else ''VALIDATION_ERROR'')"

definition coerce_row_against_declaration ::
  "store_env \<Rightarrow> table_declaration \<Rightarrow> json \<Rightarrow> api_error + table_row" where
  "coerce_row_against_declaration env d row =
     (case declared_columns_of d of
        Some cols \<Rightarrow>
          (case normalize_api_row (se_date env) cols row of
             Inl i \<Rightarrow> Inl (Api_Error (ri_status i) (issue_code i)) | Inr r \<Rightarrow> Inr r)
      | None \<Rightarrow>
          (case row of
             JObj raw \<Rightarrow>
               res_bind (coerce_cells (se_date env) raw (td_columns d) []) (\<lambda>out.
                 if list_all (\<lambda>p. is_column d (fst p)) raw then Inr out
                 else Inl (Api_Error 400 ''VALIDATION_ERROR''))
           | _ \<Rightarrow> Inl (Api_Error 422 ''UNPROCESSABLE_ENTITY'')))"

section \<open>Lines\<close>

definition column_values :: "table_declaration \<Rightarrow> table_row \<Rightarrow> json list" where
  "column_values d row = map (\<lambda>c. or_null (map_of row (tc_name c))) (td_columns d)"

definition serialize_row_line :: "store_env \<Rightarrow> table_declaration \<Rightarrow> table_row \<Rightarrow> string" where
  "serialize_row_line env d row =
     (if td_format d = Positional_Format then json_compact (se_fmt env) (JArr (column_values d row))
      else json_compact (se_fmt env) (JObj row))"

fun achieved_mode :: "write_mode \<Rightarrow> write_mode" where
  "achieved_mode Buffered = Buffered"
| "achieved_mode _ = Fsync"

definition append_text :: "string \<Rightarrow> string \<Rightarrow> data_files \<Rightarrow> data_files" where
  "append_text path text files =
     obj_set path ((case map_of files path of None \<Rightarrow> [] | Some t \<Rightarrow> t) @ text) files"

definition append_target :: "store_env \<Rightarrow> data_files \<Rightarrow> table_declaration \<Rightarrow> string" where
  "append_target env files d =
     (let fs = resolve_table_files env files d in if fs \<noteq> [] then last fs else derive_synthetic_file_path d)"

definition append_rows_to_table ::
  "store_env \<Rightarrow> data_files \<Rightarrow> table_declaration \<Rightarrow> table_row list \<Rightarrow> write_mode \<Rightarrow> data_files \<times> write_mode" where
  "append_rows_to_table env files d rows mode =
     (append_text (append_target env files d)
        (join_with [newline] (map (serialize_row_line env d) rows) @ [newline]) files, achieved_mode mode)"

section \<open>Finding a key\<close>

text \<open>
  The comparison of \<^verbatim>\<open>pkCompareValue\<close>: a missing or null cell matches only a null operand, any other cell is
  compared by its text; the text of a null operand is \<^verbatim>\<open>null\<close>.
\<close>

definition pk_operand_null :: "string \<Rightarrow> bool" where
  "pk_operand_null operand \<longleftrightarrow> operand = ''null'' \<or> operand = []"

definition pk_matches :: "(rat \<Rightarrow> string) \<Rightarrow> string \<Rightarrow> json option \<Rightarrow> bool" where
  "pk_matches fmt operand cell \<longleftrightarrow>
     (case cell of
        None \<Rightarrow> pk_operand_null operand
      | Some JNull \<Rightarrow> pk_operand_null operand
      | Some v \<Rightarrow> js_string fmt v = (if pk_operand_null operand then ''null'' else operand))"

text \<open>A parsed line as a row: an array of a positional table through the declared columns.\<close>

definition project_row :: "table_declaration \<Rightarrow> json \<Rightarrow> table_row option" where
  "project_row d v =
     (case v of
        JObj ps \<Rightarrow> Some ps
      | JArr vs \<Rightarrow>
          if td_format d = Positional_Format
          then Some (foldl (\<lambda>out (i, c). obj_set (tc_name c) (if i < length vs then vs ! i else JNull) out) []
                 (enumerate 0 (td_columns d)))
          else None
      | _ \<Rightarrow> None)"

definition line_row :: "store_env \<Rightarrow> table_declaration \<Rightarrow> string \<Rightarrow> table_row option" where
  "line_row env d l = Option.bind (se_parse env l) (project_row d)"

fun find_in_lines ::
  "store_env \<Rightarrow> table_declaration \<Rightarrow> string \<Rightarrow> string \<Rightarrow> string list \<Rightarrow> (string \<times> table_row) option" where
  "find_in_lines env d key value [] = None"
| "find_in_lines env d key value (l # ls) =
     (case line_row env d l of
        None \<Rightarrow> find_in_lines env d key value ls
      | Some row \<Rightarrow>
          if pk_matches (se_fmt env) value (map_of row key) then Some (l, row)
          else find_in_lines env d key value ls)"

record row_location =
  rl_path :: string
  rl_line :: string
  rl_row :: table_row

fun find_in_files ::
  "store_env \<Rightarrow> table_declaration \<Rightarrow> string \<Rightarrow> string \<Rightarrow> data_files \<Rightarrow> string list \<Rightarrow> row_location option" where
  "find_in_files env d key value files [] = None"
| "find_in_files env d key value files (p # ps) =
     (case map_of files p of
        None \<Rightarrow> find_in_files env d key value files ps
      | Some text \<Rightarrow>
          (case find_in_lines env d key value (file_lines text) of
             Some (l, row) \<Rightarrow> Some \<lparr>rl_path = p, rl_line = l, rl_row = row\<rparr>
           | None \<Rightarrow> find_in_files env d key value files ps))"

definition find_row_line_by_pk ::
  "store_env \<Rightarrow> data_files \<Rightarrow> table_declaration \<Rightarrow> string \<Rightarrow> string \<Rightarrow> row_location option" where
  "find_row_line_by_pk env files d key value =
     find_in_files env d key value files (resolve_table_files env files d)"

definition find_row_by_pk ::
  "store_env \<Rightarrow> data_files \<Rightarrow> table_declaration \<Rightarrow> string \<Rightarrow> string \<Rightarrow> table_row option" where
  "find_row_by_pk env files d key value = map_option rl_row (find_row_line_by_pk env files d key value)"

section \<open>Rewriting\<close>

text \<open>An operation drops the rows it matches, or replaces them by the merge.\<close>

datatype row_operation = Drop_Rows | Merge_Rows "table_row \<Rightarrow> table_row option"

text \<open>\<^verbatim>\<open>{ ...row, ...body }\<close>.\<close>

definition spread :: "table_row \<Rightarrow> table_row \<Rightarrow> table_row" where
  "spread row body = foldl (\<lambda>r (k, v). obj_set k v r) row body"

text \<open>
  One line: what is written for it and how many rows it counts.  Only an object line is ever looked at; the
  array of a positional table is kept.
\<close>

definition rewrite_line ::
  "store_env \<Rightarrow> table_declaration \<Rightarrow> (table_row \<Rightarrow> bool) \<Rightarrow> row_operation \<Rightarrow> string \<Rightarrow> string list \<times> nat" where
  "rewrite_line env d matches oper l =
     (case se_parse env l of
        Some (JObj row) \<Rightarrow>
          if \<not> matches row then ([l], 0)
          else (case oper of
             Drop_Rows \<Rightarrow> ([], 1)
           | Merge_Rows merge \<Rightarrow>
               (case merge row of
                  None \<Rightarrow> ([], 1)
                | Some merged \<Rightarrow> ([serialize_row_line env d merged], 1)))
      | _ \<Rightarrow> ([l], 0))"

definition rewrite_lines ::
  "store_env \<Rightarrow> table_declaration \<Rightarrow> (table_row \<Rightarrow> bool) \<Rightarrow> row_operation \<Rightarrow> string list \<Rightarrow> string list \<times> nat" where
  "rewrite_lines env d matches oper ls =
     (concat (map (\<lambda>l. fst (rewrite_line env d matches oper l)) ls),
      sum_list (map (\<lambda>l. snd (rewrite_line env d matches oper l)) ls))"

definition rewrite_file ::
  "store_env \<Rightarrow> table_declaration \<Rightarrow> (table_row \<Rightarrow> bool) \<Rightarrow> row_operation
     \<Rightarrow> data_files \<times> nat \<Rightarrow> string \<Rightarrow> data_files \<times> nat" where
  "rewrite_file env d matches oper acc path =
     (case acc of (files, n) \<Rightarrow>
        (case rewrite_lines env d matches oper
                (file_lines (case map_of files path of None \<Rightarrow> [] | Some t \<Rightarrow> t)) of
           (out, k) \<Rightarrow> (obj_set path (lines_text out) files, n + k)))"

record mutation_outcome =
  mo_mutated :: nat
  mo_inserted :: nat
  mo_achieved :: write_mode

definition rewrite_with_predicate ::
  "store_env \<Rightarrow> data_files \<Rightarrow> table_declaration \<Rightarrow> (table_row \<Rightarrow> bool) \<Rightarrow> row_operation \<Rightarrow> bool \<Rightarrow> write_mode
     \<Rightarrow> data_files \<times> mutation_outcome" where
  "rewrite_with_predicate env files d matches oper upsert mode =
     (case foldl (rewrite_file env d matches oper) (files, 0) (resolve_table_files env files d) of
        (files', n) \<Rightarrow>
          (case oper of
             Merge_Rows merge \<Rightarrow>
               if n = 0 \<and> upsert
               then (fst (append_rows_to_table env files' d [case merge [] of None \<Rightarrow> [] | Some b \<Rightarrow> b] mode),
                     \<lparr>mo_mutated = n, mo_inserted = 1, mo_achieved = achieved_mode mode\<rparr>)
               else (files', \<lparr>mo_mutated = n, mo_inserted = 0, mo_achieved = achieved_mode mode\<rparr>)
           | Drop_Rows \<Rightarrow> (files', \<lparr>mo_mutated = n, mo_inserted = 0, mo_achieved = achieved_mode mode\<rparr>)))"

definition key_predicate :: "store_env \<Rightarrow> string \<Rightarrow> string \<Rightarrow> table_row \<Rightarrow> bool" where
  "key_predicate env key value row = pk_matches (se_fmt env) value (map_of row key)"

definition patch_rows_by_pk ::
  "store_env \<Rightarrow> data_files \<Rightarrow> table_declaration \<Rightarrow> string \<Rightarrow> string \<Rightarrow> table_row \<Rightarrow> table_row option \<Rightarrow> write_mode
     \<Rightarrow> data_files \<times> (api_error + mutation_outcome)" where
  "patch_rows_by_pk env files d key value body upsert mode =
     (case rewrite_with_predicate env files d (key_predicate env key value)
             (Merge_Rows (\<lambda>row. Some (spread row body))) (upsert \<noteq> None) mode of
        (files', outcome) \<Rightarrow>
          (case upsert of
             Some b \<Rightarrow>
               if mo_mutated outcome = 0
               then (case coerce_row_against_declaration env d (JObj b) of
                       Inl e \<Rightarrow> (files', Inl e)
                     | Inr row \<Rightarrow>
                         (case append_rows_to_table env files' d [row] mode of
                            (files'', achieved) \<Rightarrow>
                              (files'', Inr (outcome\<lparr>mo_inserted := 1, mo_achieved := achieved\<rparr>))))
               else (files', Inr outcome)
           | None \<Rightarrow> (files', Inr outcome)))"

definition delete_rows_by_pk ::
  "store_env \<Rightarrow> data_files \<Rightarrow> table_declaration \<Rightarrow> string \<Rightarrow> string \<Rightarrow> write_mode \<Rightarrow> data_files \<times> mutation_outcome" where
  "delete_rows_by_pk env files d key value mode =
     rewrite_with_predicate env files d (key_predicate env key value) Drop_Rows False mode"

section \<open>The rows of a table\<close>

text \<open>The non-blank lines of the files of a table, in the order every reader meets them.\<close>

definition text_of :: "data_files \<Rightarrow> string \<Rightarrow> string" where
  "text_of files p = (case map_of files p of None \<Rightarrow> [] | Some t \<Rightarrow> t)"

definition lines_at :: "data_files \<Rightarrow> string list \<Rightarrow> string list" where
  "lines_at files ps = concat (map (\<lambda>p. file_lines (text_of files p)) ps)"

definition table_lines :: "store_env \<Rightarrow> data_files \<Rightarrow> table_declaration \<Rightarrow> string list" where
  "table_lines env files d = lines_at files (resolve_table_files env files d)"

named_theorems table_simps

lemma find_in_lines_append [table_simps]:
  "find_in_lines env d key value (xs @ ys) =
     (case find_in_lines env d key value xs of None \<Rightarrow> find_in_lines env d key value ys | Some r \<Rightarrow> Some r)"
  by (induction xs) (auto split: option.splits)

lemma find_in_files_lines:
  "\<forall>p \<in> set ps. map_of files p \<noteq> None \<Longrightarrow>
   map_option (\<lambda>l. (rl_line l, rl_row l)) (find_in_files env d key value files ps) =
     find_in_lines env d key value (lines_at files ps)"
  by (induction ps) (auto simp: lines_at_def text_of_def find_in_lines_append split: option.splits)

lemma resolve_subset: "p \<in> set (resolve_table_files env files d) \<Longrightarrow> map_of files p \<noteq> None"
  by (auto simp: resolve_table_files_def Let_def map_of_eq_None_iff split: if_splits)

lemma find_row_line_lines:
  "map_option (\<lambda>l. (rl_line l, rl_row l)) (find_row_line_by_pk env files d key value) =
     find_in_lines env d key value (table_lines env files d)"
  unfolding find_row_line_by_pk_def table_lines_def
  by (rule find_in_files_lines) (use resolve_subset in blast)

lemma find_row_lines:
  "find_row_by_pk env files d key value = map_option snd (find_in_lines env d key value (table_lines env files d))"
  unfolding find_row_by_pk_def find_row_line_lines [symmetric] by (simp add: option.map_comp comp_def)

lemma resolve_distinct: "distinct (map fst files) \<Longrightarrow> distinct (resolve_table_files env files d)"
  by (simp add: resolve_table_files_def Let_def)

lemma resolve_same_names:
  "map fst files' = map fst files \<Longrightarrow> resolve_table_files env files' d = resolve_table_files env files d"
  by (simp add: resolve_table_files_def Let_def map_of_eq_None_iff flip: set_map)

lemma table_lines_records: "l \<in> set (table_lines env files d) \<Longrightarrow> record_line l"
  by (auto simp: table_lines_def lines_at_def file_lines_are_records)

lemma serialize_record_line: "digits_ok (se_fmt env) \<Longrightarrow> record_line (serialize_row_line env d row)"
  by (simp add: serialize_row_line_def json_record_line del: json_compact.simps)

lemma lines_at_cong: "(\<And>p. p \<in> set ps \<Longrightarrow> text_of files' p = text_of files p) \<Longrightarrow> lines_at files' ps = lines_at files ps"
  unfolding lines_at_def by (metis (mono_tags, lifting) map_eq_conv)

section \<open>What a rewrite does\<close>

lemma rewrite_fold:
  assumes "foldl (rewrite_file env d m oper) (files, n) ps = (files', n')"
    and "distinct ps" and "set ps \<subseteq> fst ` set files"
  shows "map fst files' = map fst files \<and> (\<forall>p. p \<notin> set ps \<longrightarrow> map_of files' p = map_of files p) \<and>
    (\<forall>p \<in> set ps. map_of files' p = Some (lines_text (fst (rewrite_lines env d m oper (file_lines (text_of files p)))))) \<and>
    n' = n + snd (rewrite_lines env d m oper (lines_at files ps))"
  using assms
proof (induction ps arbitrary: files n)
  case Nil
  then show ?case by (simp add: rewrite_lines_def lines_at_def)
next
  case (Cons p ps)
  obtain out k where o: "rewrite_lines env d m oper (file_lines (text_of files p)) = (out, k)" by fastforce
  let ?f = "obj_set p (lines_text out) files"
  have step: "rewrite_file env d m oper (files, n) p = (?f, n + k)"
    using o by (simp add: rewrite_file_def text_of_def)
  have names: "map fst ?f = map fst files"
    using Cons.prems(3) by (auto simp: keys_obj_set)
  have "foldl (rewrite_file env d m oper) (?f, n + k) ps = (files', n')"
    using Cons.prems(1) step by simp
  moreover have "set ps \<subseteq> fst ` set ?f"
    using Cons.prems(3) names by (metis set_map list.set_intros(2) subset_iff)
  ultimately have ih: "map fst files' = map fst ?f" "\<forall>q. q \<notin> set ps \<longrightarrow> map_of files' q = map_of ?f q"
      "\<forall>q \<in> set ps. map_of files' q = Some (lines_text (fst (rewrite_lines env d m oper (file_lines (text_of ?f q)))))"
      "n' = n + k + snd (rewrite_lines env d m oper (lines_at ?f ps))"
    using Cons.IH [of ?f "n + k"] Cons.prems(2) by auto
  have other: "text_of ?f q = text_of files q" if "q \<noteq> p" for q
    using that by (simp add: text_of_def)
  have p: "p \<notin> set ps" using Cons.prems(2) by simp
  have same: "\<forall>q \<in> set ps. text_of ?f q = text_of files q"
  proof
    fix q assume "q \<in> set ps"
    with p have "q \<noteq> p" by auto
    then show "text_of ?f q = text_of files q" by (rule other)
  qed
  have "lines_at ?f ps = lines_at files ps"
    by (rule lines_at_cong) (rule same [rule_format])
  then have count: "n' = n + snd (rewrite_lines env d m oper (lines_at files (p # ps)))"
    using arg_cong [OF o, of snd] ih(4) by (simp add: rewrite_lines_def lines_at_def)
  have "map_of files' p = Some (lines_text out)" using ih(2) p by simp
  then have new: "\<forall>q \<in> set (p # ps).
      map_of files' q = Some (lines_text (fst (rewrite_lines env d m oper (file_lines (text_of files q)))))"
    using ih(3) same o by (metis fst_conv set_ConsD)
  have "\<forall>q. q \<notin> set (p # ps) \<longrightarrow> map_of files' q = map_of files q" using ih(2) by simp
  with ih(1) names new count show ?case by simp
qed

lemma rewrite_line_records:
  "digits_ok (se_fmt env) \<Longrightarrow> record_line l \<Longrightarrow> x \<in> set (fst (rewrite_line env d m oper l)) \<Longrightarrow> record_line x"
  by (auto simp: rewrite_line_def serialize_record_line split: option.splits json.splits row_operation.splits if_splits)

definition rewrite_all :: "store_env \<Rightarrow> table_declaration \<Rightarrow> (table_row \<Rightarrow> bool) \<Rightarrow> row_operation \<Rightarrow> string list \<Rightarrow> string list" where
  "rewrite_all env d m oper ls = concat (map (\<lambda>l. fst (rewrite_line env d m oper l)) ls)"

lemma file_lines_rewritten:
  "digits_ok (se_fmt env) \<Longrightarrow>
   file_lines (lines_text (fst (rewrite_lines env d m oper (file_lines t)))) = rewrite_all env d m oper (file_lines t)"
  unfolding rewrite_lines_def rewrite_all_def fst_conv
  by (rule file_lines_text) (auto dest: file_lines_are_records intro: rewrite_line_records)

lemma rewrite_predicate_effect:
  assumes r: "rewrite_with_predicate env files d m oper False mode = (files', outcome)"
    and ok: "distinct (map fst files)" and fmt: "digits_ok (se_fmt env)"
  shows "table_lines env files' d = rewrite_all env d m oper (table_lines env files d) \<and>
    mo_mutated outcome = snd (rewrite_lines env d m oper (table_lines env files d)) \<and>
    map fst files' = map fst files \<and>
    (\<forall>p. p \<notin> set (resolve_table_files env files d) \<longrightarrow> map_of files' p = map_of files p) \<and>
    (\<forall>p \<in> set (resolve_table_files env files d).
       file_lines (text_of files' p) = rewrite_all env d m oper (file_lines (text_of files p)))"
proof -
  let ?ps = "resolve_table_files env files d"
  obtain n where f: "foldl (rewrite_file env d m oper) (files, 0) ?ps = (files', n)" "mo_mutated outcome = n"
    using r by (auto simp: rewrite_with_predicate_def split: prod.splits row_operation.splits)
  have "set ?ps \<subseteq> fst ` set files"
    using resolve_subset by (force simp: map_of_eq_None_iff)
  from rewrite_fold [OF f(1) resolve_distinct [OF ok] this] have
    names: "map fst files' = map fst files" and frame: "\<forall>p. p \<notin> set ?ps \<longrightarrow> map_of files' p = map_of files p"
    and new: "\<forall>p \<in> set ?ps. map_of files' p = Some (lines_text (fst (rewrite_lines env d m oper (file_lines (text_of files p)))))"
    and n: "n = snd (rewrite_lines env d m oper (lines_at files ?ps))" by simp_all
  have each: "file_lines (text_of files' p) = rewrite_all env d m oper (file_lines (text_of files p))" if "p \<in> set ?ps" for p
    using new that file_lines_rewritten [OF fmt] by (simp add: text_of_def)
  then have "lines_at files' qs = rewrite_all env d m oper (lines_at files qs)" if "set qs \<subseteq> set ?ps" for qs
    using that by (induction qs) (simp_all add: lines_at_def rewrite_all_def)
  then have "lines_at files' ?ps = rewrite_all env d m oper (lines_at files ?ps)" by blast
  then show ?thesis
    using names frame n f(2) resolve_same_names [OF names] each by (simp add: table_lines_def)
qed

text \<open>Two states of the files with the same lines in every file.\<close>

definition same_lines :: "data_files \<Rightarrow> data_files \<Rightarrow> bool" where
  "same_lines files files' \<longleftrightarrow>
     map fst files' = map fst files \<and> (\<forall>p. file_lines (text_of files' p) = file_lines (text_of files p))"

lemma same_lines_refl [simp]: "same_lines files files"
  by (simp add: same_lines_def)

lemma rewrite_line_kept: "snd (rewrite_line env d m oper l) = 0 \<Longrightarrow> fst (rewrite_line env d m oper l) = [l]"
  by (auto simp: rewrite_line_def split: option.splits json.splits row_operation.splits if_splits)

lemma rewrite_none:
  assumes r: "rewrite_with_predicate env files d m oper False mode = (files', outcome)"
    and ok: "distinct (map fst files)" and fmt: "digits_ok (se_fmt env)" and z: "mo_mutated outcome = 0"
  shows "same_lines files files'"
proof -
  note e = rewrite_predicate_effect [OF r ok fmt]
  have kept: "fst (rewrite_line env d m oper l) = [l]" if "l \<in> set (table_lines env files d)" for l
    using e z that by (intro rewrite_line_kept) (auto simp: rewrite_lines_def)
  have "file_lines (text_of files' p) = file_lines (text_of files p)" if p: "p \<in> set (resolve_table_files env files d)" for p
  proof -
    have "l \<in> set (table_lines env files d)" if "l \<in> set (file_lines (text_of files p))" for l
      using p that by (auto simp: table_lines_def lines_at_def)
    then have "rewrite_all env d m oper (file_lines (text_of files p)) = concat (map (\<lambda>l. [l]) (file_lines (text_of files p)))"
      unfolding rewrite_all_def by (intro arg_cong [where f = concat] map_cong) (auto intro: kept)
    then show ?thesis using e p by simp
  qed
  moreover have "text_of files' p = text_of files p" if "p \<notin> set (resolve_table_files env files d)" for p
    using e that by (simp add: text_of_def)
  ultimately show ?thesis using e unfolding same_lines_def by metis
qed

definition key_line :: "store_env \<Rightarrow> string \<Rightarrow> string \<Rightarrow> string \<Rightarrow> bool" where
  "key_line env key value l \<longleftrightarrow>
     (case se_parse env l of Some (JObj row) \<Rightarrow> key_predicate env key value row | _ \<Rightarrow> False)"

definition patched_line ::
  "store_env \<Rightarrow> table_declaration \<Rightarrow> string \<Rightarrow> string \<Rightarrow> table_row \<Rightarrow> string \<Rightarrow> string" where
  "patched_line env d key value body l =
     (case se_parse env l of
        Some (JObj row) \<Rightarrow>
          if key_predicate env key value row then serialize_row_line env d (spread row body) else l
      | _ \<Rightarrow> l)"

lemma count_matches:
  "(\<And>l. f l = (if P l then 1 else (0 :: nat))) \<Longrightarrow> sum_list (map f ls) = length (filter P ls)"
  by (induction ls) auto

lemma delete_exact:
  assumes "delete_rows_by_pk env files d key value mode = (files', outcome)"
    and "distinct (map fst files)" and "digits_ok (se_fmt env)"
  shows "table_lines env files' d = filter (\<lambda>l. \<not> key_line env key value l) (table_lines env files d) \<and>
    mo_mutated outcome = length (filter (key_line env key value) (table_lines env files d)) \<and>
    map fst files' = map fst files \<and>
    (\<forall>p. p \<notin> set (resolve_table_files env files d) \<longrightarrow> map_of files' p = map_of files p)"
proof -
  let ?r = "rewrite_line env d (key_predicate env key value) Drop_Rows"
  have line: "?r l = (if key_line env key value l then ([], 1) else ([l], 0))" for l
    by (simp add: rewrite_line_def key_line_def split: option.splits json.splits)
  have "rewrite_all env d (key_predicate env key value) Drop_Rows ls = filter (\<lambda>l. \<not> key_line env key value l) ls" for ls
    by (induction ls) (simp_all add: rewrite_all_def line)
  moreover have "snd (rewrite_lines env d (key_predicate env key value) Drop_Rows ls) =
      length (filter (key_line env key value) ls)" for ls
    unfolding rewrite_lines_def snd_conv by (rule count_matches) (simp add: line)
  ultimately show ?thesis
    using rewrite_predicate_effect [OF assms(1) [unfolded delete_rows_by_pk_def] assms(2,3)] by simp
qed

lemma patch_exact:
  assumes "patch_rows_by_pk env files d key value body None mode = (files', Inr outcome)"
    and "distinct (map fst files)" and "digits_ok (se_fmt env)"
  shows "table_lines env files' d = map (patched_line env d key value body) (table_lines env files d) \<and>
    mo_mutated outcome = length (filter (key_line env key value) (table_lines env files d)) \<and>
    map fst files' = map fst files \<and>
    (\<forall>p. p \<notin> set (resolve_table_files env files d) \<longrightarrow> map_of files' p = map_of files p)"
proof -
  let ?o = "Merge_Rows (\<lambda>row. Some (spread row body))" and ?m = "key_predicate env key value"
  have line: "rewrite_line env d ?m ?o l =
      ([patched_line env d key value body l], if key_line env key value l then 1 else 0)" for l
    by (simp add: rewrite_line_def key_line_def patched_line_def split: option.splits json.splits)
  have "rewrite_all env d ?m ?o ls = map (patched_line env d key value body) ls" for ls
    by (induction ls) (simp_all add: rewrite_all_def line)
  moreover have "snd (rewrite_lines env d ?m ?o ls) = length (filter (key_line env key value) ls)" for ls
    unfolding rewrite_lines_def snd_conv by (rule count_matches) (simp add: line)
  moreover have "rewrite_with_predicate env files d ?m ?o False mode = (files', outcome)"
    using assms(1) by (simp add: patch_rows_by_pk_def split: prod.splits)
  ultimately show ?thesis
    using rewrite_predicate_effect [of env files d ?m ?o mode files' outcome] assms(2,3) by simp
qed

lemma patch_total: "\<exists>files' outcome. patch_rows_by_pk env files d key value body None mode = (files', Inr outcome)"
  by (simp add: patch_rows_by_pk_def split: prod.splits)

section \<open>What an append does\<close>

definition glob_admits :: "table_declaration \<Rightarrow> string \<Rightarrow> bool" where
  "glob_admits d p \<longleftrightarrow>
     (if list_ex has_wildcard (glob_parts (td_glob d))
      then walk_reaches (glob_parts (td_glob d)) (split_on (CHR ''/'') p)
      else p = resolve_path (td_glob d))"

lemma resolve_iff: "p \<in> set (resolve_table_files env files d) \<longleftrightarrow> glob_admits d p \<and> map_of files p \<noteq> None"
  by (auto simp: resolve_table_files_def glob_admits_def Let_def map_of_eq_None_iff image_iff)

text \<open>A row the API accepts can be found again only when the file it goes to is one the glob names.\<close>

definition insert_visible :: "store_env \<Rightarrow> data_files \<Rightarrow> table_declaration \<Rightarrow> bool" where
  "insert_visible env files d \<longleftrightarrow>
     resolve_table_files env files d \<noteq> [] \<or> glob_admits d (derive_synthetic_file_path d)"

lemma join_lines_text: "ls \<noteq> [] \<Longrightarrow> join_with [newline] ls @ [newline] = lines_text ls"
  by (induction ls rule: induct_list012) auto

lemma file_lines_appended:
  "line_closed t \<Longrightarrow> \<forall>l \<in> set ls. record_line l \<Longrightarrow> file_lines (t @ lines_text ls) = file_lines t @ ls"
proof (induction ls rule: rev_induct)
  case (snoc l ls)
  have "line_closed (t @ lines_text ls)"
    using snoc.prems(1) by (cases ls rule: rev_cases) (simp_all add: line_closed_def)
  from file_lines_snoc [OF this, of l] show ?case using snoc by simp
qed simp

lemma distinct_one: "distinct xs \<Longrightarrow> set xs = {x} \<Longrightarrow> xs = [x]"
proof (cases xs)
  case (Cons y ys)
  moreover assume "distinct xs" "set xs = {x}"
  ultimately show ?thesis by (cases ys) auto
qed simp

lemma append_exact:
  assumes vis: "insert_visible env files d" and fmt: "digits_ok (se_fmt env)" and rows: "rows \<noteq> []"
    and ok: "distinct (map fst files)" and closed: "line_closed (text_of files (append_target env files d))"
  shows "table_lines env (fst (append_rows_to_table env files d rows mode)) d =
      table_lines env files d @ map (serialize_row_line env d) rows"
proof -
  let ?t = "append_target env files d" and ?ls = "map (serialize_row_line env d) rows"
  let ?f = "append_text ?t (lines_text ?ls) files"
  have f: "fst (append_rows_to_table env files d rows mode) = ?f"
    using rows by (simp add: append_rows_to_table_def join_lines_text)
  have t: "text_of ?f ?t = text_of files ?t @ lines_text ?ls"
    by (simp add: append_text_def text_of_def)
  have other: "text_of ?f p = text_of files p" if "p \<noteq> ?t" for p
    using that by (simp add: append_text_def text_of_def)
  have new: "file_lines (text_of ?f ?t) = file_lines (text_of files ?t) @ ?ls"
    unfolding t using file_lines_appended [OF closed] serialize_record_line [OF fmt] by simp
  show ?thesis
  proof (cases "resolve_table_files env files d = []")
    case True
    then have tgt: "?t = derive_synthetic_file_path d" by (simp add: append_target_def)
    have g: "glob_admits d ?t" using vis True by (simp add: insert_visible_def tgt)
    then have none: "map_of files ?t = None" using resolve_iff [of ?t env files d] True by auto
    then have keys: "map fst ?f = map fst files @ [?t]"
      by (simp add: append_text_def keys_obj_set map_of_eq_None_iff)
    have "set (resolve_table_files env ?f d) = {?t}"
      using resolve_iff [of _ env ?f d] resolve_iff [of _ env files d] True g
      by (auto simp: append_text_def split: if_splits)
    moreover have "distinct (resolve_table_files env ?f d)"
      using ok none by (intro resolve_distinct) (simp add: keys map_of_eq_None_iff)
    ultimately have "resolve_table_files env ?f d = [?t]"
      by (intro distinct_one)
    then show ?thesis
      using new none by (simp add: f table_lines_def lines_at_def True text_of_def)
  next
    case False
    let ?ps = "resolve_table_files env files d"
    have last: "?t = last ?ps" using False by (simp add: append_target_def Let_def)
    have "?t \<in> fst ` set files"
      using resolve_subset [of ?t env files d] False by (auto simp: last map_of_eq_None_iff)
    then have same: "resolve_table_files env ?f d = ?ps"
      by (intro resolve_same_names) (simp add: append_text_def keys_obj_set)
    have split: "?ps = butlast ?ps @ [?t]" using False last by simp
    have "distinct ?ps" by (rule resolve_distinct [OF ok])
    then have "?t \<notin> set (butlast ?ps)" by (metis split distinct_append distinct_singleton disjoint_insert(1) list.simps(15))
    then have "p \<noteq> ?t" if "p \<in> set (butlast ?ps)" for p using that by auto
    then have "lines_at ?f (butlast ?ps) = lines_at files (butlast ?ps)"
      by (intro lines_at_cong other)
    then have "lines_at ?f (butlast ?ps @ [?t]) = lines_at files (butlast ?ps @ [?t]) @ ?ls"
      using new by (simp add: lines_at_def)
    then show ?thesis by (simp add: f table_lines_def same flip: split)
  qed
qed

section \<open>Rows by key\<close>

text \<open>The row a key finds, as a map of its cells: the abstraction of a table.\<close>

definition table_map ::
  "store_env \<Rightarrow> data_files \<Rightarrow> table_declaration \<Rightarrow> string \<Rightarrow> string \<Rightarrow> (string \<Rightarrow> json option) option" where
  "table_map env files d key value = map_option map_of (find_row_by_pk env files d key value)"

definition row_hit :: "store_env \<Rightarrow> table_declaration \<Rightarrow> string \<Rightarrow> string \<Rightarrow> string \<Rightarrow> bool" where
  "row_hit env d key value l \<longleftrightarrow>
     (case line_row env d l of None \<Rightarrow> False | Some row \<Rightarrow> pk_matches (se_fmt env) value (map_of row key))"

lemma row_hit_objects: "td_format d = Objects_Format \<Longrightarrow> row_hit env d key value l = key_line env key value l"
  by (simp add: row_hit_def key_line_def line_row_def project_row_def key_predicate_def split: option.splits json.splits)

lemma find_none: "find_in_lines env d key value ls = None \<longleftrightarrow> (\<forall>l \<in> set ls. \<not> row_hit env d key value l)"
  by (induction ls) (auto simp: row_hit_def split: option.splits)

lemma find_some:
  "find_in_lines env d key value ls = Some (l, row) \<Longrightarrow>
   l \<in> set ls \<and> line_row env d l = Some row \<and> pk_matches (se_fmt env) value (map_of row key)"
  by (induction ls) (auto split: option.splits if_splits)

lemma find_untouched:
  assumes "\<And>l. l \<in> set ls \<Longrightarrow> g l \<noteq> l \<Longrightarrow> \<not> row_hit env d key value l \<and> \<not> row_hit env d key value (g l)"
  shows "find_in_lines env d key value (map g ls) = find_in_lines env d key value ls"
  using assms
proof (induction ls)
  case (Cons l ls)
  then have "find_in_lines env d key value (map g ls) = find_in_lines env d key value ls" by simp
  then show ?case
    using Cons.prems [of l] by (cases "g l = l") (auto simp: row_hit_def split: option.splits)
qed simp

lemma find_patched:
  assumes "\<And>l r. l \<in> set ls \<Longrightarrow> line_row env d l = Some r \<Longrightarrow> pk_matches (se_fmt env) value (map_of r key) \<Longrightarrow>
      line_row env d (g l) = Some (h r) \<and> pk_matches (se_fmt env) value (map_of (h r) key)"
    and "\<And>l. l \<in> set ls \<Longrightarrow> \<not> row_hit env d key value l \<Longrightarrow> g l = l"
  shows "find_in_lines env d key value (map g ls) =
    map_option (\<lambda>(l, r). (g l, h r)) (find_in_lines env d key value ls)"
  using assms
proof (induction ls)
  case (Cons l ls)
  have ih: "find_in_lines env d key value (map g ls) =
      map_option (\<lambda>(l, r). (g l, h r)) (find_in_lines env d key value ls)"
    by (rule Cons.IH) (use Cons.prems in \<open>auto simp del: split_paired_All\<close>)
  show ?case
  proof (cases "row_hit env d key value l")
    case True
    then obtain r where "line_row env d l = Some r" "pk_matches (se_fmt env) value (map_of r key)"
      by (auto simp: row_hit_def split: option.splits)
    then show ?thesis using Cons.prems(1) [of l r] by simp
  next
    case False
    then show ?thesis using Cons.prems(2) [of l] ih by (auto simp: row_hit_def split: option.splits)
  qed
qed simp

lemma pk_matches_one:
  "pk_matches fmt v cell \<Longrightarrow> pk_matches fmt w cell \<Longrightarrow> \<not> pk_operand_null w \<Longrightarrow> v = w"
  by (auto simp: pk_matches_def pk_operand_null_def split: option.splits json.splits if_splits)

lemma map_of_spread: "distinct (map fst body) \<Longrightarrow> map_of (spread row body) = map_of row ++ map_of body"
proof (induction body arbitrary: row)
  case (Cons p body)
  obtain k v where p: "p = (k, v)" by (cases p)
  have "spread row (p # body) = spread (obj_set k v row) body" by (simp add: p spread_def)
  moreover have "map_of (spread (obj_set k v row) body) = map_of (obj_set k v row) ++ map_of body"
    using Cons.IH Cons.prems by simp
  moreover have "k \<notin> dom (map_of body)"
    using Cons.prems by (simp add: p dom_map_of_conv_image_fst)
  moreover have "map_of row ++ map_of (p # body) = (map_of row ++ map_of body)(k \<mapsto> v)"
    by (simp only: p map_of.simps fst_conv snd_conv map_add_upd)
  ultimately show ?case
    by (simp only: map_of_obj_set map_add_upd_left not_False_eq_True)
qed (simp add: spread_def)

section \<open>What coercion accepts\<close>

definition table_ok :: "table_declaration \<Rightarrow> bool" where
  "table_ok d \<longleftrightarrow> distinct (map tc_name (td_columns d))"

lemma coerce_cells_keys:
  "coerce_cells dp raw cs out = Inr row \<Longrightarrow> distinct (map fst out) \<Longrightarrow>
   distinct (map fst row) \<and> fst ` set row = fst ` set out \<union> tc_name ` set cs"
proof (induction cs arbitrary: out)
  case (Cons c cs)
  have keys: "fst ` set (obj_set k v out) = insert k (fst ` set out)" for k and v :: json
    by (metis dom_map_of_conv_image_fst dom_fun_upd map_of_obj_set option.distinct(1))
  show ?case
  proof (cases "map_of raw (tc_name c)")
    case None
    then show ?thesis
      using Cons.IH [of "obj_set (tc_name c) JNull out"] Cons.prems by (simp add: distinct_obj_set keys)
  next
    case (Some v)
    then obtain w where "coerce_cells dp raw cs (obj_set (tc_name c) w out) = Inr row"
      using Cons.prems(1) by auto
    from Cons.IH [OF this] show ?thesis using Cons.prems(2) by (simp add: distinct_obj_set keys)
  qed
qed auto

lemma row_of_keys: "map fst (row_of cs f) = map dc_name cs"
  by (simp add: row_of_def comp_def)

lemma declared_names:
  "declared_columns_of d = Some cols \<Longrightarrow> map dc_name cols = map tc_name (td_columns d)"
  by (auto simp: declared_columns_of_def split: if_splits)

lemma coerced_row:
  assumes "coerce_row_against_declaration env d v = Inr row" and "table_ok d"
  shows "distinct (map fst row) \<and> fst ` set row = tc_name ` set (td_columns d) \<and>
    (\<exists>raw. v = JObj raw \<and> fst ` set raw \<subseteq> tc_name ` set (td_columns d))"
proof (cases "declared_columns_of d")
  case (Some cols)
  have names: "map dc_name cols = map tc_name (td_columns d)" by (rule declared_names [OF Some])
  have d: "distinct (map dc_name cols)" using assms(2) by (simp add: names table_ok_def)
  have "normalize_api_row (se_date env) cols v = Inr row"
    using assms(1) by (simp add: coerce_row_against_declaration_def Some split: sum.splits)
  then obtain raw where r: "v = JObj raw" "fst ` set raw \<subseteq> dc_name ` set cols"
      "map fst row = map dc_name cols"
    using normalize_api_row_Inr [OF d] row_of_keys by metis
  have "dc_name ` set cols = tc_name ` set (td_columns d)" using names by (metis set_map)
  moreover have "fst ` set row = dc_name ` set cols" using r(3) by (metis set_map)
  ultimately show ?thesis using r d by simp
next
  case None
  then obtain raw where r: "v = JObj raw" "coerce_cells (se_date env) raw (td_columns d) [] = Inr row"
      "list_all (\<lambda>p. is_column d (fst p)) raw"
    using assms(1) by (auto simp: coerce_row_against_declaration_def split: json.splits if_splits)
  then show ?thesis
    using coerce_cells_keys [OF r(2)] by (auto simp: list_all_iff is_column_def)
qed

end
