(* ===== verification/Table_Operations.thy ===== *)
theory Table_Operations
  imports Table_Store
begin

text \<open>
  The verbs on the rows of a declared table, \<^verbatim>\<open>src/tables/operations.ts\<close>: insert, update, delete and
  upsert; the envelope that groups them is \<open>Table_Transaction\<close>.  The state is the data files, the change records appended to the audit ledger
  and the policy denials reported.  What surrounds a verb is \<open>table_env\<close>: the declared tables, whether the
  namespace is usable, the tries at the lock, the answers of the namespace writer, injected faults.  A
  refusal is its status and code.  Work under the namespace lock is one step.
\<close>

record policy_denial =
  pd_table :: string
  pd_op :: string
  pd_principal :: "string option"

record table_world =
  tw_files :: data_files
  tw_ledger :: "audit_entry list"
  tw_denials :: "policy_denial list"

text \<open>
  \<open>te_append e k\<close> is the failure message of the writer's \<open>k\<close>-th answer to an audit entry and \<open>te_attempts\<close> the
  retries that fit before the deadline; \<open>te_lock k\<close> tells whether the \<open>k\<close>-th try at the lock succeeds;
  \<open>te_rollback_stops\<close> is the number of files a failing rollback had restored.
\<close>

record table_env =
  te_store :: store_env
  te_ns :: string
  te_tables :: "declaration_error + table_declaration list"
  te_mode :: write_mode
  te_usable :: "api_error option"
  te_number :: "string \<Rightarrow> jsnum"
  te_lock :: "nat \<Rightarrow> bool"
  te_lock_tries :: nat
  te_sha :: "string \<Rightarrow> string"
  te_isots :: "string \<Rightarrow> bool"
  te_now :: string
  te_schema_files :: namespace_files
  te_append :: "audit_entry \<Rightarrow> nat \<Rightarrow> string option"
  te_attempts :: nat
  te_write :: "write_input \<Rightarrow> string option"
  te_fault :: "nat \<Rightarrow> bool"
  te_barrier_fails :: bool
  te_rollback_stops :: "nat option"

abbreviation te_parse :: "table_env \<Rightarrow> json_parser" where
  "te_parse env \<equiv> se_parse (te_store env)"

abbreviation te_fmt :: "table_env \<Rightarrow> rat \<Rightarrow> string" where
  "te_fmt env \<equiv> se_fmt (te_store env)"

section \<open>Declarations and keys\<close>

definition resolve_table_declaration :: "table_env \<Rightarrow> string \<Rightarrow> api_error + table_declaration" where
  "resolve_table_declaration env table =
     (case get_table (te_tables env) table of
        Inl (Registry_Broken e) \<Rightarrow> Inl (Api_Error 500 ''TABLE_REGISTRY_ERROR'')
      | Inl Table_Not_Found \<Rightarrow> Inl (Api_Error 404 ''NOT_FOUND'')
      | Inr d \<Rightarrow> Inr d)"

definition bad_request :: "api_error + 'a" where
  "bad_request = Inl (Api_Error 400 ''VALIDATION_ERROR'')"

definition column_named :: "table_declaration \<Rightarrow> string \<Rightarrow> table_column option" where
  "column_named d k = List.find (\<lambda>c. tc_name c = k) (td_columns d)"

definition resolve_pk_filter ::
  "table_env \<Rightarrow> table_declaration \<Rightarrow> json option \<Rightarrow> api_error + table_column \<times> string" where
  "resolve_pk_filter env d raw =
     (case Option.bind (td_primary d) (column_named d) of
        None \<Rightarrow> bad_request
      | Some col \<Rightarrow>
          (case (case raw of Some (JArr vs) \<Rightarrow> (case vs of [] \<Rightarrow> None | v # _ \<Rightarrow> Some v) | _ \<Rightarrow> raw) of
             None \<Rightarrow> bad_request
           | Some v \<Rightarrow>
               let pk = js_string (te_fmt env) v
               in if starts_with ''eq.'' pk \<and> drop 3 pk \<noteq> [] then Inr (col, drop 3 pk) else bad_request))"

definition integer_text :: "string \<Rightarrow> bool" where
  "integer_text s =
     (let ds = (case s of c # r \<Rightarrow> if c = CHR ''-'' then r else s | [] \<Rightarrow> s)
      in ds \<noteq> [] \<and> list_all is_digit ds)"

definition declared_pk_value :: "table_env \<Rightarrow> declared_type \<Rightarrow> string \<Rightarrow> api_error + json" where
  "declared_pk_value env t value =
     (case t of
        Ty_Float64 \<Rightarrow>
          if trim value = [] \<or> \<not> is_finite (te_number env value) then bad_request
          else Inr (JNum (if te_number env value = Neg_Zero then Fin 0 else te_number env value))
      | Ty_Boolean \<Rightarrow>
          if value = ''true'' then Inr (JBool True)
          else if value = ''false'' then Inr (JBool False) else bad_request
      | Ty_Int64 \<Rightarrow> if integer_text value then Inr (JStr value) else bad_request
      | _ \<Rightarrow> Inr (JStr value))"

definition typed_pk_value :: "table_env \<Rightarrow> table_column \<Rightarrow> string \<Rightarrow> api_error + json" where
  "typed_pk_value env col value =
     (case tc_declared col of
        Some t \<Rightarrow> declared_pk_value env t value
      | None \<Rightarrow>
          if tc_type col = ''integer'' \<or> tc_type col = ''bigint''
          then (if \<not> integer_text value \<or> \<not> is_safe_integer (te_number env value) then bad_request
                else Inr (JNum (te_number env value)))
          else if tc_type col = ''double''
          then (if is_finite (te_number env value) then Inr (JNum (te_number env value)) else bad_request)
          else if tc_type col = ''boolean''
          then (if value = ''true'' then Inr (JBool True)
                else if value = ''false'' then Inr (JBool False) else bad_request)
          else Inr (JStr value))"

section \<open>Lock and audit\<close>

text \<open>The try at the lock, again while the deadline has not passed.\<close>

fun acquire_waiting :: "(nat \<Rightarrow> bool) \<Rightarrow> nat \<Rightarrow> nat \<Rightarrow> bool" where
  "acquire_waiting lock k 0 = lock k"
| "acquire_waiting lock k (Suc n) = (lock k \<or> acquire_waiting lock (Suc k) n)"

definition lock_acquired :: "table_env \<Rightarrow> bool" where
  "lock_acquired env = acquire_waiting (te_lock env) 0 (te_lock_tries env)"

definition locked_out :: "api_error" where
  "locked_out = Api_Error 503 ''SERIALIZER_LOCKED''"

text \<open>The final message, after retries while the writer answers that it is locked.\<close>

fun enqueue_with_retry :: "(nat \<Rightarrow> string option) \<Rightarrow> nat \<Rightarrow> nat \<Rightarrow> string option" where
  "enqueue_with_retry answer k 0 = answer k"
| "enqueue_with_retry answer k (Suc n) =
     (case answer k of
        None \<Rightarrow> None
      | Some m \<Rightarrow> if starts_with ''SERIALIZER_LOCKED'' m then enqueue_with_retry answer (Suc k) n else Some m)"

record row_change =
  rc_op :: change_operation
  rc_table :: string
  rc_path :: string
  rc_line :: string
  rc_row :: table_row

definition change_input :: "table_env \<Rightarrow> principal option \<Rightarrow> row_change \<Rightarrow> mutation_input" where
  "change_input env po c =
     \<lparr>mi_ns = te_ns env, mi_table = rc_table c, mi_op = rc_op c, mi_principal = map_option pr_name po,
      mi_targetPath = rc_path c, mi_dataLine = rc_line c, mi_row = JObj (rc_row c), mi_ts = te_now env\<rparr>"

definition change_entry :: "table_env \<Rightarrow> principal option \<Rightarrow> row_change \<Rightarrow> audit_entry option" where
  "change_entry env po c =
     accepted_table_mutation_record (te_isots env) (te_parse env) (te_sha env) (te_schema_files env)
       (change_input env po c)"

definition record_table_mutation_audit ::
  "table_env \<Rightarrow> principal option \<Rightarrow> row_change \<Rightarrow> table_world \<Rightarrow> table_world \<times> (api_error + unit)" where
  "record_table_mutation_audit env po c w =
     (case change_entry env po c of
        None \<Rightarrow> (w, Inl (Api_Error 500 ''AUDIT_APPEND_FAILED''))
      | Some e \<Rightarrow>
          (case enqueue_with_retry (te_append env e) 0 (te_attempts env) of
             None \<Rightarrow> (w\<lparr>tw_ledger := tw_ledger w @ [e]\<rparr>, Inr ())
           | Some m \<Rightarrow>
               (w, Inl (if starts_with ''SERVER_SHUTTING_DOWN'' m then Api_Error 503 ''SERVER_SHUTTING_DOWN''
                        else Api_Error 500 ''AUDIT_APPEND_FAILED''))))"

fun record_all ::
  "table_env \<Rightarrow> principal option \<Rightarrow> row_change list \<Rightarrow> table_world \<Rightarrow> table_world \<times> (api_error + unit)" where
  "record_all env po [] w = (w, Inr ())"
| "record_all env po (c # cs) w =
     (case record_table_mutation_audit env po c w of
        (w', Inl e) \<Rightarrow> (w', Inl e)
      | (w', Inr u) \<Rightarrow> record_all env po cs w')"

definition deny :: "table_declaration \<Rightarrow> principal option \<Rightarrow> table_world \<Rightarrow> table_world" where
  "deny d po w =
     w\<lparr>tw_denials := tw_denials w @
        [\<lparr>pd_table = td_name d, pd_op = ''tables.write'', pd_principal = map_option pr_name po\<rparr>]\<rparr>"

definition may_write :: "table_env \<Rightarrow> table_declaration \<Rightarrow> principal option \<Rightarrow> table_row \<Rightarrow> bool" where
  "may_write env d po row \<longleftrightarrow>
     row_policy_decision (te_fmt env) (td_policy d) Write (JObj row) po = Allowed"

section \<open>Insert\<close>

definition missing_key :: "table_declaration \<Rightarrow> table_row \<Rightarrow> bool" where
  "missing_key d row \<longleftrightarrow>
     (case td_primary d of
        None \<Rightarrow> False
      | Some k \<Rightarrow> map_of row k = None \<or> map_of row k = Some JNull \<or> map_of row k = Some (JStr []))"

text \<open>The status of a failure the namespace writer reports.\<close>

definition writer_status :: "string \<Rightarrow> nat" where
  "writer_status code =
     (if code = ''VALIDATION_ERROR'' then 422 else if code = ''NOT_FOUND'' then 404
      else if code = ''FORBIDDEN'' then 403
      else if code \<in> set [''SERIALIZER_LOCKED'', ''SERIALIZER_FENCED'', ''SERVER_SHUTTING_DOWN''] then 503 else 500)"

definition insert_write ::
  "table_env \<Rightarrow> table_declaration \<Rightarrow> declared_column list \<Rightarrow> principal option \<Rightarrow> table_row \<Rightarrow> write_input" where
  "insert_write env d cols po row =
     \<lparr>wi_ns = te_ns env, wi_table = td_name d, wi_op = Op_Insert,
      wi_record = stored_row_from_api_row cols
        (if td_format d = Positional_Format then Positional_Rows else Object_Rows) row,
      wi_principal = map_option pr_name po, wi_target = Some (td_glob d),
      wi_partition = partition_for_storage_path (td_glob d)\<rparr>"

text \<open>The rows handed to the writer one by one, until one is refused.\<close>

fun write_rows :: "table_env \<Rightarrow> write_input list \<Rightarrow> api_error + nat" where
  "write_rows env [] = Inr 0"
| "write_rows env (r # rs) =
     (case te_write env r of
        Some code \<Rightarrow> Inl (Api_Error (writer_status code) code)
      | None \<Rightarrow> res_bind (write_rows env rs) (\<lambda>n. Inr (n + 1)))"

definition insert_legacy_rows ::
  "table_env \<Rightarrow> table_declaration \<Rightarrow> table_row list \<Rightarrow> principal option \<Rightarrow> table_world
     \<Rightarrow> table_world \<times> (api_error + nat)" where
  "insert_legacy_rows env d rows po w =
     (let files = fst (append_rows_to_table (te_store env) (tw_files w) d rows (te_mode env));
          w1 = w\<lparr>tw_files := files\<rparr>
      in if td_primary d = None then (w1, Inr (length rows))
         else (case record_all env po
                 (map (\<lambda>row. \<lparr>rc_op = Op_Insert, rc_table = td_name d,
                    rc_path = append_target (te_store env) files d,
                    rc_line = serialize_row_line (te_store env) d row, rc_row = row\<rparr>) rows) w1 of
                 (w2, Inl e) \<Rightarrow> (w2, Inl e) | (w2, Inr u) \<Rightarrow> (w2, Inr (length rows))))"

definition insert_table_rows ::
  "table_env \<Rightarrow> string \<Rightarrow> json list \<Rightarrow> principal option \<Rightarrow> table_world \<Rightarrow> table_world \<times> (api_error + nat)" where
  "insert_table_rows env table raws po w =
     (case resolve_table_declaration env table of
        Inl e \<Rightarrow> (w, Inl e)
      | Inr d \<Rightarrow>
          if raws = [] then (w, bad_request)
          else (case res_map (coerce_row_against_declaration (te_store env) d) raws of
             Inl e \<Rightarrow> (w, Inl e)
           | Inr rows \<Rightarrow>
               if list_ex (missing_key d) rows then (w, bad_request)
               else if policy_rule (td_policy d) Write \<noteq> None \<and> list_ex (\<lambda>r. \<not> may_write env d po r) rows
               then (deny d po w, Inl (Api_Error 403 ''FORBIDDEN''))
               else if td_source d = From_Schema
               then (case te_usable env of
                       Some e \<Rightarrow> (w, Inl e)
                     | None \<Rightarrow>
                         (w, write_rows env (map (insert_write env d
                               (case declared_columns_of d of None \<Rightarrow> [] | Some cols \<Rightarrow> cols) po) rows)))
               else insert_legacy_rows env d rows po w))"

section \<open>Update\<close>

definition unknown_columns :: "table_declaration \<Rightarrow> table_row \<Rightarrow> bool" where
  "unknown_columns d body \<longleftrightarrow> list_ex (\<lambda>p. \<not> is_column d (fst p)) body"

definition picked :: "table_row \<Rightarrow> table_row \<Rightarrow> table_row" where
  "picked merged body = map (\<lambda>p. (fst p, or_null (map_of merged (fst p)))) body"

text \<open>
  The work under the lock: the new files, and the location of the changed row when rows were changed.
  \<open>Inl None\<close> is a policy refusal.
\<close>

definition update_locked ::
  "table_env \<Rightarrow> table_declaration \<Rightarrow> table_column \<Rightarrow> string \<Rightarrow> table_row \<Rightarrow> principal option \<Rightarrow> data_files
     \<Rightarrow> data_files \<times> (api_error option + (nat \<times> row_location option))" where
  "update_locked env d col value body po files =
     (case find_row_by_pk (te_store env) files d (tc_name col) value of
        None \<Rightarrow> (files, Inr (0, None))
      | Some existing \<Rightarrow>
          if \<not> may_write env d po existing \<or> \<not> may_write env d po (spread existing body)
          then (files, Inl None)
          else (case coerce_row_against_declaration (te_store env) d (JObj (spread existing body)) of
             Inl e \<Rightarrow> (files, Inl (Some e))
           | Inr merged \<Rightarrow>
               (case patch_rows_by_pk (te_store env) files d (tc_name col) value (picked merged body) None (te_mode env) of
                  (files', Inl e) \<Rightarrow> (files', Inl (Some e))
                | (files', Inr outcome) \<Rightarrow>
                    (files', Inr (mo_mutated outcome,
                       if mo_mutated outcome = 0 then None
                       else find_row_line_by_pk (te_store env) files' d (tc_name col)
                              (case map_of (picked merged body) (tc_name col) of
                                 Some v \<Rightarrow> js_string (te_fmt env) v | None \<Rightarrow> value))))))"

definition location_change :: "change_operation \<Rightarrow> table_declaration \<Rightarrow> row_location \<Rightarrow> row_change" where
  "location_change oper d loc =
     \<lparr>rc_op = oper, rc_table = td_name d, rc_path = rl_path loc, rc_line = rl_line loc, rc_row = rl_row loc\<rparr>"

definition answer_change ::
  "table_env \<Rightarrow> principal option \<Rightarrow> nat \<Rightarrow> row_change option \<Rightarrow> table_world \<Rightarrow> table_world \<times> (api_error + nat)" where
  "answer_change env po n change w =
     (if n = 0 then (w, Inr 0)
      else (case change of
         None \<Rightarrow> (w, Inl (Api_Error 500 ''AUDIT_APPEND_FAILED''))
       | Some c \<Rightarrow>
           (case record_table_mutation_audit env po c w of
              (w', Inl e) \<Rightarrow> (w', Inl e) | (w', Inr u) \<Rightarrow> (w', Inr n))))"

definition update_table_rows ::
  "table_env \<Rightarrow> string \<Rightarrow> json option \<Rightarrow> table_row \<Rightarrow> principal option \<Rightarrow> table_world
     \<Rightarrow> table_world \<times> (api_error + nat)" where
  "update_table_rows env table pk body po w =
     (case resolve_table_declaration env table of
        Inl e \<Rightarrow> (w, Inl e)
      | Inr d \<Rightarrow>
          (case resolve_pk_filter env d pk of
             Inl e \<Rightarrow> (w, Inl e)
           | Inr (col, value) \<Rightarrow>
               if unknown_columns d body then (w, bad_request)
               else if \<not> lock_acquired env then (w, Inl locked_out)
               else (case update_locked env d col value body po (tw_files w) of
                  (files, Inl (Some e)) \<Rightarrow> (w\<lparr>tw_files := files\<rparr>, Inl e)
                | (files, Inl None) \<Rightarrow> (deny d po w, Inr 0)
                | (files, Inr (n, loc)) \<Rightarrow>
                    answer_change env po n (map_option (location_change Op_Update d) loc) (w\<lparr>tw_files := files\<rparr>))))"

section \<open>Delete\<close>

definition delete_table_rows ::
  "table_env \<Rightarrow> string \<Rightarrow> json option \<Rightarrow> principal option \<Rightarrow> table_world \<Rightarrow> table_world \<times> (api_error + nat)" where
  "delete_table_rows env table pk po w =
     (case resolve_table_declaration env table of
        Inl e \<Rightarrow> (w, Inl e)
      | Inr d \<Rightarrow>
          (case resolve_pk_filter env d pk of
             Inl e \<Rightarrow> (w, Inl e)
           | Inr (col, value) \<Rightarrow>
               if \<not> lock_acquired env then (w, Inl locked_out)
               else
                 let loc = find_row_line_by_pk (te_store env) (tw_files w) d (tc_name col) value
                 in if (case loc of None \<Rightarrow> False | Some l \<Rightarrow> \<not> may_write env d po (rl_row l))
                    then (deny d po w, Inr 0)
                    else (case delete_rows_by_pk (te_store env) (tw_files w) d (tc_name col) value (te_mode env) of
                       (files, outcome) \<Rightarrow>
                         answer_change env po (mo_mutated outcome) (map_option (location_change Op_Delete d) loc)
                           (w\<lparr>tw_files := files\<rparr>))))"

section \<open>Upsert\<close>

datatype row_outcome = Row_Inserted | Row_Updated | Row_Deleted

text \<open>\<^verbatim>\<open>{ ...existing, ...body, [key]: existing[key] }\<close>.\<close>

definition keep_key :: "string \<Rightarrow> table_row \<Rightarrow> table_row \<Rightarrow> table_row" where
  "keep_key k existing row =
     (case map_of existing k of Some v \<Rightarrow> obj_set k v row | None \<Rightarrow> obj_del k row)"

text \<open>The branch of a key that is there, and the branch of a key that is not; \<open>Inl None\<close> is a policy refusal.\<close>

definition replace_locked ::
  "table_env \<Rightarrow> table_declaration \<Rightarrow> table_column \<Rightarrow> string \<Rightarrow> table_row \<Rightarrow> table_row \<Rightarrow> principal option \<Rightarrow> data_files
     \<Rightarrow> data_files \<times> (api_error option + (row_outcome \<times> table_row \<times> row_change))" where
  "replace_locked env d col value existing body po files =
     (if \<not> may_write env d po existing \<or> \<not> may_write env d po (spread existing body) then (files, Inl None)
      else (case coerce_row_against_declaration (te_store env) d
                   (JObj (keep_key (tc_name col) existing (spread existing body))) of
         Inl e \<Rightarrow> (files, Inl (Some e))
       | Inr merged \<Rightarrow>
           (case patch_rows_by_pk (te_store env) files d (tc_name col) value merged None (te_mode env) of
              (files', Inl e) \<Rightarrow> (files', Inl (Some e))
            | (files', Inr outcome) \<Rightarrow>
                if mo_mutated outcome = 0 then (files', Inl (Some (Api_Error 409 ''CONFLICT'')))
                else (case find_row_line_by_pk (te_store env) files' d (tc_name col)
                             (case map_of merged (tc_name col) of
                                None \<Rightarrow> value | Some JNull \<Rightarrow> value | Some v \<Rightarrow> js_string (te_fmt env) v) of
                   None \<Rightarrow> (files', Inl (Some (Api_Error 500 ''AUDIT_APPEND_FAILED'')))
                 | Some loc \<Rightarrow> (files', Inr (Row_Updated, merged, location_change Op_Update d loc))))))"

text \<open>The append of one row and the change it records.\<close>

definition append_change ::
  "table_env \<Rightarrow> table_declaration \<Rightarrow> table_row \<Rightarrow> write_mode \<Rightarrow> data_files \<Rightarrow> data_files \<times> row_change" where
  "append_change env d row mode files =
     (let files' = fst (append_rows_to_table (te_store env) files d [row] mode)
      in (files', \<lparr>rc_op = Op_Insert, rc_table = td_name d, rc_path = append_target (te_store env) files' d,
                   rc_line = serialize_row_line (te_store env) d row, rc_row = row\<rparr>))"

definition create_locked ::
  "table_env \<Rightarrow> table_declaration \<Rightarrow> table_column \<Rightarrow> json \<Rightarrow> table_row \<Rightarrow> principal option \<Rightarrow> data_files
     \<Rightarrow> data_files \<times> (api_error option + (row_outcome \<times> table_row \<times> row_change))" where
  "create_locked env d col typed body po files =
     (case coerce_row_against_declaration (te_store env) d (JObj (obj_set (tc_name col) typed body)) of
        Inl e \<Rightarrow> (files, Inl (Some e))
      | Inr candidate \<Rightarrow>
          if \<not> may_write env d po candidate then (files, Inl None)
          else (case append_change env d candidate (te_mode env) files of
                  (files', c) \<Rightarrow> (files', Inr (Row_Inserted, candidate, c))))"

definition upsert_locked ::
  "table_env \<Rightarrow> table_declaration \<Rightarrow> table_column \<Rightarrow> string \<Rightarrow> json \<Rightarrow> table_row \<Rightarrow> principal option \<Rightarrow> data_files
     \<Rightarrow> data_files \<times> (api_error option + (row_outcome \<times> table_row \<times> row_change))" where
  "upsert_locked env d col value typed body po files =
     (case find_row_by_pk (te_store env) files d (tc_name col) value of
        Some existing \<Rightarrow> replace_locked env d col value existing body po files
      | None \<Rightarrow> create_locked env d col typed body po files)"

definition key_conflict :: "table_env \<Rightarrow> table_column \<Rightarrow> json \<Rightarrow> table_row \<Rightarrow> bool" where
  "key_conflict env col typed body \<longleftrightarrow>
     (case map_of body (tc_name col) of
        None \<Rightarrow> False
      | Some v \<Rightarrow> v \<noteq> JNull \<and> js_string (te_fmt env) v \<noteq> js_string (te_fmt env) typed)"

definition upsert_table_row ::
  "table_env \<Rightarrow> string \<Rightarrow> json option \<Rightarrow> table_row \<Rightarrow> principal option \<Rightarrow> table_world
     \<Rightarrow> table_world \<times> (api_error + (row_outcome \<times> table_row))" where
  "upsert_table_row env table pk body po w =
     (case res_bind (resolve_table_declaration env table) (\<lambda>d.
           res_bind (resolve_pk_filter env d pk) (\<lambda>(col, value).
           if unknown_columns d body then bad_request
           else if td_source d = From_Schema \<and> te_usable env \<noteq> None then Inl (the (te_usable env))
           else res_bind (typed_pk_value env col value) (\<lambda>typed.
             if key_conflict env col typed body then Inl (Api_Error 409 ''PRIMARY_KEY_CONFLICT'')
             else if \<not> lock_acquired env then Inl locked_out
             else Inr (d, col, value, typed)))) of
        Inl e \<Rightarrow> (w, Inl e)
      | Inr (d, col, value, typed) \<Rightarrow>
          (case upsert_locked env d col value typed body po (tw_files w) of
             (files, Inl None) \<Rightarrow> (deny d po (w\<lparr>tw_files := files\<rparr>), Inl (Api_Error 403 ''FORBIDDEN''))
           | (files, Inl (Some e)) \<Rightarrow> (w\<lparr>tw_files := files\<rparr>, Inl e)
           | (files, Inr (outcome, row, change)) \<Rightarrow>
               (case record_table_mutation_audit env po change (w\<lparr>tw_files := files\<rparr>) of
                  (w', Inl e) \<Rightarrow> (w', Inl e) | (w', Inr u) \<Rightarrow> (w', Inr (outcome, row)))))"

section \<open>What the verbs do\<close>

lemma patch_none:
  assumes "patch_rows_by_pk env files d key value body None mode = (files', Inr outcome)"
    and "distinct (map fst files)" and "digits_ok (se_fmt env)" and "mo_mutated outcome = 0"
  shows "same_lines files files'"
  using assms rewrite_none [of env files d "key_predicate env key value"] by (auto simp: patch_rows_by_pk_def split: prod.splits)

lemma delete_none:
  assumes "delete_rows_by_pk env files d key value mode = (files', outcome)"
    and "distinct (map fst files)" and "digits_ok (se_fmt env)" and "mo_mutated outcome = 0"
  shows "same_lines files files'"
  using assms rewrite_none [of env files d "key_predicate env key value" Drop_Rows mode] by (simp add: delete_rows_by_pk_def)

lemma located_line:
  assumes "find_row_line_by_pk env files d key value = Some lo"
  shows "rl_line lo \<in> set (table_lines env files d) \<and> line_row env d (rl_line lo) = Some (rl_row lo) \<and>
    pk_matches (se_fmt env) value (map_of (rl_row lo) key)"
proof -
  have "find_in_lines env d key value (table_lines env files d) = Some (rl_line lo, rl_row lo)"
    using assms by (simp flip: find_row_line_lines)
  from find_some [OF this] show ?thesis .
qed

lemma record_audit_files:
  "record_table_mutation_audit env po c w = (w', r) \<Longrightarrow> tw_files w' = tw_files w"
  by (auto simp: record_table_mutation_audit_def split: option.splits)

lemma record_audit_ok:
  "record_table_mutation_audit env po c w = (w', Inr u) \<Longrightarrow>
   \<exists>e. change_entry env po c = Some e \<and> tw_ledger w' = tw_ledger w @ [e]"
  by (auto simp: record_table_mutation_audit_def split: option.splits)

definition audit_failure :: "api_error \<Rightarrow> bool" where
  "audit_failure e \<longleftrightarrow> e = Api_Error 500 ''AUDIT_APPEND_FAILED'' \<or> e = Api_Error 503 ''SERVER_SHUTTING_DOWN''"

lemma record_audit_failed:
  "record_table_mutation_audit env po c w = (w', Inl e) \<Longrightarrow> audit_failure e"
  by (auto simp: record_table_mutation_audit_def audit_failure_def split: option.splits if_splits)

lemma record_all_files: "record_all env po cs w = (w', r) \<Longrightarrow> tw_files w' = tw_files w"
  by (induction cs arbitrary: w) (auto dest: record_audit_files split: prod.splits sum.splits)

lemma record_all_failed: "record_all env po cs w = (w', Inl e) \<Longrightarrow> audit_failure e"
  by (induction cs arbitrary: w) (auto dest: record_audit_failed split: prod.splits sum.splits)

lemma record_all_ok:
  "record_all env po cs w = (w', Inr u) \<Longrightarrow>
   \<exists>es. tw_ledger w' = tw_ledger w @ es \<and> list_all2 (\<lambda>c e. change_entry env po c = Some e) cs es"
proof (induction cs arbitrary: w)
  case (Cons c cs)
  then obtain w1 v where w1: "record_table_mutation_audit env po c w = (w1, Inr v)" "record_all env po cs w1 = (w', Inr u)"
    by (auto split: prod.splits sum.splits)
  obtain e where e: "change_entry env po c = Some e" "tw_ledger w1 = tw_ledger w @ [e]"
    using record_audit_ok [OF w1(1)] by blast
  obtain es where "tw_ledger w' = tw_ledger w1 @ es" "list_all2 (\<lambda>c e. change_entry env po c = Some e) cs es"
    using Cons.IH [OF w1(2)] by blast
  then show ?case using e by (intro exI [of _ "e # es"]) simp
qed simp

lemma answer_change_files: "answer_change env po n c w = (w', r) \<Longrightarrow> tw_files w' = tw_files w"
  by (auto simp: answer_change_def dest: record_audit_files split: if_splits option.splits prod.splits sum.splits)

lemma answer_change_ok:
  "answer_change env po n c w = (w', Inr m) \<Longrightarrow> m = n \<and>
   (n \<noteq> 0 \<longrightarrow> (\<exists>ch e. c = Some ch \<and> change_entry env po ch = Some e \<and> tw_ledger w' = tw_ledger w @ [e])) \<and>
   (n = 0 \<longrightarrow> w' = w)"
  by (auto simp: answer_change_def dest: record_audit_ok split: if_splits option.splits prod.splits sum.splits)

lemma answer_change_failed: "answer_change env po n c w = (w', Inl e) \<Longrightarrow> audit_failure e"
  by (auto simp: answer_change_def audit_failure_def dest: record_audit_failed
      split: if_splits option.splits prod.splits sum.splits)

lemma deny_simps [simp]: "tw_files (deny d po w) = tw_files w" "tw_ledger (deny d po w) = tw_ledger w"
  by (simp_all add: deny_def)

lemma update_runs:
  assumes "update_table_rows env table pk body po w = (w', r)"
    and "resolve_table_declaration env table = Inr d" and "resolve_pk_filter env d pk = Inr (col, value)"
  obtains (refused) e where "r = Inl e" "w' = w"
  | (locked) files q where "update_locked env d col value body po (tw_files w) = (files, q)"
      "(case q of Inl (Some e) \<Rightarrow> (w\<lparr>tw_files := files\<rparr>, Inl e) | Inl None \<Rightarrow> (deny d po w, Inr 0)
        | Inr (n, loc) \<Rightarrow> answer_change env po n (map_option (location_change Op_Update d) loc) (w\<lparr>tw_files := files\<rparr>)) = (w', r)"
proof -
  obtain files q where u: "update_locked env d col value body po (tw_files w) = (files, q)" by fastforce
  show thesis
  proof (cases "unknown_columns d body \<or> \<not> lock_acquired env")
    case True
    then show thesis using assms refused
      by (cases "unknown_columns d body") (auto simp: update_table_rows_def bad_request_def)
  next
    case False
    then show thesis using assms locked [OF u] u
      by (cases q) (auto simp: update_table_rows_def split: option.splits prod.splits)
  qed
qed

text \<open>C11: an update changes exactly the rows of its key.  When it reports changed rows, the first row of the key
  and that row with the patch applied were both admitted by the write policy and the patched row was coerced;
  every line of the key is replaced by its own row with the coerced cells of the patch, every other line stays
  byte for byte and in place, other files are untouched, the count is the number of lines of the key, and one
  change record was logged.\<close>

theorem update_exact:
  assumes "update_table_rows env table pk body po w = (w', Inr n)" and "n \<noteq> 0"
    and "resolve_table_declaration env table = Inr d" and "resolve_pk_filter env d pk = Inr (col, value)"
    and "distinct (map fst (tw_files w))" and "digits_ok (te_fmt env)"
  shows "\<exists>existing merged change e.
      find_row_by_pk (te_store env) (tw_files w) d (tc_name col) value = Some existing \<and>
      may_write env d po existing \<and> may_write env d po (spread existing body) \<and>
      coerce_row_against_declaration (te_store env) d (JObj (spread existing body)) = Inr merged \<and>
      table_lines (te_store env) (tw_files w') d =
        map (patched_line (te_store env) d (tc_name col) value (picked merged body))
          (table_lines (te_store env) (tw_files w) d) \<and>
      n = length (filter (key_line (te_store env) (tc_name col) value) (table_lines (te_store env) (tw_files w) d)) \<and>
      (\<forall>p. p \<notin> set (resolve_table_files (te_store env) (tw_files w) d) \<longrightarrow>
         map_of (tw_files w') p = map_of (tw_files w) p) \<and>
      rc_op change = Op_Update \<and> rc_line change \<in> set (table_lines (te_store env) (tw_files w') d) \<and>
      change_entry env po change = Some e \<and> tw_ledger w' = tw_ledger w @ [e]"
proof (rule update_runs [OF assms(1,3,4)])
  fix files q
  assume u: "update_locked env d col value body po (tw_files w) = (files, q)"
    and a: "(case q of Inl (Some e) \<Rightarrow> (w\<lparr>tw_files := files\<rparr>, Inl e) | Inl None \<Rightarrow> (deny d po w, Inr 0)
        | Inr (n, loc) \<Rightarrow> answer_change env po n (map_option (location_change Op_Update d) loc) (w\<lparr>tw_files := files\<rparr>)) =
        (w', Inr n)"
  obtain loc where q: "q = Inr (n, loc)"
      and ans: "answer_change env po n (map_option (location_change Op_Update d) loc) (w\<lparr>tw_files := files\<rparr>) = (w', Inr n)"
    using a assms(2) answer_change_ok by (auto split: sum.splits option.splits prod.splits; metis)
  have files: "tw_files w' = files" using answer_change_files [OF ans] by simp
  obtain existing where ex: "find_row_by_pk (te_store env) (tw_files w) d (tc_name col) value = Some existing"
    using u q assms(2) by (cases "find_row_by_pk (te_store env) (tw_files w) d (tc_name col) value")
      (auto simp: update_locked_def)
  have ok: "may_write env d po existing" "may_write env d po (spread existing body)"
    using u by (auto simp: update_locked_def ex q split: if_splits)
  then obtain merged where m: "coerce_row_against_declaration (te_store env) d (JObj (spread existing body)) = Inr merged"
    using u by (auto simp: update_locked_def ex q split: sum.splits)
  obtain f' outcome where p: "patch_rows_by_pk (te_store env) (tw_files w) d (tc_name col) value (picked merged body)
      None (te_mode env) = (f', Inr outcome)" using patch_total by blast
  then have f: "f' = files" "n = mo_mutated outcome"
      "loc = find_row_line_by_pk (te_store env) files d (tc_name col)
         (case map_of (picked merged body) (tc_name col) of Some v \<Rightarrow> js_string (te_fmt env) v | None \<Rightarrow> value)"
    using u ok assms(2) by (auto simp: update_locked_def ex m q split: if_splits)
  obtain ch e where c: "map_option (location_change Op_Update d) loc = Some ch" "change_entry env po ch = Some e"
      "tw_ledger w' = tw_ledger w @ [e]"
    using answer_change_ok [OF ans] assms(2) by auto
  then obtain lo where lo: "loc = Some lo" "ch = location_change Op_Update d lo" by auto
  then have "rl_line lo \<in> set (table_lines (te_store env) files d)"
    using f(3) located_line [of "te_store env" files d "tc_name col" _ lo] by simp
  then have line: "rc_line ch \<in> set (table_lines (te_store env) (tw_files w') d)" "rc_op ch = Op_Update"
    using lo(2) files by (simp_all add: location_change_def)
  note x = patch_exact [OF p assms(5,6), unfolded f(1), folded files f(2)]
  show ?thesis
  proof (intro exI conjI)
    show "find_row_by_pk (te_store env) (tw_files w) d (tc_name col) value = Some existing" by (fact ex)
    show "may_write env d po existing" "may_write env d po (spread existing body)" by (fact ok)+
    show "coerce_row_against_declaration (te_store env) d (JObj (spread existing body)) = Inr merged" by (fact m)
    show "rc_op ch = Op_Update" "rc_line ch \<in> set (table_lines (te_store env) (tw_files w') d)" by (fact line)+
    show "change_entry env po ch = Some e" "tw_ledger w' = tw_ledger w @ [e]" by (fact c)+
  qed (use x in blast)+
qed (use assms in auto)

lemma delete_runs:
  assumes "delete_table_rows env table pk po w = (w', r)"
    and "resolve_table_declaration env table = Inr d" and "resolve_pk_filter env d pk = Inr (col, value)"
  obtains (refused) e where "r = Inl e" "w' = w"
  | (denied) "r = Inr 0" "w' = deny d po w"
  | (rewritten) loc files outcome where
      "loc = find_row_line_by_pk (te_store env) (tw_files w) d (tc_name col) value"
      "\<And>l. loc = Some l \<Longrightarrow> may_write env d po (rl_row l)"
      "delete_rows_by_pk (te_store env) (tw_files w) d (tc_name col) value (te_mode env) = (files, outcome)"
      "answer_change env po (mo_mutated outcome) (map_option (location_change Op_Delete d) loc) (w\<lparr>tw_files := files\<rparr>) = (w', r)"
proof -
  let ?loc = "find_row_line_by_pk (te_store env) (tw_files w) d (tc_name col) value"
  obtain files outcome where f:
      "delete_rows_by_pk (te_store env) (tw_files w) d (tc_name col) value (te_mode env) = (files, outcome)" by fastforce
  show thesis
  proof (cases "lock_acquired env")
    case False
    then show thesis using assms refused [of locked_out] by (auto simp: delete_table_rows_def)
  next
    case True
    show thesis
    proof (cases ?loc)
      case None
      then show thesis using assms True f rewritten [OF refl _ f] by (simp add: delete_table_rows_def)
    next
      case (Some l)
      then show thesis using assms True f rewritten [OF refl _ f] denied
        by (cases "may_write env d po (rl_row l)") (auto simp: delete_table_rows_def)
    qed
  qed
qed

text \<open>C12: a delete removes exactly the rows of its key.  When it reports removed rows, the first row of the
  key was admitted by the write policy, the lines of the key are gone and all others stay byte for byte and in
  order, the key finds nothing any more in a table of objects, and one tombstone of a removed line was logged.\<close>

theorem delete_exact_rows:
  assumes "delete_table_rows env table pk po w = (w', Inr n)" and "n \<noteq> 0"
    and "resolve_table_declaration env table = Inr d" and "resolve_pk_filter env d pk = Inr (col, value)"
    and "distinct (map fst (tw_files w))" and "digits_ok (te_fmt env)"
  shows "\<exists>loc e.
      find_row_line_by_pk (te_store env) (tw_files w) d (tc_name col) value = Some loc \<and>
      may_write env d po (rl_row loc) \<and>
      table_lines (te_store env) (tw_files w') d =
        filter (\<lambda>l. \<not> key_line (te_store env) (tc_name col) value l) (table_lines (te_store env) (tw_files w) d) \<and>
      n = length (filter (key_line (te_store env) (tc_name col) value) (table_lines (te_store env) (tw_files w) d)) \<and>
      (td_format d = Objects_Format \<longrightarrow> find_row_by_pk (te_store env) (tw_files w') d (tc_name col) value = None) \<and>
      change_entry env po (location_change Op_Delete d loc) = Some e \<and> tw_ledger w' = tw_ledger w @ [e]"
proof (rule delete_runs [OF assms(1,3,4)])
  fix loc files outcome
  assume loc: "loc = find_row_line_by_pk (te_store env) (tw_files w) d (tc_name col) value"
    and may: "\<And>l. loc = Some l \<Longrightarrow> may_write env d po (rl_row l)"
    and del: "delete_rows_by_pk (te_store env) (tw_files w) d (tc_name col) value (te_mode env) = (files, outcome)"
    and ans: "answer_change env po (mo_mutated outcome) (map_option (location_change Op_Delete d) loc)
      (w\<lparr>tw_files := files\<rparr>) = (w', Inr n)"
  have n: "n = mo_mutated outcome" and files: "tw_files w' = files"
    using answer_change_ok [OF ans] answer_change_files [OF ans] by simp_all
  obtain l e where l: "loc = Some l" "change_entry env po (location_change Op_Delete d l) = Some e"
      "tw_ledger w' = tw_ledger w @ [e]"
    using answer_change_ok [OF ans] assms(2) n by auto
  note x = delete_exact [OF del assms(5,6)]
  have "find_row_by_pk (te_store env) files d (tc_name col) value = None" if "td_format d = Objects_Format"
    using x that by (simp add: find_row_lines find_none row_hit_objects)
  then show ?thesis
    using x l loc may [OF l(1)] files n by auto
qed (use assms in auto)

section \<open>Upsert as a map update\<close>

lemma upsert_runs:
  assumes "upsert_table_row env table pk body po w = (w', Inr (outcome, row))"
    and "resolve_table_declaration env table = Inr d" and "resolve_pk_filter env d pk = Inr (col, value)"
  obtains typed files change e where "typed_pk_value env col value = Inr typed"
    "upsert_locked env d col value typed body po (tw_files w) = (files, Inr (outcome, row, change))"
    "tw_files w' = files" "change_entry env po change = Some e" "tw_ledger w' = tw_ledger w @ [e]"
proof -
  let ?guards = "if unknown_columns d body then bad_request
           else if td_source d = From_Schema \<and> te_usable env \<noteq> None then Inl (the (te_usable env))
           else res_bind (typed_pk_value env col value) (\<lambda>typed.
             if key_conflict env col typed body then Inl (Api_Error 409 ''PRIMARY_KEY_CONFLICT'')
             else if \<not> lock_acquired env then Inl locked_out
             else Inr (d, col, value, typed))"
  obtain g where g: "?guards = g" by blast
  show thesis
  proof (cases g)
    case (Inl e)
    then show thesis using assms g by (simp add: upsert_table_row_def)
  next
    case (Inr a)
    then obtain typed where t: "typed_pk_value env col value = Inr typed" "a = (d, col, value, typed)"
      using g by (auto simp: bad_request_def split: if_splits)
    obtain files q where u: "upsert_locked env d col value typed body po (tw_files w) = (files, q)" by fastforce
    have run: "(case q of Inl None \<Rightarrow> (deny d po (w\<lparr>tw_files := files\<rparr>), Inl (Api_Error 403 ''FORBIDDEN''))
        | Inl (Some e) \<Rightarrow> (w\<lparr>tw_files := files\<rparr>, Inl e)
        | Inr (outcome, row, change) \<Rightarrow>
            (case record_table_mutation_audit env po change (w\<lparr>tw_files := files\<rparr>) of
               (w', Inl e) \<Rightarrow> (w', Inl e) | (w', Inr u) \<Rightarrow> (w', Inr (outcome, row)))) = (w', Inr (outcome, row))"
      using assms g Inr t u by (cases q) (simp_all add: upsert_table_row_def split: option.splits)
    then obtain change where q: "q = Inr (outcome, row, change)"
        and r: "record_table_mutation_audit env po change (w\<lparr>tw_files := files\<rparr>) = (w', Inr ())"
      by (auto split: sum.splits option.splits prod.splits)
    show thesis using that [OF t(1) u [unfolded q]] record_audit_files [OF r] record_audit_ok [OF r] by auto
  qed
qed

lemma spread_Nil: "distinct (map fst row) \<Longrightarrow> spread [] row = row"
proof -
  have "foldl (\<lambda>r (k, v). obj_set k v r) acc row = acc @ row"
    if "distinct (map fst row)" "fst ` set acc \<inter> fst ` set row = {}" for acc
    using that
  proof (induction row arbitrary: acc)
    case (Cons p row)
    have "obj_set (fst p) (snd p) acc = acc @ [p]"
      using Cons.prems(2) by (subst obj_set_fresh) auto
    then show ?case
      using Cons.IH [of "acc @ [p]"] Cons.prems by (auto simp: case_prod_unfold)
  qed simp
  from this [of "[]"] show "distinct (map fst row) \<Longrightarrow> spread [] row = row" by (simp add: spread_def)
qed

lemma column_named_column: "column_named d k = Some c \<Longrightarrow> c \<in> set (td_columns d) \<and> tc_name c = k"
  by (auto simp: column_named_def find_Some_iff)

lemma pk_filter_column: "resolve_pk_filter env d pk = Inr (col, value) \<Longrightarrow> tc_name col \<in> tc_name ` set (td_columns d)"
proof -
  assume "resolve_pk_filter env d pk = Inr (col, value)"
  then have "Option.bind (td_primary d) (column_named d) = Some col"
    by (auto simp: resolve_pk_filter_def bad_request_def Let_def split: option.splits if_splits)
  then show ?thesis by (auto simp: bind_eq_Some_conv dest: column_named_column)
qed

lemma spread_keeps: "k \<in> dom (map_of r) \<Longrightarrow> k \<in> dom (map_of (spread r b))"
proof (induction b arbitrary: r)
  case (Cons p b)
  have "k \<in> dom (map_of (obj_set (fst p) (snd p) r))" using Cons.prems by auto
  from Cons.IH [OF this] show ?case by (simp add: spread_def case_prod_unfold)
qed (simp add: spread_def)

text \<open>The lines the rows of this table are stored as are read back as those rows.\<close>

definition row_reads_back :: "store_env \<Rightarrow> data_files \<Rightarrow> table_declaration \<Rightarrow> table_row \<Rightarrow> bool" where
  "row_reads_back env files d row \<longleftrightarrow>
     (\<forall>r. r = [] \<or> (\<exists>l \<in> set (table_lines env files d). line_row env d l = Some r) \<longrightarrow>
        se_parse env (serialize_row_line env d (spread r row)) = Some (JObj (spread r row)))"

definition table_ready :: "store_env \<Rightarrow> data_files \<Rightarrow> table_declaration \<Rightarrow> bool" where
  "table_ready env files d \<longleftrightarrow>
     distinct (map fst files) \<and> digits_ok (se_fmt env) \<and> table_ok d \<and> td_format d = Objects_Format \<and>
     insert_visible env files d \<and> line_closed (text_of files (append_target env files d))"

lemma replaced_map:
  assumes ready: "table_ready env files d" and rb: "row_reads_back env files d row"
    and keys: "distinct (map fst row)" "key \<in> fst ` set row"
    and carries: "pk_matches (se_fmt env) value (map_of row key)" "\<not> pk_operand_null value"
    and ex: "find_row_by_pk env files d key value = Some existing" "dom (map_of existing) \<subseteq> dom (map_of row)"
    and lines: "table_lines env files' d = map (patched_line env d key value row) (table_lines env files d)"
  shows "table_map env files' d key = (table_map env files d key)(value := Some (map_of row))"
proof
  fix v
  let ?ls = "table_lines env files d" and ?g = "patched_line env d key value row" and ?h = "\<lambda>r. spread r row"
  have obj: "td_format d = Objects_Format" using ready by (simp add: table_ready_def)
  have cell: "map_of (?h r) key = map_of row key" for r
    using keys by (simp add: map_of_spread map_add_dom_app_simps(1) dom_map_of_conv_image_fst)
  have read: "line_row env d l = Some r \<longleftrightarrow> se_parse env l = Some (JObj r)" for l r
  proof (cases "se_parse env l")
    case (Some v)
    then show ?thesis by (cases v) (simp_all add: line_row_def project_row_def obj)
  qed (simp add: line_row_def)
  have hit: "line_row env d (?g l) = Some (?h r) \<and> pk_matches (se_fmt env) value (map_of (?h r) key)"
    if "l \<in> set ?ls" "line_row env d l = Some r" "pk_matches (se_fmt env) value (map_of r key)" for l r
  proof -
    have "?g l = serialize_row_line env d (?h r)"
      using that by (simp add: patched_line_def key_predicate_def read)
    moreover have "se_parse env (serialize_row_line env d (?h r)) = Some (JObj (?h r))"
      using rb that unfolding row_reads_back_def by blast
    ultimately show ?thesis using carries cell by (simp add: read)
  qed
  have miss: "?g l = l" if "\<not> row_hit env d key value l" for l
    using that by (auto simp: row_hit_objects [OF obj] key_line_def patched_line_def split: option.splits json.splits)
  show "table_map env files' d key v = ((table_map env files d key)(value := Some (map_of row))) v"
  proof (cases "v = value")
    case True
    have "find_in_lines env d key value (map ?g ?ls) = map_option (\<lambda>(l, r). (?g l, ?h r)) (find_in_lines env d key value ?ls)"
      by (rule find_patched) (use hit miss in blast)+
    moreover obtain l where "find_in_lines env d key value ?ls = Some (l, existing)"
      using ex(1) by (auto simp: find_row_lines)
    moreover have "map_of (?h existing) = map_of row"
      using ex(2) keys(1) by (simp add: map_of_spread map_add_subsumed1 map_le_def)
        (auto simp: map_add_def fun_eq_iff split: option.splits dest: subsetD)
    ultimately show ?thesis using True by (simp add: table_map_def find_row_lines lines)
  next
    case False
    have "\<not> row_hit env d key v l \<and> \<not> row_hit env d key v (?g l)" if l: "l \<in> set ?ls" "?g l \<noteq> l" for l
    proof -
      have "row_hit env d key value l" using miss l(2) by blast
      then obtain r where r: "line_row env d l = Some r" "pk_matches (se_fmt env) value (map_of r key)"
        by (auto simp: row_hit_def split: option.splits)
      then show ?thesis using hit [OF l(1) r] False pk_matches_one carries(2)
        by (auto simp: row_hit_def)
    qed
    then have "find_in_lines env d key v (map ?g ?ls) = find_in_lines env d key v ?ls" by (rule find_untouched)
    then show ?thesis using False by (simp add: table_map_def find_row_lines lines)
  qed
qed

lemma appended_map:
  assumes ready: "table_ready env files d" and rb: "row_reads_back env files d row"
    and keys: "distinct (map fst row)"
    and carries: "pk_matches (se_fmt env) value (map_of row key)" "\<not> pk_operand_null value"
    and none: "find_row_by_pk env files d key value = None"
  shows "table_map env (fst (append_rows_to_table env files d [row] mode)) d key =
    (table_map env files d key)(value := Some (map_of row))"
proof
  fix v
  let ?f = "fst (append_rows_to_table env files d [row] mode)" and ?l = "serialize_row_line env d row"
  have lines: "table_lines env ?f d = table_lines env files d @ [?l]"
    using ready append_exact [of env files d "[row]" mode] by (simp add: table_ready_def)
  have "se_parse env ?l = Some (JObj row)"
    using rb spread_Nil [OF keys] unfolding row_reads_back_def by metis
  then have l: "line_row env d ?l = Some row" by (simp add: line_row_def project_row_def)
  show "table_map env ?f d key v = ((table_map env files d key)(value := Some (map_of row))) v"
  proof (cases "v = value")
    case True
    then show ?thesis using none l carries
      by (auto simp: table_map_def find_row_lines lines find_in_lines_append)
  next
    case False
    then have "\<not> pk_matches (se_fmt env) v (map_of row key)" using pk_matches_one carries by blast
    then show ?thesis using False l
      by (auto simp: table_map_def find_row_lines lines find_in_lines_append split: option.splits)
  qed
qed

text \<open>C10: an upsert is a map update.  In a table of objects whose glob names the file rows are appended to and
  whose stored lines read back, an upsert that answers a row under the key of the URL leaves the table with exactly
  that row under the key and every other key as it was, says whether the key was there before, and logs one record.\<close>

theorem upsert_is_map_update:
  assumes "upsert_table_row env table pk body po w = (w', Inr (outcome, row))"
    and "resolve_table_declaration env table = Inr d" and "resolve_pk_filter env d pk = Inr (col, value)"
    and "table_ready (te_store env) (tw_files w) d" and "row_reads_back (te_store env) (tw_files w) d row"
    and "pk_matches (te_fmt env) value (map_of row (tc_name col))" and "\<not> pk_operand_null value"
  shows "table_map (te_store env) (tw_files w') d (tc_name col) =
      (table_map (te_store env) (tw_files w) d (tc_name col))(value := Some (map_of row)) \<and>
    (outcome = Row_Inserted \<longleftrightarrow> table_map (te_store env) (tw_files w) d (tc_name col) value = None) \<and>
    (\<exists>e. tw_ledger w' = tw_ledger w @ [e])"
proof (rule upsert_runs [OF assms(1-3)])
  fix typed files change e
  assume u: "upsert_locked env d col value typed body po (tw_files w) = (files, Inr (outcome, row, change))"
    and w': "tw_files w' = files" "tw_ledger w' = tw_ledger w @ [e]"
  let ?s = "te_store env" and ?k = "tc_name col"
  have ok: "table_ok d" "distinct (map fst (tw_files w))" "digits_ok (te_fmt env)"
    using assms(4) by (simp_all add: table_ready_def)
  have column: "?k \<in> tc_name ` set (td_columns d)" by (rule pk_filter_column [OF assms(3)])
  show ?thesis
  proof (cases "find_row_by_pk ?s (tw_files w) d ?k value")
    case None
    then have c: "coerce_row_against_declaration ?s d (JObj (obj_set ?k typed body)) = Inr row" "outcome = Row_Inserted"
        "files = fst (append_rows_to_table ?s (tw_files w) d [row] (te_mode env))"
      using u by (auto simp: upsert_locked_def create_locked_def append_change_def Let_def split: sum.splits if_splits)
    have "distinct (map fst row)" using coerced_row [OF c(1) ok(1)] by simp
    from appended_map [OF assms(4,5) this assms(6,7) None] show ?thesis
      using None c w' by (simp add: table_map_def)
  next
    case (Some existing)
    then have "replace_locked env d col value existing body po (tw_files w) = (files, Inr (outcome, row, change))"
      using u by (simp add: upsert_locked_def)
    then obtain oc where c:
        "coerce_row_against_declaration ?s d (JObj (keep_key ?k existing (spread existing body))) = Inr row"
        "outcome = Row_Updated" "patch_rows_by_pk ?s (tw_files w) d ?k value row None (te_mode env) = (files, Inr oc)"
      by (auto simp: replace_locked_def split: if_splits sum.splits prod.splits option.splits)
    note cols = coerced_row [OF c(1) ok(1)]
    have "fst ` set existing \<subseteq> insert ?k (fst ` set (keep_key ?k existing (spread existing body)))"
    proof -
      have "dom (map_of existing) \<subseteq> dom (map_of (spread existing body))"
        using spread_keeps by blast
      also have "\<dots> \<subseteq> insert ?k (dom (map_of (keep_key ?k existing (spread existing body))))"
        by (auto simp: keep_key_def split: option.splits)
      finally show ?thesis by (simp only: dom_map_of_conv_image_fst)
    qed
    also have "\<dots> \<subseteq> fst ` set row"
      using cols column by simp
    finally have sub: "dom (map_of existing) \<subseteq> dom (map_of row)"
      by (simp only: dom_map_of_conv_image_fst)
    have "table_map ?s files d ?k = (table_map ?s (tw_files w) d ?k)(value := Some (map_of row))"
      by (rule replaced_map [OF assms(4,5) _ _ assms(6,7) Some sub])
        (use cols column patch_exact [OF c(3) ok(2,3)] in auto)
    then show ?thesis using Some c w' by (simp add: table_map_def)
  qed
qed

section \<open>Refusals\<close>

text \<open>Every file still has the lines it had, and no change record was logged.\<close>

definition untouched :: "table_world \<Rightarrow> table_world \<Rightarrow> bool" where
  "untouched w w' \<longleftrightarrow> same_lines (tw_files w) (tw_files w') \<and> tw_ledger w' = tw_ledger w"

lemma untouched_refl [simp]: "untouched w w" "untouched w (deny d po w)"
  by (simp_all add: untouched_def)

lemma update_locked_files:
  assumes "update_locked env d col value body po files = (files', q)"
    and ok: "distinct (map fst files)" "digits_ok (te_fmt env)"
    and "(case q of Inl x \<Rightarrow> True | Inr (n, loc) \<Rightarrow> n = 0)"
  shows "same_lines files files'"
proof (cases "find_row_by_pk (te_store env) files d (tc_name col) value")
  case None
  then show ?thesis using assms by (simp add: update_locked_def)
next
  case (Some existing)
  show ?thesis
  proof (cases "may_write env d po existing \<and> may_write env d po (spread existing body)")
    case True
    show ?thesis
    proof (cases "coerce_row_against_declaration (te_store env) d (JObj (spread existing body))")
      case (Inl e)
      then show ?thesis using assms Some True by (simp add: update_locked_def)
    next
      case (Inr merged)
      obtain f' outcome where p: "patch_rows_by_pk (te_store env) files d (tc_name col) value (picked merged body)
          None (te_mode env) = (f', Inr outcome)" using patch_total by blast
      then have "f' = files'" "mo_mutated outcome = 0"
        using assms(1,4) Some True Inr by (auto simp: update_locked_def)
      with patch_none [OF p ok] show ?thesis by simp
    qed
  qed (use assms Some in \<open>auto simp: update_locked_def\<close>)
qed

lemma answer_change_zero:
  assumes "answer_change env po n c w = (w', r)" and "(case r of Inl e \<Rightarrow> \<not> audit_failure e | Inr m \<Rightarrow> m = 0)"
  shows "n = 0 \<and> w' = w"
proof (cases r)
  case (Inl e)
  then show ?thesis using assms answer_change_failed by auto
next
  case (Inr m)
  with assms(1) have "answer_change env po n c w = (w', Inr m)" by simp
  from answer_change_ok [OF this] show ?thesis using assms(2) Inr by simp
qed

lemma update_untouched:
  assumes "update_table_rows env table pk body po w = (w', r)"
    and "(case r of Inl e \<Rightarrow> \<not> audit_failure e | Inr n \<Rightarrow> n = 0)"
    and ok: "distinct (map fst (tw_files w))" "digits_ok (te_fmt env)"
  shows "untouched w w'"
proof (cases "res_bind (resolve_table_declaration env table) (\<lambda>d. res_bind (resolve_pk_filter env d pk) (\<lambda>k. Inr (d, k)))")
  case (Inl e)
  then show ?thesis using assms(1) by (auto simp: update_table_rows_def res_bind_Inl_iff)
next
  case (Inr t)
  then obtain d col v where d: "resolve_table_declaration env table = Inr d"
      and k: "resolve_pk_filter env d pk = Inr (col, v)" by auto
  show ?thesis
  proof (rule update_runs [OF assms(1) d k])
    fix files q
    assume u: "update_locked env d col v body po (tw_files w) = (files, q)"
      and a: "(case q of Inl (Some e) \<Rightarrow> (w\<lparr>tw_files := files\<rparr>, Inl e) | Inl None \<Rightarrow> (deny d po w, Inr 0)
        | Inr (n, loc) \<Rightarrow> answer_change env po n (map_option (location_change Op_Update d) loc) (w\<lparr>tw_files := files\<rparr>)) = (w', r)"
    note same = update_locked_files [OF u ok]
    show ?thesis
    proof (cases q)
      case (Inl x)
      then show ?thesis using a same by (cases x) (auto simp: untouched_def)
    next
      case (Inr nl)
      obtain n loc where nl: "nl = (n, loc)" by (cases nl)
      have "answer_change env po n (map_option (location_change Op_Update d) loc) (w\<lparr>tw_files := files\<rparr>) = (w', r)"
        using a Inr nl by simp
      then have "n = 0 \<and> w' = w\<lparr>tw_files := files\<rparr>"
        using assms(2) answer_change_zero by blast
      then show ?thesis using same Inr nl by (simp add: untouched_def)
    qed
  qed simp
qed

lemma delete_untouched:
  assumes "delete_table_rows env table pk po w = (w', r)"
    and "(case r of Inl e \<Rightarrow> \<not> audit_failure e | Inr n \<Rightarrow> n = 0)"
    and ok: "distinct (map fst (tw_files w))" "digits_ok (te_fmt env)"
  shows "untouched w w'"
proof (cases "res_bind (resolve_table_declaration env table) (\<lambda>d. res_bind (resolve_pk_filter env d pk) (\<lambda>k. Inr (d, k)))")
  case (Inl e)
  then show ?thesis using assms(1) by (auto simp: delete_table_rows_def res_bind_Inl_iff)
next
  case (Inr t)
  then obtain d col v where d: "resolve_table_declaration env table = Inr d"
      and k: "resolve_pk_filter env d pk = Inr (col, v)" by auto
  show ?thesis
  proof (rule delete_runs [OF assms(1) d k])
    fix loc files outcome
    assume del: "delete_rows_by_pk (te_store env) (tw_files w) d (tc_name col) v (te_mode env) = (files, outcome)"
      and ans: "answer_change env po (mo_mutated outcome) (map_option (location_change Op_Delete d) loc)
        (w\<lparr>tw_files := files\<rparr>) = (w', r)"
    have "mo_mutated outcome = 0 \<and> w' = w\<lparr>tw_files := files\<rparr>"
      using assms(2) ans answer_change_zero by blast
    then show ?thesis using delete_none [OF del ok] by (simp add: untouched_def)
  qed simp_all
qed

lemma replace_locked_files:
  assumes "replace_locked env d col value existing body po files = (files', Inl x)"
    and ok: "distinct (map fst files)" "digits_ok (te_fmt env)"
    and "\<forall>e. x = Some e \<longrightarrow> \<not> audit_failure e"
  shows "same_lines files files'"
proof (cases "may_write env d po existing \<and> may_write env d po (spread existing body)")
  case True
  show ?thesis
  proof (cases "coerce_row_against_declaration (te_store env) d (JObj (keep_key (tc_name col) existing (spread existing body)))")
    case (Inl e)
    then show ?thesis using assms True by (simp add: replace_locked_def)
  next
    case (Inr merged)
    obtain f' outcome where p: "patch_rows_by_pk (te_store env) files d (tc_name col) value merged None (te_mode env) =
        (f', Inr outcome)" using patch_total by blast
    show ?thesis
    proof (cases "mo_mutated outcome = 0")
      case True
      then show ?thesis using patch_none [OF p ok] assms(1) \<open>may_write env d po existing \<and> _\<close> Inr p
        by (simp add: replace_locked_def)
    next
      case False
      then show ?thesis using assms(1,4) True Inr p
        by (auto simp: replace_locked_def audit_failure_def split: option.splits)
    qed
  qed
qed (use assms in \<open>auto simp: replace_locked_def\<close>)

lemma upsert_untouched:
  assumes "upsert_table_row env table pk body po w = (w', Inl e)" and "\<not> audit_failure e"
    and ok: "distinct (map fst (tw_files w))" "digits_ok (te_fmt env)"
  shows "untouched w w'"
proof -
  have locked: "same_lines (tw_files w) files"
    if "upsert_locked env d col v typed body po (tw_files w) = (files, Inl x)" "\<forall>e. x = Some e \<longrightarrow> \<not> audit_failure e"
    for d col v typed files x
    using that replace_locked_files [OF _ ok]
    by (auto simp: upsert_locked_def create_locked_def append_change_def Let_def
        split: option.splits sum.splits if_splits prod.splits)
  show ?thesis
    using assms(1,2)
    by (auto simp: upsert_table_row_def untouched_def dest: record_audit_failed intro: locked
        split: sum.splits prod.splits option.splits)
qed

lemma insert_untouched:
  assumes "insert_table_rows env table raws po w = (w', Inl e)" and "\<not> audit_failure e"
  shows "untouched w w'"
  using assms
  by (auto simp: insert_table_rows_def insert_legacy_rows_def bad_request_def Let_def dest: record_all_failed
      split: sum.splits if_splits option.splits prod.splits)


end
