(* ===== verification/Table_Transaction.thy ===== *)
theory Table_Transaction
  imports Table_Operations
begin

text \<open>
  The transaction envelope of \<^verbatim>\<open>src/tables/operations.ts\<close>: preparation of every action before anything is
  written, the snapshot of the files it could touch, the actions one by one under the lock, one barrier, and
  the rollback.  \<open>te_fault\<close> is the fault-injection hook between two actions; a character of a file is a byte.
\<close>

section \<open>Preparation\<close>

datatype tx_op = Tx_Insert | Tx_Update | Tx_Upsert | Tx_Delete

record tx_action =
  ta_op :: tx_op
  ta_decl :: table_declaration
  ta_key :: "(table_column \<times> string) option"
  ta_row :: table_row
  ta_patch :: table_row

definition transaction_max_actions :: nat where
  "transaction_max_actions = 100"

definition transaction_snapshot_max_bytes :: nat where
  "transaction_snapshot_max_bytes = 64 * 1024 * 1024"

definition tx_op_of :: "json option \<Rightarrow> tx_op option" where
  "tx_op_of v =
     (if v = Some (JStr ''insert'') then Some Tx_Insert
      else if v = Some (JStr ''update'') then Some Tx_Update
      else if v = Some (JStr ''upsert'') then Some Tx_Upsert
      else if v = Some (JStr ''delete'') then Some Tx_Delete else None)"

definition object_body :: "json option \<Rightarrow> api_error + table_row" where
  "object_body v = (case v of Some (JObj ps) \<Rightarrow> Inr ps | _ \<Rightarrow> bad_request)"

text \<open>The full row of an insert or an upsert, coerced, with its key and admitted by the write policy.\<close>

datatype tx_refusal = Refused api_error | Refused_Policy table_declaration

definition lift_error :: "api_error + 'a \<Rightarrow> tx_refusal + 'a" where
  "lift_error r = (case r of Inl e \<Rightarrow> Inl (Refused e) | Inr x \<Rightarrow> Inr x)"

definition prepare_row ::
  "table_env \<Rightarrow> table_declaration \<Rightarrow> tx_op \<Rightarrow> (table_column \<times> string) option \<Rightarrow> json option \<Rightarrow> principal option
     \<Rightarrow> tx_refusal + table_row" where
  "prepare_row env d oper key raw po =
     res_bind (lift_error (object_body raw)) (\<lambda>body.
     res_bind (lift_error (case (oper, key) of
        (Tx_Upsert, Some (col, value)) \<Rightarrow>
          res_bind (typed_pk_value env col value) (\<lambda>v. Inr (obj_set (tc_name col) v body))
      | _ \<Rightarrow> Inr body)) (\<lambda>seeded.
     res_bind (lift_error (coerce_row_against_declaration (te_store env) d (JObj seeded))) (\<lambda>row.
       if missing_key d row then lift_error bad_request
       else if policy_rule (td_policy d) Write \<noteq> None \<and> \<not> may_write env d po row then Inl (Refused_Policy d)
       else Inr row)))"

definition prepare_action ::
  "table_env \<Rightarrow> principal option \<Rightarrow> json \<Rightarrow> tx_refusal + tx_action" where
  "prepare_action env po raw =
     (case raw of
        JObj ps \<Rightarrow>
          (case tx_op_of (map_of ps ''op'') of
             None \<Rightarrow> lift_error bad_request
           | Some oper \<Rightarrow>
               (case map_of ps ''table'' of
                  Some (JStr (c # cs)) \<Rightarrow>
                    res_bind (lift_error (resolve_table_declaration env (c # cs))) (\<lambda>d.
                    res_bind (if oper = Tx_Insert then Inr None
                              else lift_error (res_bind (resolve_pk_filter env d (map_of ps ''pk'')) (\<lambda>k. Inr (Some k)))) (\<lambda>key.
                    res_bind (if oper = Tx_Insert \<or> oper = Tx_Upsert
                              then prepare_row env d oper key (map_of ps ''row'') po else Inr []) (\<lambda>row.
                    res_bind (if oper = Tx_Update
                              then lift_error (res_bind (object_body (map_of ps ''patch'')) (\<lambda>patch.
                                if unknown_columns d patch then bad_request else Inr patch)) else Inr []) (\<lambda>patch.
                      Inr \<lparr>ta_op = oper, ta_decl = d, ta_key = key, ta_row = row, ta_patch = patch\<rparr>))))
                | _ \<Rightarrow> lift_error bad_request))
      | _ \<Rightarrow> lift_error bad_request)"

definition prepare_transaction_actions ::
  "table_env \<Rightarrow> principal option \<Rightarrow> json \<Rightarrow> tx_refusal + tx_action list" where
  "prepare_transaction_actions env po raw =
     (case raw of
        JArr vs \<Rightarrow>
          if vs = [] \<or> transaction_max_actions < length vs then lift_error bad_request
          else res_map (prepare_action env po) vs
      | _ \<Rightarrow> lift_error bad_request)"

section \<open>Snapshot and rollback\<close>

type_synonym file_snapshot = "(string \<times> string option) list"

definition candidate_files :: "table_env \<Rightarrow> data_files \<Rightarrow> table_declaration \<Rightarrow> string list" where
  "candidate_files env files d =
     resolve_table_files (te_store env) files d @ [derive_synthetic_file_path d]"

fun snapshot_step ::
  "data_files \<Rightarrow> string list \<Rightarrow> file_snapshot \<times> nat \<Rightarrow> api_error + file_snapshot \<times> nat" where
  "snapshot_step files [] acc = Inr acc"
| "snapshot_step files (p # ps) (snap, bytes) =
     (if map_of snap p \<noteq> None then snapshot_step files ps (snap, bytes)
      else let bytes' = bytes + (case map_of files p of None \<Rightarrow> 0 | Some t \<Rightarrow> length t)
           in if transaction_snapshot_max_bytes < bytes' then Inl (Api_Error 413 ''PAYLOAD_TOO_LARGE'')
              else snapshot_step files ps (snap @ [(p, map_of files p)], bytes'))"

definition snapshot_candidate_files ::
  "table_env \<Rightarrow> data_files \<Rightarrow> table_declaration list \<Rightarrow> api_error + file_snapshot" where
  "snapshot_candidate_files env files ds =
     res_bind (snapshot_step files (concat (map (candidate_files env files) ds)) ([], 0)) (\<lambda>r. Inr (fst r))"

definition restore_file :: "string \<times> string option \<Rightarrow> data_files \<Rightarrow> data_files" where
  "restore_file e files =
     (case e of
        (p, None) \<Rightarrow> obj_del p files
      | (p, Some t) \<Rightarrow> if map_of files p = Some t then files else obj_set p t files)"

definition restore_snapshot :: "file_snapshot \<Rightarrow> data_files \<Rightarrow> data_files" where
  "restore_snapshot snap files = foldl (\<lambda>fs e. restore_file e fs) files snap"

section \<open>Actions\<close>

record tx_result =
  tr_op :: tx_op
  tr_table :: string
  tr_outcome :: row_outcome
  tr_affected :: nat
  tr_row :: "table_row option"

type_synonym tx_step = "data_files \<times> (tx_refusal + tx_result \<times> row_change)"

definition tx_error :: "nat \<Rightarrow> string \<Rightarrow> tx_refusal + 'a" where
  "tx_error status code = Inl (Refused (Api_Error status code))"

definition tx_insert :: "table_env \<Rightarrow> tx_action \<Rightarrow> data_files \<Rightarrow> tx_step" where
  "tx_insert env a files =
     (let d = ta_decl a in
      if (case td_primary d of
            None \<Rightarrow> False
          | Some k \<Rightarrow> find_row_by_pk (te_store env) files d k
                        (js_string (te_fmt env) (or_null (map_of (ta_row a) k))) \<noteq> None)
      then (files, tx_error 409 ''PRIMARY_KEY_CONFLICT'')
      else (case append_change env d (ta_row a) Buffered files of
         (files', c) \<Rightarrow>
           (files', Inr (\<lparr>tr_op = ta_op a, tr_table = td_name d, tr_outcome = Row_Inserted, tr_affected = 1,
                          tr_row = Some (ta_row a)\<rparr>, c))))"

text \<open>The row a rewrite changed, found again under the same key.\<close>

definition tx_located ::
  "table_env \<Rightarrow> tx_action \<Rightarrow> string \<Rightarrow> string \<Rightarrow> nat \<Rightarrow> data_files \<Rightarrow> tx_step" where
  "tx_located env a key value n files =
     (case find_row_line_by_pk (te_store env) files (ta_decl a) key value of
        None \<Rightarrow> (files, tx_error 500 ''AUDIT_APPEND_FAILED'')
      | Some loc \<Rightarrow>
          (files, Inr (\<lparr>tr_op = ta_op a, tr_table = td_name (ta_decl a), tr_outcome = Row_Updated, tr_affected = n,
                        tr_row = Some (rl_row loc)\<rparr>, location_change Op_Update (ta_decl a) loc)))"

definition tx_patch ::
  "table_env \<Rightarrow> tx_action \<Rightarrow> string \<Rightarrow> string \<Rightarrow> table_row \<Rightarrow> nat \<Rightarrow> string \<Rightarrow> data_files \<Rightarrow> tx_step" where
  "tx_patch env a key value body status code files =
     (case patch_rows_by_pk (te_store env) files (ta_decl a) key value body None Buffered of
        (files', Inl e) \<Rightarrow> (files', Inl (Refused e))
      | (files', Inr outcome) \<Rightarrow>
          if mo_mutated outcome = 0 then (files', tx_error status code)
          else tx_located env a key value (mo_mutated outcome) files')"

definition tx_update ::
  "table_env \<Rightarrow> principal option \<Rightarrow> tx_action \<Rightarrow> string \<Rightarrow> string \<Rightarrow> data_files \<Rightarrow> tx_step" where
  "tx_update env po a key value files =
     (case find_row_by_pk (te_store env) files (ta_decl a) key value of
        Some existing \<Rightarrow>
          if \<not> may_write env (ta_decl a) po (spread existing (ta_patch a))
          then (files, Inl (Refused_Policy (ta_decl a)))
          else tx_patch env a key value (ta_patch a) 404 ''NOT_FOUND'' files
      | None \<Rightarrow> tx_patch env a key value (ta_patch a) 404 ''NOT_FOUND'' files)"

definition tx_delete ::
  "table_env \<Rightarrow> principal option \<Rightarrow> tx_action \<Rightarrow> string \<Rightarrow> string \<Rightarrow> data_files \<Rightarrow> tx_step" where
  "tx_delete env po a key value files =
     (case find_row_line_by_pk (te_store env) files (ta_decl a) key value of
        None \<Rightarrow> (files, tx_error 404 ''NOT_FOUND'')
      | Some loc \<Rightarrow>
          if \<not> may_write env (ta_decl a) po (rl_row loc) then (files, Inl (Refused_Policy (ta_decl a)))
          else (case delete_rows_by_pk (te_store env) files (ta_decl a) key value Buffered of
             (files', outcome) \<Rightarrow>
               if mo_mutated outcome = 0 then (files', tx_error 404 ''NOT_FOUND'')
               else (files', Inr (\<lparr>tr_op = ta_op a, tr_table = td_name (ta_decl a), tr_outcome = Row_Deleted,
                                   tr_affected = mo_mutated outcome, tr_row = None\<rparr>,
                                  location_change Op_Delete (ta_decl a) loc))))"

definition tx_upsert :: "table_env \<Rightarrow> tx_action \<Rightarrow> string \<Rightarrow> string \<Rightarrow> data_files \<Rightarrow> tx_step" where
  "tx_upsert env a key value files =
     (case find_row_by_pk (te_store env) files (ta_decl a) key value of
        Some existing \<Rightarrow>
          (case coerce_row_against_declaration (te_store env) (ta_decl a)
                  (JObj (keep_key key existing (spread existing (ta_row a)))) of
             Inl e \<Rightarrow> (files, Inl (Refused e))
           | Inr merged \<Rightarrow> tx_patch env a key value merged 409 ''CONFLICT'' files)
      | None \<Rightarrow>
          (case append_change env (ta_decl a) (ta_row a) Buffered files of
             (files', c) \<Rightarrow>
               (files', Inr (\<lparr>tr_op = ta_op a, tr_table = td_name (ta_decl a), tr_outcome = Row_Inserted,
                              tr_affected = 1, tr_row = Some (ta_row a)\<rparr>, c))))"

definition apply_transaction_action_locked ::
  "table_env \<Rightarrow> principal option \<Rightarrow> tx_action \<Rightarrow> data_files \<Rightarrow> tx_step" where
  "apply_transaction_action_locked env po a files =
     (case ta_key a of
        None \<Rightarrow> tx_insert env a files
      | Some (col, value) \<Rightarrow>
          (case ta_op a of
             Tx_Insert \<Rightarrow> tx_insert env a files
           | Tx_Update \<Rightarrow> tx_update env po a (tc_name col) value files
           | Tx_Delete \<Rightarrow> tx_delete env po a (tc_name col) value files
           | Tx_Upsert \<Rightarrow> tx_upsert env a (tc_name col) value files))"

section \<open>The envelope\<close>

text \<open>The actions in order, with their results and changes, until one fails; \<open>None\<close> is an injected fault.\<close>

fun apply_actions ::
  "table_env \<Rightarrow> principal option \<Rightarrow> nat \<Rightarrow> tx_action list \<Rightarrow> data_files
     \<Rightarrow> data_files \<times> (tx_result \<times> row_change) list \<times> tx_refusal option" where
  "apply_actions env po i [] files = (files, [], None)"
| "apply_actions env po i (a # as) files =
     (case apply_transaction_action_locked env po a files of
        (files', Inl e) \<Rightarrow> (files', [], Some e)
      | (files', Inr r) \<Rightarrow>
          if te_fault env i then (files', [r], Some (Refused (Api_Error 500 ''TRANSACTION_FAILED'')))
          else (case apply_actions env po (Suc i) as files' of
                  (files'', rs, e) \<Rightarrow> (files'', r # rs, e)))"

datatype tx_outcome =
    Tx_Applied "tx_result list"
  | Tx_Failed nat nat string

definition refusal_error :: "tx_refusal \<Rightarrow> api_error" where
  "refusal_error r = (case r of Refused e \<Rightarrow> e | Refused_Policy d \<Rightarrow> Api_Error 403 ''FORBIDDEN'')"

definition deny_refusal :: "tx_refusal \<Rightarrow> principal option \<Rightarrow> table_world \<Rightarrow> table_world" where
  "deny_refusal r po w = (case r of Refused e \<Rightarrow> w | Refused_Policy d \<Rightarrow> deny d po w)"

definition first_declarations :: "tx_action list \<Rightarrow> table_declaration list" where
  "first_declarations as = map snd (foldl (\<lambda>m a. obj_set (td_name (ta_decl a)) (ta_decl a) m) [] as)"

definition roll_back ::
  "table_env \<Rightarrow> principal option \<Rightarrow> file_snapshot \<Rightarrow> data_files \<Rightarrow> nat \<Rightarrow> tx_refusal \<Rightarrow> table_world
     \<Rightarrow> table_world \<times> (api_error + tx_outcome)" where
  "roll_back env po snap files n r w =
     (case te_rollback_stops env of
        Some k \<Rightarrow>
          (deny_refusal r po (w\<lparr>tw_files := restore_snapshot (take k snap) files\<rparr>),
           Inl (Api_Error 500 ''ROLLBACK_FAILED''))
      | None \<Rightarrow>
          (case refusal_error r of
             Api_Error status code \<Rightarrow>
               (deny_refusal r po (w\<lparr>tw_files := restore_snapshot snap files\<rparr>), Inr (Tx_Failed n status code))))"

definition run_envelope ::
  "table_env \<Rightarrow> principal option \<Rightarrow> tx_action list \<Rightarrow> table_world \<Rightarrow> table_world \<times> (api_error + tx_outcome)" where
  "run_envelope env po as w =
     (case snapshot_candidate_files env (tw_files w) (first_declarations as) of
        Inl e \<Rightarrow> (w, Inl e)
      | Inr snap \<Rightarrow>
          (case apply_actions env po 0 as (tw_files w) of
             (files, rs, Some r) \<Rightarrow> roll_back env po snap files (length rs) r w
           | (files, rs, None) \<Rightarrow>
               if te_barrier_fails env
               then roll_back env po snap files (length rs) (Refused (Api_Error 500 ''TRANSACTION_FAILED'')) w
               else (case record_all env po (map snd rs) (w\<lparr>tw_files := files\<rparr>) of
                       (w', Inl e) \<Rightarrow> (w', Inl e)
                     | (w', Inr u) \<Rightarrow> (w', Inr (Tx_Applied (map fst rs))))))"

definition run_table_transaction ::
  "table_env \<Rightarrow> json \<Rightarrow> principal option \<Rightarrow> table_world \<Rightarrow> table_world \<times> (api_error + tx_outcome)" where
  "run_table_transaction env raw po w =
     (case prepare_transaction_actions env po raw of
        Inl r \<Rightarrow> (deny_refusal r po w, Inl (refusal_error r))
      | Inr as \<Rightarrow>
          if list_ex (\<lambda>d. td_source d = From_Schema) (first_declarations as) \<and> te_usable env \<noteq> None
          then (w, Inl (the (te_usable env)))
          else if \<not> lock_acquired env then (w, Inl locked_out)
          else run_envelope env po as w)"

section \<open>What an envelope can touch\<close>

lemma rewrite_frame:
  "foldl (rewrite_file env d m oper) (files, n) ps = (files', n') \<Longrightarrow> p \<notin> set ps \<Longrightarrow> map_of files' p = map_of files p"
proof (induction ps arbitrary: files n)
  case (Cons q ps)
  obtain f k where f: "rewrite_file env d m oper (files, n) q = (f, k)" by fastforce
  then have "map_of f p = map_of files p"
    using Cons.prems(2) by (auto simp: rewrite_file_def split: prod.splits)
  moreover have "foldl (rewrite_file env d m oper) (f, k) ps = (files', n')" using Cons.prems(1) f by simp
  ultimately show ?case using Cons.IH Cons.prems(2) by simp
qed simp

lemma rewrite_predicate_frame:
  assumes "rewrite_with_predicate env files d m oper False mode = (files', outcome)"
    and "p \<notin> set (resolve_table_files env files d)"
  shows "map_of files' p = map_of files p"
proof -
  obtain n where "foldl (rewrite_file env d m oper) (files, 0) (resolve_table_files env files d) = (files', n)"
    using assms(1) by (auto simp: rewrite_with_predicate_def split: prod.splits row_operation.splits)
  from rewrite_frame [OF this assms(2)] show ?thesis .
qed

lemma patch_frame:
  assumes "patch_rows_by_pk env files d key v body None mode = (files', q)"
    and "p \<notin> set (resolve_table_files env files d)"
  shows "map_of files' p = map_of files p"
  using assms rewrite_predicate_frame by (fastforce simp: patch_rows_by_pk_def split: prod.splits)

lemma delete_frame:
  assumes "delete_rows_by_pk env files d key v mode = (files', q)"
    and "p \<notin> set (resolve_table_files env files d)"
  shows "map_of files' p = map_of files p"
  using assms rewrite_predicate_frame by (simp add: delete_rows_by_pk_def)

lemma append_frame:
  assumes "append_change env d row mode files = (files', c)"
    and "p \<notin> set (candidate_files env files d)"
  shows "map_of files' p = map_of files p"
proof -
  have "append_target (te_store env) files d \<in> set (candidate_files env files d)"
    by (simp add: append_target_def candidate_files_def Let_def)
  then show ?thesis using assms
    by (auto simp: append_change_def append_rows_to_table_def append_text_def Let_def)
qed

lemma tx_patch_frame:
  assumes "tx_patch env a key v body status code files = (files', q)"
    and "p \<notin> set (candidate_files env files (ta_decl a))"
  shows "map_of files' p = map_of files p"
proof -
  obtain f outcome where f: "patch_rows_by_pk (te_store env) files (ta_decl a) key v body None Buffered = (f, Inr outcome)"
    using patch_total by blast
  then have "files' = f"
    using assms(1) by (auto simp: tx_patch_def tx_located_def split: if_splits option.splits)
  then show ?thesis using patch_frame [OF f] assms(2) by (simp add: candidate_files_def)
qed

lemma action_frame:
  assumes "apply_transaction_action_locked env po a files = (files', q)"
    and p: "p \<notin> set (candidate_files env files (ta_decl a))"
  shows "map_of files' p = map_of files p"
proof -
  have ins: "map_of f p = map_of files p" if "tx_insert env a files = (f, r)" for f r
    using that append_frame [OF _ p] by (auto simp: tx_insert_def Let_def split: if_splits prod.splits option.splits)
  have upd: "map_of f p = map_of files p" if "tx_update env po a key v files = (f, r)" for f r key v
    using that tx_patch_frame [OF _ p] by (auto simp: tx_update_def split: option.splits if_splits)
  have del: "map_of f p = map_of files p" if "tx_delete env po a key v files = (f, r)" for f r key v
    using that delete_frame [of "te_store env" files "ta_decl a" key v Buffered] p
    by (auto simp: tx_delete_def candidate_files_def split: option.splits if_splits prod.splits)
  have ups: "map_of f p = map_of files p" if "tx_upsert env a key v files = (f, r)" for f r key v
    using that tx_patch_frame [OF _ p] append_frame [OF _ p]
    by (auto simp: tx_upsert_def split: option.splits sum.splits prod.splits)
  show ?thesis using assms(1) ins upd del ups
    by (auto simp: apply_transaction_action_locked_def split: option.splits prod.splits tx_op.splits)
qed

text \<open>Outside the paths \<open>S\<close> nothing differs from the files at the start.\<close>

definition only_within :: "string set \<Rightarrow> data_files \<Rightarrow> data_files \<Rightarrow> bool" where
  "only_within S files0 files \<longleftrightarrow> (\<forall>p. p \<notin> S \<longrightarrow> map_of files p = map_of files0 p)"

lemma candidates_stay:
  assumes "only_within S files0 files" and "set (candidate_files env files0 d) \<subseteq> S"
  shows "set (candidate_files env files d) \<subseteq> S"
proof
  fix p assume p: "p \<in> set (candidate_files env files d)"
  show "p \<in> S"
  proof (rule ccontr)
    assume out: "p \<notin> S"
    then have same: "map_of files p = map_of files0 p" using assms(1) by (simp add: only_within_def)
    have "p \<noteq> derive_synthetic_file_path d" using assms(2) out by (auto simp: candidate_files_def)
    then have "p \<in> set (resolve_table_files (te_store env) files d)" using p by (simp add: candidate_files_def)
    then have "p \<in> set (resolve_table_files (te_store env) files0 d)" by (simp add: resolve_iff same)
    then show False using assms(2) out by (auto simp: candidate_files_def)
  qed
qed

lemma actions_within:
  assumes "apply_actions env po i as files = (files', rs, e)"
    and "only_within S files0 files" and "\<forall>a \<in> set as. set (candidate_files env files0 (ta_decl a)) \<subseteq> S"
  shows "only_within S files0 files'"
  using assms
proof (induction as arbitrary: i files rs)
  case (Cons a as)
  obtain f q where q: "apply_transaction_action_locked env po a files = (f, q)" by fastforce
  have sub: "set (candidate_files env files (ta_decl a)) \<subseteq> S"
    using candidates_stay [OF Cons.prems(2)] Cons.prems(3) by simp
  have f: "only_within S files0 f"
    unfolding only_within_def
  proof (intro allI impI)
    fix p assume p: "p \<notin> S"
    with sub have "p \<notin> set (candidate_files env files (ta_decl a))" by blast
    then have "map_of f p = map_of files p" by (rule action_frame [OF q])
    then show "map_of f p = map_of files0 p" using Cons.prems(2) p by (simp add: only_within_def)
  qed
  show ?case
  proof (cases "\<exists>r. q = Inr r \<and> \<not> te_fault env i")
    case True
    then obtain r where r: "q = Inr r" "\<not> te_fault env i" by blast
    then obtain rs' where "apply_actions env po (Suc i) as f = (files', rs', e)"
      using Cons.prems(1) q by (auto split: prod.splits)
    then show ?thesis using Cons.IH [OF _ f] Cons.prems(3) by simp
  next
    case False
    then have "files' = f" using Cons.prems(1) q by (auto split: sum.splits if_splits)
    then show ?thesis using f by simp
  qed
qed simp

section \<open>Snapshot and rollback\<close>

lemma snapshot_step_ok:
  assumes "snapshot_step files ps (snap, bytes) = Inr (snap', bytes')"
    and "\<forall>(p, b) \<in> set snap. b = map_of files p"
  shows "(\<forall>(p, b) \<in> set snap'. b = map_of files p) \<and> set ps \<union> fst ` set snap \<subseteq> fst ` set snap'"
  using assms
proof (induction ps arbitrary: snap bytes)
  case (Cons p ps)
  show ?case
  proof (cases "map_of snap p = None")
    case True
    let ?s = "snap @ [(p, map_of files p)]"
    obtain b' where b': "snapshot_step files ps (?s, b') = Inr (snap', bytes')"
      using Cons.prems(1) True by (auto simp: Let_def split: if_splits)
    have "\<forall>(p, b) \<in> set ?s. b = map_of files p" using Cons.prems(2) by auto
    from Cons.IH [OF b' this] show ?thesis by simp
  next
    case False
    then have "p \<in> fst ` set snap" by (simp add: map_of_eq_None_iff)
    have "snapshot_step files ps (snap, bytes) = Inr (snap', bytes')" using Cons.prems(1) False by simp
    from Cons.IH [OF this Cons.prems(2)] show ?thesis using \<open>p \<in> fst ` set snap\<close> by (simp add: subset_iff)
  qed
qed auto

lemma snapshot_ok:
  assumes "snapshot_candidate_files env files ds = Inr snap"
  shows "(\<forall>(p, b) \<in> set snap. b = map_of files p) \<and>
    (\<forall>d \<in> set ds. set (candidate_files env files d) \<subseteq> fst ` set snap)"
proof -
  obtain n where "snapshot_step files (concat (map (candidate_files env files) ds)) ([], 0) = Inr (snap, n)"
    using assms by (auto simp: snapshot_candidate_files_def)
  from snapshot_step_ok [OF this] show ?thesis by fastforce
qed

lemma restored:
  assumes "\<forall>(p, b) \<in> set snap. b = m p"
  shows "map_of (restore_snapshot snap files) p = (if p \<in> fst ` set snap then m p else map_of files p)"
  using assms
proof (induction snap arbitrary: files)
  case (Cons e snap)
  obtain q b where e: "e = (q, b)" by (cases e)
  then have b: "b = m q" using Cons.prems by simp
  have "map_of (restore_file e files) p = (if p = q then m q else map_of files p)"
    by (cases b) (auto simp: e restore_file_def b [symmetric])
  moreover have "map_of (restore_snapshot snap (restore_file e files)) p =
      (if p \<in> fst ` set snap then m p else map_of (restore_file e files) p)"
    using Cons by simp
  ultimately show ?case by (auto simp: restore_snapshot_def e)
qed (simp add: restore_snapshot_def)

lemma rolled_back:
  assumes "snapshot_candidate_files env files0 ds = Inr snap"
    and "only_within (fst ` set snap) files0 files"
  shows "map_of (restore_snapshot snap files) = map_of files0"
  using restored [of snap "map_of files0" files] snapshot_ok [OF assms(1)] assms(2)
  by (auto simp: only_within_def fun_eq_iff)

section \<open>All or nothing\<close>

definition from_registry :: "table_env \<Rightarrow> tx_action \<Rightarrow> bool" where
  "from_registry env a \<longleftrightarrow> resolve_table_declaration env (td_name (ta_decl a)) = Inr (ta_decl a)"

lemma resolve_name: "resolve_table_declaration env t = Inr d \<Longrightarrow> td_name d = t"
  by (auto simp: resolve_table_declaration_def get_table_def find_Some_iff
      split: sum.splits registry_error.splits option.splits)

lemma resolve_self:
  "resolve_table_declaration env t = Inr d \<Longrightarrow> resolve_table_declaration env (td_name d) = Inr d"
  using resolve_name by blast

lemma lift_error_Inr [simp]: "lift_error r = Inr x \<longleftrightarrow> r = Inr x"
  by (simp add: lift_error_def split: sum.splits)

lemma bad_request_Inr [simp]: "bad_request \<noteq> Inr x"
  by (simp add: bad_request_def)

lemma prepared_from_registry:
  assumes "prepare_action env po raw = Inr a"
  shows "from_registry env a"
proof -
  obtain t d where "resolve_table_declaration env t = Inr d" "ta_decl a = d"
    using assms by (auto simp: prepare_action_def simp del: res_bind.simps split: json.splits option.splits list.splits)
  then show ?thesis using resolve_self by (simp add: from_registry_def)
qed

lemma prepared_actions:
  assumes "prepare_transaction_actions env po raw = Inr as"
  shows "(\<forall>a \<in> set as. from_registry env a) \<and> (\<exists>vs. raw = JArr vs \<and> length as = length vs)"
proof -
  obtain vs where vs: "raw = JArr vs" "res_map (prepare_action env po) vs = Inr as"
    using assms by (auto simp: prepare_transaction_actions_def lift_error_def bad_request_def split: json.splits if_splits)
  have "from_registry env (as ! i)" if "i < length as" for i
    using res_map_nth [OF vs(2)] res_map_length [OF vs(2)] that prepared_from_registry by metis
  then show ?thesis using vs res_map_length [OF vs(2)] by (auto simp: in_set_conv_nth)
qed

lemma first_declarations_all:
  assumes "\<forall>a \<in> set as. from_registry env a" and "a \<in> set as"
  shows "ta_decl a \<in> set (first_declarations as)"
proof -
  let ?f = "\<lambda>m a. obj_set (td_name (ta_decl a)) (ta_decl a) m"
  have kept: "map_of (foldl ?f m bs) (td_name (ta_decl a)) = Some (ta_decl a)"
    if "map_of m (td_name (ta_decl a)) = Some (ta_decl a)" "set bs \<subseteq> set as" for m bs
    using that
  proof (induction bs arbitrary: m)
    case (Cons b bs)
    have "td_name (ta_decl b) = td_name (ta_decl a) \<Longrightarrow> ta_decl b = ta_decl a"
      using assms Cons.prems(2) unfolding from_registry_def by (metis Inr_inject list.set_intros(1) subsetD)
    then show ?case using Cons by simp
  qed simp
  have "map_of (foldl ?f m bs) (td_name (ta_decl a)) = Some (ta_decl a)"
    if "a \<in> set bs" "set bs \<subseteq> set as" for m bs
    using that
  proof (induction bs arbitrary: m)
    case (Cons b bs)
    show ?case
    proof (cases "a = b")
      case True
      then show ?thesis using kept [of "?f m b" bs] Cons.prems(2) by simp
    next
      case False
      then show ?thesis using Cons by simp
    qed
  qed simp
  from map_of_SomeD [OF this [OF assms(2) subset_refl, of "[]"]] show ?thesis
    by (force simp: first_declarations_def)
qed

lemma actions_count: "apply_actions env po i as files = (files', rs, None) \<Longrightarrow> length rs = length as"
  by (induction as arbitrary: i files rs) (auto split: prod.splits sum.splits if_splits)

lemma envelope_within:
  assumes "snapshot_candidate_files env files0 (first_declarations as) = Inr snap"
    and "\<forall>a \<in> set as. from_registry env a" and "apply_actions env po i as files0 = (files, rs, e)"
  shows "only_within (fst ` set snap) files0 files"
proof (rule actions_within [OF assms(3)])
  show "only_within (fst ` set snap) files0 files0" by (simp add: only_within_def)
  show "\<forall>a \<in> set as. set (candidate_files env files0 (ta_decl a)) \<subseteq> fst ` set snap"
    using first_declarations_all [OF assms(2)] snapshot_ok [OF assms(1)] by blast
qed

lemma deny_refusal_simps [simp]:
  "tw_files (deny_refusal r po w) = tw_files w" "tw_ledger (deny_refusal r po w) = tw_ledger w"
  by (simp_all add: deny_refusal_def split: tx_refusal.splits)

lemma roll_back_restores:
  assumes "roll_back env po snap files n r w = (w', q)"
    and "map_of (restore_snapshot snap files) = map_of (tw_files w)"
  shows "tw_ledger w' = tw_ledger w \<and> (\<forall>rs. q \<noteq> Inr (Tx_Applied rs)) \<and>
    (q = Inl (Api_Error 500 ''ROLLBACK_FAILED'') \<or> map_of (tw_files w') = map_of (tw_files w)) \<and>
    (\<forall>e. q = Inl e \<longrightarrow> e = Api_Error 500 ''ROLLBACK_FAILED'')"
  using assms by (auto simp: roll_back_def split: option.splits api_error.splits)

text \<open>C9: a transaction envelope is all or nothing.  When it reports failure, whatever action, injected fault or
  barrier failed, every data file holds exactly its bytes from before and no record was logged.  When it reports
  success, the files are those every action of the request left in turn, and the log grew by exactly one change
  record per action, in their order, each the record of its action's change.  When it answers an error instead,
  nothing was applied, unless the error is that the change records of the applied actions could not be logged or
  that the rollback itself failed; a failed rollback logs nothing.\<close>

theorem transaction_all_or_nothing:
  assumes "run_table_transaction env raw po w = (w', r)"
  shows "(case r of
      Inr (Tx_Failed n status code) \<Rightarrow>
        map_of (tw_files w') = map_of (tw_files w) \<and> tw_ledger w' = tw_ledger w
    | Inr (Tx_Applied results) \<Rightarrow>
        (\<exists>vs as rs es. raw = JArr vs \<and> prepare_transaction_actions env po raw = Inr as \<and> length as = length vs \<and>
           apply_actions env po 0 as (tw_files w) = (tw_files w', rs, None) \<and>
           length rs = length as \<and> results = map fst rs \<and> tw_ledger w' = tw_ledger w @ es \<and>
           list_all2 (\<lambda>c e. change_entry env po c = Some e) (map snd rs) es)
    | Inl e \<Rightarrow> audit_failure e \<or>
        tw_ledger w' = tw_ledger w \<and>
        (e = Api_Error 500 ''ROLLBACK_FAILED'' \<or> map_of (tw_files w') = map_of (tw_files w)))"
proof (cases "prepare_transaction_actions env po raw")
  case (Inl x)
  then have "w' = deny_refusal x po w" "r = Inl (refusal_error x)"
    using assms by (simp_all add: run_table_transaction_def)
  then show ?thesis by simp
next
  case Inr': (Inr as)
  note prep = prepared_actions [OF Inr']
  show ?thesis
  proof (cases "run_envelope env po as w = (w', r)")
    case False
    then have "w' = w \<and> (\<exists>e. r = Inl e)"
      using assms Inr' by (auto simp: run_table_transaction_def split: if_splits)
    then show ?thesis by auto
  next
    case True
    show ?thesis
    proof (cases "snapshot_candidate_files env (tw_files w) (first_declarations as)")
      case (Inl e)
      then have "w' = w" "r = Inl e" using True by (simp_all add: run_envelope_def)
      then show ?thesis by simp
    next
      case (Inr snap)
      obtain files rs e where act: "apply_actions env po 0 as (tw_files w) = (files, rs, e)"
        using prod_cases3 by blast
      have same: "map_of (restore_snapshot snap files) = map_of (tw_files w)"
        using rolled_back [OF Inr] envelope_within [OF Inr _ act] prep by blast
      show ?thesis
      proof (cases "e = None \<and> \<not> te_barrier_fails env")
        case False
        then obtain x where "roll_back env po snap files (length rs) x w = (w', r)"
          using True Inr act by (cases e) (auto simp: run_envelope_def split: if_splits)
        from roll_back_restores [OF this same] show ?thesis
          by (cases r) (auto split: tx_outcome.splits)
      next
        case fin: True
        obtain w1 u where u: "record_all env po (map snd rs) (w\<lparr>tw_files := files\<rparr>) = (w1, u)" by fastforce
        have run: "(case u of Inl e \<Rightarrow> (w1, Inl e) | Inr x \<Rightarrow> (w1, Inr (Tx_Applied (map fst rs)))) = (w', r)"
          using True Inr act fin u by (cases u) (simp_all add: run_envelope_def)
        show ?thesis
        proof (cases u)
          case (Inl e)
          then show ?thesis using run record_all_failed u by auto
        next
          case u': (Inr x)
          obtain es where "tw_ledger w1 = tw_ledger w @ es" "list_all2 (\<lambda>c e. change_entry env po c = Some e) (map snd rs) es"
            using record_all_ok [OF u [unfolded u']] by auto
          moreover have "length rs = length as" using act fin actions_count by simp
          moreover have "tw_files w1 = files" using record_all_files [OF u] by simp
          ultimately show ?thesis using run prep u' act fin Inr' by auto
        qed
      qed
    qed
  qed
qed

end
