(* ===== verification/Table_Cases.thy ===== *)
theory Table_Cases
  imports Table_Transaction
begin

text \<open>
  Concrete tables: the instances at which the properties of the table verbs are applied, and the behaviours of
  \<^verbatim>\<open>src/tables/operations.ts\<close> and \<^verbatim>\<open>src/duckdb/table-store.ts\<close> their comments deny.  The JSON parser of the
  instances reads back exactly the lines of the rows listed here.
\<close>

section \<open>Rows\<close>

abbreviation plain_digits :: "rat \<Rightarrow> string" where
  "plain_digits \<equiv> (\<lambda>q. ''0'')"

definition note_row :: "string \<Rightarrow> json \<Rightarrow> table_row" where
  "note_row owner text = [(''id'', JStr ''1''), (''owner'', JStr owner), (''text'', text)]"

definition card_row :: "table_row" where
  "card_row = [(''id'', JNum (Fin 7))]"

definition sample_rows :: "table_row list" where
  "sample_rows = [note_row ''bob'' (JStr ''hi''), note_row ''alice'' (JStr ''hi''), note_row ''bob'' (JNum (Fin 5)),
     note_row ''bob'' JNull, note_row ''bob'' (JStr ''ho''), card_row]"

abbreviation row_line :: "table_row \<Rightarrow> string" where
  "row_line r \<equiv> json_compact plain_digits (JObj r)"

definition array_line :: string where
  "array_line = json_compact plain_digits (JArr [JStr ''1'', JStr ''bob'', JStr ''hi''])"

definition sample_parse :: json_parser where
  "sample_parse t =
     (if t = array_line then Some (JArr [JStr ''1'', JStr ''bob'', JStr ''hi''])
      else map_of (map (\<lambda>r. (row_line r, JObj r)) sample_rows) t)"

lemma sample_lines_distinct: "distinct (array_line # map row_line sample_rows)"
  by (simp add: array_line_def sample_rows_def note_row_def card_row_def json_quote_def escape_char_def jnum_json_def
      show_int_def show_nat.simps digit_char_def)

lemma parse_row: "r \<in> set sample_rows \<Longrightarrow> sample_parse (row_line r) = Some (JObj r)"
proof -
  assume r: "r \<in> set sample_rows"
  then have "row_line r \<in> set (map row_line sample_rows)" by (simp del: json_compact.simps)
  then have "row_line r \<noteq> array_line" using sample_lines_distinct by (metis distinct.simps(2))
  moreover have "map_of (map (\<lambda>r. (row_line r, JObj r)) sample_rows) (row_line r) = Some (JObj r)"
    using sample_lines_distinct r by (intro map_of_is_SomeI) (auto simp: comp_def simp del: json_compact.simps)
  ultimately show ?thesis by (simp add: sample_parse_def del: json_compact.simps)
qed

lemma parse_array: "sample_parse array_line = Some (JArr [JStr ''1'', JStr ''bob'', JStr ''hi''])"
  by (simp add: sample_parse_def)

lemma plain_digits_ok: "digits_ok plain_digits"
  by (simp add: digits_ok_def record_line_def blank_iff is_space_def newline_def)

lemma lines_of_rows: "file_lines (lines_text (map row_line rs)) = map row_line rs"
  by (rule file_lines_text) (auto intro: json_record_line [OF plain_digits_ok] simp del: json_compact.simps)

section \<open>Tables\<close>

definition legacy_col :: "string \<Rightarrow> string \<Rightarrow> table_column" where
  "legacy_col n t = \<lparr>tc_name = n, tc_type = t, tc_declared = None, tc_nullable = None, tc_default = None, tc_references = None\<rparr>"

definition owner_policy :: table_policy where
  "owner_policy = \<lparr>tp_read = None, tp_write = Some \<lparr>rule_column = ''owner'', rule_equals = ''.name''\<rparr>\<rparr>"

definition note_table :: "table_format \<Rightarrow> string \<Rightarrow> table_policy option \<Rightarrow> table_declaration" where
  "note_table f glob pol =
     \<lparr>td_name = ''notes'', td_format = f,
      td_columns = [legacy_col ''id'' ''varchar'', legacy_col ''owner'' ''varchar'', legacy_col ''text'' ''varchar''],
      td_primary = Some ''id'', td_glob = glob, td_keys = None, td_policy = pol, td_version = None,
      td_source = Legacy_Source\<rparr>"

definition note_decl :: table_declaration where
  "note_decl = note_table Objects_Format ''notes.jsonl'' (Some owner_policy)"

definition card_decl :: table_declaration where
  "card_decl = \<lparr>td_name = ''cards'', td_format = Objects_Format, td_columns = [legacy_col ''id'' ''integer''],
     td_primary = Some ''id'', td_glob = ''cards.jsonl'', td_keys = None, td_policy = None, td_version = None,
     td_source = Legacy_Source\<rparr>"

definition person :: "string \<Rightarrow> principal" where
  "person n = \<lparr>pr_name = n, pr_authenticated = True, pr_namespaces = None, pr_roles = None, pr_tableGrants = None, pr_sql = None\<rparr>"

definition sample_store :: store_env where
  "sample_store = \<lparr>se_parse = sample_parse, se_date = (\<lambda>s. None), se_lc = (\<lambda>a b. 0), se_fmt = plain_digits\<rparr>"

definition sample_table_env :: "table_declaration \<Rightarrow> table_env" where
  "sample_table_env d =
     \<lparr>te_store = sample_store, te_ns = ''app'', te_tables = Inr [d], te_mode = Buffered, te_usable = None,
      te_number = (\<lambda>s. Fin (of_nat (parse_nat s))), te_lock = (\<lambda>k. True), te_lock_tries = 0,
      te_sha = (\<lambda>s. replicate 64 (CHR ''a'')), te_isots = (\<lambda>s. True), te_now = ''t'', te_schema_files = (\<lambda>p. None),
      te_append = (\<lambda>e k. None), te_attempts = 0, te_write = (\<lambda>i. None), te_fault = (\<lambda>i. False),
      te_barrier_fails = False, te_rollback_stops = None\<rparr>"

definition world_of :: "string \<Rightarrow> table_row list \<Rightarrow> table_world" where
  "world_of path rs = \<lparr>tw_files = [(path, lines_text (map row_line rs))], tw_ledger = [], tw_denials = []\<rparr>"

lemmas sample_defs = note_decl_def note_table_def card_decl_def legacy_col_def owner_policy_def person_def
  sample_table_env_def sample_store_def

text \<open>Reading and rewriting the one file of a sample table, without looking into the lines.\<close>

lemma note_files: "resolve_table_files sample_store [(''notes.jsonl'', t)] note_decl = [''notes.jsonl'']"
  by (simp add: resolve_table_files_def note_decl_def note_table_def glob_parts_def has_wildcard_def resolve_path_def)

lemma card_files: "resolve_table_files sample_store [(''cards.jsonl'', t)] card_decl = [''cards.jsonl'']"
  by (simp add: resolve_table_files_def card_decl_def glob_parts_def has_wildcard_def resolve_path_def)

lemma sample_store_sel [simp]:
  "se_parse sample_store = sample_parse" "se_date sample_store = (\<lambda>s. None)" "se_fmt sample_store = plain_digits"
  "te_store (sample_table_env d) = sample_store" "te_tables (sample_table_env d) = Inr [d]"
  "te_mode (sample_table_env d) = Buffered"
  by (simp_all add: sample_store_def sample_table_env_def)

lemma sample_line_row: "r \<in> set sample_rows \<Longrightarrow> line_row sample_store d (row_line r) = Some r"
  by (simp add: line_row_def parse_row project_row_def del: json_compact.simps)

lemma sample_rewrite:
  assumes "r \<in> set sample_rows"
  shows "rewrite_line sample_store d m oper (row_line r) =
    (if \<not> m r then ([row_line r], 0)
     else (case oper of Drop_Rows \<Rightarrow> ([], 1)
       | Merge_Rows merge \<Rightarrow> (case merge r of None \<Rightarrow> ([], 1) | Some x \<Rightarrow> ([serialize_row_line sample_store d x], 1))))"
  using assms by (simp add: rewrite_line_def parse_row del: json_compact.simps)

lemma one_line: "file_lines (row_line r @ [newline]) = [row_line r]"
  using lines_of_rows [of "[r]"] by (simp del: json_compact.simps)

lemma note_named: "resolve_table_declaration (sample_table_env note_decl) ''notes'' = Inr note_decl"
  by (simp add: resolve_table_declaration_def get_table_def note_decl_def note_table_def)

lemma note_key: "resolve_pk_filter (sample_table_env note_decl) note_decl (Some (JStr ''eq.1'')) =
    Inr (legacy_col ''id'' ''varchar'', ''1'')"
  by (simp add: resolve_pk_filter_def note_decl_def note_table_def column_named_def legacy_col_def Let_def starts_with_def)

abbreviation note_file :: "table_row \<Rightarrow> data_files" where
  "note_file r \<equiv> [(''notes.jsonl'', row_line r @ [newline])]"

lemma note_find:
  assumes "r \<in> set sample_rows" and "map_of r ''id'' = Some (JStr ''1'')"
  shows "find_row_line_by_pk sample_store (note_file r) note_decl ''id'' ''1'' =
      Some \<lparr>rl_path = ''notes.jsonl'', rl_line = row_line r, rl_row = r\<rparr>"
  using assms by (simp add: find_row_line_by_pk_def note_files one_line sample_line_row pk_matches_def pk_operand_null_def
      del: json_compact.simps)

lemma note_patch:
  assumes "r \<in> set sample_rows" and "map_of r ''id'' = Some (JStr ''1'')"
  shows "patch_rows_by_pk sample_store (note_file r) note_decl ''id'' ''1'' body None Buffered =
      (note_file (spread r body), Inr \<lparr>mo_mutated = 1, mo_inserted = 0, mo_achieved = Buffered\<rparr>)"
proof -
  have "serialize_row_line sample_store note_decl x = row_line x" for x
    by (simp add: serialize_row_line_def note_decl_def note_table_def del: json_compact.simps)
  moreover have "key_predicate sample_store ''id'' ''1'' r"
    using assms(2) by (simp add: key_predicate_def pk_matches_def pk_operand_null_def)
  ultimately show ?thesis
    by (simp add: patch_rows_by_pk_def rewrite_with_predicate_def note_files rewrite_file_def one_line rewrite_lines_def
        sample_rewrite [OF assms(1)] del: json_compact.simps)
qed

lemma sample_record:
  assumes "rc_path c \<noteq> []"
  shows "\<exists>e. record_table_mutation_audit (sample_table_env d) po c w = (w\<lparr>tw_ledger := tw_ledger w @ [e]\<rparr>, Inr ())"
proof -
  have "declared_schema_version sample_parse (\<lambda>p. None) t = 1" for t
    by (simp add: declared_schema_version_def read_declared_table_view_def read_schema_json_table_view_def)
  then obtain e where "change_entry (sample_table_env d) po c = Some e"
    using assms by (simp add: change_entry_def accepted_table_mutation_record_def change_input_def sample_table_env_def
        sample_store_def content_hash_for_def is_hex_lower_def js_max_safe_def Let_def list_all_iff)
  then show ?thesis
    by (intro exI [of _ e]) (simp add: record_table_mutation_audit_def, simp add: sample_table_env_def)
qed

section \<open>The envelope does not check what the single verbs check\<close>

abbreviation note_world :: "table_row \<Rightarrow> table_world" where
  "note_world r \<equiv> \<lparr>tw_files = note_file r, tw_ledger = [], tw_denials = []\<rparr>"

definition patch_action :: "table_row \<Rightarrow> json" where
  "patch_action patch =
     JArr [JObj [(''op'', JStr ''update''), (''table'', JStr ''notes''), (''pk'', JStr ''eq.1''), (''patch'', JObj patch)]]"

lemma patch_prepared:
  assumes "\<not> unknown_columns note_decl patch"
  shows "prepare_transaction_actions (sample_table_env note_decl) po (patch_action patch) =
    Inr [\<lparr>ta_op = Tx_Update, ta_decl = note_decl, ta_key = Some (legacy_col ''id'' ''varchar'', ''1''), ta_row = [],
          ta_patch = patch\<rparr>]"
  using assms note_named note_key
  by (simp add: prepare_transaction_actions_def prepare_action_def patch_action_def transaction_max_actions_def
      tx_op_of_def lift_error_def object_body_def)

lemma note_snapshot:
  "length (row_line r) < 1000 \<Longrightarrow> snapshot_candidate_files (sample_table_env note_decl) (note_file r) [note_decl] =
    Inr [(''notes.jsonl'', Some (row_line r @ [newline]))]"
proof -
  assume len: "length (row_line r) < 1000"
  have "derive_synthetic_file_path note_decl = ''notes.jsonl''"
    by (simp add: derive_synthetic_file_path_def note_decl_def note_table_def glob_parts_def has_wildcard_def resolve_path_def)
  then show ?thesis
    using len by (simp add: snapshot_candidate_files_def candidate_files_def note_files transaction_snapshot_max_bytes_def
        Let_def del: json_compact.simps)
qed

lemma patch_envelope:
  assumes r: "r \<in> set sample_rows" "map_of r ''id'' = Some (JStr ''1'')" "length (row_line r) < 1000"
    and b: "spread r patch \<in> set sample_rows" "map_of (spread r patch) ''id'' = Some (JStr ''1'')"
    and p: "\<not> unknown_columns note_decl patch" "may_write (sample_table_env note_decl) note_decl po (spread r patch)"
  shows "\<exists>w' rs. run_table_transaction (sample_table_env note_decl) (patch_action patch) po (note_world r) =
      (w', Inr (Tx_Applied rs)) \<and> tw_files w' = note_file (spread r patch)"
proof -
  let ?env = "sample_table_env note_decl"
  let ?a = "\<lparr>ta_op = Tx_Update, ta_decl = note_decl, ta_key = Some (legacy_col ''id'' ''varchar'', ''1''), ta_row = [],
      ta_patch = patch\<rparr>"
  let ?c = "location_change Op_Update note_decl
      \<lparr>rl_path = ''notes.jsonl'', rl_line = row_line (spread r patch), rl_row = spread r patch\<rparr>"
  have id: "tc_name (legacy_col ''id'' ''varchar'') = ''id''" by (simp add: legacy_col_def)
  have f: "find_row_by_pk sample_store (note_file r) note_decl ''id'' ''1'' = Some r"
    by (simp add: find_row_by_pk_def note_find [OF r(1,2)] del: json_compact.simps)
  obtain res where step: "apply_transaction_action_locked ?env po ?a (note_file r) = (note_file (spread r patch), Inr (res, ?c))"
    using p(2) by (simp add: apply_transaction_action_locked_def id tx_update_def f tx_patch_def note_patch [OF r(1,2)]
        tx_located_def note_find [OF b] del: json_compact.simps)
  have acts: "apply_actions ?env po 0 [?a] (note_file r) = (note_file (spread r patch), [(res, ?c)], None)"
    using step by (simp add: sample_table_env_def del: json_compact.simps)
  obtain e where e: "record_table_mutation_audit ?env po ?c ((note_world r)\<lparr>tw_files := note_file (spread r patch)\<rparr>) =
      ((note_world r)\<lparr>tw_files := note_file (spread r patch), tw_ledger := [e]\<rparr>, Inr ())"
    using sample_record [of ?c note_decl po "(note_world r)\<lparr>tw_files := note_file (spread r patch)\<rparr>"]
    by (auto simp: location_change_def simp del: json_compact.simps)
  have flags: "\<not> te_barrier_fails ?env" "te_usable ?env = None" "lock_acquired ?env"
    by (simp_all add: sample_table_env_def lock_acquired_def)
  have "first_declarations [?a] = [note_decl]" by (simp add: first_declarations_def)
  then have "run_envelope ?env po [?a] (note_world r) =
      ((note_world r)\<lparr>tw_files := note_file (spread r patch), tw_ledger := [e]\<rparr>, Inr (Tx_Applied [res]))"
    using acts e flags(1) note_snapshot [OF r(3)] by (simp add: run_envelope_def del: json_compact.simps)
  then show ?thesis
    using patch_prepared [OF p(1)] flags by (simp add: run_table_transaction_def del: json_compact.simps)
qed

lemma bob_may: "may_write (sample_table_env note_decl) note_decl (Some (person o')) (note_row o'' t) \<longleftrightarrow> o'' = o'"
  if "o' \<in> {''bob'', ''alice''}" and "o'' \<in> {''bob'', ''alice''}"
  using that
  by (auto simp: may_write_def row_policy_decision_def resolve_row_policy_def policy_rule_def note_decl_def note_table_def
      owner_policy_def principal_policy_value_def starts_with_def person_def row_cell_def note_row_def trim_def is_space_def)

lemma note_patchable:
  assumes "fst ` set patch \<subseteq> {''id'', ''owner'', ''text''}"
  shows "\<not> unknown_columns note_decl patch"
  using assms
  by (auto simp: unknown_columns_def list_ex_iff is_column_def note_decl_def note_table_def legacy_col_def)

lemma note_found:
  assumes "r \<in> set sample_rows" and "map_of r ''id'' = Some (JStr ''1'')"
  shows "find_row_by_pk sample_store (note_file r) note_decl ''id'' ''1'' = Some r"
  using assms by (simp add: find_row_by_pk_def note_find del: json_compact.simps)

lemma note_update:
  assumes "\<not> unknown_columns note_decl patch"
  shows "update_table_rows (sample_table_env note_decl) ''notes'' (Some (JStr ''eq.1'')) patch po w =
    (case update_locked (sample_table_env note_decl) note_decl (legacy_col ''id'' ''varchar'') ''1'' patch po (tw_files w) of
       (files, Inl (Some e)) \<Rightarrow> (w\<lparr>tw_files := files\<rparr>, Inl e)
     | (files, Inl None) \<Rightarrow> (deny note_decl po w, Inr 0)
     | (files, Inr (n, loc)) \<Rightarrow>
         answer_change (sample_table_env note_decl) po n (map_option (location_change Op_Update note_decl) loc)
           (w\<lparr>tw_files := files\<rparr>))"
  using assms note_named note_key
  by (simp add: update_table_rows_def lock_acquired_def) (simp add: sample_table_env_def)

lemma note_rows: "note_row ''bob'' (JStr ''hi'') \<in> set sample_rows" "note_row ''alice'' (JStr ''hi'') \<in> set sample_rows"
    "note_row ''bob'' (JNum (Fin 5)) \<in> set sample_rows" "note_row ''bob'' JNull \<in> set sample_rows"
    "note_row ''bob'' (JStr ''ho'') \<in> set sample_rows"
  by (simp_all add: sample_rows_def)

lemma note_id: "map_of (note_row a t) ''id'' = Some (JStr ''1'')"
  by (simp add: note_row_def)

lemma note_spread:
  "spread (note_row a t) [(''owner'', JStr b)] = note_row b t" "spread (note_row a t) [(''text'', v)] = note_row a v"
  by (simp_all add: spread_def note_row_def)

text \<open>C29: a transaction skips the checks of the single verbs.  The table's policy lets a principal write only rows it
  owns.  Alice's update of Bob's row that makes her the owner is refused by the update verb, which leaves the row
  and reports a denial; the same patch in a transaction envelope is applied, and the row is hers.  Bob's update
  that puts a number into a text column is refused with 422; in an envelope it is applied, and the number is
  stored.\<close>

theorem envelope_skips_checks:
  "update_table_rows (sample_table_env note_decl) ''notes'' (Some (JStr ''eq.1'')) [(''owner'', JStr ''alice'')]
      (Some (person ''alice'')) (note_world (note_row ''bob'' (JStr ''hi''))) =
     (deny note_decl (Some (person ''alice'')) (note_world (note_row ''bob'' (JStr ''hi''))), Inr 0) \<and>
   (\<exists>w' rs. run_table_transaction (sample_table_env note_decl) (patch_action [(''owner'', JStr ''alice'')])
        (Some (person ''alice'')) (note_world (note_row ''bob'' (JStr ''hi''))) = (w', Inr (Tx_Applied rs)) \<and>
      tw_files w' = note_file (note_row ''alice'' (JStr ''hi''))) \<and>
   update_table_rows (sample_table_env note_decl) ''notes'' (Some (JStr ''eq.1'')) [(''text'', JNum (Fin 5))]
      (Some (person ''bob'')) (note_world (note_row ''bob'' (JStr ''hi''))) =
     (note_world (note_row ''bob'' (JStr ''hi'')), Inl (Api_Error 422 ''UNPROCESSABLE_ENTITY'')) \<and>
   (\<exists>w' rs. run_table_transaction (sample_table_env note_decl) (patch_action [(''text'', JNum (Fin 5))])
        (Some (person ''bob'')) (note_world (note_row ''bob'' (JStr ''hi''))) = (w', Inr (Tx_Applied rs)) \<and>
      tw_files w' = note_file (note_row ''bob'' (JNum (Fin 5))))"
proof -
  let ?env = "sample_table_env note_decl" and ?bob = "note_row ''bob'' (JStr ''hi'')"
  have len: "length (row_line ?bob) < 1000"
    by (simp add: note_row_def json_quote_def escape_char_def)
  have cols: "\<not> unknown_columns note_decl [(''owner'', JStr ''alice'')]" "\<not> unknown_columns note_decl [(''text'', JNum (Fin 5))]"
    by (rule note_patchable, simp)+
  note f = note_found [OF note_rows(1) note_id]
  have "coerce_row_against_declaration sample_store note_decl (JObj (note_row ''bob'' (JNum (Fin 5)))) =
      Inl (Api_Error 422 ''UNPROCESSABLE_ENTITY'')"
    by (simp add: coerce_row_against_declaration_def declared_columns_of_def note_decl_def note_table_def note_row_def
        legacy_col_def coerce_cell_def)
  then have ul: "update_locked ?env note_decl (legacy_col ''id'' ''varchar'') ''1'' [(''owner'', JStr ''alice'')]
        (Some (person ''alice'')) (note_file ?bob) = (note_file ?bob, Inl None)"
      "update_locked ?env note_decl (legacy_col ''id'' ''varchar'') ''1'' [(''text'', JNum (Fin 5))]
        (Some (person ''bob'')) (note_file ?bob) = (note_file ?bob, Inl (Some (Api_Error 422 ''UNPROCESSABLE_ENTITY'')))"
    using f by (simp_all add: update_locked_def legacy_col_def bob_may note_spread del: json_compact.simps)
  have tx: "\<exists>w' rs. run_table_transaction ?env (patch_action p) po (note_world ?bob) = (w', Inr (Tx_Applied rs)) \<and>
      tw_files w' = note_file x"
    if "spread ?bob p = x" "x \<in> set sample_rows" "map_of x ''id'' = Some (JStr ''1'')" "\<not> unknown_columns note_decl p"
      "may_write ?env note_decl po x" for p po x
    using patch_envelope [OF note_rows(1) note_id len, of p po] that by metis
  show ?thesis
    by (intro conjI tx note_spread note_rows note_id cols)
      (simp_all add: note_update cols ul bob_may del: json_compact.simps)
qed

section \<open>A key spelled differently is a second row\<close>

abbreviation card_file :: "string \<Rightarrow> data_files" where
  "card_file t \<equiv> [(''cards.jsonl'', t)]"

abbreviation card_world :: "string \<Rightarrow> table_world" where
  "card_world t \<equiv> \<lparr>tw_files = card_file t, tw_ledger = [], tw_denials = []\<rparr>"

abbreviation card_env :: table_env where "card_env \<equiv> sample_table_env card_decl"

abbreviation seven :: table_column where "seven \<equiv> legacy_col ''id'' ''integer''"

lemma card_key: "v \<noteq> [] \<Longrightarrow> resolve_pk_filter card_env card_decl (Some (JStr (''eq.'' @ v))) = Inr (seven, v)"
  by (simp add: resolve_pk_filter_def card_decl_def column_named_def legacy_col_def Let_def starts_with_def)

lemma card_named: "resolve_table_declaration card_env ''cards'' = Inr card_decl"
  by (simp add: resolve_table_declaration_def get_table_def card_decl_def)

lemma card_seven: "map_of card_row ''id'' = Some (JNum (Fin 7))" "js_string plain_digits (JNum (Fin 7)) = ''7''"
  by (simp_all add: card_row_def show_int_def show_nat.simps digit_char_def char_of_def bit_iff_odd)

lemma card_sample: "card_row \<in> set sample_rows"
  by (simp add: sample_rows_def)

lemma card_upsert:
  assumes "parse_nat v = 7" and "integer_text v" and v: "v \<noteq> []"
    and none: "find_row_by_pk sample_store (card_file t) card_decl ''id'' v = None"
  obtains e where "upsert_table_row card_env ''cards'' (Some (JStr (''eq.'' @ v))) [] None (card_world t) =
    ((card_world (t @ row_line card_row @ [newline]))\<lparr>tw_ledger := [e]\<rparr>, Inr (Row_Inserted, card_row))"
proof -
  have typed: "typed_pk_value card_env seven v = Inr (JNum (Fin 7))"
    using assms by (simp add: typed_pk_value_def legacy_col_def sample_table_env_def js_max_safe_def)
  have coerced: "coerce_row_against_declaration sample_store card_decl (JObj [(''id'', JNum (Fin 7))]) = Inr card_row"
    by (simp add: coerce_row_against_declaration_def declared_columns_of_def card_decl_def legacy_col_def coerce_cell_def
        card_row_def is_column_def)
  let ?f = "card_file (t @ row_line card_row @ [newline])"
  have card_policy: "td_policy card_decl = None" by (simp add: card_decl_def)
  have target: "append_target sample_store (card_file u) card_decl = ''cards.jsonl''" for u
    by (simp add: append_target_def card_files)
  have ser: "serialize_row_line sample_store card_decl card_row = row_line card_row"
    by (simp add: serialize_row_line_def card_decl_def del: json_compact.simps)
  have app: "append_rows_to_table sample_store (card_file t) card_decl [card_row] Buffered = (?f, Buffered)"
    by (simp add: append_rows_to_table_def append_text_def target ser del: json_compact.simps)
  obtain ch where locked: "upsert_locked card_env card_decl seven v (JNum (Fin 7)) [] None (card_file t) =
      (?f, Inr (Row_Inserted, card_row, ch))" "rc_path ch = ''cards.jsonl''"
    using none coerced app
    by (simp add: upsert_locked_def create_locked_def append_change_def may_write_def row_policy_decision_def
        resolve_row_policy_def policy_rule_def card_policy legacy_col_def target del: json_compact.simps)
  obtain e where rec: "record_table_mutation_audit card_env None ch ((card_world t)\<lparr>tw_files := ?f\<rparr>) =
      ((card_world t)\<lparr>tw_files := ?f, tw_ledger := [e]\<rparr>, Inr ())"
    using sample_record [of ch card_decl None "(card_world t)\<lparr>tw_files := ?f\<rparr>"] locked(2)
    by (auto simp del: json_compact.simps)
  have guards: "\<not> unknown_columns card_decl []" "td_source card_decl = Legacy_Source" "lock_acquired card_env"
      "\<not> key_conflict card_env seven (JNum (Fin 7)) []"
    by (simp_all add: unknown_columns_def card_decl_def lock_acquired_def key_conflict_def, simp add: sample_table_env_def)
  show thesis
    by (rule that [of e]) (use guards rec locked(1) in
      \<open>simp add: upsert_table_row_def card_named card_key [OF v] typed del: json_compact.simps append.append_Cons\<close>)
qed

text \<open>C30: an upsert can duplicate a primary key.  With a row whose integer key is 7 in the table, the upsert of the
  resource 07 does not find it, because the search compares texts, stores a second row with the key 7, and
  answers that it inserted.\<close>

theorem upsert_duplicates_key:
  "\<exists>w'. upsert_table_row (sample_table_env card_decl) ''cards'' (Some (JStr ''eq.07'')) [] None
      \<lparr>tw_files = card_file (lines_text [row_line card_row]), tw_ledger = [], tw_denials = []\<rparr> =
      (w', Inr (Row_Inserted, card_row)) \<and>
    table_lines sample_store (tw_files w') card_decl = [row_line card_row, row_line card_row]"
proof -
  let ?t = "lines_text [row_line card_row]"
  have none: "find_row_by_pk sample_store (card_file ?t) card_decl ''id'' ''07'' = None"
    using sample_line_row [OF card_sample] card_seven
    by (simp add: find_row_by_pk_def find_row_line_by_pk_def card_files one_line pk_matches_def pk_operand_null_def
        del: json_compact.simps js_string.simps)
  have spelled: "parse_nat ''07'' = 7" "integer_text ''07''"
    by (simp_all add: parse_nat_def digit_val_def integer_text_def is_digit_def)
  obtain e where "upsert_table_row card_env ''cards'' (Some (JStr (''eq.'' @ ''07''))) [] None (card_world ?t) =
      ((card_world (?t @ row_line card_row @ [newline]))\<lparr>tw_ledger := [e]\<rparr>, Inr (Row_Inserted, card_row))"
    by (rule card_upsert [OF spelled list.distinct(2) none])
  moreover have "table_lines sample_store (card_file (?t @ row_line card_row @ [newline])) card_decl =
      [row_line card_row, row_line card_row]"
    using lines_of_rows [of "[card_row, card_row]"]
    by (simp add: table_lines_def lines_at_def text_of_def card_files del: json_compact.simps)
  ultimately show ?thesis
    by (intro exI [of _ "(card_world (?t @ row_line card_row @ [newline]))\<lparr>tw_ledger := [e]\<rparr>"])
      (simp del: json_compact.simps)
qed

section \<open>The properties of the verbs at concrete tables\<close>

abbreviation bob_hi :: table_row where "bob_hi \<equiv> note_row ''bob'' (JStr ''hi'')"
abbreviation bob_ho :: table_row where "bob_ho \<equiv> note_row ''bob'' (JStr ''ho'')"
abbreviation note_env :: table_env where "note_env \<equiv> sample_table_env note_decl"
abbreviation bob :: "principal option" where "bob \<equiv> Some (person ''bob'')"
abbreviation ho_patch :: table_row where "ho_patch \<equiv> [(''text'', JStr ''ho'')]"

lemma note_distinct: "distinct (map fst (tw_files (note_world r)))"
  by simp

lemma note_digits: "digits_ok (te_fmt note_env)"
  using plain_digits_ok by simp

lemma note_audit:
  assumes "rc_path c \<noteq> []"
  obtains e where "record_table_mutation_audit (sample_table_env d) po c w = (w\<lparr>tw_ledger := tw_ledger w @ [e]\<rparr>, Inr ())"
  using sample_record [OF assms] by blast

lemma update_runs_here:
  obtains w' where "update_table_rows note_env ''notes'' (Some (JStr ''eq.1'')) ho_patch bob (note_world bob_hi) = (w', Inr 1)"
proof -
  have cols: "\<not> unknown_columns note_decl ho_patch" by (rule note_patchable) simp
  have coerced: "coerce_row_against_declaration sample_store note_decl (JObj bob_ho) = Inr bob_ho"
    by (simp add: coerce_row_against_declaration_def declared_columns_of_def note_decl_def note_table_def note_row_def
        legacy_col_def coerce_cell_def is_column_def)
  have pick: "picked bob_ho ho_patch = ho_patch" by (simp add: picked_def note_row_def or_null_def)
  note f = note_found [OF note_rows(1) note_id] and g = note_find [OF note_rows(5) note_id]
  let ?loc = "\<lparr>rl_path = ''notes.jsonl'', rl_line = row_line bob_ho, rl_row = bob_ho\<rparr>"
  have l: "update_locked note_env note_decl (legacy_col ''id'' ''varchar'') ''1'' ho_patch bob (note_file bob_hi) =
      (note_file bob_ho, Inr (1, Some ?loc))"
    using f g coerced pick note_patch [OF note_rows(1) note_id, of ho_patch]
    by (simp add: update_locked_def bob_may note_spread legacy_col_def del: json_compact.simps)
  obtain e where e: "record_table_mutation_audit note_env bob (location_change Op_Update note_decl ?loc)
      (note_world bob_ho) = ((note_world bob_ho)\<lparr>tw_ledger := [e]\<rparr>, Inr ())"
    using note_audit [of "location_change Op_Update note_decl ?loc" note_decl bob "note_world bob_ho"]
    by (auto simp: location_change_def simp del: json_compact.simps)
  show thesis
    by (rule that [of "(note_world bob_ho)\<lparr>tw_ledger := [e]\<rparr>"])
      (use e l in \<open>simp add: note_update [OF cols] answer_change_def del: json_compact.simps\<close>)
qed

theorem update_exact_witness:
  "\<exists>w' existing merged change e.
      update_table_rows note_env ''notes'' (Some (JStr ''eq.1'')) ho_patch bob (note_world bob_hi) = (w', Inr 1) \<and>
      find_row_by_pk sample_store (note_file bob_hi) note_decl ''id'' ''1'' = Some existing \<and>
      table_lines sample_store (tw_files w') note_decl =
        map (patched_line sample_store note_decl ''id'' ''1'' (picked merged ho_patch))
          (table_lines sample_store (note_file bob_hi) note_decl) \<and>
      change_entry note_env bob change = Some e \<and> tw_ledger w' = [e]"
proof -
  obtain w' where run: "update_table_rows note_env ''notes'' (Some (JStr ''eq.1'')) ho_patch bob (note_world bob_hi) = (w', Inr 1)"
    using update_runs_here by blast
  have key: "tc_name (legacy_col ''id'' ''varchar'') = ''id''" by (simp add: legacy_col_def)
  show ?thesis
    using update_exact [OF run one_neq_zero note_named note_key note_distinct note_digits] run
    unfolding key sample_store_sel table_world.simps append_Nil by blast
qed

lemma note_delete:
  assumes "r \<in> set sample_rows" and "map_of r ''id'' = Some (JStr ''1'')"
  shows "delete_rows_by_pk sample_store (note_file r) note_decl ''id'' ''1'' Buffered =
      ([(''notes.jsonl'', [])], \<lparr>mo_mutated = 1, mo_inserted = 0, mo_achieved = Buffered\<rparr>)"
proof -
  have "key_predicate sample_store ''id'' ''1'' r"
    using assms(2) by (simp add: key_predicate_def pk_matches_def pk_operand_null_def)
  then show ?thesis
    by (simp add: delete_rows_by_pk_def rewrite_with_predicate_def note_files rewrite_file_def one_line rewrite_lines_def
        sample_rewrite [OF assms(1)] del: json_compact.simps)
qed

lemma delete_runs_here:
  obtains w' where "delete_table_rows note_env ''notes'' (Some (JStr ''eq.1'')) bob (note_world bob_hi) = (w', Inr 1)"
proof -
  let ?loc = "\<lparr>rl_path = ''notes.jsonl'', rl_line = row_line bob_hi, rl_row = bob_hi\<rparr>"
  obtain e where e: "record_table_mutation_audit note_env bob (location_change Op_Delete note_decl ?loc)
      ((note_world bob_hi)\<lparr>tw_files := [(''notes.jsonl'', [])]\<rparr>) =
      ((note_world bob_hi)\<lparr>tw_files := [(''notes.jsonl'', [])], tw_ledger := [e]\<rparr>, Inr ())"
    using note_audit [of "location_change Op_Delete note_decl ?loc" note_decl bob
        "(note_world bob_hi)\<lparr>tw_files := [(''notes.jsonl'', [])]\<rparr>"]
    by (auto simp: location_change_def simp del: json_compact.simps)
  have "lock_acquired note_env" by (simp add: lock_acquired_def sample_table_env_def)
  then show thesis
    using e note_find [OF note_rows(1) note_id] note_delete [OF note_rows(1) note_id]
    by (intro that) (simp add: delete_table_rows_def note_named note_key legacy_col_def bob_may answer_change_def
        del: json_compact.simps)
qed

theorem delete_exact_rows_witness:
  "\<exists>w'. delete_table_rows note_env ''notes'' (Some (JStr ''eq.1'')) bob (note_world bob_hi) = (w', Inr 1) \<and>
      find_row_by_pk sample_store (tw_files w') note_decl ''id'' ''1'' = None \<and> length (tw_ledger w') = 1"
proof -
  obtain w' where run: "delete_table_rows note_env ''notes'' (Some (JStr ''eq.1'')) bob (note_world bob_hi) = (w', Inr 1)"
    using delete_runs_here by blast
  have key: "tc_name (legacy_col ''id'' ''varchar'') = ''id''" by (simp add: legacy_col_def)
  have objects: "td_format note_decl = Objects_Format" by (simp add: note_decl_def note_table_def)
  show ?thesis
    using delete_exact_rows [OF run one_neq_zero note_named note_key note_distinct note_digits] run objects
    unfolding key sample_store_sel table_world.simps append_Nil by auto
qed

theorem transaction_all_or_nothing_witness:
  "\<exists>w' results. run_table_transaction note_env (patch_action ho_patch) bob (note_world bob_hi) = (w', Inr (Tx_Applied results)) \<and>
     tw_files w' = note_file bob_ho \<and> length (tw_ledger w') = 1"
proof -
  have len: "length (row_line bob_hi) < 1000"
    by (simp add: note_row_def json_quote_def escape_char_def)
  have "\<not> unknown_columns note_decl ho_patch" by (rule note_patchable) simp
  then obtain w' results
    where run: "run_table_transaction note_env (patch_action ho_patch) bob (note_world bob_hi) = (w', Inr (Tx_Applied results))"
      and files: "tw_files w' = note_file bob_ho"
    using patch_envelope [OF note_rows(1) note_id len, of ho_patch bob] by (auto simp: note_spread note_rows note_id bob_may
        simp del: json_compact.simps)
  show ?thesis
    using transaction_all_or_nothing [OF run] run files
    by (auto simp: patch_action_def dest!: list_all2_lengthD simp del: json_compact.simps)
qed

theorem upsert_is_map_update_witness:
  "\<exists>w'. upsert_table_row card_env ''cards'' (Some (JStr (''eq.'' @ ''7''))) [] None (card_world []) =
      (w', Inr (Row_Inserted, card_row)) \<and>
    table_map sample_store (tw_files w') card_decl ''id'' =
      (table_map sample_store (card_file []) card_decl ''id'')(''7'' := Some (map_of card_row))"
proof -
  have lines: "table_lines sample_store (card_file []) card_decl = []"
    by (simp add: table_lines_def lines_at_def text_of_def card_files file_lines_def)
  then have none: "find_row_by_pk sample_store (card_file []) card_decl ''id'' ''7'' = None"
    by (simp add: find_row_lines)
  have spelled: "parse_nat ''7'' = 7" "integer_text ''7''"
    by (simp_all add: parse_nat_def digit_val_def integer_text_def is_digit_def)
  obtain e where run: "upsert_table_row card_env ''cards'' (Some (JStr (''eq.'' @ ''7''))) [] None (card_world []) =
      ((card_world ([] @ row_line card_row @ [newline]))\<lparr>tw_ledger := [e]\<rparr>, Inr (Row_Inserted, card_row))"
    by (rule card_upsert [OF spelled list.distinct(2) none])
  have key: "tc_name seven = ''id''" by (simp add: legacy_col_def)
  have ready: "table_ready (te_store card_env) (tw_files (card_world [])) card_decl"
    using plain_digits_ok
    by (simp add: table_ready_def table_ok_def card_decl_def insert_visible_def line_closed_def append_target_def
        text_of_def resolve_table_files_def glob_parts_def has_wildcard_def resolve_path_def legacy_col_def)
  have "serialize_row_line sample_store card_decl card_row = row_line card_row"
    by (simp add: serialize_row_line_def card_decl_def del: json_compact.simps)
  moreover have "spread [] card_row = card_row" by (simp add: spread_def card_row_def)
  ultimately have reads: "row_reads_back (te_store card_env) (tw_files (card_world [])) card_decl card_row"
    using parse_row [OF card_sample] lines by (simp add: row_reads_back_def del: json_compact.simps)
  have match: "pk_matches (te_fmt card_env) ''7'' (map_of card_row (tc_name seven))"
    using card_seven by (simp add: pk_matches_def pk_operand_null_def key del: js_string.simps)
  have operand: "\<not> pk_operand_null ''7''" by (simp add: pk_operand_null_def)
  note changed = upsert_is_map_update [OF run card_named card_key [OF list.distinct(2)] ready reads match operand,
    unfolded key sample_store_sel, simplified table_world.simps]
  show ?thesis by (intro exI conjI, rule run) (use changed in \<open>simp del: json_compact.simps\<close>)
qed

abbreviation alice :: "principal option" where "alice \<equiv> Some (person ''alice'')"

lemma alice_refused:
  "update_table_rows note_env ''notes'' (Some (JStr ''eq.1'')) ho_patch alice (note_world bob_hi) =
     (deny note_decl alice (note_world bob_hi), Inr 0)"
  "delete_table_rows note_env ''notes'' (Some (JStr ''eq.1'')) alice (note_world bob_hi) =
     (deny note_decl alice (note_world bob_hi), Inr 0)"
  "upsert_table_row note_env ''notes'' (Some (JStr ''eq.1'')) ho_patch alice (note_world bob_hi) =
     (deny note_decl alice (note_world bob_hi), Inl (Api_Error 403 ''FORBIDDEN''))"
  "insert_table_rows note_env ''notes'' [JObj bob_hi] alice (note_world bob_hi) =
     (deny note_decl alice (note_world bob_hi), Inl (Api_Error 403 ''FORBIDDEN''))"
proof -
  have cols: "\<not> unknown_columns note_decl ho_patch" by (rule note_patchable) simp
  note f = note_found [OF note_rows(1) note_id] and g = note_find [OF note_rows(1) note_id]
  have acquired: "lock_acquired note_env" by (simp add: lock_acquired_def sample_table_env_def)
  have legacy: "td_source note_decl = Legacy_Source" "policy_rule (td_policy note_decl) Write \<noteq> None"
      "\<not> missing_key note_decl bob_hi"
    by (simp_all add: note_decl_def note_table_def owner_policy_def policy_rule_def missing_key_def note_row_def)
  have key: "tc_name (legacy_col ''id'' ''varchar'') = ''id''" by (simp add: legacy_col_def)
  have refused: "\<not> may_write note_env note_decl alice bob_hi" by (simp add: bob_may)
  have typed: "typed_pk_value note_env (legacy_col ''id'' ''varchar'') ''1'' = Inr (JStr ''1'')"
    by (simp add: typed_pk_value_def legacy_col_def)
  have coerced: "coerce_row_against_declaration sample_store note_decl (JObj bob_hi) = Inr bob_hi"
    by (simp add: coerce_row_against_declaration_def declared_columns_of_def note_decl_def note_table_def note_row_def
        legacy_col_def coerce_cell_def is_column_def)
  show "update_table_rows note_env ''notes'' (Some (JStr ''eq.1'')) ho_patch alice (note_world bob_hi) =
     (deny note_decl alice (note_world bob_hi), Inr 0)"
    using f refused by (simp add: note_update [OF cols] update_locked_def key del: json_compact.simps)
  show "delete_table_rows note_env ''notes'' (Some (JStr ''eq.1'')) alice (note_world bob_hi) =
     (deny note_decl alice (note_world bob_hi), Inr 0)"
    using g refused acquired by (simp add: delete_table_rows_def note_named note_key key del: json_compact.simps)
  show "upsert_table_row note_env ''notes'' (Some (JStr ''eq.1'')) ho_patch alice (note_world bob_hi) =
     (deny note_decl alice (note_world bob_hi), Inl (Api_Error 403 ''FORBIDDEN''))"
    using f refused acquired legacy(1) cols typed
    by (simp add: upsert_table_row_def note_named note_key key upsert_locked_def replace_locked_def key_conflict_def
        del: json_compact.simps)
  show "insert_table_rows note_env ''notes'' [JObj bob_hi] alice (note_world bob_hi) =
     (deny note_decl alice (note_world bob_hi), Inl (Api_Error 403 ''FORBIDDEN''))"
    using refused legacy coerced by (simp add: insert_table_rows_def note_named del: json_compact.simps)
qed


section \<open>Rows no verb can change\<close>

text \<open>
  The search of a positional table reads arrays as rows, the rewrite skips them: an update or a delete of a
  table whose lines are all arrays changes nothing and answers 0.
\<close>

lemma positional_never_counted:
  assumes "\<forall>l \<in> set (table_lines (te_store env) (tw_files w) d). \<exists>vs. te_parse env l = Some (JArr vs)"
    and "resolve_table_declaration env table = Inr d" and "resolve_pk_filter env d pk = Inr (col, key)"
    and "distinct (map fst (tw_files w))" and "digits_ok (te_fmt env)"
  shows "update_table_rows env table pk body po w = (w', Inr n) \<Longrightarrow> n = 0"
    and "delete_table_rows env table pk po w = (w', Inr n) \<Longrightarrow> n = 0"
proof -
  have none: "filter (key_line (te_store env) (tc_name col) key) (table_lines (te_store env) (tw_files w) d) = []"
    using assms(1) by (fastforce simp: filter_empty_conv key_line_def)
  have unchanged: "mo_mutated outcome = 0"
    if "patch_rows_by_pk (te_store env) (tw_files w) d (tc_name col) key b None (te_mode env) = (files, Inr outcome)"
    for b files outcome using patch_exact [OF that assms(4,5)] none by simp
  show "n = 0" if run: "update_table_rows env table pk body po w = (w', Inr n)"
  proof (rule update_runs [OF run assms(2,3)])
    fix files q
    assume u: "update_locked env d col key body po (tw_files w) = (files, q)"
      and a: "(case q of Inl (Some e) \<Rightarrow> (w\<lparr>tw_files := files\<rparr>, Inl e) | Inl None \<Rightarrow> (deny d po w, Inr 0)
        | Inr (n, loc) \<Rightarrow> answer_change env po n (map_option (location_change Op_Update d) loc) (w\<lparr>tw_files := files\<rparr>)) =
        (w', Inr n)"
    have "m = 0" if "q = Inr (m, loc)" for m loc
      using u unchanged unfolding that by (auto simp: update_locked_def split: option.splits if_splits sum.splits prod.splits)
    then show "n = 0" using a by (auto dest: answer_change_ok split: sum.splits option.splits)
  qed auto
  show "n = 0" if run: "delete_table_rows env table pk po w = (w', Inr n)"
  proof (rule delete_runs [OF run assms(2,3)])
    fix loc files outcome
    assume del: "delete_rows_by_pk (te_store env) (tw_files w) d (tc_name col) key (te_mode env) = (files, outcome)"
      and ans: "answer_change env po (mo_mutated outcome) (map_option (location_change Op_Delete d) loc)
        (w\<lparr>tw_files := files\<rparr>) = (w', Inr n)"
    show "n = 0" using answer_change_ok [OF ans] delete_exact [OF del assms(4,5)] none by simp
  qed auto
qed

text \<open>An insert accepts rows no later update accepts.  A legacy insert without a declared column stores the
  column as null; the update verb checks the whole merged row, null is not a string, and the owner's update of
  another column is refused with 422.\<close>

theorem null_cell_freezes_row:
  "coerce_row_against_declaration sample_store note_decl (JObj [(''id'', JStr ''1''), (''owner'', JStr ''bob'')]) =
     Inr (note_row ''bob'' JNull) \<and>
   update_table_rows note_env ''notes'' (Some (JStr ''eq.1'')) [(''owner'', JStr ''bob'')] bob
       (note_world (note_row ''bob'' JNull)) =
     (note_world (note_row ''bob'' JNull), Inl (Api_Error 422 ''UNPROCESSABLE_ENTITY''))"
proof -
  have cols: "\<not> unknown_columns note_decl [(''owner'', JStr ''bob'')]" by (rule note_patchable) simp
  have stored: "coerce_row_against_declaration sample_store note_decl (JObj [(''id'', JStr ''1''), (''owner'', JStr ''bob'')]) =
      Inr (note_row ''bob'' JNull)"
    and frozen: "coerce_row_against_declaration sample_store note_decl (JObj (note_row ''bob'' JNull)) =
      Inl (Api_Error 422 ''UNPROCESSABLE_ENTITY'')"
    by (simp_all add: coerce_row_against_declaration_def declared_columns_of_def note_decl_def note_table_def note_row_def
        legacy_col_def coerce_cell_def is_column_def)
  have key: "tc_name (legacy_col ''id'' ''varchar'') = ''id''" by (simp add: legacy_col_def)
  show ?thesis
    using stored frozen note_found [OF note_rows(4) note_id]
    by (simp add: note_update [OF cols] update_locked_def key bob_may note_spread del: json_compact.simps)
qed

end
